(* ===== verification/Net_Prelude.thy ===== *)
theory Net_Prelude
  imports Main "HOL-Library.Word"
begin

text \<open>
  Shared vocabulary of the development.  Unsigned machine integers are natural
  numbers with the width's maximum written out; the saturating, checked and
  clamping operations of the Rust standard library that the sources call are
  defined here once.  A \<open>Duration\<close> is its number of nanoseconds, at most
  \<open>DURATION_MAX\<close>.  Arithmetic that wraps on purpose (the generation counter of
  the circuit breaker, the jitter generator of the backoff) is done on words.
\<close>

named_theorems machine_arith \<open>definitions of the machine-integer helpers\<close>

type_synonym u32 = nat
type_synonym u64 = nat
type_synonym usize = nat
type_synonym duration = nat

definition U32_MAX :: nat where
  "U32_MAX = 4294967295"

definition U64_MAX :: nat where
  "U64_MAX = 18446744073709551615"

definition USIZE_MAX :: nat where
  "USIZE_MAX = 18446744073709551615"

definition U128_MAX :: nat where
  "U128_MAX = 340282366920938463463374607431768211455"

definition DURATION_MAX :: duration where
  "DURATION_MAX = U64_MAX * 1000000000 + 999999999"

definition sat_add32 :: "u32 \<Rightarrow> u32 \<Rightarrow> u32" where
  [machine_arith]: "sat_add32 a b = min (a + b) U32_MAX"

definition sat_mul32 :: "u32 \<Rightarrow> u32 \<Rightarrow> u32" where
  [machine_arith]: "sat_mul32 a b = min (a * b) U32_MAX"

definition sat_add64 :: "u64 \<Rightarrow> u64 \<Rightarrow> u64" where
  [machine_arith]: "sat_add64 a b = min (a + b) U64_MAX"

definition sat_mul64 :: "u64 \<Rightarrow> u64 \<Rightarrow> u64" where
  [machine_arith]: "sat_mul64 a b = min (a * b) U64_MAX"

definition sat_add128 :: "nat \<Rightarrow> nat \<Rightarrow> nat" where
  [machine_arith]: "sat_add128 a b = min (a + b) U128_MAX"

definition sat_mul128 :: "nat \<Rightarrow> nat \<Rightarrow> nat" where
  [machine_arith]: "sat_mul128 a b = min (a * b) U128_MAX"

text \<open>\<open>u64::try_from(x).unwrap_or(u64::MAX)\<close> and the conversions of a
  \<open>Duration\<close> that are written with it.\<close>

definition to_u64 :: "nat \<Rightarrow> u64" where
  [machine_arith]: "to_u64 x = min x U64_MAX"

definition nanos_u64 :: "duration \<Rightarrow> u64" where
  [machine_arith]: "nanos_u64 d = to_u64 d"

definition millis_u64 :: "duration \<Rightarrow> u64" where
  [machine_arith]: "millis_u64 d = to_u64 (d div 1000000)"

definition from_millis :: "u64 \<Rightarrow> duration" where
  [machine_arith]: "from_millis m = m * 1000000"

definition from_secs :: "u64 \<Rightarrow> duration" where
  [machine_arith]: "from_secs s = s * 1000000000"

definition dur_add :: "duration \<Rightarrow> duration \<Rightarrow> duration" where
  [machine_arith]: "dur_add a b = min (a + b) DURATION_MAX"

text \<open>\<open>clamp\<close> of \<open>Ord\<close> and \<open>div_ceil\<close> of the unsigned integers.\<close>

definition clamp :: "nat \<Rightarrow> nat \<Rightarrow> nat \<Rightarrow> nat" where
  [machine_arith]: "clamp lo hi x = (if x < lo then lo else if hi < x then hi else x)"

definition div_ceil :: "nat \<Rightarrow> nat \<Rightarrow> nat" where
  [machine_arith]: "div_ceil a b = (a div b) + (if a mod b = 0 then 0 else 1)"

lemma clamp_bounds: "lo \<le> hi \<Longrightarrow> lo \<le> clamp lo hi x \<and> clamp lo hi x \<le> hi"
  by (simp add: clamp_def)

lemma clamp_id [simp]: "lo \<le> x \<Longrightarrow> x \<le> hi \<Longrightarrow> clamp lo hi x = x"
  by (simp add: clamp_def)

lemma sat_add64_le [simp]: "sat_add64 a b \<le> U64_MAX"
  by (simp add: sat_add64_def)

lemma sat_add64_mono: "a \<le> a' \<Longrightarrow> b \<le> b' \<Longrightarrow> sat_add64 a b \<le> sat_add64 a' b'"
  by (simp add: sat_add64_def)

lemma sat_add64_exact: "a + b \<le> U64_MAX \<Longrightarrow> sat_add64 a b = a + b"
  by (simp add: sat_add64_def)

lemma le_sat_add64: "a \<le> U64_MAX \<Longrightarrow> a \<le> sat_add64 a b"
  by (simp add: sat_add64_def)

lemma to_u64_le [simp]: "to_u64 x \<le> U64_MAX"
  by (simp add: to_u64_def)

lemma to_u64_id [simp]: "x \<le> U64_MAX \<Longrightarrow> to_u64 x = x"
  by (simp add: to_u64_def)

lemma to_u64_le_self: "to_u64 x \<le> x"
  by (simp add: to_u64_def)

lemma U64_MAX_le_DURATION_MAX: "U64_MAX \<le> DURATION_MAX"
  by (simp add: U64_MAX_def DURATION_MAX_def)

lemma U32_MAX_le_U64_MAX: "U32_MAX \<le> U64_MAX"
  by (simp add: U64_MAX_def U32_MAX_def)

lemma div_ceil_upper: "0 < b \<Longrightarrow> a \<le> div_ceil a b * b"
proof -
  assume b: "0 < b"
  have eq: "a = a div b * b + a mod b" by simp
  show ?thesis
  proof (cases "a mod b = 0")
    case True
    with eq show ?thesis by (simp add: div_ceil_def)
  next
    case False
    have "a mod b \<le> b" using b by (simp add: less_imp_le)
    with eq have "a \<le> a div b * b + b" by linarith
    then show ?thesis using False by (simp add: div_ceil_def)
  qed
qed

subsection \<open>Lists\<close>

text \<open>Sums over association-style lists of charges.\<close>

definition total_of :: "'i \<Rightarrow> ('i \<times> nat) list \<Rightarrow> nat" where
  "total_of i xs = sum_list (map snd (filter (\<lambda>(j, _). j = i) xs))"

lemma total_of_Nil [simp]: "total_of i [] = 0"
  by (simp add: total_of_def)

lemma total_of_Cons [simp]:
  "total_of i ((j, c) # xs) = (if j = i then c else 0) + total_of i xs"
  by (simp add: total_of_def)

lemma total_of_append [simp]: "total_of i (xs @ ys) = total_of i xs + total_of i ys"
  by (simp add: total_of_def)

lemma total_of_take_le: "total_of i (take n xs) \<le> total_of i xs"
proof -
  have "total_of i xs = total_of i (take n xs) + total_of i (drop n xs)"
    by (metis append_take_drop_id total_of_append)
  then show ?thesis by simp
qed

lemma nth_opt_total_of: "n < length xs \<Longrightarrow> xs ! n = (i, c) \<Longrightarrow> c \<le> total_of i xs"
proof (induction xs arbitrary: n)
  case (Cons x xs)
  then show ?case by (cases n; cases x) (auto intro: trans_le_add2)
qed simp

end
