(* ===== verification/Rust_Text.thy ===== *)
theory Rust_Text
  imports Net_Prelude
begin

text \<open>
  What the header parsers use of Rust's strings.  A \<open>str\<close> is the list of its Unicode code
  points; \<open>u\<close> turns an ASCII literal into one.  Trimming, splitting and the integer parsers
  of the standard library are written out, as is decimal printing, the reference for the
  round trips.
\<close>

type_synonym ustring = "nat list"

definition u :: "string \<Rightarrow> ustring" where
  "u s = map of_char s"

definition is_ascii_digit :: "nat \<Rightarrow> bool" where
  "is_ascii_digit c \<longleftrightarrow> 48 \<le> c \<and> c \<le> 57"

definition is_white :: "nat \<Rightarrow> bool" where
  "is_white c \<longleftrightarrow> 9 \<le> c \<and> c \<le> 13 \<or> c = 32 \<or> c = 133 \<or> c = 160 \<or> c = 5760 \<or> 8192 \<le> c \<and> c \<le> 8202 \<or>
     c = 8232 \<or> c = 8233 \<or> c = 8239 \<or> c = 8287 \<or> c = 12288"

definition trim :: "ustring \<Rightarrow> ustring" where
  "trim s = rev (dropWhile is_white (rev (dropWhile is_white s)))"

fun split_on :: "(nat \<Rightarrow> bool) \<Rightarrow> ustring \<Rightarrow> ustring list" where
  "split_on p [] = [[]]"
| "split_on p (c # cs) =
     (if p c then [] # split_on p cs
      else (case split_on p cs of [] \<Rightarrow> [[c]] | x # xs \<Rightarrow> (c # x) # xs))"

definition split_whitespace :: "ustring \<Rightarrow> ustring list" where
  "split_whitespace s = filter (\<lambda>t. t \<noteq> []) (split_on is_white s)"

definition split_once :: "(nat \<Rightarrow> bool) \<Rightarrow> ustring \<Rightarrow> (ustring \<times> ustring) option" where
  "split_once p s =
     (case dropWhile (\<lambda>c. \<not> p c) s of [] \<Rightarrow> None | _ # rest \<Rightarrow> Some (takeWhile (\<lambda>c. \<not> p c) s, rest))"

definition to_lower :: "nat \<Rightarrow> nat" where
  "to_lower c = (if 65 \<le> c \<and> c \<le> 90 then c + 32 else c)"

definition eq_ignore_case :: "ustring \<Rightarrow> ustring \<Rightarrow> bool" where
  "eq_ignore_case a b \<longleftrightarrow> map to_lower a = map to_lower b"

subsection \<open>Integers\<close>

definition digits_value :: "ustring \<Rightarrow> nat" where
  "digits_value ds = foldl (\<lambda>v c. 10 * v + (c - 48)) 0 ds"

definition all_digits :: "ustring \<Rightarrow> bool" where
  "all_digits ds \<longleftrightarrow> (\<forall>c \<in> set ds. is_ascii_digit c)"

text \<open>Digits with a bound, at least one.\<close>

definition parse_digits :: "nat \<Rightarrow> ustring \<Rightarrow> nat option" where
  "parse_digits bound ds =
     (if ds = [] \<or> \<not> all_digits ds \<or> digits_value ds > bound then None else Some (digits_value ds))"

text \<open>\<open>parse::<u32>\<close> and \<open>parse::<u64>\<close> take one leading plus sign, \<open>parse::<i64>\<close> either sign.\<close>

definition parse_unsigned :: "nat \<Rightarrow> ustring \<Rightarrow> nat option" where
  "parse_unsigned bound s = parse_digits bound (if s \<noteq> [] \<and> hd s = 43 then tl s else s)"

definition parse_u32 :: "ustring \<Rightarrow> u32 option" where
  "parse_u32 = parse_unsigned U32_MAX"

definition parse_u64_str :: "ustring \<Rightarrow> u64 option" where
  "parse_u64_str = parse_unsigned U64_MAX"

definition I64_MAX :: int where
  "I64_MAX = 9223372036854775807"

definition I64_MIN :: int where
  "I64_MIN = - 9223372036854775808"

definition parse_i64 :: "ustring \<Rightarrow> int option" where
  "parse_i64 s =
     (if s \<noteq> [] \<and> hd s = 45 then map_option (\<lambda>n. - int n) (parse_digits (nat (- I64_MIN)) (tl s))
      else map_option int (parse_unsigned (nat I64_MAX) s))"

text \<open>Checked and saturating arithmetic on \<open>i64\<close>.\<close>

definition in_i64 :: "int \<Rightarrow> bool" where
  "in_i64 x \<longleftrightarrow> I64_MIN \<le> x \<and> x \<le> I64_MAX"

definition checked_i64 :: "int \<Rightarrow> int option" where
  "checked_i64 x = (if in_i64 x then Some x else None)"

definition sat_i64 :: "int \<Rightarrow> int" where
  "sat_i64 x = max I64_MIN (min I64_MAX x)"

text \<open>Plain arithmetic panics on overflow in builds with overflow checks.\<close>

datatype panic = Arithmetic_Overflow

definition plain_i64 :: "int \<Rightarrow> panic + int" where
  "plain_i64 x = (if in_i64 x then Inr x else Inl Arithmetic_Overflow)"

subsection \<open>Decimal printing\<close>

fun dec :: "nat \<Rightarrow> ustring" where
  "dec n = (if n < 10 then [48 + n] else dec (n div 10) @ [48 + n mod 10])"

definition dec2 :: "nat \<Rightarrow> ustring" where
  "dec2 n = [48 + n div 10, 48 + n mod 10]"

definition dec4 :: "nat \<Rightarrow> ustring" where
  "dec4 n = dec2 (n div 100) @ dec2 (n mod 100)"

declare dec.simps [simp del]

lemma digits_value_snoc: "digits_value (ds @ [c]) = 10 * digits_value ds + (c - 48)"
  by (simp add: digits_value_def)

lemma dec_digits: "digits_value (dec n) = n \<and> all_digits (dec n) \<and> dec n \<noteq> []"
proof (induction n rule: dec.induct)
  case (1 n)
  show ?case
  proof (cases "n < 10")
    case True
    then have "dec n = [48 + n]" by (subst dec.simps) simp
    then show ?thesis using True by (simp add: digits_value_def all_digits_def is_ascii_digit_def)
  next
    case False
    then have "dec n = dec (n div 10) @ [48 + n mod 10]" by (subst dec.simps) simp
    then show ?thesis using 1 [OF False] by (auto simp: digits_value_snoc all_digits_def is_ascii_digit_def)
  qed
qed

lemma dec2_digits: "n < 100 \<Longrightarrow> digits_value (dec2 n) = n" "n < 100 \<Longrightarrow> all_digits (dec2 n)"
  by (auto simp: dec2_def digits_value_def all_digits_def is_ascii_digit_def)

lemma dec4_digits: "n < 10000 \<Longrightarrow> digits_value (dec4 n) = n" "n < 10000 \<Longrightarrow> all_digits (dec4 n)"
  by (auto simp: dec4_def dec2_def digits_value_def all_digits_def is_ascii_digit_def)

lemma digit_ne: "all_digits ds \<Longrightarrow> c \<in> set ds \<Longrightarrow> 48 \<le> c \<and> c \<le> 57"
  by (auto simp: all_digits_def is_ascii_digit_def)

lemma parse_digits_ok:
  "ds \<noteq> [] \<Longrightarrow> all_digits ds \<Longrightarrow> digits_value ds \<le> bound \<Longrightarrow> parse_digits bound ds = Some (digits_value ds)"
  by (simp add: parse_digits_def)

lemma parse_unsigned_ok:
  assumes "ds \<noteq> []" and "all_digits ds" and "digits_value ds \<le> bound"
  shows "parse_unsigned bound ds = Some (digits_value ds)"
proof -
  have "hd ds \<noteq> 43" using digit_ne [OF assms(2), of "hd ds"] assms(1) by auto
  then show ?thesis using parse_digits_ok [OF assms] by (simp add: parse_unsigned_def)
qed

lemma parse_i64_ok:
  assumes "ds \<noteq> []" and "all_digits ds" and "int (digits_value ds) \<le> I64_MAX"
  shows "parse_i64 ds = Some (int (digits_value ds))"
proof -
  have "hd ds \<noteq> 45" using digit_ne [OF assms(2), of "hd ds"] assms(1) by auto
  moreover have "digits_value ds \<le> nat I64_MAX" using assms(3) by linarith
  ultimately show ?thesis using parse_unsigned_ok [OF assms(1,2)] by (simp add: parse_i64_def)
qed

text \<open>Splitting glued parts gives the parts back.\<close>

lemma split_on_none: "\<forall>c \<in> set s. \<not> p c \<Longrightarrow> split_on p s = [s]"
  by (induction s) auto

lemma split_on_glue: "\<forall>c \<in> set s. \<not> p c \<Longrightarrow> p x \<Longrightarrow> split_on p (s @ x # t) = s # split_on p t"
  by (induction s) auto

lemma trim_id:
  assumes "s \<noteq> []" and "\<not> is_white (hd s)" and "\<not> is_white (last s)"
  shows "trim s = s"
proof -
  have "dropWhile is_white s = s" using assms(2) by (cases s) auto
  moreover have "dropWhile is_white (rev s) = rev s" using assms by (cases s rule: rev_cases) auto
  ultimately show ?thesis by (simp add: trim_def)
qed

end
