(* ===== verification/Calendar.thy ===== *)
theory Calendar
  imports Rust_Text "HOL-Library.Signed_Division"
begin

text \<open>
  The calendar helpers of \<open>src/timeutil.rs\<close>: month names, Hinnant's day count and the
  conversion of a civil date to Unix seconds.  Division on \<open>i64\<close> truncates, as \<open>sdiv\<close> does.
  The reference is the calendar itself: years and months of their lengths, one after the
  other.
\<close>

definition SECS_PER_DAY :: int where
  "SECS_PER_DAY = 86400"

definition MONTHS :: "ustring list" where
  "MONTHS = map u [''Jan'', ''Feb'', ''Mar'', ''Apr'', ''May'', ''Jun'', ''Jul'', ''Aug'', ''Sep'', ''Oct'', ''Nov'', ''Dec'']"

fun position_month :: "ustring \<Rightarrow> ustring list \<Rightarrow> nat option" where
  "position_month name [] = None"
| "position_month name (mn # ms) =
     (if eq_ignore_case name mn then Some 0 else map_option Suc (position_month name ms))"

definition month_index :: "ustring \<Rightarrow> u32 option" where
  "month_index name = map_option (\<lambda>i. i + 1) (position_month name MONTHS)"

definition days_from_civil :: "int \<Rightarrow> u32 \<Rightarrow> u32 \<Rightarrow> int" where
  "days_from_civil year month day =
     (let m = int month; d = int day;
          y = (if m \<le> 2 then year - 1 else year);
          era = (if y \<ge> 0 then y else y - 399) sdiv 400;
          yoe = y - era * 400;
          doy = (153 * (if m > 2 then m - 3 else m + 9) + 2) sdiv 5 + d - 1;
          doe = yoe * 365 + yoe sdiv 4 - yoe sdiv 100 + doy
      in era * 146097 + doe - 719468)"

definition civil_to_unix :: "int \<Rightarrow> u32 \<Rightarrow> u32 \<Rightarrow> u32 \<Rightarrow> u32 \<Rightarrow> u32 \<Rightarrow> int option" where
  "civil_to_unix year month day h m s =
     (if \<not> (0 \<le> year \<and> year \<le> 9999) \<or> \<not> (1 \<le> month \<and> month \<le> 12) \<or> \<not> (1 \<le> day \<and> day \<le> 31) \<or>
         h > 23 \<or> m > 59 \<or> s > 60 then None
      else
        (let days = days_from_civil year month day;
             secs_of_day = int h * 3600 + int m * 60 + int s
         in case checked_i64 (days * SECS_PER_DAY) of
              None \<Rightarrow> None
            | Some secs \<Rightarrow> checked_i64 (secs + secs_of_day)))"

subsection \<open>The calendar\<close>

definition leap :: "int \<Rightarrow> bool" where
  "leap y \<longleftrightarrow> 4 dvd y \<and> (\<not> 100 dvd y \<or> 400 dvd y)"

definition year_days :: "int \<Rightarrow> int" where
  "year_days y = (if leap y then 366 else 365)"

definition month_days :: "int \<Rightarrow> nat \<Rightarrow> int" where
  "month_days y m = (if m = 2 then (if leap y then 29 else 28) else if m \<in> {4, 6, 9, 11} then 30 else 31)"

text \<open>The days from the epoch to the first of January of a year, and to any day of it.\<close>

definition days_to_year :: "int \<Rightarrow> int" where
  "days_to_year y =
     (if 1970 \<le> y then sum_list (map year_days [1970..y - 1]) else - sum_list (map year_days [y..1969]))"

definition calendar_days :: "int \<Rightarrow> nat \<Rightarrow> nat \<Rightarrow> int" where
  "calendar_days y m d = days_to_year y + sum_list (map (month_days y) [1..<m]) + int d - 1"

subsection \<open>The day count is the calendar\<close>

lemma sdiv_nonneg: "0 \<le> a \<Longrightarrow> 0 < b \<Longrightarrow> a sdiv b = a div (b :: int)"
  by (simp add: signed_divide_int_def sgn_if)

lemma ring_era:
  "e * 146097 + ((y - e * 400) * 365 + (a - e * 100) - (b - e * 4) + (c + d - 1)) - 719468 =
     365 * y + a - b + e + c + d - (719469 :: int)"
  by simp

lemma days_closed_form:
  assumes "0 \<le> year" and m: "1 \<le> m" "m \<le> 12"
  defines "y \<equiv> (if m \<le> 2 then year - 1 else year)"
  shows "days_from_civil year m d =
    365 * y + y div 4 - y div 100 + y div 400 + (153 * (if m > 2 then int m - 3 else int m + 9) + 2) div 5 + int d - 719469"
proof -
  let ?doy = "(153 * (if m > 2 then int m - 3 else int m + 9) + 2)"
  define era where "era = (if 0 \<le> y then y else y - 399) sdiv 400"
  have era: "era = y div 400"
  proof (cases "0 \<le> y")
    case False
    then have "y = - 1" using assms(1) by (auto simp: y_def split: if_splits)
    then show ?thesis by (simp add: era_def signed_divide_int_def)
  qed (simp add: era_def sdiv_nonneg)
  have yoe: "0 \<le> y - era * 400" "y - era * 400 < 400"
    using pos_mod_bound [of 400 y] pos_mod_sign [of 400 y] unfolding era by (auto simp: minus_div_mult_eq_mod)
  have ifs: "(if int m \<le> 2 then year - 1 else year) = y" "(if 0 \<le> y then y else y - 399) sdiv 400 = era"
    "(if 2 < int m then int m - 3 else int m + 9) = (if m > 2 then int m - 3 else int m + 9)"
    by (auto simp: y_def era_def)
  have doy: "0 \<le> ?doy" using m by auto
  have e: "days_from_civil year m d = era * 146097 +
      ((y - era * 400) * 365 + (y - era * 400) div 4 - (y - era * 400) div 100 + (?doy div 5 + int d - 1)) - 719468"
    unfolding days_from_civil_def Let_def ifs
    by (simp only: sdiv_nonneg [OF yoe(1)] sdiv_nonneg [OF doy] zero_less_numeral)
  have d: "(y - era * 400) div 4 = y div 4 - era * 100" "(y - era * 400) div 100 = y div 100 - era * 4"
    using div_mult_self1 [of 4 y "- era * 100"] div_mult_self1 [of 100 y "- era * 4"] by simp_all
  show ?thesis unfolding e d unfolding era by (rule ring_era)
qed

lemma div_step: "0 < k \<Longrightarrow> y div k - (y - 1) div k = (if k dvd y then 1 else 0)" for k y :: int
proof (cases "k dvd y")
  case True
  assume "0 < k"
  with True have "(y - 1) div k = y div k - 1"
    by (intro int_div_pos_eq [of _ k _ "k - 1"]) (auto simp: algebra_simps)
  then show ?thesis using True by simp
next
  case False
  assume k: "0 < k"
  then have "0 < y mod k" "y mod k < k"
    using False pos_mod_sign [OF k, of y] pos_mod_bound [OF k, of y] by (auto simp: dvd_eq_mod_eq_0)
  then have "(y - 1) div k = y div k" by (intro int_div_pos_eq [of _ k _ "y mod k - 1"]) auto
  then show ?thesis using False by simp
qed

lemma ring_step: "365 * y + a - b + c + d - e = 365 * (y - 1) + a' - b' + c' + d - e + (365 + (a - a') - (b - b') + (c - c'))"
  for a b c d e y :: int
  by simp

lemma year_step:
  assumes "0 \<le> y"
  shows "days_from_civil (y + 1) 1 d = days_from_civil y 1 d + year_days y"
proof -
  have first: "days_from_civil z 1 d = 365 * (z - 1) + (z - 1) div 4 - (z - 1) div 100 + (z - 1) div 400 + int d - 719163"
    if "0 \<le> z" for z
    using days_closed_form [OF that, of 1 d] by simp
  have "400 dvd y \<Longrightarrow> 100 dvd y" "100 dvd y \<Longrightarrow> 4 dvd y"
    using dvd_trans [of 100 400 y] dvd_trans [of 4 100 y] by simp_all
  moreover have "(if A \<and> (\<not> B \<or> C) then 366 else 365) = 365 + (if A then 1 else 0) - (if B then 1 else 0) + (if C then 1 else 0 :: int)"
    if "C \<Longrightarrow> B" "B \<Longrightarrow> A" for A B C using that by (cases A; cases B; cases C) auto
  ultimately have "year_days y = 365 + (if 4 dvd y then 1 else 0) - (if 100 dvd y then 1 else 0) + (if 400 dvd y then 1 else 0)"
    unfolding year_days_def leap_def by blast
  then have yd: "year_days y = 365 + (y div 4 - (y - 1) div 4) - (y div 100 - (y - 1) div 100) + (y div 400 - (y - 1) div 400)"
    by (simp only: div_step zero_less_numeral)
  have z: "y + 1 - 1 = y" "0 \<le> y + 1" using assms by simp_all
  show ?thesis unfolding first [OF assms] first [OF z(2)] z(1) yd by (rule ring_step)
qed

lemma days_to_year_step: "days_to_year (y + 1) = days_to_year y + year_days y"
proof (cases "1970 \<le> y")
  case True
  then show ?thesis by (simp add: days_to_year_def upto_rec2)
next
  case False
  then show ?thesis by (auto simp: days_to_year_def upto_rec1 [of y])
qed

lemma new_year_days: "0 \<le> y \<Longrightarrow> days_from_civil y 1 1 = days_to_year y"
proof -
  have "days_from_civil (int n) 1 1 - days_to_year (int n) = days_from_civil 0 1 1 - days_to_year 0" for n
  proof (induction n)
    case (Suc n)
    then show ?case using year_step [of "int n" 1] days_to_year_step [of "int n"] by (simp add: add.commute)
  qed simp
  moreover have "days_from_civil (int 1970) 1 1 = 0" by (simp add: days_from_civil_def Let_def sdiv_nonneg)
  moreover have "days_to_year (int 1970) = 0" by (simp add: days_to_year_def)
  ultimately show "days_from_civil y 1 1 = days_to_year y" if "0 \<le> y"
    using that by (metis diff_self eq_iff_diff_eq_0 nat_0_le)
qed

lemma month_offset:
  assumes y: "0 \<le> y" and m: "1 \<le> m" "m \<le> 12"
  shows "days_from_civil y m d = days_from_civil y 1 1 + int d - 1 +
    (if m \<le> 2 then 31 * (int m - 1) else year_days y + (153 * (int m - 3) + 2) div 5 - 306)"
proof (cases "m \<le> 2")
  case True
  then have "m = 1 \<or> m = 2" using m by auto
  then show ?thesis
    using days_closed_form [OF y m, of d] days_closed_form [OF y, of 1 1] True by auto
next
  case False
  have "days_from_civil y m d = days_from_civil (y + 1) 1 1 + int d - 1 + (153 * (int m - 3) + 2) div 5 - 306"
    using days_closed_form [OF y m, of d] days_closed_form [of "y + 1" 1 1] y False by simp
  then show ?thesis using year_step [OF y, of 1] False by simp
qed

lemma month_range:
  "1 \<le> m \<Longrightarrow> m \<le> 12 \<Longrightarrow> m = 1 \<or> m = 2 \<or> m = 3 \<or> m = 4 \<or> m = 5 \<or> m = 6 \<or>
     m = 7 \<or> m = 8 \<or> m = 9 \<or> m = 10 \<or> m = 11 \<or> m = 12" for m :: nat
  by presburger

lemma months_before:
  assumes m: "1 \<le> m" "m \<le> 12"
  shows "sum_list (map (month_days y) [1..<m]) =
    (if m \<le> 2 then 31 * (int m - 1) else year_days y + (153 * (int m - 3) + 2) div 5 - 306)"
proof -
  from month_range [OF m] show ?thesis
    by (elim disjE; cases "leap y") (simp_all add: upt_rec month_days_def year_days_def)
qed

text \<open>C23: Hinnant's arithmetic day count is the Gregorian calendar: the lengths of the years and
  months from the epoch to the date, added up, for every year from 0 on and any day of a
  month.\<close>

theorem day_count_is_calendar:
  assumes "0 \<le> y" and "1 \<le> m" and "m \<le> 12"
  shows "days_from_civil y m d = calendar_days y m d"
  using month_offset [OF assms, of d] months_before [OF assms(2,3), of y] new_year_days [OF assms(1)]
  by (simp add: calendar_days_def)

theorem day_count_is_calendar_witness:
  "days_from_civil 1972 3 1 = calendar_days 1972 3 1 \<and> calendar_days 1972 3 1 = 365 + 365 + 31 + 29"
  using day_count_is_calendar [of 1972 3 1]
  by (simp add: calendar_days_def days_to_year_def year_days_def month_days_def leap_def upt_rec upto.simps)

subsection \<open>Unix seconds\<close>

lemma bounds_sum:
  fixes x :: int
  assumes "x = 365 * z + a - b + c + doy + d - 719469" and "- 1 \<le> z" "z \<le> 9999" "0 \<le> doy" "doy \<le> 400"
    and "- 1 \<le> a \<and> a \<le> 9999" "- 1 \<le> b \<and> b \<le> 9999" "- 1 \<le> c \<and> c \<le> 9999" "0 \<le> d" "d \<le> 31"
  shows "- 800000 \<le> x" and "x \<le> 4000000"
  using assms by linarith+

lemma day_count_bounds:
  assumes "0 \<le> y" "y \<le> 9999" and m: "1 \<le> m" "m \<le> 12" and "d \<le> 31"
  shows "- 800000 \<le> days_from_civil y m d" and "days_from_civil y m d \<le> 4000000"
proof -
  define z where "z = (if m \<le> 2 then y - 1 else y)"
  define doy where "doy = (153 * (if m > 2 then int m - 3 else int m + 9) + 2) div 5"
  have z: "- 1 \<le> z" "z \<le> 9999" using assms by (auto simp: z_def)
  have doy: "0 \<le> doy" "doy \<le> 400" using m by (auto simp: doy_def)
  have div: "- 1 \<le> z div 4 \<and> z div 4 \<le> 9999" "- 1 \<le> z div 100 \<and> z div 100 \<le> 9999"
      "- 1 \<le> z div 400 \<and> z div 400 \<le> 9999"
    using zdiv_mono1 [OF z(1), of 4] zdiv_mono1 [OF z(2), of 4] zdiv_mono1 [OF z(1), of 100] zdiv_mono1 [OF z(2), of 100]
      zdiv_mono1 [OF z(1), of 400] zdiv_mono1 [OF z(2), of 400] by simp_all
  have "days_from_civil y m d = 365 * z + z div 4 - z div 100 + z div 400 + doy + int d - 719469"
    using days_closed_form [OF assms(1) m, of d] by (simp add: z_def doy_def)
  then show "- 800000 \<le> days_from_civil y m d" "days_from_civil y m d \<le> 4000000"
    using bounds_sum [OF _ z doy div] assms(5) by simp_all
qed

lemma civil_to_unix_ok:
  assumes "0 \<le> y" "y \<le> 9999" "1 \<le> m" "m \<le> 12" "1 \<le> d" "d \<le> 31" "h \<le> 23" "mi \<le> 59" "s \<le> 60"
  shows "civil_to_unix y m d h mi s =
    Some (days_from_civil y m d * 86400 + (int h * 3600 + int mi * 60 + int s))"
proof -
  have "in_i64 (days_from_civil y m d * 86400)"
    "in_i64 (days_from_civil y m d * 86400 + (int h * 3600 + int mi * 60 + int s))"
    using day_count_bounds [OF assms(1-4,6)] assms(7-9) by (auto simp: in_i64_def I64_MIN_def I64_MAX_def)
  then show ?thesis using assms by (simp add: civil_to_unix_def checked_i64_def SECS_PER_DAY_def)
qed

end
