(* ===== verification/Retry_After.thy ===== *)
theory Retry_After
  imports Calendar
begin

text \<open>
  The \<open>Retry-After\<close> parser of \<open>src/retry_after.rs\<close>: seconds, or one of the three HTTP date
  forms.  Failure is \<open>None\<close> as in the source; the one plain addition of the source that can
  leave the \<open>i64\<close> range panics in builds with overflow checks, so the date parser answers in
  \<open>panic + int option\<close>.  The current time is an argument.
\<close>

definition colon :: "nat \<Rightarrow> bool" where
  "colon c \<longleftrightarrow> c = 58"

definition dash :: "nat \<Rightarrow> bool" where
  "dash c \<longleftrightarrow> c = 45"

definition parse_hms :: "ustring \<Rightarrow> (u32 \<times> u32 \<times> u32) option" where
  "parse_hms value =
     (case split_on colon value of
        [hs, ms, ss] \<Rightarrow>
          (case (parse_u32 hs, parse_u32 ms, parse_u32 ss) of
             (Some h, Some m, Some s) \<Rightarrow> if h > 23 \<or> m > 59 \<or> s > 60 then None else Some (h, m, s)
           | _ \<Rightarrow> None)
      | _ \<Rightarrow> None)"

text \<open>The common end of the two forms with a full year.\<close>

definition date_of_parts :: "ustring \<Rightarrow> ustring \<Rightarrow> ustring \<Rightarrow> ustring \<Rightarrow> int option" where
  "date_of_parts day month year time =
     (case (parse_u32 day, month_index month, parse_i64 year, parse_hms time) of
        (Some d, Some mo, Some y, Some (h, mi, s)) \<Rightarrow> civil_to_unix y mo d h mi s
      | _ \<Rightarrow> None)"

definition rfc850_date :: "ustring \<Rightarrow> ustring \<Rightarrow> panic + int option" where
  "rfc850_date date time =
     (case split_on dash date of
        [day, month, year] \<Rightarrow>
          (case (parse_u32 day, month_index month, parse_i64 year) of
             (Some d, Some mo, Some yy) \<Rightarrow>
               (case plain_i64 (if yy \<ge> 70 then 1900 + yy else 2000 + yy) of
                  Inl p \<Rightarrow> Inl p
                | Inr y \<Rightarrow>
                    Inr (case parse_hms time of None \<Rightarrow> None | Some (h, mi, s) \<Rightarrow> civil_to_unix y mo d h mi s))
           | _ \<Rightarrow> Inr None)
      | _ \<Rightarrow> Inr None)"

definition parse_http_date :: "ustring \<Rightarrow> panic + int option" where
  "parse_http_date value =
     (case split_whitespace value of
        [_, a, b, c, time, gmt] \<Rightarrow> Inr (if gmt = u ''GMT'' then date_of_parts a b c time else None)
      | [_, month, day, time, year] \<Rightarrow> Inr (date_of_parts day month year time)
      | [_, date, time, gmt] \<Rightarrow> if gmt = u ''GMT'' then rfc850_date date time else Inr None
      | _ \<Rightarrow> Inr None)"

definition parse_retry_after_at :: "ustring \<Rightarrow> int \<Rightarrow> panic + duration option" where
  "parse_retry_after_at value now_unix_secs =
     (let trimmed = trim value in
      if trimmed = [] then Inr None
      else if all_digits trimmed then Inr (map_option from_secs (parse_u64_str trimmed))
      else
        (case parse_http_date trimmed of
           Inl p \<Rightarrow> Inl p
         | Inr None \<Rightarrow> Inr None
         | Inr (Some target) \<Rightarrow> Inr (Some (from_secs (nat (max 0 (sat_i64 (target - now_unix_secs))))))))"

text \<open>The clock reading is the seconds since the epoch, 0 before it.\<close>

definition parse_retry_after :: "ustring \<Rightarrow> u64 option \<Rightarrow> panic + duration option" where
  "parse_retry_after value since_epoch =
     parse_retry_after_at value (case since_epoch of None \<Rightarrow> 0 | Some secs \<Rightarrow> min (int secs) I64_MAX)"

subsection \<open>Printed dates\<close>

text \<open>The three forms as RFC 9110 writes them; \<open>dow\<close> is the day of the week, which the parser
  does not read.\<close>

definition hms :: "nat \<Rightarrow> nat \<Rightarrow> nat \<Rightarrow> ustring" where
  "hms h mi s = dec2 h @ 58 # dec2 mi @ 58 # dec2 s"

definition imf_fixdate :: "ustring \<Rightarrow> nat \<Rightarrow> nat \<Rightarrow> nat \<Rightarrow> nat \<Rightarrow> nat \<Rightarrow> nat \<Rightarrow> ustring" where
  "imf_fixdate dow y m d h mi s =
     dow @ 32 # dec2 d @ 32 # MONTHS ! (m - 1) @ 32 # dec4 y @ 32 # hms h mi s @ 32 # u ''GMT''"

text \<open>\<open>asctime\<close> writes a day below ten with a space in place of its first digit (\<open>pad\<close>); some
  servers write the zero.\<close>

definition asctime :: "bool \<Rightarrow> ustring \<Rightarrow> nat \<Rightarrow> nat \<Rightarrow> nat \<Rightarrow> nat \<Rightarrow> nat \<Rightarrow> nat \<Rightarrow> ustring" where
  "asctime pad dow y m d h mi s =
     dow @ 32 # MONTHS ! (m - 1) @ 32 # (if pad \<and> d < 10 then 32 # dec d else dec2 d) @ 32 # hms h mi s @ 32 # dec4 y"

definition rfc850 :: "ustring \<Rightarrow> nat \<Rightarrow> nat \<Rightarrow> nat \<Rightarrow> nat \<Rightarrow> nat \<Rightarrow> nat \<Rightarrow> ustring" where
  "rfc850 dow y m d h mi s =
     dow @ 32 # (dec2 d @ 45 # MONTHS ! (m - 1) @ 45 # dec2 (y mod 100)) @ 32 # hms h mi s @ 32 # u ''GMT''"

definition token :: "ustring \<Rightarrow> bool" where
  "token t \<longleftrightarrow> t \<noteq> [] \<and> (\<forall>c \<in> set t. \<not> is_white c)"

lemma split_whitespace_last: "token t \<Longrightarrow> split_whitespace t = [t]"
  by (simp add: token_def split_whitespace_def split_on_none)

lemma split_whitespace_step: "token t \<Longrightarrow> split_whitespace (t @ 32 # rest) = t # split_whitespace rest"
  by (simp add: token_def split_whitespace_def split_on_glue is_white_def [of 32])

lemma split_whitespace_space: "split_whitespace (32 # rest) = split_whitespace rest"
  by (simp add: split_whitespace_def is_white_def [of 32])

lemma digit_facts: "48 \<le> c \<and> c \<le> 57 \<Longrightarrow> \<not> is_white c \<and> \<not> colon c \<and> \<not> dash c"
  by (auto simp: is_white_def colon_def dash_def)

lemma digits_plain:
  assumes "all_digits ds"
  shows "\<forall>c \<in> set ds. \<not> is_white c" "\<forall>c \<in> set ds. \<not> colon c" "\<forall>c \<in> set ds. \<not> dash c"
  using digit_ne [OF assms] digit_facts by blast+

lemma digits_token: "all_digits ds \<Longrightarrow> ds \<noteq> [] \<Longrightarrow> token ds"
  using digits_plain by (simp add: token_def)

lemma dec2_parts:
  assumes "n < 100"
  shows "token (dec2 n)" and "parse_u32 (dec2 n) = Some n" and "parse_i64 (dec2 n) = Some (int n)"
    and "\<forall>c \<in> set (dec2 n). \<not> is_white c \<and> \<not> colon c \<and> \<not> dash c"
proof -
  note d = dec2_digits [OF assms]
  have ne: "dec2 n \<noteq> []" by (simp add: dec2_def)
  show "token (dec2 n)" using d ne by (intro digits_token)
  show "parse_u32 (dec2 n) = Some n"
    using parse_unsigned_ok [OF ne d(2), of U32_MAX] d(1) assms by (simp add: parse_u32_def U32_MAX_def)
  show "parse_i64 (dec2 n) = Some (int n)" using parse_i64_ok [OF ne d(2)] d(1) assms by (simp add: I64_MAX_def)
  show "\<forall>c \<in> set (dec2 n). \<not> is_white c \<and> \<not> colon c \<and> \<not> dash c" using digits_plain [OF d(2)] by blast
qed

lemma dec4_parts:
  assumes "n < 10000"
  shows "token (dec4 n)" and "parse_i64 (dec4 n) = Some (int n)"
proof -
  note d = dec4_digits [OF assms]
  have ne: "dec4 n \<noteq> []" by (simp add: dec4_def dec2_def)
  show "token (dec4 n)" using d ne by (intro digits_token)
  show "parse_i64 (dec4 n) = Some (int n)" using parse_i64_ok [OF ne d(2)] d(1) assms by (simp add: I64_MAX_def)
qed

lemma month_parts:
  assumes "1 \<le> m" "m \<le> 12"
  shows "token (MONTHS ! (m - 1))" and "month_index (MONTHS ! (m - 1)) = Some m"
    and "\<forall>c \<in> set (MONTHS ! (m - 1)). \<not> dash c"
  using month_range [OF assms]
  by (elim disjE; simp add: MONTHS_def u_def token_def is_white_def dash_def month_index_def eq_ignore_case_def to_lower_def)+

lemma hms_parts:
  assumes "h < 24" "mi < 60" "s \<le> 60"
  shows "token (hms h mi s)" and "split_on colon (hms h mi s) = [dec2 h, dec2 mi, dec2 s]" and "parse_hms (hms h mi s) = Some (h, mi, s)"
proof -
  have lt: "h < 100" "mi < 100" "s < 100" using assms by auto
  note p = dec2_parts [OF lt(1)] dec2_parts [OF lt(2)] dec2_parts [OF lt(3)]
  have "\<not> is_white 58" "colon 58" by (simp_all add: is_white_def colon_def)
  then have tok: "token (hms h mi s)"
    and split: "split_on colon (hms h mi s) = [dec2 h, dec2 mi, dec2 s]"
    using p by (auto simp: token_def hms_def split_on_glue split_on_none)
  show "token (hms h mi s)" "split_on colon (hms h mi s) = [dec2 h, dec2 mi, dec2 s]" by (rule tok split)+
  show "parse_hms (hms h mi s) = Some (h, mi, s)" using p assms unfolding parse_hms_def split by simp
qed

definition unix_secs :: "nat \<Rightarrow> nat \<Rightarrow> nat \<Rightarrow> nat \<Rightarrow> nat \<Rightarrow> nat \<Rightarrow> int" where
  "unix_secs y m d h mi s = calendar_days (int y) m d * 86400 + int (h * 3600 + mi * 60 + s)"

definition valid_instant :: "nat \<Rightarrow> nat \<Rightarrow> nat \<Rightarrow> nat \<Rightarrow> nat \<Rightarrow> nat \<Rightarrow> bool" where
  "valid_instant y m d h mi s \<longleftrightarrow> y \<le> 9999 \<and> 1 \<le> m \<and> m \<le> 12 \<and> 1 \<le> d \<and> d \<le> 31 \<and> h < 24 \<and> mi < 60 \<and> s \<le> 60"

lemma civil_instant:
  "valid_instant y m d h mi s \<Longrightarrow> civil_to_unix (int y) m d h mi s = Some (unix_secs y m d h mi s)"
  using civil_to_unix_ok [of "int y" m d h mi s] month_offset [of "int y" m d] months_before [of m "int y"]
    new_year_days [of "int y"]
  by (simp add: valid_instant_def unix_secs_def calendar_days_def)

lemma gmt_token: "token (u ''GMT'')"
  by (simp add: token_def u_def is_white_def)

lemma parse_imf:
  assumes "token dow" and v: "valid_instant y m d h mi s"
  shows "parse_http_date (imf_fixdate dow y m d h mi s) = Inr (Some (unix_secs y m d h mi s))"
proof -
  have b: "d < 100" "y < 10000" "1 \<le> m" "m \<le> 12" "h < 24" "mi < 60" "s \<le> 60"
    using v by (auto simp: valid_instant_def)
  note parts = dec2_parts [OF b(1)] dec4_parts [OF b(2)] month_parts [OF b(3,4)] hms_parts [OF b(5-7)]
  have "split_whitespace (imf_fixdate dow y m d h mi s) =
      [dow, dec2 d, MONTHS ! (m - 1), dec4 y, hms h mi s, u ''GMT'']"
    unfolding imf_fixdate_def using assms(1) parts gmt_token
    by (simp add: split_whitespace_step split_whitespace_last)
  then show ?thesis using parts civil_instant [OF v] by (simp add: parse_http_date_def date_of_parts_def)
qed

lemma dec_parts:
  assumes "n \<le> U32_MAX"
  shows "token (dec n)" and "parse_u32 (dec n) = Some n"
  using dec_digits [of n] parse_unsigned_ok [of "dec n" U32_MAX] assms
  by (auto simp: parse_u32_def intro: digits_token)

lemma parse_asctime:
  assumes "token dow" and v: "valid_instant y m d h mi s"
  shows "parse_http_date (asctime pad dow y m d h mi s) = Inr (Some (unix_secs y m d h mi s))"
proof -
  have b: "d < 100" "y < 10000" "1 \<le> m" "m \<le> 12" "h < 24" "mi < 60" "s \<le> 60" "d \<le> U32_MAX"
    using v by (auto simp: valid_instant_def U32_MAX_def)
  note parts = dec2_parts [OF b(1)] dec4_parts [OF b(2)] month_parts [OF b(3,4)] hms_parts [OF b(5-7)] dec_parts [OF b(8)]
  have "split_whitespace (asctime pad dow y m d h mi s) =
      [dow, MONTHS ! (m - 1), if pad \<and> d < 10 then dec d else dec2 d, hms h mi s, dec4 y]"
    unfolding asctime_def using assms(1) parts
    by (simp add: split_whitespace_step split_whitespace_space split_whitespace_last)
  then show ?thesis using parts civil_instant [OF v] by (simp add: parse_http_date_def date_of_parts_def)
qed

lemma parse_rfc850:
  assumes "token dow" and v: "valid_instant y m d h mi s" and y: "1970 \<le> y" "y \<le> 2069"
  shows "parse_http_date (rfc850 dow y m d h mi s) = Inr (Some (unix_secs y m d h mi s))"
proof -
  have b: "d < 100" "y mod 100 < 100" "1 \<le> m" "m \<le> 12" "h < 24" "mi < 60" "s \<le> 60"
    using v by (auto simp: valid_instant_def)
  let ?date = "dec2 d @ 45 # MONTHS ! (m - 1) @ 45 # dec2 (y mod 100)"
  note parts = dec2_parts [OF b(1)] dec2_parts [OF b(2)] month_parts [OF b(3,4)] hms_parts [OF b(5-7)]
  have sep: "\<not> is_white 45" "dash 45" by (simp_all add: is_white_def dash_def)
  then have tok: "token ?date" using parts by (auto simp: token_def)
  have "split_whitespace (rfc850 dow y m d h mi s) = [dow, ?date, hms h mi s, u ''GMT'']"
    unfolding rfc850_def split_whitespace_step [OF assms(1)] split_whitespace_step [OF tok]
    using parts gmt_token by (simp add: split_whitespace_step split_whitespace_last)
  moreover have "split_on dash ?date = [dec2 d, MONTHS ! (m - 1), dec2 (y mod 100)]"
    using parts sep by (simp add: split_on_glue split_on_none)
  moreover have "(if 70 \<le> int (y mod 100) then 1900 + int (y mod 100) else 2000 + int (y mod 100)) = int y"
  proof (cases "y < 2000")
    case True
    then show ?thesis using y(1) mod_mult_self1 [of "y - 1900" 19 100] by simp
  next
    case False
    then show ?thesis using y(2) mod_mult_self1 [of "y - 2000" 20 100] by simp
  qed
  ultimately show ?thesis
    using parts civil_instant [OF v] y
    by (simp add: parse_http_date_def rfc850_date_def plain_i64_def in_i64_def I64_MIN_def I64_MAX_def)
qed

subsection \<open>Properties\<close>

lemma retry_after_date:
  assumes "v \<noteq> []" "\<not> is_white (hd v)" "\<not> is_white (last v)" "32 \<in> set v"
    and "parse_http_date v = Inr (Some t)" and "0 \<le> now" "t \<le> I64_MAX"
  shows "parse_retry_after_at v now = Inr (Some (from_secs (nat (t - now))))"
proof -
  have "\<not> all_digits v" using assms(4) digit_ne [of v 32] by auto
  moreover have "nat (max 0 (sat_i64 (t - now))) = nat (t - now)"
    using assms(6,7) by (auto simp: sat_i64_def I64_MIN_def)
  ultimately show ?thesis
    using assms(1,5) trim_id [OF assms(1-3)] by (simp add: parse_retry_after_at_def Let_def)
qed

lemma instant_range:
  assumes "valid_instant y m d h mi s"
  shows "- 100000000000 \<le> unix_secs y m d h mi s" and "unix_secs y m d h mi s \<le> 400000000000"
proof -
  have v: "0 \<le> int y" "int y \<le> 9999" "1 \<le> m" "m \<le> 12" "d \<le> 31" "h < 24" "mi < 60" "s \<le> 60"
    using assms by (auto simp: valid_instant_def)
  have days: "calendar_days (int y) m d = days_from_civil (int y) m d"
    using month_offset [OF v(1,3,4), of d] months_before [OF v(3,4), of "int y"] new_year_days [OF v(1)]
    unfolding calendar_days_def by linarith
  show "- 100000000000 \<le> unix_secs y m d h mi s" "unix_secs y m d h mi s \<le> 400000000000"
    using day_count_bounds [OF v(1-5)] v(6-8) unfolding unix_secs_def days by simp_all
qed

lemma instant_le: "valid_instant y m d h mi s \<Longrightarrow> unix_secs y m d h mi s \<le> I64_MAX"
  using instant_range(2) [of y m d h mi s] by (simp add: I64_MAX_def)

text \<open>C24: A printed \<open>Retry-After\<close> parses back.  A number of seconds gives that duration; an instant
  printed in any of the three HTTP date forms (asctime with the day padded by a space or by a
  zero) gives the time left until it by the Gregorian calendar, and zero once it has passed.\<close>

theorem retry_after_round_trip:
  assumes "n \<le> U64_MAX" and "token dow" and "valid_instant y m d h mi s" and "0 \<le> now"
  shows "parse_retry_after_at (dec n) now = Inr (Some (from_secs n)) \<and>
    parse_retry_after_at (imf_fixdate dow y m d h mi s) now = Inr (Some (from_secs (nat (unix_secs y m d h mi s - now)))) \<and>
    parse_retry_after_at (asctime pad dow y m d h mi s) now = Inr (Some (from_secs (nat (unix_secs y m d h mi s - now)))) \<and>
    (1970 \<le> y \<and> y \<le> 2069 \<longrightarrow>
      parse_retry_after_at (rfc850 dow y m d h mi s) now = Inr (Some (from_secs (nat (unix_secs y m d h mi s - now)))))"
proof -
  note dn = dec_digits [of n]
  have "\<not> is_white (hd (dec n))" "\<not> is_white (last (dec n))" using digits_plain(1) [of "dec n"] dn by auto
  then have secs: "parse_retry_after_at (dec n) now = Inr (Some (from_secs n))"
    using dn trim_id [of "dec n"] parse_unsigned_ok [of "dec n" U64_MAX] assms(1)
    by (simp add: parse_retry_after_at_def Let_def parse_u64_str_def)
  have hd: "dow \<noteq> []" "\<not> is_white (hd dow)" using assms(2) by (auto simp: token_def)
  have "\<not> is_white (last (u ''GMT''))" by (simp add: u_def is_white_def)
  moreover have "\<not> is_white (last (dec4 y))"
    using dec4_parts(1) [of y] assms(3) by (auto simp: valid_instant_def token_def)
  moreover have "dec4 y \<noteq> []" "u ''GMT'' \<noteq> []" by (simp_all add: dec4_def dec2_def u_def)
  ultimately show ?thesis
    using secs hd retry_after_date [OF _ _ _ _ parse_imf [OF assms(2,3)] assms(4) instant_le [OF assms(3)]]
      retry_after_date [OF _ _ _ _ parse_asctime [OF assms(2,3), of pad] assms(4) instant_le [OF assms(3)]]
      retry_after_date [OF _ _ _ _ parse_rfc850 [OF assms(2,3)] assms(4) instant_le [OF assms(3)]]
    by (simp add: imf_fixdate_def asctime_def rfc850_def)
qed

text \<open>The parser's only panic is the year of an RFC 850 date near the end of the \<open>i64\<close> range;
  every other input gives a value or \<open>None\<close>.\<close>

theorem only_huge_years_panic:
  assumes "parse_retry_after_at value now = Inl p"
  shows "\<exists>dow date time day month year yy. split_whitespace (trim value) = [dow, date, time, u ''GMT''] \<and>
    split_on dash date = [day, month, year] \<and> parse_i64 year = Some yy \<and> I64_MAX - 1900 < yy"
proof -
  have "parse_http_date (trim value) = Inl p"
    using assms by (auto simp: parse_retry_after_at_def Let_def split: if_splits sum.splits option.splits)
  then obtain dow date time where s: "split_whitespace (trim value) = [dow, date, time, u ''GMT'']"
      "rfc850_date date time = Inl p"
    by (auto simp: parse_http_date_def split: list.splits if_splits)
  then obtain day month year yy where d: "split_on dash date = [day, month, year]" "parse_i64 year = Some yy"
      "plain_i64 (if yy \<ge> 70 then 1900 + yy else 2000 + yy) = Inl p"
    by (auto simp: rfc850_date_def split: list.splits option.splits sum.splits)
  have "- 9223372036854775808 \<le> yy"
    using d(2) by (auto simp: parse_i64_def parse_digits_def I64_MIN_def split: if_splits option.splits)
  then have "I64_MAX - 1900 < yy"
    using d(3) by (auto simp: plain_i64_def in_i64_def I64_MIN_def I64_MAX_def split: if_splits)
  then show ?thesis using s(1) d(1,2) by blast
qed

subsection \<open>Witnesses\<close>

lemmas text_eval = u_def split_whitespace_def is_white_def trim_def parse_http_date_def rfc850_date_def dash_def colon_def
  parse_u32_def parse_unsigned_def parse_digits_def all_digits_def is_ascii_digit_def digits_value_def U32_MAX_def
  parse_i64_def I64_MAX_def I64_MIN_def month_index_def MONTHS_def eq_ignore_case_def to_lower_def
  plain_i64_def in_i64_def parse_hms_def

theorem retry_after_round_trip_witness:
  "parse_retry_after_at (dec 120) 0 = Inr (Some (from_secs 120)) \<and>
   parse_retry_after_at (imf_fixdate (u ''Sun,'') 1970 1 2 0 0 30) 86400 = Inr (Some (from_secs 30)) \<and>
   parse_retry_after_at (asctime True (u ''Sun,'') 1970 1 2 0 0 30) 86400 = Inr (Some (from_secs 30))"
proof -
  have "token (u ''Sun,'')" by (simp add: token_def u_def is_white_def)
  moreover have "unix_secs 1970 1 2 0 0 30 = 86430"
    by (simp add: unix_secs_def calendar_days_def days_to_year_def)
  ultimately show ?thesis
    using retry_after_round_trip [of 120 "u ''Sun,''" 1970 1 2 0 0 30 0 True]
      retry_after_round_trip [of 120 "u ''Sun,''" 1970 1 2 0 0 30 86400 True]
    by (simp add: valid_instant_def U64_MAX_def)
qed

text \<open>A header whose RFC 850 year is the largest \<open>i64\<close> panics.\<close>

definition huge_year :: ustring where
  "huge_year = u ''Sunday, 06-Nov-9223372036854775807 08:49:37 GMT''"

lemma huge_year_panics: "parse_retry_after_at huge_year now = Inl Arithmetic_Overflow"
  by (simp add: huge_year_def parse_retry_after_at_def Let_def text_eval)

theorem only_huge_years_panic_witness:
  "parse_retry_after_at huge_year 0 = Inl Arithmetic_Overflow \<and>
   (\<exists>dow date time. split_whitespace (trim huge_year) = [dow, date, time, u ''GMT''])"
  using only_huge_years_panic [OF huge_year_panics [of 0]] huge_year_panics [of 0] by blast

text \<open>A four-digit year in the RFC 850 form is taken as an offset from 1900.\<close>

lemma rfc850_full_year:
  "parse_http_date (u ''Sunday, 06-Nov-1994 08:49:37 GMT'') = Inr (civil_to_unix 3894 11 6 8 49 37)"
  by (simp add: text_eval) (simp add: eval_nat_numeral)

end
