(* ===== verification/Header_Profile.thy ===== *)
theory Header_Profile
  imports Retry_After
begin

text \<open>
  The header parsers of \<open>src/provider.rs\<close>: the profiles of the providers, the four formats
  of a reset, and the normalized \<open>RateLimitInfo\<close>.  A header set is a list of name and value.
\<close>

record window =
  win_limit :: "u64 option"
  win_remaining :: "u64 option"
  win_reset :: "duration option"

record rate_limit_info =
  info_requests :: "window option"
  info_tokens :: "window option"
  info_retry_after :: "duration option"

datatype reset_format = DeltaSeconds | DurationString | UnixSeconds | Rfc3339

record triple =
  tr_limit :: ustring
  tr_remaining :: ustring
  tr_reset :: ustring

record header_profile =
  hp_requests :: "triple option"
  hp_tokens :: "triple option"
  hp_retry_after :: "ustring option"
  hp_reset :: reset_format

definition OPENAI :: header_profile where
  "OPENAI = \<lparr>
     hp_requests = Some \<lparr>tr_limit = u ''x-ratelimit-limit-requests'',
       tr_remaining = u ''x-ratelimit-remaining-requests'', tr_reset = u ''x-ratelimit-reset-requests''\<rparr>,
     hp_tokens = Some \<lparr>tr_limit = u ''x-ratelimit-limit-tokens'',
       tr_remaining = u ''x-ratelimit-remaining-tokens'', tr_reset = u ''x-ratelimit-reset-tokens''\<rparr>,
     hp_retry_after = Some (u ''retry-after''), hp_reset = DurationString\<rparr>"

definition ANTHROPIC :: header_profile where
  "ANTHROPIC = \<lparr>
     hp_requests = Some \<lparr>tr_limit = u ''anthropic-ratelimit-requests-limit'',
       tr_remaining = u ''anthropic-ratelimit-requests-remaining'', tr_reset = u ''anthropic-ratelimit-requests-reset''\<rparr>,
     hp_tokens = Some \<lparr>tr_limit = u ''anthropic-ratelimit-tokens-limit'',
       tr_remaining = u ''anthropic-ratelimit-tokens-remaining'', tr_reset = u ''anthropic-ratelimit-tokens-reset''\<rparr>,
     hp_retry_after = Some (u ''retry-after''), hp_reset = Rfc3339\<rparr>"

definition GITHUB :: header_profile where
  "GITHUB = \<lparr>
     hp_requests = Some \<lparr>tr_limit = u ''x-ratelimit-limit'', tr_remaining = u ''x-ratelimit-remaining'',
       tr_reset = u ''x-ratelimit-reset''\<rparr>,
     hp_tokens = None, hp_retry_after = Some (u ''retry-after''), hp_reset = UnixSeconds\<rparr>"

definition RFC :: header_profile where
  "RFC = \<lparr>
     hp_requests = Some \<lparr>tr_limit = u ''ratelimit-limit'', tr_remaining = u ''ratelimit-remaining'',
       tr_reset = u ''ratelimit-reset''\<rparr>,
     hp_tokens = None, hp_retry_after = Some (u ''retry-after''), hp_reset = DeltaSeconds\<rparr>"

definition STRIPE :: header_profile where
  "STRIPE = \<lparr>hp_requests = None, hp_tokens = None, hp_retry_after = Some (u ''retry-after''), hp_reset = DeltaSeconds\<rparr>"

definition AWS :: header_profile where
  "AWS = \<lparr>hp_requests = None, hp_tokens = None, hp_retry_after = Some (u ''retry-after''), hp_reset = DeltaSeconds\<rparr>"

subsection \<open>Formats\<close>

definition header :: "(ustring \<times> ustring) list \<Rightarrow> ustring \<Rightarrow> ustring option" where
  "header headers name = map_option snd (find (\<lambda>(k, _). eq_ignore_case k name) headers)"

definition parse_u64 :: "ustring \<Rightarrow> u64 option" where
  "parse_u64 value = parse_u64_str (trim value)"

definition dot :: "nat \<Rightarrow> bool" where
  "dot c \<longleftrightarrow> c = 46"

definition number_char :: "nat \<Rightarrow> bool" where
  "number_char c \<longleftrightarrow> is_ascii_digit c \<or> dot c"

definition unit_nanos :: "ustring \<Rightarrow> nat option" where
  "unit_nanos t =
     (if t = u ''ns'' then Some 1
      else if t = u ''us'' \<or> t = [181, 115] \<or> t = [956, 115] then Some 1000
      else if t = u ''ms'' then Some 1000000
      else if t = u ''s'' then Some 1000000000
      else if t = u ''m'' then Some 60000000000
      else if t = u ''h'' then Some 3600000000000
      else None)"

text \<open>Each fractional digit is worth a tenth of the previous; below a nanosecond none counts.\<close>

fun add_fraction :: "nat \<Rightarrow> nat \<Rightarrow> ustring \<Rightarrow> nat" where
  "add_fraction place nanos [] = nanos"
| "add_fraction place nanos (c # cs) =
     (let place = place div 10 in
      if place = 0 then nanos else add_fraction place (sat_add128 nanos ((c - 48) * place)) cs)"

definition scaled :: "ustring \<Rightarrow> nat \<Rightarrow> nat option" where
  "scaled number per =
     (let (whole, fraction) = (case split_once dot number of Some p \<Rightarrow> p | None \<Rightarrow> (number, [])) in
      if whole = [] \<and> fraction = [] then None
      else if \<not> all_digits whole \<or> \<not> all_digits fraction then None
      else
        (let whole_value = (if whole = [] then 0
               else (case parse_unsigned U128_MAX whole of Some v \<Rightarrow> v | None \<Rightarrow> U128_MAX))
         in Some (add_fraction per (sat_mul128 whole_value per) fraction)))"

function parse_units :: "ustring \<Rightarrow> nat \<Rightarrow> nat option" where
  "parse_units rest total_nanos =
     (if rest = [] then Some total_nanos
      else
        (let number = takeWhile number_char rest;
             tail = dropWhile number_char rest;
             un = takeWhile (\<lambda>c. \<not> number_char c) tail;
             tail' = dropWhile (\<lambda>c. \<not> number_char c) tail
         in case unit_nanos un of
              None \<Rightarrow> None
            | Some n \<Rightarrow>
                (case scaled number n of
                   None \<Rightarrow> None
                 | Some v \<Rightarrow> parse_units tail' (sat_add128 total_nanos v))))"
  by pat_completeness auto

lemma unit_nonempty: "unit_nanos t = Some n \<Longrightarrow> t \<noteq> []"
  by (auto simp: unit_nanos_def u_def)

termination parse_units
proof (relation "measure (\<lambda>(rest, _). length rest)", goal_cases)
  case 1
  then show ?case by simp
next
  case (2 rest total num tail un tail' n v)
  have "un \<noteq> []" using unit_nonempty [OF 2(6)] .
  then have "length tail' < length tail"
    using 2(4,5) by (metis append_Nil length_append length_greater_0_conv less_add_same_cancel2 takeWhile_dropWhile_id)
  moreover have "length tail \<le> length rest" using 2(3) by (simp add: length_dropWhile_le)
  ultimately show ?case by simp
qed

declare parse_units.simps [simp del]

definition parse_duration_string :: "ustring \<Rightarrow> duration option" where
  "parse_duration_string value =
     (if value = [] then None
      else (case parse_u64_str value of
              Some secs \<Rightarrow> Some (from_secs secs)
            | None \<Rightarrow> map_option to_u64 (parse_units value 0)))"

definition zulu :: "nat \<Rightarrow> bool" where
  "zulu c \<longleftrightarrow> c = 90 \<or> c = 122"

definition sign_char :: "nat \<Rightarrow> bool" where
  "sign_char c \<longleftrightarrow> c = 43 \<or> c = 45"

text \<open>The time and the offset: after the last sign, four digits with any colons dropped.\<close>

definition split_offset :: "ustring \<Rightarrow> (ustring \<times> int) option" where
  "split_offset rest =
     (if rest \<noteq> [] \<and> zulu (last rest) then Some (butlast rest, 0)
      else
        (let zone_tail = rev (takeWhile (\<lambda>c. \<not> sign_char c) (rev rest));
             before = rev (dropWhile (\<lambda>c. \<not> sign_char c) (rev rest))
         in if before = [] then None
            else
              (let time = butlast before; sign = (if last before = 45 then -1 else 1);
                   digits = filter (\<lambda>c. \<not> colon c) zone_tail
               in if length digits \<noteq> 4 \<or> \<not> all_digits digits then None
                  else
                    (case (parse_i64 (take 2 digits), parse_i64 (drop 2 digits)) of
                       (Some hours, Some minutes) \<Rightarrow>
                         if hours > 23 \<or> minutes > 59 then None
                         else Some (time, sign * (hours * 3600 + minutes * 60))
                     | _ \<Rightarrow> None))))"

definition date_mark :: "nat \<Rightarrow> bool" where
  "date_mark c \<longleftrightarrow> c = 84 \<or> c = 116"

definition parse_rfc3339 :: "ustring \<Rightarrow> int option" where
  "parse_rfc3339 value =
     (case split_once date_mark value of
        None \<Rightarrow> None
      | Some (date, rest) \<Rightarrow>
          (case split_offset rest of
             None \<Rightarrow> None
           | Some (time, offset_secs) \<Rightarrow>
               (case (split_on dash date, split_on colon (hd (split_on dot time))) of
                  ([ys, ms, ds], [hs, mis, ss]) \<Rightarrow>
                    (case (parse_i64 ys, parse_u32 ms, parse_u32 ds, parse_u32 hs, parse_u32 mis, parse_u32 ss) of
                       (Some y, Some mo, Some d, Some h, Some mi, Some s) \<Rightarrow>
                         (case civil_to_unix y mo d h mi s of
                            None \<Rightarrow> None
                          | Some at \<Rightarrow> checked_i64 (at - offset_secs))
                     | _ \<Rightarrow> None)
                | _ \<Rightarrow> None)))"

definition until :: "int \<Rightarrow> int \<Rightarrow> duration" where
  "until at now = from_secs (nat (sat_i64 (at - now)))"

definition parse_reset :: "reset_format \<Rightarrow> ustring \<Rightarrow> int \<Rightarrow> duration option" where
  "parse_reset f value now =
     (case f of
        DeltaSeconds \<Rightarrow> map_option from_secs (parse_u64_str (trim value))
      | DurationString \<Rightarrow> parse_duration_string (trim value)
      | UnixSeconds \<Rightarrow> map_option (\<lambda>at. until at now) (parse_i64 (trim value))
      | Rfc3339 \<Rightarrow> map_option (\<lambda>at. until at now) (parse_rfc3339 (trim value)))"

subsection \<open>Profiles\<close>

definition hp_window :: "header_profile \<Rightarrow> (ustring \<times> ustring) list \<Rightarrow> triple \<Rightarrow> int \<Rightarrow> window option" where
  "hp_window p headers t now =
     (let limit = Option.bind (header headers (tr_limit t)) parse_u64;
          remaining = Option.bind (header headers (tr_remaining t)) parse_u64;
          reset = Option.bind (header headers (tr_reset t)) (\<lambda>v. parse_reset (hp_reset p) v now)
      in if limit = None \<and> remaining = None \<and> reset = None then None
         else Some \<lparr>win_limit = limit, win_remaining = remaining, win_reset = reset\<rparr>)"

definition parse_at :: "header_profile \<Rightarrow> (ustring \<times> ustring) list \<Rightarrow> int \<Rightarrow> panic + rate_limit_info" where
  "parse_at p headers now_unix_secs =
     (let requests = Option.bind (hp_requests p) (\<lambda>t. hp_window p headers t now_unix_secs);
          tokens = Option.bind (hp_tokens p) (\<lambda>t. hp_window p headers t now_unix_secs)
      in case Option.bind (hp_retry_after p) (header headers) of
           None \<Rightarrow> Inr \<lparr>info_requests = requests, info_tokens = tokens, info_retry_after = None\<rparr>
         | Some value \<Rightarrow>
             (case parse_retry_after_at value now_unix_secs of
                Inl e \<Rightarrow> Inl e
              | Inr after_ \<Rightarrow> Inr \<lparr>info_requests = requests, info_tokens = tokens, info_retry_after = after_\<rparr>))"

definition current_unix_secs :: "u64 option \<Rightarrow> int" where
  "current_unix_secs since_epoch = (case since_epoch of None \<Rightarrow> 0 | Some secs \<Rightarrow> min (int secs) I64_MAX)"

definition hp_parse :: "header_profile \<Rightarrow> (ustring \<times> ustring) list \<Rightarrow> u64 option \<Rightarrow> panic + rate_limit_info" where
  "hp_parse p headers since_epoch = parse_at p headers (current_unix_secs since_epoch)"

end
