(* ===== verification/Header_Laws.thy ===== *)
theory Header_Laws
  imports Header_Profile
begin

text \<open>
  Printed resets parse back in each of the four formats, and a whole response printed with a
  provider's headers parses back field by field under the provider's profile.
\<close>

subsection \<open>Durations\<close>

text \<open>A printed duration: pieces of a whole number and a unit, such as \<open>1h\<close>, \<open>2m\<close>, \<open>30s\<close>.\<close>

definition piece :: "nat \<times> ustring \<Rightarrow> ustring" where
  "piece p = dec (fst p) @ snd p"

definition piece_nanos :: "nat \<times> ustring \<Rightarrow> nat" where
  "piece_nanos p = fst p * the (unit_nanos (snd p))"

lemma piece_nanos_pair: "piece_nanos (n, t) = n * the (unit_nanos t)"
  by (simp add: piece_nanos_def)

lemma unit_chars: "unit_nanos t = Some n \<Longrightarrow> c \<in> set t \<Longrightarrow> \<not> number_char c"
  by (auto simp: unit_nanos_def u_def number_char_def is_ascii_digit_def dot_def split: if_splits)

lemma digits_number: "all_digits ds \<Longrightarrow> c \<in> set ds \<Longrightarrow> number_char c \<and> \<not> dot c"
  by (auto simp: all_digits_def is_ascii_digit_def number_char_def dot_def)

lemma split_once_none: "\<forall>c \<in> set s. \<not> p c \<Longrightarrow> split_once p s = None"
proof -
  assume "\<forall>c \<in> set s. \<not> p c"
  then have d: "dropWhile (\<lambda>c. \<not> p c) s = []" by simp
  show ?thesis unfolding split_once_def d by simp
qed

lemma split_once_glue: "\<forall>c \<in> set s. \<not> p c \<Longrightarrow> p x \<Longrightarrow> split_once p (s @ x # t) = Some (s, t)"
  by (simp add: split_once_def dropWhile_append takeWhile_append)

lemma scaled_whole: "n \<le> U128_MAX \<Longrightarrow> scaled (dec n) per = Some (sat_mul128 n per)"
  using dec_digits [of n] digits_number [of "dec n"] split_once_none [of "dec n" dot] parse_unsigned_ok [of "dec n" U128_MAX]
  by (simp add: scaled_def all_digits_def)

lemma parse_units_piece:
  assumes "unit_nanos t = Some per" and "n \<le> U128_MAX" and "rest = [] \<or> number_char (hd rest)"
  shows "parse_units (piece (n, t) @ rest) acc = parse_units rest (sat_add128 acc (sat_mul128 n per))"
proof -
  note dn = dec_digits [of n]
  have t: "t \<noteq> []" "\<forall>c \<in> set t. \<not> number_char c" using unit_nonempty [OF assms(1)] unit_chars [OF assms(1)] by auto
  have d: "\<forall>c \<in> set (dec n). number_char c" using digits_number dn by blast
  have "takeWhile number_char (dec n @ t @ rest) = dec n" "dropWhile number_char (dec n @ t @ rest) = t @ rest"
    using t d by (cases t; auto)+
  moreover have "takeWhile (\<lambda>c. \<not> number_char c) (t @ rest) = t" "dropWhile (\<lambda>c. \<not> number_char c) (t @ rest) = rest"
    using t(2) assms(3) by (cases rest; auto)+
  ultimately show ?thesis
    using dn t(1) assms(1) scaled_whole [OF assms(2)] by (subst parse_units.simps) (simp add: piece_def)
qed

lemma parse_units_pieces:
  assumes "\<forall>p \<in> set ps. unit_nanos (snd p) \<noteq> None" and "acc + sum_list (map piece_nanos ps) \<le> U128_MAX"
  shows "parse_units (concat (map piece ps)) acc = Some (acc + sum_list (map piece_nanos ps))"
  using assms
proof (induction ps arbitrary: acc)
  case Nil
  then show ?case by (simp add: parse_units.simps)
next
  case (Cons p ps)
  obtain n t per where p: "p = (n, t)" "unit_nanos t = Some per" using Cons.prems(1) by (cases p) auto
  have pos: "1 \<le> per" using p(2) by (auto simp: unit_nanos_def split: if_splits)
  have sum: "acc + n * per + sum_list (map piece_nanos ps) \<le> U128_MAX" using Cons.prems(2) p by (simp add: piece_nanos_pair add.assoc)
  then have le: "n * per \<le> U128_MAX" "acc + n * per \<le> U128_MAX" by auto
  have "n \<le> n * per" using pos by simp
  with le have n: "n \<le> U128_MAX" by linarith
  have "concat (map piece ps) = [] \<or> number_char (hd (concat (map piece ps)))"
  proof (cases ps)
    case (Cons q qs)
    have "dec (fst q) \<noteq> []" "number_char (hd (dec (fst q)))" using dec_digits [of "fst q"] digits_number by auto
    then show ?thesis using Cons by (simp add: piece_def)
  qed simp
  then have "parse_units (concat (map piece (p # ps))) acc = parse_units (concat (map piece ps)) (acc + n * per)"
    using parse_units_piece [OF p(2) n] le by (simp add: p(1) sat_add128_def sat_mul128_def)
  then show ?case using Cons.IH [of "acc + n * per"] Cons.prems(1) sum p by (simp add: piece_nanos_pair add.assoc)
qed

lemma letter_not_unsigned: "c \<in> set s \<Longrightarrow> \<not> is_ascii_digit c \<Longrightarrow> c \<noteq> 43 \<Longrightarrow> parse_unsigned b s = None"
  by (cases s) (auto simp: parse_unsigned_def parse_digits_def all_digits_def)

lemma duration_round_trip:
  assumes "ps \<noteq> []" and "\<forall>p \<in> set ps. unit_nanos (snd p) \<noteq> None" and "sum_list (map piece_nanos ps) \<le> U64_MAX"
  shows "parse_duration_string (concat (map piece ps)) = Some (sum_list (map piece_nanos ps))"
proof -
  obtain n t qs where ps: "ps = (n, t) # qs" using assms(1) by (cases ps) auto
  then obtain per where t: "unit_nanos t = Some per" using assms(2) by auto
  then obtain c where c: "c \<in> set t" using unit_nonempty by (cases t) auto
  have "\<not> is_ascii_digit c" "c \<noteq> 43"
    using unit_chars [OF t c] t c by (auto simp: number_char_def unit_nanos_def u_def split: if_splits)
  then have "parse_u64_str (concat (map piece ps)) = None"
    using c unfolding parse_u64_str_def ps by (intro letter_not_unsigned [of c]) (auto simp: piece_def)
  moreover have "concat (map piece ps) \<noteq> []" using dec_digits [of n] by (simp add: ps piece_def)
  moreover have "0 + sum_list (map piece_nanos ps) \<le> U128_MAX" using assms(3) by (simp add: U64_MAX_def U128_MAX_def)
  ultimately show ?thesis
    using parse_units_pieces [OF assms(2), of 0] assms(3) by (simp add: parse_duration_string_def to_u64_def)
qed

subsection \<open>Timestamps\<close>

datatype zone = Zulu | Offset bool nat nat

fun zone_text :: "zone \<Rightarrow> ustring" where
  "zone_text Zulu = [90]"
| "zone_text (Offset west hh mm) = (if west then 45 else 43) # dec2 hh @ 58 # dec2 mm"

fun zone_secs :: "zone \<Rightarrow> int" where
  "zone_secs Zulu = 0"
| "zone_secs (Offset west hh mm) = (if west then -1 else 1) * (int hh * 3600 + int mm * 60)"

fun zone_ok :: "zone \<Rightarrow> bool" where
  "zone_ok Zulu \<longleftrightarrow> True"
| "zone_ok (Offset west hh mm) \<longleftrightarrow> hh < 24 \<and> mm < 60"

text \<open>\<open>frac\<close> is an optional fraction of a second, dot included.\<close>

definition frac_ok :: "ustring \<Rightarrow> bool" where
  "frac_ok frac \<longleftrightarrow> frac = [] \<or> (hd frac = 46 \<and> all_digits (tl frac))"

definition rfc3339_text :: "nat \<Rightarrow> nat \<Rightarrow> nat \<Rightarrow> nat \<Rightarrow> nat \<Rightarrow> nat \<Rightarrow> ustring \<Rightarrow> zone \<Rightarrow> ustring" where
  "rfc3339_text y m d h mi s frac z =
     (dec4 y @ 45 # dec2 m @ 45 # dec2 d) @ 84 # (hms h mi s @ frac) @ zone_text z"

lemma split_offset_zone:
  assumes "zone_ok z"
  shows "split_offset (time @ zone_text z) = Some (time, zone_secs z)"
proof (cases z)
  case Zulu
  then show ?thesis by (simp add: split_offset_def zulu_def)
next
  case (Offset west hh mm)
  then have lt: "hh < 100" "mm < 100" "hh < 24" "mm < 60" using assms by auto
  let ?sign = "if west then 45 else 43 :: nat" and ?tail = "dec2 hh @ 58 # dec2 mm"
  note digits = dec2_digits(2) [OF lt(1)] dec2_digits(2) [OF lt(2)]
  have range: "c \<in> set ?tail \<Longrightarrow> 48 \<le> c \<and> c \<le> 58" for c using digit_ne [OF digits(1), of c] digit_ne [OF digits(2), of c] by auto
  then have plain: "\<forall>c \<in> set (rev ?tail). \<not> sign_char c" by (fastforce simp: sign_char_def)
  have rest: "rev (time @ zone_text z) = rev ?tail @ ?sign # rev time" using Offset by simp
  have sign: "sign_char ?sign" by (simp add: sign_char_def)
  have "takeWhile (\<lambda>c. \<not> sign_char c) (rev (time @ zone_text z)) = rev ?tail"
      "dropWhile (\<lambda>c. \<not> sign_char c) (rev (time @ zone_text z)) = ?sign # rev time"
    unfolding rest using plain sign by (auto simp: takeWhile_append dropWhile_append simp del: rev_append rev.simps)
  moreover have "\<not> zulu (last (time @ zone_text z))"
    using range [of "last ?tail"] Offset by (auto simp: zulu_def dec2_def)
  moreover have "filter (\<lambda>c. \<not> colon c) ?tail = dec2 hh @ dec2 mm"
    using digits_plain(2) [OF digits(1)] digits_plain(2) [OF digits(2)] by (simp add: colon_def filter_id_conv)
  moreover have "all_digits (dec2 hh @ dec2 mm)" using digits by (auto simp: all_digits_def)
  moreover have "take 2 (dec2 hh @ dec2 mm) = dec2 hh" "drop 2 (dec2 hh @ dec2 mm) = dec2 mm" "length (dec2 hh @ dec2 mm) = 4"
    by (simp_all add: dec2_def)
  ultimately show ?thesis
    using Offset dec2_parts(3) [OF lt(1)] dec2_parts(3) [OF lt(2)] lt(3,4) by (simp add: split_offset_def Let_def)
qed

lemma rfc3339_round_trip:
  assumes v: "valid_instant y m d h mi s" and "zone_ok z" and frac: "frac_ok frac"
  shows "parse_rfc3339 (rfc3339_text y m d h mi s frac z) = Some (unix_secs y m d h mi s - zone_secs z)"
proof -
  have b: "d < 100" "y < 10000" "m < 100" "h < 24" "mi < 60" "s \<le> 60" "h < 100" "mi < 100" "s < 100"
    using v by (auto simp: valid_instant_def)
  note parts = dec2_parts [OF b(1)] dec2_parts [OF b(3)] dec4_parts [OF b(2)] hms_parts [OF b(4-6)]
    dec2_parts [OF b(7)] dec2_parts [OF b(8)] dec2_parts [OF b(9)]
  let ?date = "dec4 y @ 45 # dec2 m @ 45 # dec2 d"
  note digits = dec4_digits(2) [OF b(2)] dec2_digits(2) [OF b(3)] dec2_digits(2) [OF b(1)]
  have "c \<in> set ?date \<Longrightarrow> 45 \<le> c \<and> c \<le> 57" for c
    using digit_ne [OF digits(1), of c] digit_ne [OF digits(2), of c] digit_ne [OF digits(3), of c] by auto
  then have "\<forall>c \<in> set ?date. \<not> date_mark c" by (fastforce simp: date_mark_def)
  then have "split_once date_mark (rfc3339_text y m d h mi s frac z) = Some (?date, (hms h mi s @ frac) @ zone_text z)"
    unfolding rfc3339_text_def by (rule split_once_glue) (simp add: date_mark_def)
  moreover have "split_on dash ?date = [dec4 y, dec2 m, dec2 d]"
    using digits_plain(3) [OF digits(1)] digits_plain(3) [OF digits(2)] digits_plain(3) [OF digits(3)]
    by (simp add: split_on_glue split_on_none dash_def)
  moreover have "hd (split_on dot (hms h mi s @ frac)) = hms h mi s"
  proof -
    have "c \<in> set (hms h mi s) \<Longrightarrow> 48 \<le> c \<and> c \<le> 58" for c
      using digit_ne [OF dec2_digits(2) [OF b(7)], of c] digit_ne [OF dec2_digits(2) [OF b(8)], of c]
        digit_ne [OF dec2_digits(2) [OF b(9)], of c]
      by (auto simp: hms_def)
    then have nodot: "\<forall>c \<in> set (hms h mi s). \<not> dot c" by (fastforce simp: dot_def)
    show ?thesis
    proof (cases frac)
      case (Cons x xs)
      then have "dot x" using frac by (simp add: frac_ok_def dot_def)
      then show ?thesis using nodot Cons by (simp add: split_on_glue)
    qed (use nodot in \<open>simp add: split_on_none\<close>)
  qed
  moreover have "checked_i64 (unix_secs y m d h mi s - zone_secs z) = Some (unix_secs y m d h mi s - zone_secs z)"
    using instant_range [OF v] assms(2) by (cases z) (auto simp: checked_i64_def in_i64_def I64_MIN_def I64_MAX_def)
  ultimately show ?thesis
    using parts split_offset_zone [OF assms(2), of "hms h mi s @ frac"] civil_instant [OF v]
    by (simp add: parse_rfc3339_def)
qed

subsection \<open>Resets\<close>

lemma until_exact: "0 \<le> now \<Longrightarrow> at \<le> I64_MAX \<Longrightarrow> until at now = from_secs (nat (at - now))"
  by (auto simp: until_def sat_i64_def I64_MIN_def max_def intro!: arg_cong [where f = from_secs])

lemma dec_trim: "trim (dec n) = dec n"
  using dec_digits [of n] digits_plain(1) [of "dec n"] by (intro trim_id) auto

lemma piece_ends:
  assumes "unit_nanos (snd p) \<noteq> None"
  shows "piece p \<noteq> []" and "\<not> is_white (hd (piece p))" and "\<not> is_white (last (piece p))"
proof -
  note d = dec_digits [of "fst p"]
  obtain per where t: "unit_nanos (snd p) = Some per" using assms by auto
  have "\<not> is_white (last (snd p))" using t by (auto simp: unit_nanos_def u_def is_white_def split: if_splits)
  moreover have "\<not> is_white (hd (dec (fst p)))" using d digits_plain(1) [of "dec (fst p)"] by auto
  ultimately show "piece p \<noteq> []" "\<not> is_white (hd (piece p))" "\<not> is_white (last (piece p))"
    using d unit_nonempty [OF t] by (simp_all add: piece_def)
qed

lemma pieces_ends:
  assumes "ps \<noteq> []" and "\<forall>p \<in> set ps. unit_nanos (snd p) \<noteq> None"
  shows "concat (map piece ps) \<noteq> []" and "\<not> is_white (hd (concat (map piece ps)))"
    and "\<not> is_white (last (concat (map piece ps)))"
proof -
  have hd: "hd ps \<in> set ps" and last: "last ps \<in> set ps" using assms(1) by auto
  have start: "concat (map piece ps) = piece (hd ps) @ concat (map piece (tl ps))" using assms(1) by (cases ps) auto
  have ending: "concat (map piece ps) = concat (map piece (butlast ps)) @ piece (last ps)"
    using assms(1) by (cases ps rule: rev_cases) auto
  show "concat (map piece ps) \<noteq> []" "\<not> is_white (hd (concat (map piece ps)))"
    unfolding start using piece_ends [of "hd ps"] assms(2) hd by auto
  show "\<not> is_white (last (concat (map piece ps)))"
    unfolding ending using piece_ends [of "last ps"] assms(2) last by auto
qed

lemma rfc3339_trim:
  assumes "valid_instant y m d h mi s" and "zone_ok z"
  shows "trim (rfc3339_text y m d h mi s frac z) = rfc3339_text y m d h mi s frac z"
proof -
  have y: "token (dec4 y)" using assms(1) by (intro dec4_parts) (auto simp: valid_instant_def)
  have "\<not> is_white (last (zone_text z)) \<and> zone_text z \<noteq> []"
  proof (cases z)
    case (Offset west hh mm)
    then have "token (dec2 mm)" using assms(2) by (intro dec2_parts) auto
    then show ?thesis using Offset by (auto simp: token_def)
  qed (simp add: is_white_def)
  moreover have "\<not> is_white (hd (dec4 y))" "dec4 y \<noteq> []" using y by (auto simp: token_def)
  ultimately show ?thesis by (intro trim_id) (simp_all add: rfc3339_text_def)
qed

subsection \<open>Header sets\<close>

text \<open>A reset as a server prints it, the format that is in, and the span it stands for.\<close>

datatype printed_reset =
    In_Seconds nat
  | In_Pieces "(nat \<times> ustring) list"
  | At_Unix nat
  | At_Instant nat nat nat nat nat nat ustring zone

fun reset_text :: "printed_reset \<Rightarrow> ustring" where
  "reset_text (In_Seconds n) = dec n"
| "reset_text (In_Pieces ps) = concat (map piece ps)"
| "reset_text (At_Unix t) = dec t"
| "reset_text (At_Instant y m d h mi s frac z) = rfc3339_text y m d h mi s frac z"

fun reset_format_of :: "printed_reset \<Rightarrow> reset_format" where
  "reset_format_of (In_Seconds n) = DeltaSeconds"
| "reset_format_of (In_Pieces ps) = DurationString"
| "reset_format_of (At_Unix t) = UnixSeconds"
| "reset_format_of (At_Instant y m d h mi s frac z) = Rfc3339"

fun reset_valid :: "printed_reset \<Rightarrow> bool" where
  "reset_valid (In_Seconds n) \<longleftrightarrow> n \<le> U64_MAX"
| "reset_valid (In_Pieces ps) \<longleftrightarrow> ps \<noteq> [] \<and> (\<forall>p \<in> set ps. unit_nanos (snd p) \<noteq> None) \<and> sum_list (map piece_nanos ps) \<le> U64_MAX"
| "reset_valid (At_Unix t) \<longleftrightarrow> int t \<le> I64_MAX"
| "reset_valid (At_Instant y m d h mi s frac z) \<longleftrightarrow> valid_instant y m d h mi s \<and> zone_ok z \<and> frac_ok frac"

fun reset_span :: "int \<Rightarrow> printed_reset \<Rightarrow> duration" where
  "reset_span now (In_Seconds n) = from_secs n"
| "reset_span now (In_Pieces ps) = sum_list (map piece_nanos ps)"
| "reset_span now (At_Unix t) = from_secs (nat (int t - now))"
| "reset_span now (At_Instant y m d h mi s frac z) = from_secs (nat (unix_secs y m d h mi s - zone_secs z - now))"

lemma parse_dec_u64: "n \<le> U64_MAX \<Longrightarrow> parse_u64_str (dec n) = Some n"
  using dec_digits [of n] parse_unsigned_ok [of "dec n" U64_MAX] by (simp add: parse_u64_str_def)

lemma parse_printed_reset:
  assumes "reset_valid r" and "0 \<le> now"
  shows "parse_reset (reset_format_of r) (reset_text r) now = Some (reset_span now r)"
proof (cases r)
  case (In_Seconds n)
  then show ?thesis using assms by (simp add: parse_reset_def dec_trim parse_dec_u64)
next
  case (In_Pieces ps)
  then show ?thesis
    using assms duration_round_trip [of ps] trim_id [OF pieces_ends [of ps]] by (simp add: parse_reset_def)
next
  case (At_Unix t)
  then show ?thesis
    using assms dec_digits [of t] parse_i64_ok [of "dec t"] by (simp add: parse_reset_def dec_trim until_exact)
next
  case (At_Instant y m d h mi s frac z)
  then have v: "valid_instant y m d h mi s" "zone_ok z" "frac_ok frac" using assms(1) by simp_all
  have "unix_secs y m d h mi s - zone_secs z \<le> I64_MAX"
    using instant_range(2) [OF v(1)] v(2) by (cases z) (auto simp: I64_MAX_def)
  with At_Instant show ?thesis
    using rfc3339_round_trip [OF v] rfc3339_trim [OF v(1,2), of frac] assms(2)
    by (simp add: parse_reset_def until_exact)
qed

text \<open>What a response carries under a name: the first header with that name, in any letter
  case, among any others and in any order; or no header of that name.\<close>

definition carries :: "(ustring \<times> ustring) list \<Rightarrow> string \<Rightarrow> ustring option \<Rightarrow> bool" where
  "carries hs name v \<longleftrightarrow>
     (case v of
        Some entry \<Rightarrow> \<exists>pre k post. hs = pre @ (k, entry) # post \<and> eq_ignore_case k (u name) \<and>
          (\<forall>h \<in> set pre. \<not> eq_ignore_case (fst h) (u name))
      | None \<Rightarrow> \<forall>h \<in> set hs. \<not> eq_ignore_case (fst h) (u name))"

lemma header_carries: "carries hs name v \<Longrightarrow> header hs (u name) = v"
proof (cases v)
  case None
  moreover assume "carries hs name v"
  ultimately show ?thesis by (auto simp: carries_def header_def find_None_iff)
next
  case (Some entry)
  moreover assume "carries hs name v"
  ultimately obtain pre k post where hs: "hs = pre @ (k, entry) # post" "eq_ignore_case k (u name)"
    "\<forall>h \<in> set pre. \<not> eq_ignore_case (fst h) (u name)" by (auto simp: carries_def)
  from hs(3) have "find (\<lambda>(k, _). eq_ignore_case k (u name)) hs = Some (k, entry)"
    unfolding hs(1) using hs(2) by (induction pre) auto
  with Some show ?thesis by (simp add: header_def)
qed

text \<open>One window as a server states it, and the window the parser should report.\<close>

record stated_window =
  sw_stated_limit :: "nat option"
  sw_stated_remaining :: "nat option"
  sw_stated_reset :: "printed_reset option"

definition stated_ok :: "reset_format \<Rightarrow> stated_window \<Rightarrow> bool" where
  "stated_ok f w \<longleftrightarrow> pred_option (\<lambda>n. n \<le> U64_MAX) (sw_stated_limit w) \<and>
     pred_option (\<lambda>n. n \<le> U64_MAX) (sw_stated_remaining w) \<and>
     pred_option (\<lambda>r. reset_valid r \<and> reset_format_of r = f) (sw_stated_reset w)"

definition sends :: "(ustring \<times> ustring) list \<Rightarrow> string \<Rightarrow> string \<Rightarrow> string \<Rightarrow> stated_window \<Rightarrow> bool" where
  "sends hs limit remaining reset w \<longleftrightarrow>
     carries hs limit (map_option dec (sw_stated_limit w)) \<and>
     carries hs remaining (map_option dec (sw_stated_remaining w)) \<and>
     carries hs reset (map_option reset_text (sw_stated_reset w))"

definition reported :: "int \<Rightarrow> stated_window \<Rightarrow> window option" where
  "reported now w =
     (if sw_stated_limit w = None \<and> sw_stated_remaining w = None \<and> sw_stated_reset w = None then None
      else Some \<lparr>win_limit = sw_stated_limit w, win_remaining = sw_stated_remaining w,
        win_reset = map_option (reset_span now) (sw_stated_reset w)\<rparr>)"

lemma window_read:
  assumes "stated_ok (hp_reset p) w" and "sends hs limit remaining reset w" and "0 \<le> now"
  shows "hp_window p hs \<lparr>tr_limit = u limit, tr_remaining = u remaining, tr_reset = u reset\<rparr> now = reported now w"
proof -
  have num: "Option.bind (map_option dec x) parse_u64 = x" if "pred_option (\<lambda>n. n \<le> U64_MAX) x" for x
    using that by (cases x) (simp_all add: parse_u64_def dec_trim parse_dec_u64)
  have res: "Option.bind (map_option reset_text (sw_stated_reset w)) (\<lambda>v. parse_reset (hp_reset p) v now) =
      map_option (reset_span now) (sw_stated_reset w)"
  proof (cases "sw_stated_reset w")
    case (Some r)
    then show ?thesis using assms(1,3) parse_printed_reset [of r now] by (simp add: stated_ok_def)
  qed simp
  have "header hs (u limit) = map_option dec (sw_stated_limit w)"
    "header hs (u remaining) = map_option dec (sw_stated_remaining w)"
    "header hs (u reset) = map_option reset_text (sw_stated_reset w)"
    using assms(2) by (auto simp: sends_def intro: header_carries)
  with num res assms(1) show ?thesis by (simp add: hp_window_def stated_ok_def reported_def Let_def)
qed

lemma retry_after_read:
  assumes "carries hs ''retry-after'' (map_option dec secs)" and "pred_option (\<lambda>n. n \<le> U64_MAX) secs"
    and "hp_retry_after p = Some (u ''retry-after'')"
  shows "parse_at p hs now = Inr \<lparr>info_requests = Option.bind (hp_requests p) (\<lambda>t. hp_window p hs t now),
    info_tokens = Option.bind (hp_tokens p) (\<lambda>t. hp_window p hs t now), info_retry_after = map_option from_secs secs\<rparr>"
proof (cases secs)
  case None
  then show ?thesis using header_carries [OF assms(1)] assms(3) by (simp add: parse_at_def)
next
  case (Some n)
  then have "parse_retry_after_at (dec n) now = Inr (Some (from_secs n))"
    using assms(2) dec_digits [of n] by (simp add: parse_retry_after_at_def Let_def dec_trim parse_dec_u64)
  then show ?thesis using Some header_carries [OF assms(1)] assms(3) by (simp add: parse_at_def)
qed

subsection \<open>Properties\<close>

text \<open>C25: A printed reset parses back in each format: a count of seconds, a Go-style duration of whole
  numbers and units, a Unix second, and an RFC 3339 instant with any fraction and zone.
  The first two give the printed span, the last two the time left until the instant, and
  zero once it has passed.\<close>

theorem reset_formats_round_trip:
  assumes "n \<le> U64_MAX" and "ps \<noteq> []" and "\<forall>p \<in> set ps. unit_nanos (snd p) \<noteq> None"
    and "sum_list (map piece_nanos ps) \<le> U64_MAX"
    and "int t \<le> I64_MAX" and "valid_instant y m d h mi s" and "zone_ok z" and "frac_ok frac" and "0 \<le> now"
  shows "parse_reset DeltaSeconds (dec n) now = Some (from_secs n) \<and>
    parse_reset DurationString (concat (map piece ps)) now = Some (sum_list (map piece_nanos ps)) \<and>
    parse_reset UnixSeconds (dec t) now = Some (from_secs (nat (int t - now))) \<and>
    parse_reset Rfc3339 (rfc3339_text y m d h mi s frac z) now =
      Some (from_secs (nat (unix_secs y m d h mi s - zone_secs z - now)))"
proof -
  have "parse_u64_str (dec n) = Some n" using dec_digits [of n] parse_unsigned_ok [of "dec n" U64_MAX] assms(1)
    by (simp add: parse_u64_str_def)
  moreover have "parse_i64 (dec t) = Some (int t)" using dec_digits [of t] parse_i64_ok [of "dec t"] assms(5) by simp
  moreover have "unix_secs y m d h mi s - zone_secs z \<le> I64_MAX"
    using instant_range(2) [OF assms(6)] assms(7) by (cases z) (auto simp: I64_MAX_def)
  ultimately show ?thesis
    using assms(5,9) duration_round_trip [OF assms(2-4)] rfc3339_round_trip [OF assms(6-8)]
      rfc3339_trim [OF assms(6,7), of frac] trim_id [OF pieces_ends [OF assms(2,3)]]
    by (simp add: parse_reset_def dec_trim until_exact)
qed

text \<open>C36: Every profile reads its provider's headers, field by field.  Take a response that states
  a request window and a token window, each with or without a limit, a remaining count and a
  reset in the provider's format, and a \<open>Retry-After\<close> in seconds or none, printed under the
  provider's header names in any letter case, in any order and among any other headers.  Under
  that provider's profile the parsed info is exactly what was stated: the counts, the spans, and
  no window where nothing was stated.  Profiles without window headers report only the
  \<open>Retry-After\<close>.\<close>

theorem profiles_read_their_headers:
  assumes "0 \<le> now" and "carries hs ''retry-after'' (map_option dec secs)" and "pred_option (\<lambda>n. n \<le> U64_MAX) secs"
  shows
   "(stated_ok DurationString r \<and> stated_ok DurationString t \<and>
     sends hs ''x-ratelimit-limit-requests'' ''x-ratelimit-remaining-requests'' ''x-ratelimit-reset-requests'' r \<and>
     sends hs ''x-ratelimit-limit-tokens'' ''x-ratelimit-remaining-tokens'' ''x-ratelimit-reset-tokens'' t \<longrightarrow>
     parse_at OPENAI hs now = Inr \<lparr>info_requests = reported now r, info_tokens = reported now t,
       info_retry_after = map_option from_secs secs\<rparr>) \<and>
    (stated_ok Rfc3339 r \<and> stated_ok Rfc3339 t \<and>
     sends hs ''anthropic-ratelimit-requests-limit'' ''anthropic-ratelimit-requests-remaining''
       ''anthropic-ratelimit-requests-reset'' r \<and>
     sends hs ''anthropic-ratelimit-tokens-limit'' ''anthropic-ratelimit-tokens-remaining''
       ''anthropic-ratelimit-tokens-reset'' t \<longrightarrow>
     parse_at ANTHROPIC hs now = Inr \<lparr>info_requests = reported now r, info_tokens = reported now t,
       info_retry_after = map_option from_secs secs\<rparr>) \<and>
    (stated_ok UnixSeconds r \<and> sends hs ''x-ratelimit-limit'' ''x-ratelimit-remaining'' ''x-ratelimit-reset'' r \<longrightarrow>
     parse_at GITHUB hs now = Inr \<lparr>info_requests = reported now r, info_tokens = None,
       info_retry_after = map_option from_secs secs\<rparr>) \<and>
    (stated_ok DeltaSeconds r \<and> sends hs ''ratelimit-limit'' ''ratelimit-remaining'' ''ratelimit-reset'' r \<longrightarrow>
     parse_at RFC hs now = Inr \<lparr>info_requests = reported now r, info_tokens = None,
       info_retry_after = map_option from_secs secs\<rparr>) \<and>
    parse_at STRIPE hs now = Inr \<lparr>info_requests = None, info_tokens = None, info_retry_after = map_option from_secs secs\<rparr> \<and>
    parse_at AWS hs now = Inr \<lparr>info_requests = None, info_tokens = None, info_retry_after = map_option from_secs secs\<rparr>"
proof -
  note parsed = retry_after_read [OF assms(2,3)]
  note windows = window_read [OF _ _ assms(1), of OPENAI _ hs] window_read [OF _ _ assms(1), of ANTHROPIC _ hs]
    window_read [OF _ _ assms(1), of GITHUB _ hs] window_read [OF _ _ assms(1), of RFC _ hs]
  show ?thesis
    using parsed [of OPENAI now] parsed [of ANTHROPIC now] parsed [of GITHUB now] parsed [of RFC now]
      parsed [of STRIPE now] parsed [of AWS now] windows
    by (simp add: OPENAI_def ANTHROPIC_def GITHUB_def RFC_def STRIPE_def AWS_def)
qed

theorem reset_formats_round_trip_witness:
  "parse_reset DeltaSeconds (dec 30) 86400 = Some (from_secs 30) \<and>
   parse_reset DurationString (dec 6 @ u ''m'' @ dec 30 @ u ''ms'') 86400 = Some 360030000000 \<and>
   parse_reset UnixSeconds (dec 86407) 86400 = Some (from_secs 7) \<and>
   parse_reset Rfc3339 (rfc3339_text 1970 1 2 2 0 30 [46, 53] (Offset False 2 0)) 86400 = Some (from_secs 30)"
proof -
  let ?ps = "[(6, u ''m''), (30, u ''ms'')]"
  have units: "unit_nanos (u ''m'') = Some 60000000000" "unit_nanos (u ''ms'') = Some 1000000"
    by (simp_all add: unit_nanos_def u_def)
  have "unix_secs 1970 1 2 2 0 30 = 93630" by (simp add: unix_secs_def calendar_days_def days_to_year_def)
  moreover have "concat (map piece ?ps) = dec 6 @ u ''m'' @ dec 30 @ u ''ms''" by (simp add: piece_def)
  moreover have "sum_list (map piece_nanos ?ps) = 360030000000" by (simp add: piece_nanos_pair units)
  moreover have "frac_ok [46, 53]" by (simp add: frac_ok_def all_digits_def is_ascii_digit_def)
  ultimately show ?thesis
    using reset_formats_round_trip [of 30 ?ps 86407 1970 1 2 2 0 30 "Offset False 2 0" "[46, 53]" 86400] units
    by (simp add: valid_instant_def U64_MAX_def I64_MAX_def)
qed

text \<open>A response of the OpenAI interface in mixed case, with a foreign header first.\<close>

definition openai_response :: "(ustring \<times> ustring) list" where
  "openai_response = [(u ''Content-Type'', u ''text/plain''),
     (u ''X-RateLimit-Remaining-Requests'', dec 59), (u ''x-ratelimit-limit-requests'', dec 60),
     (u ''X-RATELIMIT-RESET-TOKENS'', dec 6 @ u ''m''), (u ''Retry-After'', dec 2)]"

theorem profiles_read_their_headers_witness:
  "parse_at OPENAI openai_response 0 = Inr \<lparr>
     info_requests = Some \<lparr>win_limit = Some 60, win_remaining = Some 59, win_reset = None\<rparr>,
     info_tokens = Some \<lparr>win_limit = None, win_remaining = None, win_reset = Some 360000000000\<rparr>,
     info_retry_after = Some (from_secs 2)\<rparr>"
proof -
  let ?r = "\<lparr>sw_stated_limit = Some 60, sw_stated_remaining = Some 59, sw_stated_reset = None\<rparr>"
  let ?t = "\<lparr>sw_stated_limit = None, sw_stated_remaining = None, sw_stated_reset = Some (In_Pieces [(6, u ''m'')])\<rparr>"
  have split: "carries hs name (Some v) \<longleftrightarrow> header hs (u name) = Some v" for hs name v
  proof
    assume "header hs (u name) = Some v"
    then obtain k where f: "find (\<lambda>(k, _). eq_ignore_case k (u name)) hs = Some (k, v)" by (auto simp: header_def)
    then obtain i where "i < length hs" "(k, v) = hs ! i" "eq_ignore_case (fst (hs ! i)) (u name)"
      "\<forall>j<i. \<not> eq_ignore_case (fst (hs ! j)) (u name)"
      by (auto simp: find_Some_iff split_beta)
    then have i: "i < length hs" "hs ! i = (k, v)" "eq_ignore_case k (u name)"
      "\<forall>j<i. \<not> eq_ignore_case (fst (hs ! j)) (u name)" by (metis fst_conv)+
    then have "hs = take i hs @ (k, v) # drop (Suc i) hs" using id_take_nth_drop [of i hs] by simp
    moreover have "\<forall>h \<in> set (take i hs). \<not> eq_ignore_case (fst h) (u name)"
      using i(1,4) by (fastforce simp: in_set_conv_nth)
    ultimately show "carries hs name (Some v)" using i(3) by (auto simp: carries_def)
  qed (rule header_carries)
  note names = openai_response_def header_def eq_ignore_case_def u_def to_lower_def
  have unit: "unit_nanos (u ''m'') = Some 60000000000" by (simp add: unit_nanos_def u_def)
  have absent: "carries openai_response ''x-ratelimit-reset-requests'' None"
    "carries openai_response ''x-ratelimit-limit-tokens'' None" "carries openai_response ''x-ratelimit-remaining-tokens'' None"
    by (simp_all add: carries_def names)
  have there: "carries openai_response ''x-ratelimit-limit-requests'' (Some (dec 60))"
    "carries openai_response ''x-ratelimit-remaining-requests'' (Some (dec 59))"
    "carries openai_response ''x-ratelimit-reset-tokens'' (Some (dec 6 @ u ''m''))"
    "carries openai_response ''retry-after'' (map_option dec (Some 2))"
    by (simp_all add: split names)
  have "stated_ok DurationString ?r" "stated_ok DurationString ?t"
    by (simp_all add: stated_ok_def unit piece_nanos_pair U64_MAX_def)
  moreover have "sends openai_response ''x-ratelimit-limit-requests'' ''x-ratelimit-remaining-requests'' ''x-ratelimit-reset-requests'' ?r"
    "sends openai_response ''x-ratelimit-limit-tokens'' ''x-ratelimit-remaining-tokens'' ''x-ratelimit-reset-tokens'' ?t"
    using there absent by (simp_all add: sends_def piece_def)
  ultimately show ?thesis
    using profiles_read_their_headers [OF _ there(4), of 0 ?r ?t] by (simp add: reported_def piece_nanos_pair unit U64_MAX_def)
qed

end
