(* ===== verification/Decision.thy ===== *)
theory Decision
  imports Net_Prelude
begin

text \<open>
  The answer of a limiter (\<open>src/decision.rs\<close>) and the error type of the
  waiting surface (\<open>src/error.rs\<close>).
\<close>

datatype decision =
    Acquired
  | Retry duration
  | Impossible

fun is_acquired :: "decision \<Rightarrow> bool" where
  "is_acquired Acquired = True"
| "is_acquired _ = False"

fun retry_after :: "decision \<Rightarrow> duration option" where
  "retry_after (Retry d) = Some d"
| "retry_after _ = None"

lemma is_acquired_iff [simp]: "is_acquired d \<longleftrightarrow> d = Acquired"
  by (cases d) auto

datatype throttle_error =
    CostExceedsCapacity u32 u32
  | CircuitOpen duration
  | QueueFull
  | DeadlineExceeded
  | BulkheadFull
  | InvalidConfig string
  | UnknownDimension usize
  | NotReady

fun error_kind :: "throttle_error \<Rightarrow> string" where
  "error_kind (CostExceedsCapacity _ _) = ''CostExceedsCapacity''"
| "error_kind (CircuitOpen _) = ''CircuitOpen''"
| "error_kind QueueFull = ''QueueFull''"
| "error_kind DeadlineExceeded = ''DeadlineExceeded''"
| "error_kind BulkheadFull = ''BulkheadFull''"
| "error_kind (InvalidConfig _) = ''InvalidConfig''"
| "error_kind (UnknownDimension _) = ''UnknownDimension''"
| "error_kind NotReady = ''NotReady''"

definition error_caption :: "throttle_error \<Rightarrow> string" where
  "error_caption _ = ''Throttle acquisition error''"

fun is_retryable :: "throttle_error \<Rightarrow> bool" where
  "is_retryable (CircuitOpen _) = True"
| "is_retryable QueueFull = True"
| "is_retryable BulkheadFull = True"
| "is_retryable (CostExceedsCapacity _ _) = False"
| "is_retryable DeadlineExceeded = False"
| "is_retryable (InvalidConfig _) = False"
| "is_retryable (UnknownDimension _) = False"
| "is_retryable NotReady = False"

end
