(* ===== verification/Wait_Engine.thy ===== *)
theory Wait_Engine
  imports Decision
begin

text \<open>
  The waiting engine (\<open>src/wait.rs\<close>) and the part of \<open>src/rt.rs\<close> it rests on.  A
  limiter supplies one synchronous step; the engine turns it into a future that
  sleeps, asks again, gives up at its deadline and gives back what it holds whenever it
  ends without a grant.  Every \<open>.await\<close> is a call of the runtime that also says
  whether the future is still alive afterwards: \<open>False\<close> is a future dropped there.
  The world \<open>'w\<close> is everything the await can change, the other tasks included.
\<close>

datatype step =
    Granted duration
  | Holding duration
  | Retry_Step duration
  | Never_Step

datatype refusal =
    Refusal_Never
  | Refusal_TimedOut

text \<open>
  The async runtime is a parameter of the model: its clock, adding a duration to an
  instant (\<open>None\<close> when the instant is not representable), the process-wide resume epoch,
  and the awaits: a sleep, a sleep raced against a resume, and a yield.
\<close>

record 'w runtime =
  rt_now :: "'w \<Rightarrow> nat"
  rt_checked_add :: "nat \<Rightarrow> duration \<Rightarrow> nat option"
  rt_epoch :: "'w \<Rightarrow> usize"
  rt_sleep :: "duration \<Rightarrow> 'w \<Rightarrow> bool \<times> 'w"
  rt_race :: "duration \<Rightarrow> 'w \<Rightarrow> bool \<times> 'w"
  rt_yield :: "'w \<Rightarrow> bool \<times> 'w"

definition sleep_unless_resumed :: "'w runtime \<Rightarrow> duration \<Rightarrow> usize \<Rightarrow> 'w \<Rightarrow> bool \<times> 'w" where
  "sleep_unless_resumed rt d epoch w =
     (if d \<le> from_millis 1 then rt_sleep rt d w
      else if rt_epoch rt w \<noteq> epoch then (True, w)
      else rt_race rt d w)"

text \<open>\<open>quiet rt I\<close>: nothing that happens during an await breaks \<open>I\<close>.\<close>

definition quiet :: "'w runtime \<Rightarrow> ('w \<Rightarrow> bool) \<Rightarrow> bool" where
  "quiet rt I \<longleftrightarrow> (\<forall>d w. I w \<longrightarrow> I (snd (rt_sleep rt d w)) \<and> I (snd (rt_race rt d w))) \<and>
     (\<forall>w. I w \<longrightarrow> I (snd (rt_yield rt w)))"

lemma quiet_awaits:
  assumes "quiet rt I" "I w"
  shows "rt_sleep rt d w = (a, w') \<Longrightarrow> I w'" "rt_race rt d w = (a, w') \<Longrightarrow> I w'"
    "rt_yield rt w = (a, w') \<Longrightarrow> I w'"
  using assms by (metis quiet_def snd_conv)+

definition RACE_YIELDS :: u32 where
  "RACE_YIELDS = 4"

definition RACE_BACKOFF :: duration where
  "RACE_BACKOFF = from_millis 1"

type_synonym deadline = "nat option"

definition deadline_after :: "'w runtime \<Rightarrow> duration option \<Rightarrow> 'w \<Rightarrow> deadline" where
  "deadline_after rt timeout w =
     (case timeout of None \<Rightarrow> None | Some t \<Rightarrow> rt_checked_add rt (rt_now rt w) t)"

definition deadline_remaining :: "'w runtime \<Rightarrow> deadline \<Rightarrow> 'w \<Rightarrow> duration" where
  "deadline_remaining rt dl w = (case dl of None \<Rightarrow> DURATION_MAX | Some at \<Rightarrow> at - rt_now rt w)"

text \<open>\<open>Release\<close>: what a waiter holds, and whether it must be given back when dropped.\<close>

record 't release_guard =
  g_state :: 't
  g_armed :: bool

definition guard_fire ::
  "('t \<Rightarrow> 'w \<Rightarrow> 't \<times> 'w) \<Rightarrow> 't release_guard \<Rightarrow> 'w \<Rightarrow> 't release_guard \<times> 'w" where
  "guard_fire give_back g w =
     (if g_armed g
      then (case give_back (g_state g) w of (t, w') \<Rightarrow> (\<lparr>g_state = t, g_armed = False\<rparr>, w'))
      else (g, w))"

datatype wait_end = Wait_Ok | Wait_Err refusal | Wait_Dropped

subsection \<open>The loops\<close>

text \<open>After a grant: a pause set while the reservation matured holds it too.\<close>

partial_function (option) pause_loop ::
  "'w runtime \<Rightarrow> ('t \<Rightarrow> 'w \<Rightarrow> 't \<times> 'w) \<Rightarrow> ('w \<Rightarrow> duration) \<Rightarrow> deadline \<Rightarrow>
   't release_guard \<Rightarrow> 'w \<Rightarrow> (wait_end \<times> 't release_guard \<times> 'w) option" where
  "pause_loop rt give_back paused dl g w =
     (let epoch = rt_epoch rt w; pause = paused w in
      if pause = 0 then Some (Wait_Ok, g\<lparr>g_armed := False\<rparr>, w)
      else if pause > deadline_remaining rt dl w
      then (case guard_fire give_back g w of (g', w') \<Rightarrow> Some (Wait_Err Refusal_TimedOut, g', w'))
      else (case sleep_unless_resumed rt pause epoch w of (alive, w') \<Rightarrow>
              if alive then pause_loop rt give_back paused dl g w'
              else Some (Wait_Dropped, g, w')))"

text \<open>One nap between two steps.  \<open>Inl\<close> ends the wait, \<open>Inr\<close> goes round again with
  the new count of zero-length waits.\<close>

definition nap_after ::
  "'w runtime \<Rightarrow> ('t \<Rightarrow> 'w \<Rightarrow> 't \<times> 'w) \<Rightarrow> ('w \<Rightarrow> duration) \<Rightarrow> deadline \<Rightarrow> usize \<Rightarrow> u32 \<Rightarrow>
   duration \<Rightarrow> 't release_guard \<Rightarrow> 'w \<Rightarrow>
   (wait_end \<times> 't release_guard \<times> 'w) + (u32 \<times> 't release_guard \<times> 'w)" where
  "nap_after rt give_back paused dl epoch zero_waits after_wait g w =
     (let sleep_for = (\<lambda>nap zw.
        let pause = paused w in
        if rt_epoch rt w \<noteq> epoch then Inr (zw, g, w)
        else
          (case (if pause = 0 then rt_sleep rt nap w else sleep_unless_resumed rt nap epoch w) of
             (alive, w') \<Rightarrow> if alive then Inr (zw, g, w') else Inl (Wait_Dropped, g, w')))
      in
      if after_wait = 0 then
        (let zw = sat_add32 zero_waits 1 in
         if zw \<le> RACE_YIELDS then
           (case rt_yield rt w of (alive, w') \<Rightarrow>
              if alive then Inr (zw, g, w') else Inl (Wait_Dropped, g, w'))
         else
           (let left = deadline_remaining rt dl w in
            if left = 0
            then (case guard_fire give_back g w of (g', w') \<Rightarrow> Inl (Wait_Err Refusal_TimedOut, g', w'))
            else sleep_for (min RACE_BACKOFF left) zw))
      else sleep_for after_wait 0)"

text \<open>One round of the outer loop: a step, and what its answer calls for.\<close>

definition wait_round ::
  "'w runtime \<Rightarrow> ('t \<Rightarrow> duration \<Rightarrow> 'w \<Rightarrow> step \<times> 't \<times> 'w) \<Rightarrow> ('t \<Rightarrow> 'w \<Rightarrow> 't \<times> 'w) \<Rightarrow>
   ('w \<Rightarrow> duration) \<Rightarrow> deadline \<Rightarrow> u32 \<Rightarrow> 't release_guard \<Rightarrow> 'w \<Rightarrow>
   ((wait_end \<times> 't release_guard \<times> 'w) + (u32 \<times> 't release_guard \<times> 'w)) option" where
  "wait_round rt stp give_back paused dl zero_waits g w =
     (let epoch = rt_epoch rt w; budget = deadline_remaining rt dl w in
      case stp (g_state g) budget w of (answer, t, w1) \<Rightarrow>
        (case answer of
           Granted wait \<Rightarrow>
             (let g1 = \<lparr>g_state = t, g_armed = True\<rparr> in
              case (if wait \<noteq> 0 then rt_sleep rt wait w1 else (True, w1)) of (alive, w2) \<Rightarrow>
                if alive then map_option Inl (pause_loop rt give_back paused dl g1 w2)
                else Some (Inl (Wait_Dropped, g1, w2)))
         | Holding wait \<Rightarrow>
             (let g1 = \<lparr>g_state = t, g_armed = True\<rparr> in
              if wait > budget
              then (case guard_fire give_back g1 w1 of (g2, w2) \<Rightarrow>
                      Some (Inl (Wait_Err Refusal_TimedOut, g2, w2)))
              else Some (nap_after rt give_back paused dl epoch zero_waits wait g1 w1))
         | Retry_Step wait \<Rightarrow>
             (let g1 = \<lparr>g_state = t, g_armed = False\<rparr> in
              if wait > budget then Some (Inl (Wait_Err Refusal_TimedOut, g1, w1))
              else Some (nap_after rt give_back paused dl epoch zero_waits wait g1 w1))
         | Never_Step \<Rightarrow>
             Some (Inl (Wait_Err Refusal_Never, \<lparr>g_state = t, g_armed = False\<rparr>, w1))))"

partial_function (option) wait_loop ::
  "'w runtime \<Rightarrow> ('t \<Rightarrow> duration \<Rightarrow> 'w \<Rightarrow> step \<times> 't \<times> 'w) \<Rightarrow> ('t \<Rightarrow> 'w \<Rightarrow> 't \<times> 'w) \<Rightarrow>
   ('w \<Rightarrow> duration) \<Rightarrow> deadline \<Rightarrow> u32 \<Rightarrow> 't release_guard \<Rightarrow> 'w \<Rightarrow>
   (wait_end \<times> 't release_guard \<times> 'w) option" where
  "wait_loop rt stp give_back paused dl zero_waits g w =
     (case wait_round rt stp give_back paused dl zero_waits g w of
        None \<Rightarrow> None
      | Some r \<Rightarrow>
          (case r of
             Inl result \<Rightarrow> Some result
           | Inr (zw, g', w') \<Rightarrow> wait_loop rt stp give_back paused dl zw g' w'))"

text \<open>The whole wait: the guard is dropped, and fires if still armed, however it ends.\<close>

definition wait_with ::
  "'w runtime \<Rightarrow> 't \<Rightarrow> ('t \<Rightarrow> duration \<Rightarrow> 'w \<Rightarrow> step \<times> 't \<times> 'w) \<Rightarrow> ('t \<Rightarrow> 'w \<Rightarrow> 't \<times> 'w) \<Rightarrow>
   ('w \<Rightarrow> duration) \<Rightarrow> duration option \<Rightarrow> 'w \<Rightarrow> (wait_end \<times> 't \<times> 'w) option" where
  "wait_with rt st stp give_back paused timeout w =
     (case wait_loop rt stp give_back paused (deadline_after rt timeout w) 0
             \<lparr>g_state = st, g_armed = False\<rparr> w of
        None \<Rightarrow> None
      | Some (r, g, w') \<Rightarrow>
          (case guard_fire give_back g w' of (g', w'') \<Rightarrow> Some (r, g_state g', w'')))"

definition wait_for ::
  "'w runtime \<Rightarrow> (duration \<Rightarrow> 'w \<Rightarrow> step \<times> 'w) \<Rightarrow> ('w \<Rightarrow> 'w) \<Rightarrow>
   ('w \<Rightarrow> duration) \<Rightarrow> duration option \<Rightarrow> 'w \<Rightarrow> (wait_end \<times> 'w) option" where
  "wait_for rt stp give_back paused timeout w =
     (case wait_with rt () (\<lambda>_ budget w. case stp budget w of (s, w') \<Rightarrow> (s, (), w'))
             (\<lambda>_ w. ((), give_back w)) paused timeout w of
        None \<Rightarrow> None
      | Some (r, _, w') \<Rightarrow> Some (r, w'))"

subsection \<open>The contract between a step and the engine\<close>

text \<open>
  What the engine relies on: \<open>full\<close>, \<open>part\<close> and \<open>none\<close> say that the whole request,
  something, or nothing is held, and \<open>gone\<close> that what was held has been given back.  The
  step's answer says which, giving back leads to \<open>gone\<close>, and no await changes it.
\<close>

locale waiting =
  fixes rt :: "'w runtime"
    and stp :: "'t \<Rightarrow> duration \<Rightarrow> 'w \<Rightarrow> step \<times> 't \<times> 'w"
    and give_back :: "'t \<Rightarrow> 'w \<Rightarrow> 't \<times> 'w"
    and full part none gone :: "'t \<Rightarrow> 'w \<Rightarrow> bool"
  assumes step_answer:
      "none t w \<or> part t w \<Longrightarrow> stp t budget w = (s, t', w') \<Longrightarrow>
       (case s of Granted _ \<Rightarrow> full t' w' | Holding _ \<Rightarrow> part t' w'
        | Retry_Step _ \<Rightarrow> none t' w' | Never_Step \<Rightarrow> none t' w')"
    and gives_back: "full t w \<or> part t w \<Longrightarrow> give_back t w = (t', w') \<Longrightarrow> gone t' w'"
    and sleep_keeps:
      "rt_sleep rt d w = (alive, w') \<Longrightarrow>
       (full t w \<longrightarrow> full t w') \<and> (part t w \<longrightarrow> part t w') \<and> (none t w \<longrightarrow> none t w')"
    and race_keeps:
      "rt_race rt d w = (alive, w') \<Longrightarrow>
       (full t w \<longrightarrow> full t w') \<and> (part t w \<longrightarrow> part t w') \<and> (none t w \<longrightarrow> none t w')"
    and yield_keeps:
      "rt_yield rt w = (alive, w') \<Longrightarrow>
       (full t w \<longrightarrow> full t w') \<and> (part t w \<longrightarrow> part t w') \<and> (none t w \<longrightarrow> none t w')"
begin

definition held_ok :: "'t release_guard \<Rightarrow> 'w \<Rightarrow> bool" where
  "held_ok g w \<longleftrightarrow>
     (if g_armed g then full (g_state g) w \<or> part (g_state g) w
      else none (g_state g) w \<or> gone (g_state g) w)"

definition ended :: "wait_end \<Rightarrow> 't release_guard \<Rightarrow> 'w \<Rightarrow> bool" where
  "ended r g w \<longleftrightarrow>
     (case r of Wait_Ok \<Rightarrow> \<not> g_armed g \<and> full (g_state g) w | _ \<Rightarrow> held_ok g w)"

definition loop_ok :: "'t release_guard \<Rightarrow> 'w \<Rightarrow> bool" where
  "loop_ok g w \<longleftrightarrow> (if g_armed g then part (g_state g) w else none (g_state g) w)"

lemma loop_held: "loop_ok g w \<Longrightarrow> held_ok g w"
  by (auto simp: loop_ok_def held_ok_def split: if_splits)

lemma nap_keeps:
  "sleep_unless_resumed rt d e w = (alive, w') \<Longrightarrow>
   (full t w \<longrightarrow> full t w') \<and> (part t w \<longrightarrow> part t w') \<and> (none t w \<longrightarrow> none t w')"
  by (auto simp: sleep_unless_resumed_def dest: sleep_keeps race_keeps split: if_splits)

lemma fire_ok: "held_ok g w \<Longrightarrow> guard_fire give_back g w = (g', w') \<Longrightarrow>
   \<not> g_armed g' \<and> (none (g_state g') w' \<or> gone (g_state g') w')"
  by (auto simp: held_ok_def guard_fire_def intro: gives_back split: prod.splits if_splits)

lemma loop_moves:
  "loop_ok g w \<Longrightarrow>
   (\<And>t. (full t w \<longrightarrow> full t w') \<and> (part t w \<longrightarrow> part t w') \<and> (none t w \<longrightarrow> none t w')) \<Longrightarrow>
   loop_ok g w'"
  by (auto simp: loop_ok_def split: if_splits)

lemma pause_loop_ended:
  "pause_loop rt' gb paused dl g w = Some y \<Longrightarrow> rt' = rt \<Longrightarrow> gb = give_back \<Longrightarrow>
   g_armed g \<Longrightarrow> full (g_state g) w \<Longrightarrow> (case y of (r, g', w') \<Rightarrow> ended r g' w')"
proof (induction rt' gb paused dl g w y rule: pause_loop.raw_induct [rotated, consumes 1])
  case (1 f rt' gb paused dl g w y)
  obtain g2 w2 where f: "guard_fire give_back g w = (g2, w2)" by fastforce
  have h: "held_ok g w" using 1(5,6) by (simp add: held_ok_def)
  obtain alive w1 where n: "sleep_unless_resumed rt (paused w) (rt_epoch rt w) w = (alive, w1)"
    by fastforce
  with 1(6) have w1: "full (g_state g) w1" using nap_keeps by blast
  note body = 1(2) [unfolded 1(3,4) Let_def f n prod.case]
  consider "paused w = 0" | "paused w \<noteq> 0" "paused w > deadline_remaining rt dl w"
    | "paused w \<noteq> 0" "\<not> paused w > deadline_remaining rt dl w" by blast
  then show ?case
  proof cases
    case 1
    then show ?thesis using body \<open>full (g_state g) w\<close> by (auto simp: ended_def)
  next
    case 2
    then show ?thesis using body fire_ok [OF h f] by (auto simp: ended_def held_ok_def)
  next
    case 3
    then show ?thesis
      using body 1(1) [OF _ 1(3,4,5) w1] 1(5) w1
      by (cases alive) (auto simp: ended_def held_ok_def 1(3,4))
  qed
qed

lemma nap_after_ok:
  assumes "loop_ok g w"
  shows "case nap_after rt give_back paused dl epoch zw a g w of
      Inl (r, g', w') \<Rightarrow> ended r g' w' | Inr (_, g', w') \<Rightarrow> loop_ok g' w'"
proof -
  obtain g2 w2 where f: "guard_fire give_back g w = (g2, w2)" by fastforce
  have fired: "ended (Wait_Err x) g2 w2" for x
    using fire_ok [OF loop_held [OF assms] f] by (simp add: ended_def held_ok_def)
  have gone: "loop_ok g w' \<Longrightarrow> ended Wait_Dropped g w'" for w'
    by (simp add: ended_def loop_held)
  obtain ay wy where y: "rt_yield rt w = (ay, wy)" by fastforce
  have yielded: "loop_ok g wy" by (rule loop_moves [OF assms]) (rule yield_keeps [OF y])
  have slept: "case (case (if paused w = 0 then rt_sleep rt nap w
        else sleep_unless_resumed rt nap epoch w) of
      (alive, w') \<Rightarrow> if alive then Inr (z, g, w') else Inl (Wait_Dropped, g, w')) of
      Inl (r, g', w') \<Rightarrow> ended r g' w' | Inr (_, g', w') \<Rightarrow> loop_ok g' w'"
    for nap and z :: u32
  proof -
    obtain as ws where n: "(if paused w = 0 then rt_sleep rt nap w
        else sleep_unless_resumed rt nap epoch w) = (as, ws)" by fastforce
    have "loop_ok g ws"
      by (rule loop_moves [OF assms]) (use n sleep_keeps nap_keeps in \<open>metis (full_types)\<close>)
    with n gone show ?thesis by simp
  qed
  show ?thesis
    using assms slept fired yielded gone [OF yielded]
    by (simp add: nap_after_def Let_def f y)
qed

lemma wait_round_ok:
  assumes "loop_ok g w" and "wait_round rt stp give_back paused dl zw g w = Some y"
  shows "case y of Inl (r, g', w') \<Rightarrow> ended r g' w' | Inr (_, g', w') \<Rightarrow> loop_ok g' w'"
proof -
  let ?b = "deadline_remaining rt dl w"
  obtain s t w1 where st: "stp (g_state g) ?b w = (s, t, w1)" by (metis prod_cases3)
  have ans: "case s of Granted _ \<Rightarrow> full t w1 | Holding _ \<Rightarrow> part t w1
        | Retry_Step _ \<Rightarrow> none t w1 | Never_Step \<Rightarrow> none t w1"
    using step_answer [OF _ st] assms(1) by (auto simp: loop_ok_def split: if_splits)
  note round = assms(2) [unfolded wait_round_def Let_def st prod.case]
  show ?thesis
  proof (cases s)
    case (Granted d)
    let ?g = "\<lparr>g_state = t, g_armed = True\<rparr>"
    obtain alive w2 where n: "(if d \<noteq> 0 then rt_sleep rt d w1 else (True, w1)) = (alive, w2)"
      by fastforce
    have f: "full t w2" using n ans Granted sleep_keeps [of d w1 alive w2 t] by (auto split: if_splits)
    show ?thesis
      using round Granted n f pause_loop_ended [of rt give_back paused dl ?g w2]
      by (auto simp: ended_def held_ok_def split: if_splits)
  next
    case (Holding d)
    let ?g = "\<lparr>g_state = t, g_armed = True\<rparr>"
    have l: "loop_ok ?g w1" using ans Holding by (simp add: loop_ok_def)
    obtain g2 w2 where f: "guard_fire give_back ?g w1 = (g2, w2)" by fastforce
    show ?thesis
      using round Holding nap_after_ok [OF l, of paused dl "rt_epoch rt w" zw d] f
        fire_ok [OF loop_held [OF l] f]
      by (auto simp: ended_def held_ok_def split: if_splits)
  next
    case (Retry_Step d)
    let ?g = "\<lparr>g_state = t, g_armed = False\<rparr>"
    have l: "loop_ok ?g w1" using ans Retry_Step by (simp add: loop_ok_def)
    show ?thesis
      using round Retry_Step nap_after_ok [OF l, of paused dl "rt_epoch rt w" zw d] loop_held [OF l]
      by (auto simp: ended_def split: if_splits)
  next
    case Never_Step
    then show ?thesis using round ans by (auto simp: ended_def held_ok_def)
  qed
qed

lemma wait_loop_ended:
  "wait_loop rt' stp' gb paused dl zw g w = Some y \<Longrightarrow> rt' = rt \<Longrightarrow> stp' = stp \<Longrightarrow>
   gb = give_back \<Longrightarrow> loop_ok g w \<Longrightarrow> (case y of (r, g', w') \<Rightarrow> ended r g' w')"
proof (induction rt' stp' gb paused dl zw g w y rule: wait_loop.raw_induct [rotated, consumes 1])
  case (1 f rt' stp' gb paused dl zw g w y)
  from 1(2) obtain x where x: "wait_round rt stp give_back paused dl zw g w = Some x"
    using 1(3-5) by (auto split: option.splits)
  from wait_round_ok [OF 1(6) x] show ?case
    using 1(1) [of rt' stp' gb paused dl] 1(2-5) x by (auto split: sum.splits prod.splits)
qed

text \<open>A wait that started with nothing held ends with everything it asked for, or with
  nothing.\<close>

lemma wait_all_or_nothing:
  assumes "none t w" and "wait_with rt t stp give_back paused timeout w = Some (r, t', w')"
  shows "if r = Wait_Ok then full t' w' else none t' w' \<or> gone t' w'"
proof -
  obtain r1 g1 w1 where l: "wait_loop rt stp give_back paused (deadline_after rt timeout w) 0
      \<lparr>g_state = t, g_armed = False\<rparr> w = Some (r1, g1, w1)"
    using assms(2) by (auto simp: wait_with_def split: option.splits)
  obtain g2 w2 where f: "guard_fire give_back g1 w1 = (g2, w2)" by fastforce
  have eqs: "r1 = r" "g_state g2 = t'" "w2 = w'" using assms(2) l f by (auto simp: wait_with_def)
  have "loop_ok \<lparr>g_state = t, g_armed = False\<rparr> w" using assms(1) by (simp add: loop_ok_def)
  from wait_loop_ended [OF l refl refl refl this] have e: "ended r g1 w1" using eqs by simp
  show ?thesis
  proof (cases "r = Wait_Ok")
    case True
    with e f eqs show ?thesis by (auto simp: ended_def guard_fire_def)
  next
    case False
    with e have "held_ok g1 w1" by (cases r) (auto simp: ended_def)
    from fire_ok [OF this f] False eqs show ?thesis by simp
  qed
qed

end

subsection \<open>Releases of a wait\<close>

text \<open>The same wait with a log: each answer of the step and each release is recorded in
  the world, whatever the step, the release and the runtime are.\<close>

datatype wait_event = Stepped step | Released

definition log_rt :: "'w runtime \<Rightarrow> ('w \<times> wait_event list) runtime" where
  "log_rt rt = \<lparr>
     rt_now = (\<lambda>(w, es). rt_now rt w),
     rt_checked_add = rt_checked_add rt,
     rt_epoch = (\<lambda>(w, es). rt_epoch rt w),
     rt_sleep = (\<lambda>d (w, es). case rt_sleep rt d w of (a, w') \<Rightarrow> (a, (w', es))),
     rt_race = (\<lambda>d (w, es). case rt_race rt d w of (a, w') \<Rightarrow> (a, (w', es))),
     rt_yield = (\<lambda>(w, es). case rt_yield rt w of (a, w') \<Rightarrow> (a, (w', es)))\<rparr>"

definition log_step ::
  "('t \<Rightarrow> duration \<Rightarrow> 'w \<Rightarrow> step \<times> 't \<times> 'w) \<Rightarrow>
   't \<Rightarrow> duration \<Rightarrow> 'w \<times> wait_event list \<Rightarrow> step \<times> 't \<times> ('w \<times> wait_event list)" where
  "log_step stp t budget = (\<lambda>(w, es).
     case stp t budget w of (s, t', w') \<Rightarrow> (s, t', (w', es @ [Stepped s])))"

definition log_release ::
  "('t \<Rightarrow> 'w \<Rightarrow> 't \<times> 'w) \<Rightarrow> 't \<Rightarrow> 'w \<times> wait_event list \<Rightarrow> 't \<times> ('w \<times> wait_event list)" where
  "log_release gb t = (\<lambda>(w, es). case gb t w of (t', w') \<Rightarrow> (t', (w', es @ [Released])))"

fun holds_something :: "step \<Rightarrow> bool" where
  "holds_something (Granted _) = True"
| "holds_something (Holding _) = True"
| "holds_something _ = False"

definition ends_in :: "(step \<Rightarrow> bool) \<Rightarrow> wait_event list \<Rightarrow> bool" where
  "ends_in P es \<longleftrightarrow> (\<exists>s es'. es = es' @ [Stepped s] \<and> P s \<and> Released \<notin> set es')"

definition released_once :: "wait_event list \<Rightarrow> bool" where
  "released_once es \<longleftrightarrow> (\<exists>es'. es = es' @ [Released] \<and> ends_in holds_something es')"

fun is_granted :: "step \<Rightarrow> bool" where
  "is_granted (Granted _) = True"
| "is_granted _ = False"

interpretation logged: waiting "log_rt rt" "log_step stp" "log_release gb"
  "\<lambda>_ (w, es). ends_in is_granted es"
  "\<lambda>_ (w, es). ends_in (\<lambda>s. holds_something s \<and> \<not> is_granted s) es"
  "\<lambda>_ (w, es). es = [] \<or> ends_in (\<lambda>s. \<not> holds_something s) es"
  "\<lambda>_ (w, es). released_once es"
proof (unfold_locales, goal_cases)
  case (1 t w budget s t' w')
  then have "Released \<notin> set (snd w)" by (auto simp: ends_in_def split: prod.splits)
  with 1(2) show ?case
    by (auto simp: log_step_def ends_in_def split: prod.splits step.splits)
next
  case (2 t w t' w')
  then have "ends_in holds_something (snd w)"
    by (cases w) (auto simp: ends_in_def elim: is_granted.elims)
  with 2(2) show ?case
    by (auto simp: log_release_def released_once_def split: prod.splits)
qed (auto simp: log_rt_def split: prod.splits)

text \<open>C3: what a wait holds is handed over or given back exactly once.  Whatever the
  step, the release and the runtime do, and wherever the future is dropped, a wait that
  ends with a grant has released nothing and its last step granted the request; every
  other end (refusal, deadline, a drop at any await) either follows a step that holds
  nothing, with no release at all, or runs the release once, as the very last thing.\<close>

theorem wait_releases_exactly_once:
  assumes "wait_with (log_rt rt) t (log_step stp) (log_release gb) paused timeout (w, []) =
     Some (r, t', (w', es))"
  shows "if r = Wait_Ok then ends_in is_granted es
         else es = [] \<or> ends_in (\<lambda>s. \<not> holds_something s) es \<or> released_once es"
  using logged.wait_all_or_nothing [OF _ assms] by (auto split: if_splits)

subsection \<open>Instrumented worlds\<close>

text \<open>
  A world \<open>'v\<close> that carries more than the program's world \<open>'w\<close>, with \<open>abs\<close> forgetting the
  surplus: when the runtime, the step and the release commute with \<open>abs\<close>, every wait of the
  program is the image of a wait over the richer world, so what holds there holds of it.
\<close>

locale engine_sim =
  fixes abs :: "'v \<Rightarrow> 'w"
    and rt :: "'v runtime" and rt' :: "'w runtime"
    and stp :: "'t \<Rightarrow> duration \<Rightarrow> 'v \<Rightarrow> step \<times> 't \<times> 'v" and stp' :: "'t \<Rightarrow> duration \<Rightarrow> 'w \<Rightarrow> step \<times> 't \<times> 'w"
    and gb :: "'t \<Rightarrow> 'v \<Rightarrow> 't \<times> 'v" and gb' :: "'t \<Rightarrow> 'w \<Rightarrow> 't \<times> 'w"
    and paused :: "'v \<Rightarrow> duration" and paused' :: "'w \<Rightarrow> duration"
  assumes sim_now: "rt_now rt' (abs v) = rt_now rt v"
    and sim_epoch: "rt_epoch rt' (abs v) = rt_epoch rt v"
    and sim_add: "rt_checked_add rt' = rt_checked_add rt"
    and sim_sleep: "rt_sleep rt' d (abs v) = map_prod id abs (rt_sleep rt d v)"
    and sim_race: "rt_race rt' d (abs v) = map_prod id abs (rt_race rt d v)"
    and sim_yield: "rt_yield rt' (abs v) = map_prod id abs (rt_yield rt v)"
    and sim_step: "stp' t b (abs v) = map_prod id (map_prod id abs) (stp t b v)"
    and sim_give: "gb' t (abs v) = map_prod id abs (gb t v)"
    and sim_paused: "paused' (abs v) = paused v"
begin

lemma sim_remaining: "deadline_remaining rt' dl (abs v) = deadline_remaining rt dl v"
  by (simp add: deadline_remaining_def sim_now split: option.splits)

lemma sim_nap: "sleep_unless_resumed rt' d e (abs v) = map_prod id abs (sleep_unless_resumed rt d e v)"
  by (simp add: sleep_unless_resumed_def sim_sleep sim_race sim_epoch)

lemma sim_fire: "guard_fire gb' g (abs v) = map_prod id abs (guard_fire gb g v)"
  by (simp add: guard_fire_def sim_give split: prod.splits)

lemmas sim = sim_now sim_epoch sim_add sim_sleep sim_race sim_yield sim_step sim_paused sim_remaining sim_nap sim_fire

lemma sim_nap_after:
  "nap_after rt' gb' paused' dl e zw a g (abs v) =
     map_sum (map_prod id (map_prod id abs)) (map_prod id (map_prod id abs)) (nap_after rt gb paused dl e zw a g v)"
  by (simp add: nap_after_def Let_def sim split: prod.splits)

lemma sim_pause_loop:
  "pause_loop rt0 gb0 paused0 dl g w = Some y \<Longrightarrow> rt0 = rt' \<Longrightarrow> gb0 = gb' \<Longrightarrow> paused0 = paused' \<Longrightarrow>
   w = abs v \<Longrightarrow> map_option (map_prod id (map_prod id abs)) (pause_loop rt gb paused dl g v) = Some y"
proof (induction rt0 gb0 paused0 dl g w y arbitrary: v rule: pause_loop.raw_induct [rotated, consumes 1])
  case (1 f rt0 gb0 paused0 dl g w y)
  obtain alive v1 where n: "sleep_unless_resumed rt (paused v) (rt_epoch rt v) v = (alive, v1)" by fastforce
  obtain g2 v2 where f: "guard_fire gb g v = (g2, v2)" by fastforce
  note body = 1(2) [unfolded 1(3-6) sim Let_def n f map_prod_simp prod.case id_def]
  show ?case
    using body 1(1) [OF _ refl refl refl refl, of dl g v1 y] n f
    by (subst pause_loop.simps) (auto simp: Let_def 1(3-6) split: if_splits prod.splits)
qed

lemma sim_wait_round:
  assumes "wait_round rt' stp' gb' paused' dl zw g (abs v) = Some y"
  shows "map_option (map_sum (map_prod id (map_prod id abs)) (map_prod id (map_prod id abs)))
    (wait_round rt stp gb paused dl zw g v) = Some y"
proof -
  obtain s t v1 where st: "stp (g_state g) (deadline_remaining rt dl v) v = (s, t, v1)" by (metis prod_cases3)
  note round = assms [unfolded wait_round_def Let_def sim st map_prod_simp prod.case id_def]
  show ?thesis
  proof (cases s)
    case (Granted d)
    obtain alive v2 where n: "(if d \<noteq> 0 then rt_sleep rt d v1 else (True, v1)) = (alive, v2)" by fastforce
    then have n': "(if d \<noteq> 0 then map_prod (\<lambda>x. x) abs (rt_sleep rt d v1) else (True, abs v1)) = (alive, abs v2)"
      by (auto split: if_splits)
    show ?thesis
    proof (cases alive)
      case True
      obtain z where z: "pause_loop rt' gb' paused' dl \<lparr>g_state = t, g_armed = True\<rparr> (abs v2) = Some z" "y = Inl z"
        using round [unfolded Granted step.case n' prod.case] True by auto
      from sim_pause_loop [OF z(1) refl refl refl refl] z(2) Granted st n True show ?thesis
        by (auto simp: wait_round_def Let_def)
    next
      case False
      with round [unfolded Granted step.case n' prod.case] Granted st n show ?thesis
        by (auto simp: wait_round_def Let_def)
    qed
  qed (use round st in \<open>auto simp: wait_round_def Let_def sim sim_nap_after id_def split: if_splits prod.splits\<close>)
qed

lemma sim_wait_loop:
  "wait_loop rt0 stp0 gb0 paused0 dl zw g w = Some y \<Longrightarrow> rt0 = rt' \<Longrightarrow> stp0 = stp' \<Longrightarrow> gb0 = gb' \<Longrightarrow>
   paused0 = paused' \<Longrightarrow> w = abs v \<Longrightarrow>
   map_option (map_prod id (map_prod id abs)) (wait_loop rt stp gb paused dl zw g v) = Some y"
proof (induction rt0 stp0 gb0 paused0 dl zw g w y arbitrary: v rule: wait_loop.raw_induct [rotated, consumes 1])
  case (1 f rt0 stp0 gb0 paused0 dl zw g w y)
  obtain z' where z': "wait_round rt' stp' gb' paused' dl zw g (abs v) = Some z'"
    using 1(2-7) by (auto split: option.splits)
  from sim_wait_round [OF this] obtain z where z: "wait_round rt stp gb paused dl zw g v = Some z"
    and zz: "z' = map_sum (map_prod id (map_prod id abs)) (map_prod id (map_prod id abs)) z" by auto
  note body = 1(2) [unfolded 1(3-7) z' zz option.case]
  show ?case
  proof (cases z)
    case (Inl x)
    with body z show ?thesis by (subst wait_loop.simps) (auto split: prod.splits)
  next
    case (Inr x)
    obtain zw1 g1 v1 where x: "x = (zw1, g1, v1)" by (cases x)
    with body Inr have "f rt' stp' gb' paused' dl zw1 g1 (abs v1) = Some y" by simp
    from 1(1) [OF this refl refl refl refl refl] show ?thesis
      using z Inr x by (subst wait_loop.simps) simp
  qed
qed

lemma sim_wait_with:
  assumes "wait_with rt' t stp' gb' paused' timeout (abs v) = Some (r, t', w')"
  shows "\<exists>v'. wait_with rt t stp gb paused timeout v = Some (r, t', v') \<and> w' = abs v'"
proof -
  have dl: "deadline_after rt' timeout (abs v) = deadline_after rt timeout v"
    by (simp add: deadline_after_def sim split: option.splits)
  obtain y where y: "wait_loop rt' stp' gb' paused' (deadline_after rt timeout v) 0 \<lparr>g_state = t, g_armed = False\<rparr> (abs v) = Some y"
    using assms by (auto simp: wait_with_def dl split: option.splits)
  from sim_wait_loop [OF this refl refl refl refl refl] assms y show ?thesis
    by (auto simp: wait_with_def dl sim split: prod.splits)
qed

end

subsection \<open>Deadlines\<close>



















text \<open>A virtual clock that sleeps exactly, as a paused test clock does.\<close>

definition virtual_rt :: "nat runtime" where
  "virtual_rt = \<lparr>rt_now = (\<lambda>w. w), rt_checked_add = (\<lambda>a d. Some (a + d)), rt_epoch = (\<lambda>_. 0),
     rt_sleep = (\<lambda>d w. (True, w + d)), rt_race = (\<lambda>d w. (True, w + d)), rt_yield = (\<lambda>w. (True, w))\<rparr>"



theorem wait_releases_exactly_once_witness:
  "wait_with (log_rt virtual_rt) () (log_step (\<lambda>t b w. (Holding 5, t, w))) (log_release (\<lambda>t w. (t, w)))
     (\<lambda>_. 0) (Some 3) (7, []) = Some (Wait_Err Refusal_TimedOut, (), (7, [Stepped (Holding 5), Released]))
   \<and> released_once [Stepped (Holding 5), Released]"
proof -
  have w: "wait_with (log_rt virtual_rt) () (log_step (\<lambda>t b w. (Holding 5, t, w)))
      (log_release (\<lambda>t w. (t, w))) (\<lambda>_. 0) (Some 3) (7, []) =
      Some (Wait_Err Refusal_TimedOut, (), (7, [Stepped (Holding 5), Released]))"
    by (simp add: wait_with_def wait_loop.simps wait_round_def log_rt_def log_step_def log_release_def
        virtual_rt_def deadline_after_def deadline_remaining_def guard_fire_def)
  from wait_releases_exactly_once [OF w] w show ?thesis by (auto simp: ends_in_def)
qed

end
