(* ===== verification/Limiter.thy ===== *)
theory Limiter
  imports Wait_Engine
begin

text \<open>
  The limiter seam (\<open>src/limiter.rs\<close>).  A \<open>&dyn Limiter\<close> is a record of its
  methods, each a function on a world that holds the state of every limiter, so
  that two items of a composite may be the same shared limiter.  The trait's
  default methods, the forwarding implementations for references, the keyed
  scope adapter and the engines every composite uses (peek, acquire, reserve,
  drain, step and release over a list of items) follow the source one to one.
\<close>

record 'w limiter =
  l_peek :: "u32 \<Rightarrow> 'w \<Rightarrow> decision \<times> 'w"
  l_acquire_cost :: "u32 \<Rightarrow> 'w \<Rightarrow> decision \<times> 'w"
  l_available :: "'w \<Rightarrow> u32 \<times> 'w"
  l_capacity :: "'w \<Rightarrow> u32"
  l_refund :: "u32 \<Rightarrow> 'w \<Rightarrow> 'w"
  l_reserve :: "u32 \<Rightarrow> duration \<Rightarrow> 'w \<Rightarrow> duration option \<times> 'w"
  l_pause_for :: "duration \<Rightarrow> 'w \<Rightarrow> 'w"
  l_paused_for :: "'w \<Rightarrow> duration"
  l_resume :: "'w \<Rightarrow> 'w"
  l_charge :: "u32 \<Rightarrow> 'w \<Rightarrow> u32 \<times> 'w"

type_synonym 'w item = "'w limiter \<times> u32"

subsection \<open>Default methods of the trait\<close>

definition default_refund :: "u32 \<Rightarrow> 'w \<Rightarrow> 'w" where
  "default_refund cost w = w"

definition default_reserve ::
  "(u32 \<Rightarrow> 'w \<Rightarrow> decision \<times> 'w) \<Rightarrow> u32 \<Rightarrow> duration \<Rightarrow> 'w \<Rightarrow> duration option \<times> 'w" where
  "default_reserve acquire cost max_wait w =
     (case acquire cost w of (d, w') \<Rightarrow> (if is_acquired d then Some 0 else None, w'))"

definition default_pause_for ::
  "('w \<Rightarrow> u32 \<times> 'w) \<Rightarrow> (u32 \<Rightarrow> 'w \<Rightarrow> decision \<times> 'w) \<Rightarrow> duration \<Rightarrow> 'w \<Rightarrow> 'w" where
  "default_pause_for avail acquire d w =
     (case avail w of (a, w') \<Rightarrow> if a > 0 then snd (acquire a w') else w')"

definition default_paused_for :: "'w \<Rightarrow> duration" where
  "default_paused_for w = 0"

definition default_resume :: "'w \<Rightarrow> 'w" where
  "default_resume w = w"

text \<open>The loop of \<open>charge\<close>: reserve in chunks of at most the capacity; when a
  chunk cannot be reserved, take what is available and report the rest.\<close>

function charge_loop :: "'w limiter \<Rightarrow> u32 \<Rightarrow> u32 \<Rightarrow> 'w \<Rightarrow> u32 \<times> 'w" where
  "charge_loop l capacity left w =
     (if left = 0 \<or> capacity = 0 then (left, w)
      else
        (let chunk = min left capacity in
         case l_reserve l chunk DURATION_MAX w of
           (None, w1) \<Rightarrow>
             (case l_available l w1 of (a, w2) \<Rightarrow>
                (let available = min a left in
                 if available > 0
                 then (case l_acquire_cost l available w2 of (d, w3) \<Rightarrow>
                         (if is_acquired d then left - available else left, w3))
                 else (left, w2)))
         | (Some _, w1) \<Rightarrow> charge_loop l capacity (left - chunk) w1))"
  by pat_completeness auto
termination
  by (relation "measure (\<lambda>(l, capacity, left, w). left)") auto

declare charge_loop.simps [simp del]

definition default_charge :: "'w limiter \<Rightarrow> u32 \<Rightarrow> 'w \<Rightarrow> u32 \<times> 'w" where
  "default_charge l cost w =
     (let capacity = l_capacity l w in
      if capacity = 0 then (cost, w) else charge_loop l capacity cost w)"

text \<open>\<open>impl Limiter for &L\<close>, \<open>Box<L>\<close> and \<open>Arc<L>\<close>: every method forwards.\<close>

definition limiter_ref :: "'w limiter \<Rightarrow> 'w limiter" where
  "limiter_ref l = \<lparr>
     l_peek = (\<lambda>cost w. l_peek l cost w),
     l_acquire_cost = (\<lambda>cost w. l_acquire_cost l cost w),
     l_available = (\<lambda>w. l_available l w),
     l_capacity = (\<lambda>w. l_capacity l w),
     l_refund = (\<lambda>cost w. l_refund l cost w),
     l_reserve = (\<lambda>cost max_wait w. l_reserve l cost max_wait w),
     l_pause_for = (\<lambda>d w. l_pause_for l d w),
     l_paused_for = (\<lambda>w. l_paused_for l w),
     l_resume = (\<lambda>w. l_resume l w),
     l_charge = (\<lambda>cost w. l_charge l cost w)\<rparr>"

definition limiter_box :: "'w limiter \<Rightarrow> 'w limiter" where
  "limiter_box l = \<lparr>
     l_peek = (\<lambda>cost w. l_peek l cost w),
     l_acquire_cost = (\<lambda>cost w. l_acquire_cost l cost w),
     l_available = (\<lambda>w. l_available l w),
     l_capacity = (\<lambda>w. l_capacity l w),
     l_refund = (\<lambda>cost w. l_refund l cost w),
     l_reserve = (\<lambda>cost max_wait w. l_reserve l cost max_wait w),
     l_pause_for = (\<lambda>d w. l_pause_for l d w),
     l_paused_for = (\<lambda>w. l_paused_for l w),
     l_resume = (\<lambda>w. l_resume l w),
     l_charge = (\<lambda>cost w. l_charge l cost w)\<rparr>"

definition limiter_arc :: "'w limiter \<Rightarrow> 'w limiter" where
  "limiter_arc l = \<lparr>
     l_peek = (\<lambda>cost w. l_peek l cost w),
     l_acquire_cost = (\<lambda>cost w. l_acquire_cost l cost w),
     l_available = (\<lambda>w. l_available l w),
     l_capacity = (\<lambda>w. l_capacity l w),
     l_refund = (\<lambda>cost w. l_refund l cost w),
     l_reserve = (\<lambda>cost max_wait w. l_reserve l cost max_wait w),
     l_pause_for = (\<lambda>d w. l_pause_for l d w),
     l_paused_for = (\<lambda>w. l_paused_for l w),
     l_resume = (\<lambda>w. l_resume l w),
     l_charge = (\<lambda>cost w. l_charge l cost w)\<rparr>"

subsection \<open>Keyed scopes\<close>

record ('k, 'w) keyed_limiter =
  k_peek :: "'k \<Rightarrow> u32 \<Rightarrow> 'w \<Rightarrow> decision \<times> 'w"
  k_acquire_cost :: "'k \<Rightarrow> u32 \<Rightarrow> 'w \<Rightarrow> decision \<times> 'w"
  k_refund :: "'k \<Rightarrow> u32 \<Rightarrow> 'w \<Rightarrow> 'w"
  k_reserve :: "'k \<Rightarrow> u32 \<Rightarrow> duration \<Rightarrow> 'w \<Rightarrow> duration option \<times> 'w"
  k_capacity :: "'w \<Rightarrow> u32"

text \<open>\<open>KeyScope\<close> forwards to the scope at its key; \<open>available\<close> is constantly 0
  and the remaining methods are the trait's defaults.\<close>

definition key_scope :: "('k, 'w) keyed_limiter \<Rightarrow> 'k \<Rightarrow> 'w limiter" where
  "key_scope scope key =
     (let base = \<lparr>
        l_peek = (\<lambda>cost w. k_peek scope key cost w),
        l_acquire_cost = (\<lambda>cost w. k_acquire_cost scope key cost w),
        l_available = (\<lambda>w. (0, w)),
        l_capacity = (\<lambda>w. k_capacity scope w),
        l_refund = (\<lambda>cost w. k_refund scope key cost w),
        l_reserve = (\<lambda>cost max_wait w. k_reserve scope key cost max_wait w),
        l_pause_for = default_pause_for (\<lambda>w. (0, w)) (\<lambda>cost w. k_acquire_cost scope key cost w),
        l_paused_for = default_paused_for,
        l_resume = default_resume,
        l_charge = (\<lambda>cost w. (cost, w))\<rparr>
      in base\<lparr>l_charge := default_charge base\<rparr>)"

subsection \<open>Verdicts and the engines of the composites\<close>

datatype verdict =
    Ready
  | Wait duration
  | Never

fun fold_peek :: "verdict \<Rightarrow> decision \<Rightarrow> verdict" where
  "fold_peek Never _ = Never"
| "fold_peek acc Acquired = acc"
| "fold_peek Ready (Retry a) = Wait a"
| "fold_peek (Wait w) (Retry a) = Wait (max w a)"
| "fold_peek _ _ = Never"

fun finish_peek :: "verdict \<Rightarrow> decision" where
  "finish_peek Never = Impossible"
| "finish_peek Ready = Acquired"
| "finish_peek (Wait a) = Retry a"

fun peek_loop :: "verdict \<Rightarrow> 'w item list \<Rightarrow> 'w \<Rightarrow> verdict \<times> 'w" where
  "peek_loop acc [] w = (acc, w)"
| "peek_loop acc ((l, cost) # items) w =
     (case l_peek l cost w of (d, w1) \<Rightarrow>
        (let acc' = fold_peek acc d in
         if acc' = Never then (acc', w1) else peek_loop acc' items w1))"

definition peek_all :: "'w item list \<Rightarrow> 'w \<Rightarrow> decision \<times> 'w" where
  "peek_all items w = (case peek_loop Ready items w of (acc, w1) \<Rightarrow> (finish_peek acc, w1))"

definition refund_all :: "'w item list \<Rightarrow> 'w \<Rightarrow> 'w" where
  "refund_all items w = fold (\<lambda>(l, cost) w. l_refund l cost w) items w"

definition refund_first :: "'w item list \<Rightarrow> usize \<Rightarrow> 'w \<Rightarrow> 'w" where
  "refund_first items count w = fold (\<lambda>(l, cost) w. l_refund l cost w) (take count items) w"

text \<open>The commit loop of \<open>acquire_all\<close>: \<open>items\<close> is the whole list (for the
  rollback), the third argument what is left of the enumeration.\<close>

fun acquire_loop :: "'w item list \<Rightarrow> usize \<Rightarrow> 'w item list \<Rightarrow> 'w \<Rightarrow> decision \<times> 'w" where
  "acquire_loop items index [] w = (Acquired, w)"
| "acquire_loop items index ((l, cost) # rest) w =
     (case l_acquire_cost l cost w of
        (Acquired, w1) \<Rightarrow> acquire_loop items (Suc index) rest w1
      | (refused, w1) \<Rightarrow> (refused, refund_first items index w1))"

definition acquire_all :: "'w item list \<Rightarrow> 'w \<Rightarrow> decision \<times> 'w" where
  "acquire_all items w =
     (case peek_all items w of
        (Acquired, w1) \<Rightarrow> acquire_loop items 0 items w1
      | (other, w1) \<Rightarrow> (other, w1))"

definition HOLD_SLACK :: duration where
  "HOLD_SLACK = from_millis 10"

fun reserve_loop ::
  "'w item list \<Rightarrow> duration \<Rightarrow> usize \<Rightarrow> duration \<Rightarrow> 'w item list \<Rightarrow> 'w \<Rightarrow> duration option \<times> 'w" where
  "reserve_loop items max_wait index longest [] w = (Some longest, w)"
| "reserve_loop items max_wait index longest ((l, cost) # rest) w =
     (case l_reserve l cost max_wait w of
        (None, w1) \<Rightarrow> (None, refund_first items index w1)
      | (Some wait, w1) \<Rightarrow> reserve_loop items max_wait (Suc index) (max longest wait) rest w1)"

definition reserve_each :: "'w item list \<Rightarrow> duration \<Rightarrow> 'w \<Rightarrow> duration option \<times> 'w" where
  "reserve_each items max_wait w = reserve_loop items max_wait 0 0 items w"

text \<open>The survey of \<open>reserve_all\<close>: longest and shortest wait, \<open>None\<close> when a
  constituent can never grant.\<close>

fun survey_loop ::
  "duration \<Rightarrow> duration \<Rightarrow> 'w item list \<Rightarrow> 'w \<Rightarrow> (duration \<times> duration) option \<times> 'w" where
  "survey_loop longest shortest [] w = (Some (longest, shortest), w)"
| "survey_loop longest shortest ((l, cost) # items) w =
     (case l_peek l cost w of
        (Acquired, w1) \<Rightarrow> survey_loop (max longest 0) (min shortest 0) items w1
      | (Retry a, w1) \<Rightarrow> survey_loop (max longest a) (min shortest a) items w1
      | (Impossible, w1) \<Rightarrow> (None, w1))"

definition reserve_all :: "'w item list \<Rightarrow> duration \<Rightarrow> 'w \<Rightarrow> duration option \<times> 'w" where
  "reserve_all items max_wait w =
     (case survey_loop 0 DURATION_MAX items w of
        (None, w1) \<Rightarrow> (None, w1)
      | (Some (longest, shortest), w1) \<Rightarrow>
          if longest > max_wait \<or> longest - shortest > HOLD_SLACK then (None, w1)
          else reserve_each items max_wait w1)"

fun drain_loop :: "nat \<Rightarrow> 'w limiter \<Rightarrow> u32 \<Rightarrow> 'w \<Rightarrow> u32 \<times> 'w" where
  "drain_loop 0 l remaining w = (0, w)"
| "drain_loop (Suc n) l remaining w =
     (case l_available l w of (available, w1) \<Rightarrow>
        if available \<le> remaining then (0, w1)
        else
          (let excess = available - remaining in
           case l_acquire_cost l excess w1 of (d, w2) \<Rightarrow>
             if is_acquired d then (excess, w2) else drain_loop n l remaining w2))"

definition limiter_drain_to :: "'w limiter \<Rightarrow> u32 \<Rightarrow> 'w \<Rightarrow> u32 \<times> 'w" where
  "limiter_drain_to l remaining w = drain_loop 4 l remaining w"

subsection \<open>Waiting on a composite: one step, and the release of what it holds\<close>

datatype held =
    Held_Nothing
  | Held_One usize
  | Held_All

record progress =
  p_held :: held
  p_due :: "nat option"
  p_switches :: nat

definition progress_new :: progress where
  "progress_new = \<lparr>p_held = Held_Nothing, p_due = None, p_switches = 0\<rparr>"

definition MAX_SWITCHES :: nat where
  "MAX_SWITCHES = 4"

definition release_all :: "'w item list \<Rightarrow> progress \<Rightarrow> 'w \<Rightarrow> progress \<times> 'w" where
  "release_all items p w =
     (p\<lparr>p_held := Held_Nothing, p_due := None\<rparr>,
      (case p_held p of
         Held_Nothing \<Rightarrow> w
       | Held_One index \<Rightarrow>
           (if index < length items
            then (case items ! index of (l, cost) \<Rightarrow> l_refund l cost w)
            else w)
       | Held_All \<Rightarrow> refund_all items w))"

definition paused_all :: "'w item list \<Rightarrow> 'w \<Rightarrow> duration" where
  "paused_all items w = fold (\<lambda>(l, _) acc. max acc (l_paused_for l w)) items 0"

definition rest_of :: "'w item list \<Rightarrow> usize \<Rightarrow> 'w item list" where
  "rest_of items bottleneck =
     map snd (filter (\<lambda>(index, _). index \<noteq> bottleneck) (enumerate 0 items))"

text \<open>The search for the bottleneck: outer \<open>None\<close> is the early return of
  \<open>Step::Never\<close>.\<close>

fun find_bottleneck ::
  "usize \<Rightarrow> 'w item list \<Rightarrow> (usize \<times> duration) option \<Rightarrow> 'w \<Rightarrow>
   (usize \<times> duration) option option \<times> 'w" where
  "find_bottleneck index [] b w = (Some b, w)"
| "find_bottleneck index ((l, cost) # items) b w =
     (case l_peek l cost w of
        (Acquired, w1) \<Rightarrow> find_bottleneck (Suc index) items b w1
      | (Retry a, w1) \<Rightarrow>
          find_bottleneck (Suc index) items
            (case b of
               None \<Rightarrow> Some (index, a)
             | Some (_, longest) \<Rightarrow> if a > longest then Some (index, a) else b) w1
      | (Impossible, w1) \<Rightarrow> (None, w1))"

definition step_fresh ::
  "'w runtime \<Rightarrow> 'w item list \<Rightarrow> duration \<Rightarrow> progress \<Rightarrow> 'w \<Rightarrow> step \<times> progress \<times> 'w" where
  "step_fresh rt items budget p w =
     (case find_bottleneck 0 items None w of
        (None, w1) \<Rightarrow> (Never_Step, p, w1)
      | (Some None, w1) \<Rightarrow>
          (case acquire_all items w1 of
             (Acquired, w2) \<Rightarrow> (Granted 0, p\<lparr>p_held := Held_All\<rparr>, w2)
           | (Impossible, w2) \<Rightarrow> (Never_Step, p, w2)
           | (Retry _, w2) \<Rightarrow> (Retry_Step 0, p, w2))
      | (Some (Some (index, wait)), w1) \<Rightarrow>
          (if wait > budget then (Retry_Step wait, p, w1)
           else if index < length items then
             (case items ! index of (l, cost) \<Rightarrow>
                (case l_reserve l cost budget w1 of
                   (Some wait', w2) \<Rightarrow>
                     (Holding wait',
                      p\<lparr>p_held := Held_One index,
                        p_due := rt_checked_add rt (rt_now rt w2) wait'\<rparr>, w2)
                 | (None, w2) \<Rightarrow> (Retry_Step wait, p, w2)))
           else (Retry_Step wait, p, w1)))"

definition step_switch ::
  "'w runtime \<Rightarrow> 'w item list \<Rightarrow> duration \<Rightarrow> progress \<Rightarrow> 'w \<Rightarrow> step \<times> progress \<times> 'w" where
  "step_switch rt items budget p w =
     (case release_all items p w of (p1, w1) \<Rightarrow>
        step_fresh rt items budget (p1\<lparr>p_switches := min (p_switches p1 + 1) 255\<rparr>) w1)"

definition step_held ::
  "'w runtime \<Rightarrow> 'w item list \<Rightarrow> duration \<Rightarrow> usize \<Rightarrow> progress \<Rightarrow> 'w \<Rightarrow> step \<times> progress \<times> 'w" where
  "step_held rt items budget bottleneck p w =
     (let rest = rest_of items bottleneck in
      case peek_all rest w of
        (Acquired, w1) \<Rightarrow>
          (case acquire_all rest w1 of (d, w2) \<Rightarrow>
             if is_acquired d then (Granted 0, p\<lparr>p_held := Held_All\<rparr>, w2)
             else (Holding 0, p, w2))
      | (Retry a, w1) \<Rightarrow>
          (if a \<le> HOLD_SLACK \<or> p_switches p \<ge> MAX_SWITCHES then
             (case reserve_each rest budget w1 of
                (Some wait, w2) \<Rightarrow> (Granted wait, p\<lparr>p_held := Held_All\<rparr>, w2)
              | (None, w2) \<Rightarrow> step_switch rt items budget p w2)
           else step_switch rt items budget p w1)
      | (Impossible, w1) \<Rightarrow>
          (case release_all items p w1 of (p1, w2) \<Rightarrow> (Never_Step, p1, w2)))"

definition step_all ::
  "'w runtime \<Rightarrow> 'w item list \<Rightarrow> duration \<Rightarrow> progress \<Rightarrow> 'w \<Rightarrow> step \<times> progress \<times> 'w" where
  "step_all rt items budget p w =
     (case p_held p of
        Held_One bottleneck \<Rightarrow>
          (case p_due p of
             Some due \<Rightarrow>
               (let left = due - rt_now rt w in
                if left \<noteq> 0 then (Holding left, p, w)
                else step_held rt items budget bottleneck p w)
           | None \<Rightarrow> step_held rt items budget bottleneck p w)
      | _ \<Rightarrow> step_fresh rt items budget p w)"

end
