(* ===== verification/Limiter_Laws.thy ===== *)
theory Limiter_Laws
  imports Limiter
begin

text \<open>
  What the composites rely on.  \<open>composite\<close> is the contract between the
  constituents of a composite and the engines of \<open>Limiter\<close>: a granted acquire or
  reserve charges its cost to that constituent alone, a refusal and a peek charge
  nothing, and a refund gives back a charge that is still on the books.
  \<open>ready\<close> says that a constituent's refund will find the charge (a sliding log,
  for example, must have dropped its expired grants).  The engines' all-or-nothing
  behaviour and the bookkeeping of the waiting step are proved from the contract
  once; \<open>limiter_obj\<close> is the contract of a single limiter, and shared slots of
  lawful limiters make a composite.
\<close>

definition resolve :: "('i \<Rightarrow> 'w limiter) \<Rightarrow> ('i \<times> u32) list \<Rightarrow> 'w item list" where
  "resolve L xs = map (\<lambda>(i, c). (L i, c)) xs"

lemma resolve_simps [simp]:
  "resolve L [] = []"
  "resolve L ((i, c) # xs) = (L i, c) # resolve L xs"
  "length (resolve L xs) = length xs"
  by (simp_all add: resolve_def)

lemma resolve_take: "take n (resolve L xs) = resolve L (take n xs)"
  by (simp add: resolve_def take_map)

lemma resolve_nth: "n < length xs \<Longrightarrow> xs ! n = (i, c) \<Longrightarrow> resolve L xs ! n = (L i, c)"
  by (simp add: resolve_def)

definition omit :: "nat \<Rightarrow> 'a list \<Rightarrow> 'a list" where
  "omit n xs = take n xs @ drop (Suc n) xs"

lemma rest_of_omit_aux:
  "map snd (filter (\<lambda>(index, _). index \<noteq> m + n) (enumerate m xs)) = omit n xs"
proof (induction xs arbitrary: m n)
  case Nil
  then show ?case by (simp add: omit_def)
next
  case (Cons x xs)
  show ?case
  proof (cases n)
    case 0
    have "filter (\<lambda>(index, _). index \<noteq> m) (enumerate (Suc m) xs) = enumerate (Suc m) xs"
      by (rule filter_True) (auto simp: in_set_enumerate_eq)
    with 0 show ?thesis by (simp add: omit_def)
  next
    case (Suc k)
    with Cons.IH [of "Suc m" k] show ?thesis by (simp add: omit_def)
  qed
qed

lemma rest_of_omit: "rest_of items n = omit n items"
  using rest_of_omit_aux [of 0 n items] by (simp add: rest_of_def)

lemma resolve_omit: "omit n (resolve L xs) = resolve L (omit n xs)"
  by (simp add: omit_def resolve_def take_map drop_map)

lemma total_of_omit:
  "n < length xs \<Longrightarrow> xs ! n = (i, c) \<Longrightarrow>
   total_of j xs = total_of j (omit n xs) + (if j = i then c else 0)"
proof -
  assume n: "n < length xs" and "xs ! n = (i, c)"
  then have "xs = take n xs @ (i, c) # drop (Suc n) xs"
    by (metis id_take_nth_drop)
  then have "total_of j xs = total_of j (take n xs @ (i, c) # drop (Suc n) xs)"
    by (rule arg_cong)
  then show ?thesis by (simp add: omit_def)
qed

subsection \<open>The books of a composite\<close>

text \<open>\<open>account good spent ready base owed w\<close>: on top of \<open>base\<close>, exactly \<open>owed\<close> xs
  charged, and every constituent with an open charge is ready for its refund.\<close>

definition account ::
  "('w \<Rightarrow> bool) \<Rightarrow> ('i \<Rightarrow> 'w \<Rightarrow> nat) \<Rightarrow> ('i \<Rightarrow> 'w \<Rightarrow> bool) \<Rightarrow> ('i \<Rightarrow> nat) \<Rightarrow> ('i \<Rightarrow> nat) \<Rightarrow> 'w \<Rightarrow> bool"
  where
  "account good spent ready base owed w \<longleftrightarrow>
     good w \<and> (\<forall>j. spent j w = base j + owed j) \<and> (\<forall>j. 0 < owed j \<longrightarrow> ready j w)"

lemma account_cong:
  "(\<And>j. owed j = owed' j) \<Longrightarrow>
   account good spent ready base owed w = account good spent ready base owed' w"
  by (simp add: account_def)

text \<open>What a waiter holds of each constituent, by its progress.\<close>

definition owed_of :: "('i \<times> u32) list \<Rightarrow> held \<Rightarrow> 'i \<Rightarrow> nat" where
  "owed_of xs h j =
     (case h of
        Held_Nothing \<Rightarrow> 0
      | Held_One n \<Rightarrow> (if n < length xs \<and> fst (xs ! n) = j then snd (xs ! n) else 0)
      | Held_All \<Rightarrow> total_of j xs)"

lemma owed_of_simps [simp]:
  "owed_of xs Held_Nothing = (\<lambda>_. 0)"
  "owed_of xs Held_All = (\<lambda>j. total_of j xs)"
  by (simp_all add: owed_of_def fun_eq_iff)

text \<open>The answer of a step and what the waiter holds after it.\<close>

definition step_matches :: "nat \<Rightarrow> step \<Rightarrow> held \<Rightarrow> bool" where
  "step_matches len s h =
     (case s of
        Granted _ \<Rightarrow> h = Held_All
      | Holding _ \<Rightarrow> (\<exists>n < len. h = Held_One n)
      | Retry_Step _ \<Rightarrow> h = Held_Nothing
      | Never_Step \<Rightarrow> h = Held_Nothing)"

locale composite =
  fixes L :: "'i \<Rightarrow> 'w limiter"
    and spent :: "'i \<Rightarrow> 'w \<Rightarrow> nat"
    and ready :: "'i \<Rightarrow> 'w \<Rightarrow> bool"
    and good :: "'w \<Rightarrow> bool"
  assumes peek_free:
      "good w \<Longrightarrow> l_peek (L i) c w = (d, w') \<Longrightarrow>
       good w' \<and> (\<forall>j. spent j w' = spent j w \<and> (ready j w \<longrightarrow> ready j w'))"
    and acquire_refused_free:
      "good w \<Longrightarrow> l_acquire_cost (L i) c w = (d, w') \<Longrightarrow> d \<noteq> Acquired \<Longrightarrow>
       good w' \<and> (\<forall>j. spent j w' = spent j w \<and> (ready j w \<longrightarrow> ready j w'))"
    and acquire_charges:
      "good w \<Longrightarrow> l_acquire_cost (L i) c w = (Acquired, w') \<Longrightarrow>
       good w' \<and> (\<forall>j. spent j w' = spent j w + (if j = i then c else 0) \<and>
                     (ready j w \<or> (j = i \<and> 0 < c) \<longrightarrow> ready j w'))"
    and reserve_refused_free:
      "good w \<Longrightarrow> l_reserve (L i) c m w = (None, w') \<Longrightarrow>
       good w' \<and> (\<forall>j. spent j w' = spent j w \<and> (ready j w \<longrightarrow> ready j w'))"
    and reserve_charges:
      "good w \<Longrightarrow> l_reserve (L i) c m w = (Some t, w') \<Longrightarrow>
       good w' \<and> (\<forall>j. spent j w' = spent j w + (if j = i then c else 0) \<and>
                     (ready j w \<or> (j = i \<and> 0 < c) \<longrightarrow> ready j w'))"
    and refund_returns:
      "good w \<Longrightarrow> c \<le> spent i w \<Longrightarrow> ready i w \<or> c = 0 \<Longrightarrow>
       good (l_refund (L i) c w) \<and>
       (\<forall>j. spent j (l_refund (L i) c w) = spent j w - (if j = i then c else 0) \<and>
            (ready j w \<longrightarrow> ready j (l_refund (L i) c w)))"
begin

abbreviation books :: "('i \<Rightarrow> nat) \<Rightarrow> ('i \<Rightarrow> nat) \<Rightarrow> 'w \<Rightarrow> bool" where
  "books \<equiv> account good spent ready"

lemma books_peek: "books b ow w \<Longrightarrow> l_peek (L i) c w = (d, w') \<Longrightarrow> books b ow w'"
  using peek_free [of w i c d w'] by (simp add: account_def)

lemma books_acquire_refused:
  "books b ow w \<Longrightarrow> l_acquire_cost (L i) c w = (d, w') \<Longrightarrow> d \<noteq> Acquired \<Longrightarrow> books b ow w'"
  using acquire_refused_free [of w i c d w'] by (simp add: account_def)

lemma books_reserve_refused:
  "books b ow w \<Longrightarrow> l_reserve (L i) c m w = (None, w') \<Longrightarrow> books b ow w'"
  using reserve_refused_free [of w i c m w'] by (simp add: account_def)

lemma books_acquire:
  "books b ow w \<Longrightarrow> l_acquire_cost (L i) c w = (Acquired, w') \<Longrightarrow>
   books b (\<lambda>j. ow j + (if j = i then c else 0)) w'"
  using acquire_charges [of w i c w'] by (auto simp: account_def)

lemma books_reserve:
  "books b ow w \<Longrightarrow> l_reserve (L i) c m w = (Some d, w') \<Longrightarrow>
   books b (\<lambda>j. ow j + (if j = i then c else 0)) w'"
  using reserve_charges [of w i c m d w'] by (auto simp: account_def)

lemma books_refund:
  assumes "books b (\<lambda>j. ow j + (if j = i then c else 0)) w"
  shows "books b ow (l_refund (L i) c w)"
proof -
  from assms have good: "good w"
    and spent: "\<And>j. spent j w = b j + (ow j + (if j = i then c else 0))"
    and ready: "\<And>j. 0 < ow j + (if j = i then c else 0) \<Longrightarrow> ready j w"
    by (auto simp: account_def)
  have "c \<le> spent i w" using spent [of i] by simp
  moreover have "ready i w \<or> c = 0" using ready [of i] by auto
  ultimately show ?thesis
    using refund_returns [OF good, of c i] spent ready by (auto simp: account_def)
qed

lemma books_refund_fold:
  "books b (\<lambda>j. ow j + total_of j xs) w \<Longrightarrow>
   books b ow (fold (\<lambda>(l, cost) w. l_refund l cost w) (resolve L xs) w)"
proof (induction xs arbitrary: w)
  case (Cons ic xs)
  obtain i c where ic: "ic = (i, c)" by (cases ic)
  have "books b (\<lambda>j. (ow j + total_of j xs) + (if j = i then c else 0)) w"
    using Cons.prems ic
    by (subst account_cong [where owed' = "\<lambda>j. ow j + total_of j (ic # xs)"]) auto
  then have "books b (\<lambda>j. ow j + total_of j xs) (l_refund (L i) c w)"
    by (rule books_refund)
  with Cons.IH ic show ?case by simp
qed simp

lemma books_peek_loop:
  "books b ow w \<Longrightarrow> peek_loop acc (resolve L xs) w = (v, w') \<Longrightarrow> books b ow w'"
proof (induction xs arbitrary: acc w)
  case (Cons ic xs)
  obtain i c where ic: "ic = (i, c)" by (cases ic)
  obtain d w1 where p: "l_peek (L i) c w = (d, w1)" by fastforce
  with Cons.prems(1) have "books b ow w1" by (rule books_peek)
  then show ?case
    using Cons.prems(2) Cons.IH [of w1] ic p by (auto simp: Let_def split: if_splits)
qed simp

lemma books_peek_all:
  "books b ow w \<Longrightarrow> peek_all (resolve L xs) w = (d, w') \<Longrightarrow> books b ow w'"
  by (auto simp: peek_all_def dest: books_peek_loop split: prod.splits)

lemma books_acquire_loop:
  assumes "books b (\<lambda>j. ow j + total_of j pre) w"
    and "acquire_loop (resolve L (pre @ rest)) (length pre) (resolve L rest) w = (d, w')"
  shows "if d = Acquired then books b (\<lambda>j. ow j + total_of j (pre @ rest)) w'
         else books b ow w'"
  using assms
proof (induction rest arbitrary: pre w)
  case (Cons ic rest)
  obtain i c where ic: "ic = (i, c)" by (cases ic)
  obtain a w1 where acq: "l_acquire_cost (L i) c w = (a, w1)" by fastforce
  show ?case
  proof (cases "a = Acquired")
    case True
    with acq have "books b (\<lambda>j. (ow j + total_of j pre) + (if j = i then c else 0)) w1"
      using books_acquire Cons.prems(1) by blast
    then have "books b (\<lambda>j. ow j + total_of j (pre @ [ic])) w1"
      by (subst account_cong [where owed' = "\<lambda>j. (ow j + total_of j pre) + (if j = i then c else 0)"])
         (auto simp: ic)
    from Cons.IH [OF this] Cons.prems(2) acq True ic show ?thesis
      by (simp add: add.assoc split: if_splits)
  next
    case False
    with acq Cons.prems(1) have "books b (\<lambda>j. ow j + total_of j pre) w1"
      by (blast intro: books_acquire_refused)
    then have "books b ow (refund_first (resolve L (pre @ ic # rest)) (length pre) w1)"
      unfolding refund_first_def resolve_take by (simp add: books_refund_fold)
    moreover have "d = a \<and> w' = refund_first (resolve L (pre @ ic # rest)) (length pre) w1"
      using Cons.prems(2) acq False ic by (cases a) auto
    ultimately show ?thesis using False by simp
  qed
qed simp

lemma books_acquire_all:
  assumes "books b ow w" and "acquire_all (resolve L xs) w = (d, w')"
  shows "if d = Acquired then books b (\<lambda>j. ow j + total_of j xs) w' else books b ow w'"
proof -
  obtain v w1 where p: "peek_all (resolve L xs) w = (v, w1)" by fastforce
  with assms(1) have b1: "books b ow w1" by (rule books_peek_all)
  show ?thesis
  proof (cases "v = Acquired")
    case True
    then show ?thesis
      using assms(2) b1 p books_acquire_loop [of b ow "[]" w1 xs d w']
      by (auto simp: acquire_all_def split: if_splits)
  next
    case False
    then show ?thesis
      using assms(2) b1 p by (cases v) (auto simp: acquire_all_def)
  qed
qed

lemma books_reserve_loop:
  assumes "books b (\<lambda>j. ow j + total_of j pre) w"
    and "reserve_loop (resolve L (pre @ rest)) m (length pre) longest (resolve L rest) w = (r, w')"
  shows "if r = None then books b ow w'
         else books b (\<lambda>j. ow j + total_of j (pre @ rest)) w'"
  using assms
proof (induction rest arbitrary: pre longest w)
  case (Cons ic rest)
  obtain i c where ic: "ic = (i, c)" by (cases ic)
  obtain a w1 where res: "l_reserve (L i) c m w = (a, w1)" by fastforce
  show ?case
  proof (cases a)
    case (Some wait)
    with res have "books b (\<lambda>j. (ow j + total_of j pre) + (if j = i then c else 0)) w1"
      using books_reserve Cons.prems(1) by blast
    then have "books b (\<lambda>j. ow j + total_of j (pre @ [ic])) w1"
      by (subst account_cong [where owed' = "\<lambda>j. (ow j + total_of j pre) + (if j = i then c else 0)"])
         (auto simp: ic)
    from Cons.IH [OF this, of "max longest wait"] Cons.prems(2) res Some ic show ?thesis
      by (simp add: add.assoc split: if_splits)
  next
    case None
    with res Cons.prems(1) have "books b (\<lambda>j. ow j + total_of j pre) w1"
      by (blast intro: books_reserve_refused)
    then have "books b ow (refund_first (resolve L (pre @ ic # rest)) (length pre) w1)"
      unfolding refund_first_def resolve_take by (simp add: books_refund_fold)
    then show ?thesis using Cons.prems(2) res None ic by auto
  qed
qed auto

lemma books_reserve_each:
  assumes "books b ow w" and "reserve_each (resolve L xs) m w = (r, w')"
  shows "if r = None then books b ow w' else books b (\<lambda>j. ow j + total_of j xs) w'"
  using books_reserve_loop [of b ow "[]" w xs m 0 r w'] assms
  by (auto simp: reserve_each_def split: if_splits)

lemma books_survey_loop:
  "books b ow w \<Longrightarrow> survey_loop lo sh (resolve L xs) w = (v, w') \<Longrightarrow> books b ow w'"
proof (induction xs arbitrary: lo sh w)
  case (Cons ic xs)
  obtain i c where ic: "ic = (i, c)" by (cases ic)
  obtain d w1 where p: "l_peek (L i) c w = (d, w1)" by fastforce
  with Cons.prems(1) have "books b ow w1" by (rule books_peek)
  then show ?case
    using Cons.prems(2) Cons.IH [of w1] ic p by (cases d) auto
qed simp

lemma books_reserve_all:
  assumes "books b ow w" and "reserve_all (resolve L xs) m w = (r, w')"
  shows "if r = None then books b ow w' else books b (\<lambda>j. ow j + total_of j xs) w'"
proof -
  obtain v w1 where s: "survey_loop 0 DURATION_MAX (resolve L xs) w = (v, w1)" by fastforce
  with assms(1) have b1: "books b ow w1" by (rule books_survey_loop)
  show ?thesis
  proof (cases v)
    case None
    then show ?thesis using assms(2) s b1 by (auto simp: reserve_all_def)
  next
    case (Some ls)
    obtain lo sh where ls: "ls = (lo, sh)" by (cases ls)
    show ?thesis
    proof (cases "lo > m \<or> lo - sh > HOLD_SLACK")
      case True
      then show ?thesis using assms(2) s b1 Some ls by (auto simp: reserve_all_def)
    next
      case False
      then show ?thesis
        using assms(2) s Some ls books_reserve_each [OF b1]
        by (simp add: reserve_all_def)
    qed
  qed
qed

lemma books_find_bottleneck:
  "books b ow w \<Longrightarrow> find_bottleneck n (resolve L xs) bn w = (r, w') \<Longrightarrow> books b ow w'"
proof (induction xs arbitrary: n bn w)
  case (Cons ic xs)
  obtain i c where ic: "ic = (i, c)" by (cases ic)
  obtain d w1 where p: "l_peek (L i) c w = (d, w1)" by fastforce
  with Cons.prems(1) have "books b ow w1" by (rule books_peek)
  then show ?case
    using Cons.prems(2) Cons.IH [of w1] ic p by (cases d) auto
qed simp

lemma owed_one:
  "n < length xs \<Longrightarrow> xs ! n = (i, c) \<Longrightarrow>
   owed_of xs (Held_One n) = (\<lambda>j. if j = i then c else 0)"
  by (auto simp: owed_of_def fun_eq_iff)

text \<open>Releasing gives back exactly what the progress says is held.\<close>

lemma books_release_all:
  assumes "books b (owed_of xs (p_held p)) w" and "release_all (resolve L xs) p w = (p', w')"
  shows "books b (\<lambda>_. 0) w' \<and> p_held p' = Held_Nothing"
proof (cases "p_held p")
  case Held_Nothing
  then show ?thesis using assms by (auto simp: release_all_def account_def)
next
  case (Held_One n)
  show ?thesis
  proof (cases "n < length xs")
    case True
    obtain i c where ic: "xs ! n = (i, c)" by (cases "xs ! n")
    from assms(1) Held_One have "books b (\<lambda>j. 0 + (if j = i then c else 0)) w"
      by (simp add: owed_one [OF True ic])
    then have "books b (\<lambda>_. 0) (l_refund (L i) c w)" by (rule books_refund)
    then show ?thesis
      using assms(2) Held_One True ic by (auto simp: release_all_def resolve_nth)
  next
    case False
    then show ?thesis
      using assms Held_One by (auto simp: release_all_def owed_of_def account_def)
  qed
next
  case Held_All
  then show ?thesis
    using assms books_refund_fold [of b "\<lambda>_. 0" xs w]
    by (auto simp: release_all_def refund_all_def)
qed

lemma books_step_fresh:
  assumes b: "books b (\<lambda>_. 0) w" and p: "p_held p = Held_Nothing"
    and s: "step_fresh rt (resolve L xs) budget p w = (st, p', w')"
  shows "books b (owed_of xs (p_held p')) w' \<and> step_matches (length xs) st (p_held p')"
proof -
  obtain r w1 where f: "find_bottleneck 0 (resolve L xs) None w = (r, w1)" by fastforce
  with b have b1: "books b (\<lambda>_. 0) w1" by (rule books_find_bottleneck)
  consider (never) "r = None" | (free) "r = Some None"
    | (wait) n a where "r = Some (Some (n, a))"
    by (metis option.exhaust surj_pair)
  then show ?thesis
  proof cases
    case never
    then show ?thesis using s f p b1 by (auto simp: step_fresh_def step_matches_def)
  next
    case free
    obtain d w2 where a: "acquire_all (resolve L xs) w1 = (d, w2)" by fastforce
    from books_acquire_all [OF b1 a] show ?thesis
      using s f free a p
      by (cases d) (auto simp: step_fresh_def step_matches_def split: if_splits)
  next
    case wait
    show ?thesis
    proof (cases "a > budget \<or> \<not> n < length xs")
      case True
      then show ?thesis
        using s f p wait b1 by (auto simp: step_fresh_def step_matches_def split: if_splits)
    next
      case False
      obtain i c where ic: "xs ! n = (i, c)" by (cases "xs ! n")
      obtain q w2 where res: "l_reserve (L i) c budget w1 = (q, w2)" by fastforce
      show ?thesis
      proof (cases q)
        case None
        with b1 res have "books b (\<lambda>_. 0) w2" by (blast intro: books_reserve_refused)
        with None show ?thesis
          using s f p wait False ic res
          by (auto simp: step_fresh_def step_matches_def resolve_nth)
      next
        case (Some d)
        from books_reserve [OF b1 res [unfolded Some]]
        have "books b (\<lambda>j. 0 + (if j = i then c else 0)) w2" .
        then have "books b (owed_of xs (Held_One n)) w2"
          using False ic by (simp add: owed_one)
        with Some show ?thesis
          using s f p wait False ic res
          by (auto simp: step_fresh_def step_matches_def resolve_nth)
      qed
    qed
  qed
qed

lemma books_step_switch:
  assumes "books b (owed_of xs (p_held p)) w"
    and "step_switch rt (resolve L xs) budget p w = (st, p', w')"
  shows "books b (owed_of xs (p_held p')) w' \<and> step_matches (length xs) st (p_held p')"
proof -
  obtain p1 w1 where r: "release_all (resolve L xs) p w = (p1, w1)" by fastforce
  from books_release_all [OF assms(1) r]
  have "books b (\<lambda>_. 0) w1" and "p_held (p1\<lparr>p_switches := min (p_switches p1 + 1) 255\<rparr>) = Held_Nothing"
    by simp_all
  from books_step_fresh [OF this] show ?thesis using assms(2) r by (simp add: step_switch_def)
qed

lemma books_step_held:
  assumes b: "books b (owed_of xs (p_held p)) w" and p: "p_held p = Held_One n"
    and n: "n < length xs"
    and s: "step_held rt (resolve L xs) budget n p w = (st, p', w')"
  shows "books b (owed_of xs (p_held p')) w' \<and> step_matches (length xs) st (p_held p')"
proof -
  obtain i c where ic: "xs ! n = (i, c)" by (cases "xs ! n")
  let ?rest = "omit n xs"
  have all: "books b (owed_of xs Held_All) v"
    if "books b (\<lambda>j. owed_of xs (p_held p) j + total_of j ?rest) v" for v
    using that p n ic
    by (subst account_cong [where owed' = "\<lambda>j. owed_of xs (p_held p) j + total_of j ?rest"])
       (auto simp: owed_one total_of_omit)
  have one: "\<exists>m < length xs. p_held p = Held_One m" using p n by simp
  obtain d w1 where pk: "peek_all (resolve L ?rest) w = (d, w1)" by fastforce
  with b have b1: "books b (owed_of xs (p_held p)) w1" by (rule books_peek_all)
  note eqs = step_held_def rest_of_omit resolve_omit Let_def
  show ?thesis
  proof (cases d)
    case Acquired
    obtain d2 w2 where a: "acquire_all (resolve L ?rest) w1 = (d2, w2)" by fastforce
    from books_acquire_all [OF b1 a] show ?thesis
      using s pk Acquired a all one
      by (cases "d2 = Acquired") (auto simp: eqs step_matches_def)
  next
    case (Retry t)
    obtain q w2 where r: "reserve_each (resolve L ?rest) budget w1 = (q, w2)" by fastforce
    from books_reserve_each [OF b1 r] show ?thesis
      using s pk Retry r all books_step_switch [OF b1] books_step_switch
      by (cases q) (auto simp: eqs step_matches_def split: if_splits)
  next
    case Impossible
    then show ?thesis
      using s pk books_release_all [OF b1]
      by (auto simp: eqs step_matches_def account_def split: prod.splits)
  qed
qed

text \<open>One step of a waiting composite keeps the books: whatever it answers, the
  constituents are charged exactly what the new progress says is held.\<close>

lemma books_step_all:
  assumes b: "books b (owed_of xs (p_held p)) w"
    and p: "case p_held p of Held_One n \<Rightarrow> n < length xs | Held_Nothing \<Rightarrow> True | Held_All \<Rightarrow> False"
    and s: "step_all rt (resolve L xs) budget p w = (st, p', w')"
  shows "books b (owed_of xs (p_held p')) w' \<and> step_matches (length xs) st (p_held p')"
proof (cases "p_held p")
  case Held_Nothing
  with b have "books b (\<lambda>_. 0) w" by (simp add: account_def)
  with Held_Nothing s show ?thesis
    by (simp add: step_all_def books_step_fresh)
next
  case (Held_One n)
  note held = books_step_held [OF b Held_One]
  show ?thesis
  proof (cases "\<exists>due. p_due p = Some due \<and> due - rt_now rt w \<noteq> 0")
    case True
    with Held_One s b p show ?thesis by (auto simp: step_all_def step_matches_def Let_def)
  next
    case False
    with Held_One s have "step_held rt (resolve L xs) budget n p w = (st, p', w')"
      by (auto simp: step_all_def Let_def split: option.splits if_splits)
    with Held_One p show ?thesis using held by simp
  qed
next
  case Held_All
  with p show ?thesis by simp
qed

text \<open>A waiting composite meets the contract of the waiting engine, as long as nothing
  that happens while it sleeps changes the books.\<close>

lemma composite_waiter:
  assumes "\<forall>ow. quiet rt (books b ow)"
  shows "waiting rt (\<lambda>p budget w. step_all rt (resolve L xs) budget p w) (release_all (resolve L xs))
     (\<lambda>p w. p_held p = Held_All \<and> books b (owed_of xs (p_held p)) w)
     (\<lambda>p w. (\<exists>n < length xs. p_held p = Held_One n) \<and> books b (owed_of xs (p_held p)) w)
     (\<lambda>p w. p_held p = Held_Nothing \<and> books b (owed_of xs (p_held p)) w)
     (\<lambda>p w. p_held p = Held_Nothing \<and> books b (owed_of xs (p_held p)) w)"
proof (unfold_locales, goal_cases)
  case (1 p w budget s p' w')
  then have "books b (owed_of xs (p_held p)) w"
    "case p_held p of Held_One n \<Rightarrow> n < length xs | Held_Nothing \<Rightarrow> True | Held_All \<Rightarrow> False" by auto
  from books_step_all [OF this 1(2)] show ?case
    by (auto simp: step_matches_def split: step.splits)
next
  case (2 p w p' w')
  then have "books b (owed_of xs (p_held p)) w" by auto
  from books_release_all [OF this 2(2)] show ?case by auto
qed (use quiet_awaits [OF spec [OF assms]] in blast)+

lemma composite_wait_all_or_nothing:
  assumes "\<forall>ow. quiet rt (books b ow)"
    and "books b (\<lambda>_. 0) w"
    and "wait_with rt progress_new (\<lambda>p budget w. step_all rt (resolve L xs) budget p w)
      (release_all (resolve L xs)) (paused_all (resolve L xs)) timeout w = Some (r, p', w')"
  shows "if r = Wait_Ok then books b (\<lambda>j. total_of j xs) w' else books b (\<lambda>_. 0) w'"
  using waiting.wait_all_or_nothing [OF composite_waiter [OF assms(1)] _ assms(3)] assms(2)
  by (auto simp: progress_new_def split: if_splits)

end

subsection \<open>The contract of one limiter, and limiters in shared slots\<close>

text \<open>\<open>at_slot i l\<close> is the trait object that reaches the limiter stored in slot
  \<open>i\<close> of the world: two items with the same slot are two clones of one \<open>Arc\<close>.\<close>

definition at_slot :: "'i \<Rightarrow> 's limiter \<Rightarrow> ('i \<Rightarrow> 's) limiter" where
  "at_slot i l = \<lparr>
     l_peek = (\<lambda>c w. case l_peek l c (w i) of (d, s) \<Rightarrow> (d, w(i := s))),
     l_acquire_cost = (\<lambda>c w. case l_acquire_cost l c (w i) of (d, s) \<Rightarrow> (d, w(i := s))),
     l_available = (\<lambda>w. case l_available l (w i) of (a, s) \<Rightarrow> (a, w(i := s))),
     l_capacity = (\<lambda>w. l_capacity l (w i)),
     l_refund = (\<lambda>c w. w(i := l_refund l c (w i))),
     l_reserve = (\<lambda>c m w. case l_reserve l c m (w i) of (r, s) \<Rightarrow> (r, w(i := s))),
     l_pause_for = (\<lambda>d w. w(i := l_pause_for l d (w i))),
     l_paused_for = (\<lambda>w. l_paused_for l (w i)),
     l_resume = (\<lambda>w. w(i := l_resume l (w i))),
     l_charge = (\<lambda>c w. case l_charge l c (w i) of (r, s) \<Rightarrow> (r, w(i := s)))\<rparr>"

locale limiter_obj =
  fixes L :: "'s limiter"
    and spent :: "'s \<Rightarrow> nat"
    and ready :: "'s \<Rightarrow> bool"
    and good :: "'s \<Rightarrow> bool"
  assumes obj_peek:
      "good s \<Longrightarrow> l_peek L c s = (d, s') \<Longrightarrow>
       good s' \<and> spent s' = spent s \<and> (ready s \<longrightarrow> ready s')"
    and obj_acquire_refused:
      "good s \<Longrightarrow> l_acquire_cost L c s = (d, s') \<Longrightarrow> d \<noteq> Acquired \<Longrightarrow>
       good s' \<and> spent s' = spent s \<and> (ready s \<longrightarrow> ready s')"
    and obj_acquire:
      "good s \<Longrightarrow> l_acquire_cost L c s = (Acquired, s') \<Longrightarrow>
       good s' \<and> spent s' = spent s + c \<and> (ready s \<or> 0 < c \<longrightarrow> ready s')"
    and obj_reserve_refused:
      "good s \<Longrightarrow> l_reserve L c m s = (None, s') \<Longrightarrow>
       good s' \<and> spent s' = spent s \<and> (ready s \<longrightarrow> ready s')"
    and obj_reserve:
      "good s \<Longrightarrow> l_reserve L c m s = (Some t, s') \<Longrightarrow>
       good s' \<and> spent s' = spent s + c \<and> (ready s \<or> 0 < c \<longrightarrow> ready s')"
    and obj_refund:
      "good s \<Longrightarrow> c \<le> spent s \<Longrightarrow> ready s \<or> c = 0 \<Longrightarrow>
       good (l_refund L c s) \<and> spent (l_refund L c s) = spent s - c \<and>
       (ready s \<longrightarrow> ready (l_refund L c s))"

sublocale limiter_obj \<subseteq> shared: composite "\<lambda>i. at_slot i L" "\<lambda>i w. spent (w i)" "\<lambda>i w. ready (w i)" "\<lambda>w. \<forall>i. good (w i)"
proof (unfold_locales, goal_cases)
  case (1 w i c d w')
  then show ?case
    using obj_peek [of "w i" c] by (auto simp: at_slot_def split: prod.splits)
next
  case (2 w i c d w')
  then show ?case
    using obj_acquire_refused [of "w i" c] by (auto simp: at_slot_def split: prod.splits)
next
  case (3 w i c w')
  then show ?case
    using obj_acquire [of "w i" c] by (auto simp: at_slot_def split: prod.splits)
next
  case (4 w i c m w')
  then show ?case
    using obj_reserve_refused [of "w i" c m] by (auto simp: at_slot_def split: prod.splits)
next
  case (5 w i c m t w')
  then show ?case
    using obj_reserve [of "w i" c m] by (auto simp: at_slot_def split: prod.splits)
next
  case (6 w c i)
  then show ?case
    using obj_refund [of "w i" c] by (auto simp: at_slot_def)
qed

end
