(* ===== verification/Hold.thy ===== *)
theory Hold
  imports Net_Prelude
begin

text \<open>
  The pause of a limiter (\<open>src/hold.rs\<close>): the end of the pause in nanoseconds
  since the limiter's epoch, zero for no pause.  The atomic operations act on one
  cell, so each is one step on its value.
\<close>

record hold =
  until_ns :: u64

definition hold_new :: hold where
  "hold_new = \<lparr>until_ns = 0\<rparr>"

definition hold_is_set :: "hold \<Rightarrow> bool" where
  "hold_is_set h \<longleftrightarrow> until_ns h \<noteq> 0"

definition hold_remaining :: "hold \<Rightarrow> u64 \<Rightarrow> duration" where
  "hold_remaining h now_ns = until_ns h - now_ns"

definition hold_extend :: "hold \<Rightarrow> u64 \<Rightarrow> duration \<Rightarrow> hold" where
  "hold_extend h now_ns d =
     (if d = 0 then h
      else
        (let span = nanos_u64 d;
             until = max (sat_add64 now_ns span) 1
         in h\<lparr>until_ns := max (until_ns h) until\<rparr>))"

definition hold_clear :: "hold \<Rightarrow> hold" where
  "hold_clear h = h\<lparr>until_ns := 0\<rparr>"

text \<open>Clock readings are nanoseconds; \<open>saturating_duration_since\<close> is truncated
  subtraction.\<close>

definition nanos_between :: "nat \<Rightarrow> nat \<Rightarrow> u64" where
  "nanos_between earlier now = to_u64 (now - earlier)"

lemma hold_extend_until_ge: "until_ns h \<le> until_ns (hold_extend h now d)"
  by (simp add: hold_extend_def Let_def)

lemma hold_remaining_clear [simp]: "hold_remaining (hold_clear h) now = 0"
  by (simp add: hold_remaining_def hold_clear_def)

text \<open>A pause lasts its full length (the end saturates at \<open>u64::MAX\<close>), never
  shortens a longer one, and never lasts longer than the longer of the two.\<close>

lemma hold_remaining_extend:
  assumes "0 < d" and "now + d \<le> U64_MAX"
  shows "hold_remaining (hold_extend h now d) now = max (hold_remaining h now) d"
  using assms by (auto simp: hold_remaining_def hold_extend_def Let_def machine_arith max_def)

lemma hold_extend_fits: "until_ns h \<le> U64_MAX \<Longrightarrow> until_ns (hold_extend h now d) \<le> U64_MAX"
  by (simp add: hold_extend_def Let_def U64_MAX_def sat_add64_def)

lemma nanos_between_le [simp]: "nanos_between e n \<le> U64_MAX"
  by (simp add: nanos_between_def)

lemma nanos_between_mono: "n \<le> n' \<Longrightarrow> nanos_between e n \<le> nanos_between e n'"
  by (simp add: nanos_between_def to_u64_def)

end
