(* ===== verification/Sliding_Window.thy ===== *)
theory Sliding_Window
  imports Limiter_Laws Hold
begin

text \<open>
  The exact sliding-window log (\<open>src/sliding.rs\<close>).  The mutex makes every
  operation one atomic step on the record below; \<open>sw_clock\<close> is what the
  injected clock reads now.  Shown here: the log stays ordered and its counter
  exact, any trailing window holds at most the limit, a reported wait is exact,
  and the limiter honours the contract of a composite's constituent.
\<close>

record grant =
  at_ns :: u64
  count :: u32

record log_state =
  grants :: "grant list"
  used :: u64
  hold_until_ns :: u64

record sliding =
  sw_limit :: u32
  sw_window :: duration
  sw_window_ns :: u64
  sw_log :: log_state
  sw_clock :: nat
  sw_epoch :: nat

definition with_clock_inner :: "u32 \<Rightarrow> duration \<Rightarrow> nat \<Rightarrow> sliding" where
  "with_clock_inner limit window clock = \<lparr>
     sw_limit = limit,
     sw_window = window,
     sw_window_ns = max (nanos_u64 window) 1,
     sw_log = \<lparr>grants = [], used = 0, hold_until_ns = 0\<rparr>,
     sw_clock = clock,
     sw_epoch = clock\<rparr>"

definition sw_new :: "u32 \<Rightarrow> duration \<Rightarrow> nat \<Rightarrow> sliding" where
  "sw_new limit window clock = with_clock_inner limit window clock"

definition sw_per_second :: "u32 \<Rightarrow> nat \<Rightarrow> sliding" where
  "sw_per_second rate clock = sw_new rate (from_secs 1) clock"

definition sw_per_minute :: "u32 \<Rightarrow> nat \<Rightarrow> sliding" where
  "sw_per_minute rate clock = sw_new rate (from_secs 60) clock"

definition sw_with_clock :: "sliding \<Rightarrow> nat \<Rightarrow> sliding" where
  "sw_with_clock s clock = with_clock_inner (sw_limit s) (sw_window s) clock"

definition sw_now_ns :: "sliding \<Rightarrow> u64" where
  "sw_now_ns s = nanos_between (sw_epoch s) (sw_clock s)"

fun prune_grants :: "u64 \<Rightarrow> u64 \<Rightarrow> grant list \<Rightarrow> u64 \<Rightarrow> grant list \<times> u64" where
  "prune_grants window_ns now_ns [] us = ([], us)"
| "prune_grants window_ns now_ns (front # gs) us =
     (if sat_add64 (at_ns front) window_ns \<le> now_ns
      then prune_grants window_ns now_ns gs (us - count front)
      else (front # gs, us))"

definition prune :: "sliding \<Rightarrow> u64 \<Rightarrow> log_state \<Rightarrow> log_state" where
  "prune s now_ns lg =
     (case prune_grants (sw_window_ns s) now_ns (grants lg) (used lg) of
        (gs, us) \<Rightarrow> lg\<lparr>grants := gs, used := us\<rparr>)"

fun wait_scan :: "u64 \<Rightarrow> u64 \<Rightarrow> u64 \<Rightarrow> u64 \<Rightarrow> grant list \<Rightarrow> duration" where
  "wait_scan window_ns now_ns needed freed [] = window_ns"
| "wait_scan window_ns now_ns needed freed (g # gs) =
     (let freed' = sat_add64 freed (count g) in
      if freed' \<ge> needed
      then (let ready_at = sat_add64 (at_ns g) window_ns in ready_at - now_ns)
      else wait_scan window_ns now_ns needed freed' gs)"

definition wait_for_room :: "sliding \<Rightarrow> log_state \<Rightarrow> u64 \<Rightarrow> u64 \<Rightarrow> duration" where
  "wait_for_room s lg now_ns needed = wait_scan (sw_window_ns s) now_ns needed 0 (grants lg)"

definition stamp :: "log_state \<Rightarrow> u64 \<Rightarrow> u64" where
  "stamp lg now_ns = (if grants lg = [] then now_ns else max now_ns (at_ns (last (grants lg))))"

definition evaluate :: "sliding \<Rightarrow> u32 \<Rightarrow> bool \<Rightarrow> decision \<times> sliding" where
  "evaluate s cost record =
     (if cost > sw_limit s then (Impossible, s)
      else if cost = 0 then (Acquired, s)
      else
        (let now_ns = sw_now_ns s;
             held = hold_until_ns (sw_log s) - now_ns
         in
         if held > 0 then (Retry held, s)
         else
           (let lg = prune s now_ns (sw_log s);
                wanted = used lg + cost
            in
            if wanted \<le> sw_limit s then
              (if record
               then (Acquired, s\<lparr>sw_log := lg\<lparr>used := wanted,
                       grants := grants lg @ [\<lparr>at_ns = stamp lg now_ns, count = cost\<rparr>]\<rparr>\<rparr>)
               else (Acquired, s\<lparr>sw_log := lg\<rparr>))
            else
              (let needed = wanted - sw_limit s in
               (Retry (wait_for_room s lg now_ns needed), s\<lparr>sw_log := lg\<rparr>)))))"

definition sw_try_acquire_with_cost :: "sliding \<Rightarrow> u32 \<Rightarrow> bool \<times> sliding" where
  "sw_try_acquire_with_cost s cost =
     (case evaluate s cost True of (d, s') \<Rightarrow> (is_acquired d, s'))"

definition sw_try_acquire :: "sliding \<Rightarrow> bool \<times> sliding" where
  "sw_try_acquire s = sw_try_acquire_with_cost s 1"

definition sw_peek :: "sliding \<Rightarrow> u32 \<Rightarrow> decision \<times> sliding" where
  "sw_peek s cost = evaluate s cost False"

definition sw_available :: "sliding \<Rightarrow> u32 \<times> sliding" where
  "sw_available s =
     (let now_ns = sw_now_ns s in
      if hold_until_ns (sw_log s) > now_ns then (0, s)
      else
        (let lg = prune s now_ns (sw_log s); free = sw_limit s - used lg in
         (if free \<le> U32_MAX then free else 0, s\<lparr>sw_log := lg\<rparr>)))"

fun refund_grants :: "u32 \<Rightarrow> grant list \<Rightarrow> u64 \<Rightarrow> grant list \<times> u64" where
  "refund_grants remaining [] us = ([], us)"
| "refund_grants remaining (front # gs) us =
     (if remaining = 0 then (front # gs, us)
      else
        (let take = min (count front) remaining in
         if count front - take = 0
         then refund_grants (remaining - take) gs (us - take)
         else refund_grants (remaining - take)
                (front\<lparr>count := count front - take\<rparr> # gs) (us - take)))"

declare refund_grants.simps(2) [simp del]

definition sw_refund :: "sliding \<Rightarrow> u32 \<Rightarrow> sliding" where
  "sw_refund s cost =
     (case refund_grants cost (grants (sw_log s)) (used (sw_log s)) of
        (gs, us) \<Rightarrow> s\<lparr>sw_log := (sw_log s)\<lparr>grants := gs, used := us\<rparr>\<rparr>)"

definition sw_pause_for :: "sliding \<Rightarrow> duration \<Rightarrow> sliding" where
  "sw_pause_for s d =
     (if d = 0 then s
      else
        (let until = max (sat_add64 (sw_now_ns s) (nanos_u64 d)) 1 in
         s\<lparr>sw_log := (sw_log s)\<lparr>hold_until_ns := max (hold_until_ns (sw_log s)) until\<rparr>\<rparr>))"

definition sw_resume :: "sliding \<Rightarrow> sliding" where
  "sw_resume s = s\<lparr>sw_log := (sw_log s)\<lparr>hold_until_ns := 0\<rparr>\<rparr>"

definition charge_spent :: "sliding \<Rightarrow> u32 \<Rightarrow> sliding" where
  "charge_spent s cost =
     (if cost = 0 then s
      else
        (let now_ns = sw_now_ns s;
             lg = prune s now_ns (sw_log s)
         in s\<lparr>sw_log := lg\<lparr>used := sat_add64 (used lg) cost,
                grants := grants lg @ [\<lparr>at_ns = stamp lg now_ns, count = cost\<rparr>]\<rparr>\<rparr>))"

definition sw_paused_for :: "sliding \<Rightarrow> duration" where
  "sw_paused_for s = hold_until_ns (sw_log s) - sw_now_ns s"

text \<open>One step of the waiting acquire (the closure given to \<open>wait_for\<close>).\<close>

definition sw_step :: "sliding \<Rightarrow> u32 \<Rightarrow> duration \<Rightarrow> step \<times> sliding" where
  "sw_step s cost budget =
     (case evaluate s cost True of
        (Acquired, s') \<Rightarrow> (Granted 0, s')
      | (Retry a, s') \<Rightarrow> (Retry_Step a, s')
      | (Impossible, s') \<Rightarrow> (Never_Step, s'))"

text \<open>\<open>impl Limiter for SlidingWindowLog\<close>; \<open>reserve\<close> is the trait's default.\<close>

definition sliding_limiter :: "sliding limiter" where
  "sliding_limiter = \<lparr>
     l_peek = (\<lambda>cost s. evaluate s cost False),
     l_acquire_cost = (\<lambda>cost s. evaluate s cost True),
     l_available = sw_available,
     l_capacity = sw_limit,
     l_refund = (\<lambda>cost s. sw_refund s cost),
     l_reserve = default_reserve (\<lambda>cost s. evaluate s cost True),
     l_pause_for = (\<lambda>d s. sw_pause_for s d),
     l_paused_for = sw_paused_for,
     l_resume = sw_resume,
     l_charge = (\<lambda>cost s. (0, charge_spent s cost))\<rparr>"

subsection \<open>Pruning and refunding the log\<close>

definition expired :: "u64 \<Rightarrow> u64 \<Rightarrow> grant \<Rightarrow> bool" where
  "expired window_ns now_ns g \<longleftrightarrow> sat_add64 (at_ns g) window_ns \<le> now_ns"

definition units :: "grant list \<Rightarrow> nat" where
  "units gs = sum_list (map count gs)"

lemma units_simps [simp]:
  "units [] = 0" "units (g # gs) = count g + units gs" "units (gs @ hs) = units gs + units hs"
  by (simp_all add: units_def)

lemma prune_grants_eq:
  "us = units gs \<Longrightarrow>
   prune_grants W n gs us = (dropWhile (expired W n) gs, units (dropWhile (expired W n) gs))"
  by (induction gs arbitrary: us) (auto simp: expired_def)

lemma expired_mono: "at_ns g \<le> at_ns h \<Longrightarrow> expired W n h \<Longrightarrow> expired W n g"
  using sat_add64_mono [of "at_ns g" "at_ns h" W W] by (simp add: expired_def)

lemma dropWhile_expired_sorted:
  "sorted (map at_ns gs) \<Longrightarrow>
   dropWhile (expired W n) gs = filter (\<lambda>g. \<not> expired W n g) gs"
proof (induction gs)
  case (Cons g gs)
  show ?case
  proof (cases "expired W n g")
    case True
    with Cons show ?thesis by simp
  next
    case False
    with Cons.prems have "\<forall>h\<in>set gs. \<not> expired W n h"
      by (auto dest: expired_mono)
    with False show ?thesis by (simp add: filter_id_conv)
  qed
qed simp

lemma units_filter_le: "units (filter P gs) \<le> units gs"
  by (induction gs) auto

lemma sorted_at_filter: "sorted (map at_ns gs) \<Longrightarrow> sorted (map at_ns (filter P gs))"
  by (induction gs) auto

text \<open>A refund takes the oldest units first and never more than the log holds.\<close>

lemma refund_grants_zero [simp]: "refund_grants 0 gs us = (gs, us)"
  by (cases gs) (simp_all add: refund_grants.simps(2))

lemma refund_grants_pop:
  "0 < c \<Longrightarrow> count front \<le> c \<Longrightarrow>
   refund_grants c (front # gs) us = refund_grants (c - count front) gs (us - count front)"
  by (simp add: refund_grants.simps(2) Let_def min_def)

lemma refund_grants_split:
  "0 < c \<Longrightarrow> c < count front \<Longrightarrow>
   refund_grants c (front # gs) us = (front\<lparr>count := count front - c\<rparr> # gs, us - c)"
  by (simp add: refund_grants.simps(2) [of c front gs us] Let_def min_def)

lemma refund_grants_units:
  "refund_grants c gs (units gs) = (gs', us') \<Longrightarrow> us' = units gs' \<and> us' = units gs - c"
proof (induction gs arbitrary: c)
  case (Cons g gs)
  consider "c = 0" | "0 < c" "count g \<le> c" | "0 < c" "c < count g" by linarith
  then show ?case
  proof cases
    case 2
    with Cons.prems Cons.IH [of "c - count g"] show ?thesis
      by (auto simp: refund_grants_pop)
  qed (use Cons.prems in \<open>auto simp: refund_grants_split\<close>)
qed simp

lemma refund_grants_stamps:
  "refund_grants c gs us = (gs', us') \<Longrightarrow> \<exists>n. map at_ns gs' = drop n (map at_ns gs)"
proof (induction gs arbitrary: c us)
  case (Cons g gs)
  consider "c = 0" | "0 < c" "count g \<le> c" | "0 < c" "c < count g" by linarith
  then show ?case
  proof cases
    case 2
    with Cons.prems Cons.IH [of "c - count g" "us - count g"]
    obtain n where "map at_ns gs' = drop n (map at_ns gs)"
      by (auto simp: refund_grants_pop)
    then show ?thesis by (auto intro: exI [of _ "Suc n"])
  qed (use Cons.prems in \<open>auto simp: refund_grants_split intro: exI [of _ 0]\<close>)
qed simp

subsection \<open>The invariant and the constituent contract\<close>

definition sw_live :: "sliding \<Rightarrow> grant list" where
  "sw_live s = filter (\<lambda>g. \<not> expired (sw_window_ns s) (sw_now_ns s) g) (grants (sw_log s))"

text \<open>\<open>sw_good\<close>: the log is ordered, holds no stamp of the future, its counter is
  the sum of its grants and fits its 64 bits, the limit is a 32-bit number, the window
  is positive, and the clock is past the epoch and has not reached the end of its
  64-bit range (584 years later).\<close>

definition sw_good :: "sliding \<Rightarrow> bool" where
  "sw_good s \<longleftrightarrow>
     sorted (map at_ns (grants (sw_log s))) \<and>
     (\<forall>g\<in>set (grants (sw_log s)). at_ns g \<le> sw_now_ns s) \<and>
     used (sw_log s) = units (grants (sw_log s)) \<and>
     used (sw_log s) \<le> U64_MAX \<and> sw_limit s \<le> U32_MAX \<and>
     1 \<le> sw_window_ns s \<and> sw_epoch s \<le> sw_clock s \<and> sw_now_ns s < U64_MAX"

definition sw_spent :: "sliding \<Rightarrow> nat" where
  "sw_spent s = units (sw_live s)"

definition sw_ready :: "sliding \<Rightarrow> bool" where
  "sw_ready s \<longleftrightarrow> (\<forall>g\<in>set (grants (sw_log s)). \<not> expired (sw_window_ns s) (sw_now_ns s) g)"

lemma prune_good:
  "sw_good s \<Longrightarrow> prune s (sw_now_ns s) (sw_log s) =
     (sw_log s)\<lparr>grants := sw_live s, used := sw_spent s\<rparr>"
  by (simp add: prune_def sw_good_def prune_grants_eq dropWhile_expired_sorted
      sw_live_def sw_spent_def)

lemma sw_now_ns_update [simp]: "sw_now_ns (s\<lparr>sw_log := lg\<rparr>) = sw_now_ns s"
  by (simp add: sw_now_ns_def)

lemma live_stamp:
  "sw_good s \<Longrightarrow> sw_now_ns s \<le> t \<Longrightarrow>
   \<not> expired (sw_window_ns s) (sw_now_ns s) \<lparr>at_ns = t, count = c\<rparr>"
  by (auto simp: expired_def sat_add64_def sw_good_def)

lemma stamp_now:
  "sw_good s \<Longrightarrow> stamp ((sw_log s)\<lparr>grants := sw_live s, used := u\<rparr>) (sw_now_ns s) = sw_now_ns s"
  by (auto simp: stamp_def sw_live_def sw_good_def max_def dest!: last_in_set
      intro: le_antisym)

lemmas sw_defs = sw_good_def sw_spent_def sw_ready_def sw_live_def

text \<open>The three outcomes of an evaluation, as updates of a good state.\<close>

definition sw_pruned :: "sliding \<Rightarrow> sliding" where
  "sw_pruned s = s\<lparr>sw_log := (sw_log s)\<lparr>grants := sw_live s, used := sw_spent s\<rparr>\<rparr>"

definition sw_pushed :: "sliding \<Rightarrow> u32 \<Rightarrow> sliding" where
  "sw_pushed s c = s\<lparr>sw_log := (sw_log s)\<lparr>used := sw_spent s + c,
     grants := sw_live s @ [\<lparr>at_ns = sw_now_ns s, count = c\<rparr>]\<rparr>\<rparr>"

lemma evaluate_good:
  assumes "sw_good s"
  shows "evaluate s c record =
     (if c > sw_limit s then (Impossible, s)
      else if c = 0 then (Acquired, s)
      else if hold_until_ns (sw_log s) > sw_now_ns s
      then (Retry (hold_until_ns (sw_log s) - sw_now_ns s), s)
      else if sw_spent s + c \<le> sw_limit s
      then (Acquired, if record then sw_pushed s c else sw_pruned s)
      else (Retry (wait_scan (sw_window_ns s) (sw_now_ns s) (sw_spent s + c - sw_limit s) 0
                    (sw_live s)), sw_pruned s))"
  using assms
  by (simp add: evaluate_def Let_def prune_good stamp_now sw_pushed_def sw_pruned_def
      wait_for_room_def)

lemma sw_live_pruned [simp]: "sw_live (sw_pruned s) = sw_live s"
  by (simp add: sw_pruned_def sw_live_def)

lemma sw_live_pushed:
  "sw_good s \<Longrightarrow> sw_live (sw_pushed s c) = sw_live s @ [\<lparr>at_ns = sw_now_ns s, count = c\<rparr>]"
  by (simp add: sw_pushed_def sw_live_def live_stamp)

lemma sw_spent_le: "sw_good s \<Longrightarrow> sw_spent s \<le> U64_MAX"
  using units_filter_le [of _ "grants (sw_log s)"] by (fastforce simp: sw_defs intro: le_trans)

lemma sw_good_pruned: "sw_good s \<Longrightarrow> sw_good (sw_pruned s)"
  using sw_spent_le [of s] by (auto simp: sw_pruned_def sw_defs sorted_at_filter)

lemma sw_good_pushed: "sw_good s \<Longrightarrow> sw_spent s + c \<le> U64_MAX \<Longrightarrow> sw_good (sw_pushed s c)"
  by (auto simp: sw_pushed_def sw_defs sorted_at_filter sorted_append)

lemma sw_good_granted:
  "sw_good s \<Longrightarrow> sw_spent s + c \<le> sw_limit s \<Longrightarrow> sw_good (sw_pushed s c)"
  using U32_MAX_le_U64_MAX by (intro sw_good_pushed) (auto simp: sw_good_def)

lemma sw_ready_pruned: "sw_ready (sw_pruned s)"
  by (simp add: sw_pruned_def sw_defs)

lemma sw_ready_pushed: "sw_good s \<Longrightarrow> sw_ready (sw_pushed s c)"
  using live_stamp [of s "sw_now_ns s" c] by (auto simp: sw_pushed_def sw_ready_def sw_live_def)

lemma sw_spent_pruned [simp]: "sw_spent (sw_pruned s) = sw_spent s"
  by (simp add: sw_spent_def)

lemma sw_spent_pushed: "sw_good s \<Longrightarrow> sw_spent (sw_pushed s c) = sw_spent s + c"
  by (simp add: sw_spent_def sw_live_pushed)

lemmas sw_outcomes = sw_good_pruned sw_good_granted sw_ready_pruned sw_ready_pushed sw_spent_pushed

lemma sw_ready_live: "sw_ready s \<Longrightarrow> sw_live s = grants (sw_log s)"
  by (simp add: sw_ready_def sw_live_def filter_id_conv)

lemma sw_refund_grants:
  "\<exists>n. map at_ns (grants (sw_log (sw_refund s c))) = drop n (map at_ns (grants (sw_log s)))"
  using refund_grants_stamps [of c "grants (sw_log s)" "used (sw_log s)"]
  by (simp add: sw_refund_def split: prod.splits)

lemma sw_refund_zero [simp]: "sw_refund s 0 = s"
  by (simp add: sw_refund_def)

lemma sw_refund_frame [simp]:
  "sw_epoch (sw_refund s c) = sw_epoch s" "sw_clock (sw_refund s c) = sw_clock s"
  "sw_window_ns (sw_refund s c) = sw_window_ns s" "sw_now_ns (sw_refund s c) = sw_now_ns s"
  "sw_limit (sw_refund s c) = sw_limit s"
  by (simp_all add: sw_refund_def sw_now_ns_def split: prod.splits)

lemma sw_refund_stamps:
  assumes "g \<in> set (grants (sw_log (sw_refund s c)))"
  shows "\<exists>h\<in>set (grants (sw_log s)). at_ns h = at_ns g"
proof -
  obtain n where "map at_ns (grants (sw_log (sw_refund s c))) = drop n (map at_ns (grants (sw_log s)))"
    using sw_refund_grants by blast
  with assms have "at_ns g \<in> set (drop n (map at_ns (grants (sw_log s))))"
    by (metis image_eqI list.set_map)
  then show ?thesis by (fastforce dest!: in_set_dropD)
qed

lemma sw_refund_good:
  assumes "sw_good s"
  shows "sw_good (sw_refund s c)"
proof -
  obtain n where n: "map at_ns (grants (sw_log (sw_refund s c))) = drop n (map at_ns (grants (sw_log s)))"
    using sw_refund_grants by blast
  have "sorted (map at_ns (grants (sw_log (sw_refund s c))))"
    using assms by (simp add: n sorted_wrt_drop sw_good_def)
  moreover have "used (sw_log (sw_refund s c)) = units (grants (sw_log (sw_refund s c)))"
    using assms refund_grants_units [of c "grants (sw_log s)"]
    by (auto simp: sw_refund_def sw_good_def split: prod.splits)
  moreover have "\<forall>g\<in>set (grants (sw_log (sw_refund s c))). at_ns g \<le> sw_now_ns s"
    using assms sw_refund_stamps [of _ s c] by (metis sw_good_def)
  moreover have "used (sw_log (sw_refund s c)) \<le> used (sw_log s)"
    using assms refund_grants_units [of c "grants (sw_log s)"]
    by (auto simp: sw_refund_def sw_good_def split: prod.splits)
  ultimately show ?thesis using assms by (auto simp: sw_good_def)
qed

lemma sw_refund_ready: "sw_ready s \<Longrightarrow> sw_ready (sw_refund s c)"
  using sw_refund_stamps [of _ s c] by (fastforce simp: sw_ready_def expired_def)

lemma sw_refund_spent:
  assumes "sw_good s" and "sw_ready s"
  shows "sw_spent (sw_refund s c) = sw_spent s - c"
proof -
  have "sw_spent (sw_refund s c) = used (sw_log (sw_refund s c))"
    using assms sw_refund_good [of s c] sw_refund_ready [of s c]
    by (simp add: sw_spent_def sw_ready_live sw_good_def)
  also have "\<dots> = units (grants (sw_log s)) - c"
    using assms refund_grants_units [of c "grants (sw_log s)"]
    by (auto simp: sw_refund_def sw_good_def split: prod.splits)
  finally show ?thesis using assms by (simp add: sw_spent_def sw_ready_live)
qed

interpretation sliding: limiter_obj sliding_limiter sw_spent sw_ready sw_good
proof (unfold_locales, goal_cases)
  case (6 s c)
  then show ?case
    by (auto simp: sliding_limiter_def sw_refund_good sw_refund_spent sw_refund_ready)
qed (auto simp: sliding_limiter_def evaluate_good default_reserve_def sw_outcomes
      split: if_splits)

subsection \<open>No window ever holds more than the limit\<close>

text \<open>A run of the limiter: each event carries what the clock reads when it happens.\<close>

datatype sw_event =
    Sw_Acquire u32
  | Sw_Peek u32
  | Sw_Available
  | Sw_Pause duration
  | Sw_Resume

fun sw_event_step :: "sliding \<Rightarrow> nat \<Rightarrow> sw_event \<Rightarrow> grant list \<times> sliding" where
  "sw_event_step s t (Sw_Acquire c) =
     (let s1 = s\<lparr>sw_clock := t\<rparr> in
      case evaluate s1 c True of (d, s2) \<Rightarrow>
        (if is_acquired d \<and> c \<noteq> 0 then [\<lparr>at_ns = sw_now_ns s1, count = c\<rparr>] else [], s2))"
| "sw_event_step s t (Sw_Peek c) = ([], snd (sw_peek (s\<lparr>sw_clock := t\<rparr>) c))"
| "sw_event_step s t Sw_Available = ([], snd (sw_available (s\<lparr>sw_clock := t\<rparr>)))"
| "sw_event_step s t (Sw_Pause d) = ([], sw_pause_for (s\<lparr>sw_clock := t\<rparr>) d)"
| "sw_event_step s t Sw_Resume = ([], sw_resume (s\<lparr>sw_clock := t\<rparr>))"

fun sw_run :: "sliding \<Rightarrow> (nat \<times> sw_event) list \<Rightarrow> grant list \<times> sliding" where
  "sw_run s [] = ([], s)"
| "sw_run s ((t, e) # es) =
     (case sw_event_step s t e of (gs, s1) \<Rightarrow>
        (case sw_run s1 es of (hs, s2) \<Rightarrow> (gs @ hs, s2)))"

definition in_window :: "nat \<Rightarrow> u64 \<Rightarrow> grant list \<Rightarrow> nat" where
  "in_window t window_ns gs = units (filter (\<lambda>g. t \<le> at_ns g \<and> at_ns g < t + window_ns) gs)"

lemma in_window_append [simp]:
  "in_window t W (gs @ hs) = in_window t W gs + in_window t W hs"
  by (simp add: in_window_def)

lemma in_window_le: "in_window t W gs \<le> units gs"
  by (simp add: in_window_def units_filter_le)

text \<open>The history \<open>H\<close> of all grants is what was dropped from the log, all of it a
  full window old, followed by the log.\<close>

definition sw_history :: "grant list \<Rightarrow> sliding \<Rightarrow> bool" where
  "sw_history H s \<longleftrightarrow>
     sw_good s \<and>
     (\<exists>P. H = P @ grants (sw_log s) \<and> (\<forall>p\<in>set P. at_ns p + sw_window_ns s \<le> sw_now_ns s)) \<and>
     (\<forall>t. in_window t (sw_window_ns s) H \<le> sw_limit s)"

lemma expired_exact:
  "now_ns < U64_MAX \<Longrightarrow> expired W now_ns g \<longleftrightarrow> at_ns g + W \<le> now_ns"
  by (auto simp: expired_def sat_add64_def)

lemma sw_history_pruned:
  assumes "sw_history H s"
  shows "sw_history H (sw_pruned s)"
proof -
  from assms obtain P where good: "sw_good s" and H: "H = P @ grants (sw_log s)"
    and P: "\<forall>p\<in>set P. at_ns p + sw_window_ns s \<le> sw_now_ns s"
    by (auto simp: sw_history_def)
  let ?e = "expired (sw_window_ns s) (sw_now_ns s)"
  have "grants (sw_log s) = takeWhile ?e (grants (sw_log s)) @ sw_live s"
    using good by (simp add: sw_live_def sw_good_def flip: dropWhile_expired_sorted)
  with H have "H = (P @ takeWhile ?e (grants (sw_log s))) @ sw_live s" by simp
  moreover have "\<forall>p\<in>set (P @ takeWhile ?e (grants (sw_log s))).
      at_ns p + sw_window_ns s \<le> sw_now_ns s"
    using P good by (auto dest!: set_takeWhileD simp: expired_exact sw_good_def)
  ultimately have "\<exists>P. H = P @ grants (sw_log (sw_pruned s)) \<and>
      (\<forall>p\<in>set P. at_ns p + sw_window_ns (sw_pruned s) \<le> sw_now_ns (sw_pruned s))"
    by (auto simp: sw_pruned_def)
  then show ?thesis
    using assms good by (simp add: sw_history_def sw_good_pruned) (simp add: sw_pruned_def)
qed

lemma sw_history_pushed:
  assumes hist: "sw_history H s" and room: "sw_spent s + c \<le> sw_limit s"
  shows "sw_history (H @ [\<lparr>at_ns = sw_now_ns s, count = c\<rparr>]) (sw_pushed s c)"
proof -
  let ?g = "\<lparr>at_ns = sw_now_ns s, count = c\<rparr>"
  from sw_history_pruned [OF hist] obtain P where good: "sw_good s"
    and H: "H = P @ sw_live s" and P: "\<forall>p\<in>set P. at_ns p + sw_window_ns s \<le> sw_now_ns s"
    and win: "\<And>t. in_window t (sw_window_ns s) H \<le> sw_limit s"
    using hist by (auto simp: sw_history_def sw_pruned_def)
  have "in_window t (sw_window_ns s) (H @ [?g]) \<le> sw_limit s" for t
  proof (cases "t \<le> sw_now_ns s \<and> sw_now_ns s < t + sw_window_ns s")
    case True
    have "in_window t (sw_window_ns s) P = 0"
      using P True by (fastforce simp: in_window_def filter_empty_conv units_def)
    moreover have "in_window t (sw_window_ns s) (sw_live s @ [?g]) \<le> sw_spent s + c"
      using in_window_le [of t "sw_window_ns s" "sw_live s @ [?g]"] by (simp add: sw_spent_def)
    ultimately show ?thesis using room by (simp add: H)
  next
    case False
    then show ?thesis using win [of t] by (auto simp: in_window_def)
  qed
  with good H P show ?thesis
    using sw_good_granted [OF good room] by (auto simp: sw_history_def sw_pushed_def)
qed

lemma sw_history_clock:
  assumes "sw_history H s" and "sw_clock s \<le> t" and "t - sw_epoch s < U64_MAX"
  shows "sw_history H (s\<lparr>sw_clock := t\<rparr>)"
proof -
  have "sw_now_ns s \<le> sw_now_ns (s\<lparr>sw_clock := t\<rparr>)"
    using assms(2) by (simp add: sw_now_ns_def nanos_between_mono)
  moreover have "sw_now_ns (s\<lparr>sw_clock := t\<rparr>) < U64_MAX"
    using assms(3) by (simp add: sw_now_ns_def nanos_between_def)
  ultimately show ?thesis
    using assms(1,2) by (fastforce simp: sw_history_def sw_good_def)
qed

lemma sw_history_hold:
  assumes "sw_history H s"
  shows "sw_history H (s\<lparr>sw_log := (sw_log s)\<lparr>hold_until_ns := h\<rparr>\<rparr>)"
  using assms by (auto simp: sw_history_def sw_good_def)

lemma evaluate_history:
  assumes "sw_history H s" and "evaluate s c record = (d, s')"
  shows "sw_history (H @ (if record \<and> is_acquired d \<and> c \<noteq> 0
                          then [\<lparr>at_ns = sw_now_ns s, count = c\<rparr>] else [])) s'"
proof -
  have good: "sw_good s" using assms(1) by (simp add: sw_history_def)
  show ?thesis
    using assms sw_history_pruned [OF assms(1)] sw_history_pushed [OF assms(1), of c]
    by (auto simp: evaluate_good [OF good] split: if_splits)
qed

lemma evaluate_frame:
  "evaluate s c record = (d, s') \<Longrightarrow>
   sw_limit s' = sw_limit s \<and> sw_window_ns s' = sw_window_ns s \<and>
   sw_epoch s' = sw_epoch s \<and> sw_clock s' = sw_clock s"
  by (auto simp: evaluate_def Let_def split: if_splits)

lemma sw_event_step_frame:
  assumes "sw_event_step s t e = (gs, s')"
  shows "sw_limit s' = sw_limit s \<and> sw_window_ns s' = sw_window_ns s \<and>
    sw_epoch s' = sw_epoch s \<and> sw_clock s' = t"
proof (cases e)
  case (Sw_Acquire c)
  obtain d s2 where "evaluate (s\<lparr>sw_clock := t\<rparr>) c True = (d, s2)" by fastforce
  with evaluate_frame [OF this] show ?thesis using assms Sw_Acquire by (auto simp: Let_def)
next
  case (Sw_Peek c)
  obtain d s2 where "evaluate (s\<lparr>sw_clock := t\<rparr>) c False = (d, s2)" by fastforce
  with evaluate_frame [OF this] show ?thesis using assms Sw_Peek by (auto simp: sw_peek_def)
next
  case Sw_Available
  then show ?thesis using assms by (auto simp: sw_available_def Let_def)
next
  case (Sw_Pause d)
  then show ?thesis using assms by (auto simp: sw_pause_for_def Let_def)
next
  case Sw_Resume
  then show ?thesis using assms by (auto simp: sw_resume_def)
qed

lemma sw_available_pruned:
  "sw_good s \<Longrightarrow> snd (sw_available s) = (if hold_until_ns (sw_log s) > sw_now_ns s then s else sw_pruned s)"
  by (simp add: sw_available_def Let_def prune_good sw_pruned_def)

lemma sw_event_history:
  assumes "sw_history H s" and "sw_clock s \<le> t" and "t - sw_epoch s < U64_MAX"
    and "sw_event_step s t e = (gs, s')"
  shows "sw_history (H @ gs) s'"
proof -
  let ?s = "s\<lparr>sw_clock := t\<rparr>"
  have hist: "sw_history H ?s" using assms(1-3) by (rule sw_history_clock)
  then have good: "sw_good ?s" by (simp add: sw_history_def)
  show ?thesis
  proof (cases e)
    case (Sw_Acquire c)
    obtain d s2 where ev: "evaluate ?s c True = (d, s2)" by fastforce
    from evaluate_history [OF hist ev] show ?thesis
      using assms(4) Sw_Acquire ev by (auto simp: Let_def)
  next
    case (Sw_Peek c)
    obtain d s2 where ev: "evaluate ?s c False = (d, s2)" by fastforce
    from evaluate_history [OF hist ev] show ?thesis
      using assms(4) Sw_Peek ev by (auto simp: sw_peek_def)
  next
    case Sw_Available
    then show ?thesis
      using assms(4) hist sw_history_pruned [OF hist]
      by (auto simp: sw_available_pruned [OF good] split: if_splits)
  next
    case (Sw_Pause d)
    then show ?thesis
      using assms(4) hist sw_history_hold [OF hist] by (auto simp: sw_pause_for_def Let_def)
  next
    case Sw_Resume
    then show ?thesis
      using assms(4) sw_history_hold [OF hist] by (auto simp: sw_resume_def)
  qed
qed

lemma sw_run_history:
  assumes "sw_history H s" and "sorted (sw_clock s # map fst es)"
    and "\<forall>t\<in>set (map fst es). t - sw_epoch s < U64_MAX" and "sw_run s es = (gs, s')"
  shows "sw_history (H @ gs) s' \<and> sw_limit s' = sw_limit s \<and> sw_window_ns s' = sw_window_ns s"
  using assms
proof (induction es arbitrary: H s gs)
  case (Cons te es)
  obtain t e where te: "te = (t, e)" by (cases te)
  obtain g1 s1 where st: "sw_event_step s t e = (g1, s1)" by fastforce
  obtain g2 where rn: "sw_run s1 es = (g2, s')" and gs: "gs = g1 @ g2"
    using Cons.prems(4) te st by (auto split: prod.splits)
  have h1: "sw_history (H @ g1) s1"
    using Cons.prems te st by (intro sw_event_history [of H s t e]) auto
  have "sw_clock s1 = t" "sw_epoch s1 = sw_epoch s" "sw_limit s1 = sw_limit s"
    "sw_window_ns s1 = sw_window_ns s"
    using sw_event_step_frame [OF st] by auto
  with Cons.IH [OF h1 _ _ rn] Cons.prems te gs show ?case by simp
qed simp

lemma sw_new_history:
  "limit \<le> U32_MAX \<Longrightarrow> sw_history [] (sw_new limit window clock)"
  by (auto simp: sw_history_def sw_new_def with_clock_inner_def sw_good_def sw_now_ns_def
      nanos_between_def in_window_def U64_MAX_def)

text \<open>C1: exactness of the sliding window.  Whatever mix of acquires, peeks, pauses and
  resumes a fresh limiter sees, and wherever a window of the configured length is
  placed, the units granted at clock readings inside it add up to at most the limit:
  there is no boundary burst.  Operations take the lock in the order of their clock readings.\<close>

theorem window_never_over_limit:
  assumes "limit \<le> U32_MAX" and "sorted (clock # map fst es)"
    and "\<forall>t\<in>set (map fst es). t - clock < U64_MAX"
    and "sw_run (sw_new limit window clock) es = (gs, s')"
  shows "in_window t (max (nanos_u64 window) 1) gs \<le> limit"
proof -
  let ?s = "sw_new limit window clock"
  have "sw_clock ?s = clock" "sw_epoch ?s = clock" "sw_limit ?s = limit"
    "sw_window_ns ?s = max (nanos_u64 window) 1"
    by (simp_all add: sw_new_def with_clock_inner_def)
  with sw_run_history [OF sw_new_history [OF assms(1)] _ _ assms(4)] assms(2,3)
  show ?thesis by (auto simp: sw_history_def)
qed

theorem window_never_over_limit_witness:
  "in_window 0 (max (nanos_u64 10) 1)
     (fst (sw_run (sw_new 2 10 0)
        [(0, Sw_Acquire 1), (3, Sw_Acquire 1), (5, Sw_Acquire 1), (10, Sw_Acquire 1)])) \<le> 2"
  using window_never_over_limit
    [of 2 0 "[(0, Sw_Acquire 1), (3, Sw_Acquire 1), (5, Sw_Acquire 1), (10, Sw_Acquire 1)]" 10
        "fst (sw_run (sw_new 2 10 0)
           [(0, Sw_Acquire 1), (3, Sw_Acquire 1), (5, Sw_Acquire 1), (10, Sw_Acquire 1)])"
        "snd (sw_run (sw_new 2 10 0)
           [(0, Sw_Acquire 1), (3, Sw_Acquire 1), (5, Sw_Acquire 1), (10, Sw_Acquire 1)])" 0]
  by (simp add: U32_MAX_def U64_MAX_def)

subsection \<open>The reported wait is exact\<close>

text \<open>The scan stops at the first grant whose expiry frees enough units.\<close>

lemma wait_scan_stop:
  "freed < needed \<Longrightarrow> needed \<le> freed + units gs \<Longrightarrow> needed \<le> U64_MAX \<Longrightarrow>
   \<exists>pre g post. gs = pre @ g # post \<and> freed + units pre < needed \<and>
     needed \<le> freed + units pre + count g \<and>
     wait_scan W n needed freed gs = sat_add64 (at_ns g) W - n"
proof (induction gs arbitrary: freed)
  case (Cons g gs)
  show ?case
  proof (cases "needed \<le> freed + count g")
    case True
    with Cons.prems have "wait_scan W n needed freed (g # gs) = sat_add64 (at_ns g) W - n"
      by (simp add: sat_add64_def Let_def)
    with True Cons.prems(1) show ?thesis by (intro exI [of _ "[]"] exI [of _ g] exI [of _ gs]) simp
  next
    case False
    then have eq: "wait_scan W n needed freed (g # gs) = wait_scan W n needed (freed + count g) gs"
      using Cons.prems by (simp add: sat_add64_def Let_def)
    obtain pre h post where "gs = pre @ h # post" "freed + count g + units pre < needed"
      "needed \<le> freed + count g + units pre + count h"
      "wait_scan W n needed (freed + count g) gs = sat_add64 (at_ns h) W - n"
      using Cons.IH [of "freed + count g"] False Cons.prems by auto
    then have "g # gs = (g # pre) @ h # post \<and> freed + units (g # pre) < needed \<and>
        needed \<le> freed + units (g # pre) + count h \<and>
        wait_scan W n needed freed (g # gs) = sat_add64 (at_ns h) W - n"
      using eq by (simp del: wait_scan.simps)
    then show ?thesis by blast
  qed
qed simp

definition sw_after :: "sliding \<Rightarrow> duration \<Rightarrow> sliding" where
  "sw_after s d = s\<lparr>sw_clock := sw_clock s + d\<rparr>"

lemma sw_after_now:
  "sw_good s \<Longrightarrow> sw_now_ns s + d < U64_MAX \<Longrightarrow> sw_now_ns (sw_after s d) = sw_now_ns s + d"
  by (auto simp: sw_after_def sw_now_ns_def nanos_between_def sw_good_def to_u64_def split: if_splits)

lemma sw_after_good:
  "sw_good s \<Longrightarrow> sw_now_ns s + d < U64_MAX \<Longrightarrow> sw_good (sw_after s d)"
  using sw_after_now [of s d] by (auto simp: sw_good_def sw_after_def)

text \<open>Of an ordered list, what is left after \<open>g\<close> expires, and while it does not.\<close>

lemma units_live_split:
  assumes "sorted (map at_ns (pre @ g # post))"
  shows "expired W n g \<Longrightarrow>
           units (filter (\<lambda>h. \<not> expired W n h) (pre @ g # post)) \<le> units post"
    and "\<not> expired W n g \<Longrightarrow>
           count g + units post \<le> units (filter (\<lambda>h. \<not> expired W n h) (pre @ g # post))"
proof -
  assume e: "expired W n g"
  have "\<forall>h\<in>set pre. expired W n h"
    using assms e by (auto simp: sorted_append dest: expired_mono)
  then show "units (filter (\<lambda>h. \<not> expired W n h) (pre @ g # post)) \<le> units post"
    using e units_filter_le by (simp add: filter_empty_conv)
next
  assume e: "\<not> expired W n g"
  have "\<forall>h\<in>set post. \<not> expired W n h"
    using assms e by (auto simp: sorted_append dest: expired_mono)
  then show "count g + units post \<le> units (filter (\<lambda>h. \<not> expired W n h) (pre @ g # post))"
    using e by (simp add: filter_id_conv)
qed

lemma sw_pruned_now [simp]: "sw_now_ns (sw_pruned s) = sw_now_ns s"
  by (simp add: sw_pruned_def)

lemma sw_spent_after:
  assumes "sw_good s" and "sw_now_ns s + d < U64_MAX"
  shows "sw_spent (sw_after (sw_pruned s) d) =
     units (filter (\<lambda>h. \<not> expired (sw_window_ns s) (sw_now_ns s + d) h) (sw_live s))"
proof -
  have "sw_now_ns (sw_after (sw_pruned s) d) = sw_now_ns s + d"
    using assms sw_after_now [of "sw_pruned s" d] sw_good_pruned by simp
  moreover have "sw_window_ns (sw_after (sw_pruned s) d) = sw_window_ns s"
    "grants (sw_log (sw_after (sw_pruned s) d)) = sw_live s"
    by (simp_all add: sw_after_def sw_pruned_def)
  ultimately show ?thesis by (simp only: sw_spent_def sw_live_def [of "sw_after _ _"])
qed

lemma evaluate_after:
  assumes "sw_good s" and "sw_now_ns s + d < U64_MAX" and "0 < c" and "c \<le> sw_limit s"
    and "hold_until_ns (sw_log s) \<le> sw_now_ns s"
  shows "fst (evaluate (sw_after (sw_pruned s) d) c True) = Acquired \<longleftrightarrow>
     sw_spent (sw_after (sw_pruned s) d) + c \<le> sw_limit s"
proof -
  have good: "sw_good (sw_after (sw_pruned s) d)"
    using assms(1,2) sw_good_pruned sw_after_good [of "sw_pruned s" d] by (simp add: sw_pruned_def)
  have "sw_limit (sw_after (sw_pruned s) d) = sw_limit s"
    "hold_until_ns (sw_log (sw_after (sw_pruned s) d)) = hold_until_ns (sw_log s)"
    by (simp_all add: sw_after_def sw_pruned_def)
  moreover have "sw_now_ns (sw_after (sw_pruned s) d) = sw_now_ns s + d"
    using sw_after_now [of "sw_pruned s" d] sw_good_pruned assms(1,2) by (simp add: sw_pruned_def)
  ultimately show ?thesis
    using assms(3-5) by (auto simp: evaluate_good [OF good])
qed

lemma refused_wait:
  assumes good: "sw_good s" and ev: "evaluate s c record = (Retry a, s')"
    and hold: "hold_until_ns (sw_log s) \<le> sw_now_ns s"
    and clock: "sw_now_ns s + sw_window_ns s < U64_MAX"
  shows "fst (evaluate (sw_after s' a) c True) = Acquired \<and>
    (\<forall>d<a. fst (evaluate (sw_after s' d) c True) \<noteq> Acquired) \<and>
    0 < a \<and> a \<le> sw_window_ns s"
proof -
  let ?W = "sw_window_ns s" and ?n = "sw_now_ns s"
  let ?need = "sw_spent s + c - sw_limit s"
  have c: "0 < c" "c \<le> sw_limit s" and full: "sw_limit s < sw_spent s + c"
    and s': "s' = sw_pruned s" and a: "a = wait_scan ?W ?n ?need 0 (sw_live s)"
    using ev hold by (auto simp: evaluate_good [OF good] split: if_splits)
  have "?need \<le> sw_spent s" using c by simp
  then obtain pre g post where live: "sw_live s = pre @ g # post"
    and lo: "units pre < ?need" and hi: "?need \<le> units pre + count g"
    and ag: "a = sat_add64 (at_ns g) ?W - ?n"
    using wait_scan_stop [of 0 ?need "sw_live s" ?W ?n] full sw_spent_le [OF good] a
    by (auto simp: sw_spent_def)
  have sorted: "sorted (map at_ns (pre @ g # post))"
    unfolding live [symmetric] sw_live_def using good
    by (intro sorted_at_filter) (simp add: sw_good_def)
  have g: "g \<in> set (sw_live s)" by (simp add: live)
  then have at: "at_ns g \<le> ?n" "\<not> expired ?W ?n g"
    using good by (auto simp: sw_live_def sw_good_def)
  have ready: "a = at_ns g + ?W - ?n" "?n < at_ns g + ?W"
    using at clock ag by (auto simp: expired_def sat_add64_def)
  have total: "sw_spent s = units pre + count g + units post"
    by (simp add: sw_spent_def live)
  have pos: "0 < a \<and> a \<le> ?W" using ready at by simp
  have exp: "expired ?W (?n + d) g \<longleftrightarrow> a \<le> d" if "?n + d < U64_MAX" for d
    using that ready by (auto simp: expired_exact)
  have eval: "fst (evaluate (sw_after s' d) c True) = Acquired \<longleftrightarrow>
      units (filter (\<lambda>h. \<not> expired ?W (?n + d) h) (pre @ g # post)) + c \<le> sw_limit s"
    if "?n + d < U64_MAX" for d
    using evaluate_after [OF good that c hold] sw_spent_after [OF good that] s' live by simp
  have na: "?n + a < U64_MAX" using pos clock by simp
  have granted: "fst (evaluate (sw_after s' a) c True) = Acquired"
    using units_live_split(1) [OF sorted, of ?W "?n + a"] exp [OF na] eval [OF na] total hi full
    by linarith
  have refused: "fst (evaluate (sw_after s' d) c True) \<noteq> Acquired" if d: "d < a" for d
  proof -
    have nd: "?n + d < U64_MAX" using d na by simp
    show ?thesis
      using units_live_split(2) [OF sorted, of ?W "?n + d"] exp [OF nd] eval [OF nd] total lo d full
      by linarith
  qed
  from granted refused pos show ?thesis by blast
qed

lemma paused_wait:
  assumes good: "sw_good s" and ev: "evaluate s c record = (Retry a, s')"
    and hold: "sw_now_ns s < hold_until_ns (sw_log s)" and clock: "sw_now_ns s + a < U64_MAX"
  shows "a = hold_until_ns (sw_log s) - sw_now_ns s \<and> s' = s \<and>
    (\<forall>d<a. fst (evaluate (sw_after s d) c True) \<noteq> Acquired) \<and>
    (fst (evaluate (sw_after s a) c True) = Acquired \<longleftrightarrow> sw_spent (sw_after s a) + c \<le> sw_limit s)"
proof -
  have c: "0 < c" "c \<le> sw_limit s" and a: "a = hold_until_ns (sw_log s) - sw_now_ns s" "s' = s"
    using ev hold by (auto simp: evaluate_good [OF good] split: if_splits)
  have at: "evaluate (sw_after s d) c True =
      (if hold_until_ns (sw_log s) > sw_now_ns s + d
       then (Retry (hold_until_ns (sw_log s) - (sw_now_ns s + d)), sw_after s d)
       else if sw_spent (sw_after s d) + c \<le> sw_limit s
       then (Acquired, sw_pushed (sw_after s d) c)
       else (Retry (wait_scan (sw_window_ns s) (sw_now_ns s + d) (sw_spent (sw_after s d) + c - sw_limit s) 0
               (sw_live (sw_after s d))), sw_pruned (sw_after s d)))"
    if "sw_now_ns s + d < U64_MAX" for d
    using evaluate_good [OF sw_after_good [OF good that], of c True] c sw_after_now [OF good that]
    by (simp add: sw_after_def)
  have "fst (evaluate (sw_after s d) c True) \<noteq> Acquired" if "d < a" for d
  proof -
    have "sw_now_ns s + d < hold_until_ns (sw_log s)" "sw_now_ns s + d < U64_MAX"
      using that a(1) clock by simp_all
    with at [of d] show ?thesis by simp
  qed
  moreover have "fst (evaluate (sw_after s a) c True) = Acquired \<longleftrightarrow> sw_spent (sw_after s a) + c \<le> sw_limit s"
    using at [OF clock] a hold by simp
  ultimately show ?thesis using a by blast
qed

text \<open>C31: the wait a refusal reports is never too long, and outside a pause it is exact.
  With nobody else at the limiter in between, a refused request is granted at no time before
  the reported wait is over, and the wait is positive.  If the limiter was not paused when it
  refused, the wait is at most one window and the request is granted when it is over.  If it
  was paused, the wait is what is left of the pause, and when it is over the request is
  granted exactly if the grants still in the window leave room for it.\<close>

theorem retry_wait_is_exact:
  assumes "sw_good s" and "evaluate s c record = (Retry a, s')"
    and "sw_now_ns s + max a (sw_window_ns s) < U64_MAX"
  shows "0 < a \<and> (\<forall>d<a. fst (evaluate (sw_after s' d) c True) \<noteq> Acquired) \<and>
    (if hold_until_ns (sw_log s) \<le> sw_now_ns s
     then a \<le> sw_window_ns s \<and> fst (evaluate (sw_after s' a) c True) = Acquired
     else a = hold_until_ns (sw_log s) - sw_now_ns s \<and>
       (fst (evaluate (sw_after s' a) c True) = Acquired \<longleftrightarrow> sw_spent (sw_after s' a) + c \<le> sw_limit s))"
proof (cases "hold_until_ns (sw_log s) \<le> sw_now_ns s")
  case True
  from refused_wait [OF assms(1,2) this] assms(3) True show ?thesis by simp
next
  case False
  then have hold: "sw_now_ns s < hold_until_ns (sw_log s)" by simp
  from assms(3) have "sw_now_ns s + a < U64_MAX" by simp
  from paused_wait [OF assms(1,2) hold this] hold show ?thesis by auto
qed

lemmas sw_eval = sw_new_def with_clock_inner_def evaluate_def prune_def Let_def sw_now_ns_def
  nanos_between_def stamp_def wait_for_room_def machine_arith U64_MAX_def U32_MAX_def

definition sw_sample :: sliding where
  "sw_sample = snd (sw_run (sw_new 2 10 0) [(0, Sw_Acquire 1), (3, Sw_Acquire 1)])"

theorem retry_wait_is_exact_witness:
  "fst (evaluate sw_sample 1 True) = Retry 7 \<and>
   fst (evaluate (sw_after (snd (evaluate sw_sample 1 True)) 7) 1 True) = Acquired \<and>
   (let s = sw_pause_for sw_sample 20 in fst (evaluate s 1 True) = Retry 20 \<and>
      (\<forall>d<20. fst (evaluate (sw_after s d) 1 True) \<noteq> Acquired))"
proof -
  let ?s = "sw_pause_for sw_sample 20"
  have ev: "evaluate sw_sample 1 True = (Retry 7, snd (evaluate sw_sample 1 True))"
    by (simp add: sw_sample_def sw_eval)
  have ev': "evaluate ?s 1 True = (Retry 20, ?s)"
    by (simp add: sw_sample_def sw_eval sw_pause_for_def)
  have good: "sw_good sw_sample" "sw_good ?s"
    by (simp_all add: sw_sample_def sw_eval sw_good_def sw_pause_for_def)
  have "sw_now_ns sw_sample + max 7 (sw_window_ns sw_sample) < U64_MAX"
    "hold_until_ns (sw_log sw_sample) \<le> sw_now_ns sw_sample"
    by (simp_all add: sw_sample_def sw_eval)
  with retry_wait_is_exact [OF good(1) ev]
  have "fst (evaluate (sw_after (snd (evaluate sw_sample 1 True)) 7) 1 True) = Acquired" by simp
  moreover have "sw_now_ns ?s + max 20 (sw_window_ns ?s) < U64_MAX"
    by (simp add: sw_sample_def sw_eval sw_pause_for_def)
  note retry_wait_is_exact [OF good(2) ev' this]
  moreover have "fst (evaluate sw_sample 1 True) = Retry 7" "fst (evaluate ?s 1 True) = Retry 20"
    by (subst ev, simp) (simp only: ev' fst_conv)
  ultimately show ?thesis unfolding Let_def by blast
qed

text \<open>A refund that comes after its grant has left the window lets the limiter
  over-admit.  With limit 1, a unit granted at time 0 and refunded at time 12 (its
  window ended at 10) cancels the grant made at 11 instead, so a third request is granted
  at 12: two units inside one window of length 10.  The documentation of \<open>refund\<close> says
  the limiter is then never more permissive than if the right grant had been removed;
  removing the expired grant would have changed nothing and the third request would have
  been refused.\<close>

theorem late_refund_over_admits:
  "let s1 = snd (evaluate (sw_new 1 10 0) 1 True);
       s2 = snd (evaluate (sw_after s1 11) 1 True);
       s3 = sw_refund (sw_after s2 1) 1
   in fst (evaluate (sw_after s1 11) 1 True) = Acquired \<and>
      fst (evaluate s3 1 True) = Acquired \<and>
      fst (evaluate (sw_after s2 1) 1 True) = Retry 9"
  by (simp add: sw_eval sw_after_def sw_refund_def refund_grants_pop)

end
