(* ===== verification/Float64.thy ===== *)
theory Float64
  imports Complex_Main "HOL-Library.Log_Nat" Net_Prelude
begin

text \<open>
  IEEE 754 binary64 as far as the sources use \<open>f64\<close>: a value is not-a-number, an
  infinity or a rational; an operation computes exactly and rounds to the nearest
  representable value, ties to even, with the exponent range of the format.  (Positive
  and negative zero are one value here: no comparison or cast of the sources
  tells them apart.)  \<open>f64_round_mono\<close> and \<open>f64_round_int\<close> are the two facts the
  components use: rounding is monotone and exact on integers below \<open>2^53\<close>.
\<close>

datatype f64 =
    NaN
  | PInf
  | NInf
  | Fin rat

definition flog2 :: "rat \<Rightarrow> int" where
  "flog2 x =
     (case quotient_of x of (a, b) \<Rightarrow>
        (let k = int (floorlog 2 (nat a)) - int (floorlog 2 (nat b)) in
         if 2 powi k \<le> x then k else k - 1))"

definition round_half_even :: "rat \<Rightarrow> int" where
  "round_half_even q =
     (let n = \<lfloor>q\<rfloor>; r = q - of_int n in
      if r < 1 / 2 then n else if 1 / 2 < r then n + 1 else if even n then n else n + 1)"

definition ulp_exp :: "rat \<Rightarrow> int" where
  "ulp_exp x = max (flog2 x - 52) (- 1074)"

text \<open>Rounding of a non-negative magnitude, before the overflow check.\<close>

definition round_pos :: "rat \<Rightarrow> rat" where
  "round_pos x =
     (if x = 0 then 0
      else of_int (round_half_even (x / 2 powi (ulp_exp x))) * 2 powi (ulp_exp x))"

definition f64_round :: "rat \<Rightarrow> f64" where
  "f64_round x =
     (if 0 \<le> x
      then (if round_pos x < 2 powi 1024 then Fin (round_pos x) else PInf)
      else (if round_pos (- x) < 2 powi 1024 then Fin (- round_pos (- x)) else NInf))"

definition f64_of_nat :: "nat \<Rightarrow> f64" where
  "f64_of_nat n = f64_round (of_nat n)"

fun f64_mul :: "f64 \<Rightarrow> f64 \<Rightarrow> f64" where
  "f64_mul NaN _ = NaN"
| "f64_mul _ NaN = NaN"
| "f64_mul (Fin a) (Fin b) = f64_round (a * b)"
| "f64_mul (Fin a) PInf = (if a = 0 then NaN else if a > 0 then PInf else NInf)"
| "f64_mul (Fin a) NInf = (if a = 0 then NaN else if a > 0 then NInf else PInf)"
| "f64_mul PInf (Fin b) = (if b = 0 then NaN else if b > 0 then PInf else NInf)"
| "f64_mul NInf (Fin b) = (if b = 0 then NaN else if b > 0 then NInf else PInf)"
| "f64_mul PInf PInf = PInf"
| "f64_mul NInf NInf = PInf"
| "f64_mul PInf NInf = NInf"
| "f64_mul NInf PInf = NInf"

text \<open>Division by a positive finite number, the only division the sources make.\<close>

fun f64_div_pos :: "f64 \<Rightarrow> rat \<Rightarrow> f64" where
  "f64_div_pos NaN _ = NaN"
| "f64_div_pos PInf _ = PInf"
| "f64_div_pos NInf _ = NInf"
| "f64_div_pos (Fin a) b = f64_round (a / b)"

fun f64_le :: "f64 \<Rightarrow> f64 \<Rightarrow> bool" where
  "f64_le NaN _ = False"
| "f64_le _ NaN = False"
| "f64_le NInf _ = True"
| "f64_le _ PInf = True"
| "f64_le (Fin a) (Fin b) = (a \<le> b)"
| "f64_le _ _ = False"

definition f64_lt :: "f64 \<Rightarrow> f64 \<Rightarrow> bool" where
  "f64_lt a b \<longleftrightarrow> f64_le a b \<and> \<not> f64_le b a"

fun f64_is_finite :: "f64 \<Rightarrow> bool" where
  "f64_is_finite (Fin _) = True"
| "f64_is_finite _ = False"

text \<open>\<open>f64::clamp\<close> between two rationals; a NaN stays a NaN.\<close>

fun f64_clamp :: "f64 \<Rightarrow> rat \<Rightarrow> rat \<Rightarrow> f64" where
  "f64_clamp NaN lo hi = NaN"
| "f64_clamp PInf lo hi = Fin hi"
| "f64_clamp NInf lo hi = Fin lo"
| "f64_clamp (Fin x) lo hi = Fin (if x < lo then lo else if hi < x then hi else x)"

text \<open>\<open>x as u32\<close>, \<open>x as u64\<close>: truncate and saturate, NaN to 0.\<close>

fun f64_to_uint :: "nat \<Rightarrow> f64 \<Rightarrow> nat" where
  "f64_to_uint m NaN = 0"
| "f64_to_uint m PInf = m"
| "f64_to_uint m NInf = 0"
| "f64_to_uint m (Fin x) = (if x < 0 then 0 else min (nat \<lfloor>x\<rfloor>) m)"

text \<open>\<open>f64::round\<close>: to the nearest integer, halves away from zero.\<close>

fun f64_round_integer :: "f64 \<Rightarrow> f64" where
  "f64_round_integer (Fin x) =
     Fin (if 0 \<le> x then of_int \<lfloor>x + 1 / 2\<rfloor> else - of_int \<lfloor>- x + 1 / 2\<rfloor>)"
| "f64_round_integer v = v"

subsection \<open>Binary exponent\<close>

lemma floorlog_bounds:
  "0 < n \<Longrightarrow> 2 ^ (floorlog 2 n - 1) \<le> n \<and> n < 2 ^ floorlog 2 n \<and> 1 \<le> floorlog 2 n"
  using floorlog_bounds [of n 2] by (auto simp: floorlog_def)

lemma powi_pos [simp]: "(0::rat) < 2 powi k"
  by (simp add: zero_less_power_int)

lemma powi_mono: "k \<le> l \<Longrightarrow> (2::rat) powi k \<le> 2 powi l"
  by (simp add: power_int_increasing)

lemma powi_diff: "(2::rat) powi (a - b) = 2 powi a / 2 powi b"
  by (simp add: power_int_diff)

lemma powi_split:
  assumes "e \<le> k"
  shows "(2::rat) powi k = of_int (2 ^ nat (k - e)) * 2 powi e"
proof -
  have "(2::rat) powi k = 2 powi ((k - e) + e)" by simp
  also have "\<dots> = 2 powi (k - e) * 2 powi e" by (rule power_int_add) simp
  finally show ?thesis using assms by (simp add: power_int_def [of _ "k - e"])
qed

lemma flog2_bounds:
  assumes "0 < x"
  shows "2 powi (flog2 x) \<le> x \<and> x < 2 powi (flog2 x + 1)"
proof -
  obtain a b where q: "quotient_of x = (a, b)" by fastforce
  have x: "x = of_int a / of_int b" using q by (rule quotient_of_div)
  have b: "0 < b" using q by (rule quotient_of_denom_pos)
  have a: "0 < a" using assms b by (simp add: x zero_less_divide_iff)
  let ?la = "floorlog 2 (nat a)" and ?lb = "floorlog 2 (nat b)"
  let ?k = "int ?la - int ?lb"
  have la: "2 ^ (?la - 1) \<le> nat a" "nat a < 2 ^ ?la" "1 \<le> ?la"
    and lb: "2 ^ (?lb - 1) \<le> nat b" "nat b < 2 ^ ?lb" "1 \<le> ?lb"
    using floorlog_bounds [of "nat a"] floorlog_bounds [of "nat b"] a b by auto
  have conv: "(2::rat) ^ n \<le> of_int z \<longleftrightarrow> 2 ^ n \<le> nat z"
    "of_int z < (2::rat) ^ n \<longleftrightarrow> nat z < 2 ^ n" if "0 < z" for n and z :: int
  proof -
    have "of_int z = (of_nat (nat z) :: rat)" using that by simp
    then show "(2::rat) ^ n \<le> of_int z \<longleftrightarrow> 2 ^ n \<le> nat z"
      "of_int z < (2::rat) ^ n \<longleftrightarrow> nat z < 2 ^ n"
      by (metis of_nat_le_iff of_nat_numeral of_nat_power)
         (metis \<open>of_int z = of_nat (nat z)\<close> of_nat_less_iff of_nat_numeral of_nat_power)
  qed
  have A: "(2::rat) powi (int ?la - 1) \<le> of_int a" "of_int a < (2::rat) powi (int ?la)"
    using la conv [OF a] by (simp_all add: power_int_def nat_diff_distrib)
  have B: "(2::rat) powi (int ?lb - 1) \<le> of_int b" "of_int b < (2::rat) powi (int ?lb)"
    using lb conv [OF b] by (simp_all add: power_int_def nat_diff_distrib)
  have lower: "2 powi (?k - 1) \<le> x"
  proof -
    have "?k - 1 = (int ?la - 1) - int ?lb" by simp
    then have "(2::rat) powi (?k - 1) = 2 powi (int ?la - 1) / 2 powi (int ?lb)"
      by (simp only: powi_diff)
    also have "\<dots> \<le> of_int a / of_int b"
      using A(1) B(2) a b by (intro frac_le) (auto simp: less_imp_le)
    finally show ?thesis by (simp add: x)
  qed
  have upper: "x < 2 powi (?k + 1)"
  proof -
    have "of_int a / of_int b < (2::rat) powi (int ?la) / 2 powi (int ?lb - 1)"
      using A(2) B(1) a b by (intro frac_less) auto
    also have "\<dots> = 2 powi (?k + 1)"
      by (simp add: power_int_diff power_int_add)
    finally show ?thesis by (simp add: x)
  qed
  show ?thesis
    using lower upper by (simp add: flog2_def q Let_def)
qed

lemma flog2_le: "0 < x \<Longrightarrow> x \<le> y \<Longrightarrow> flog2 x \<le> flog2 y"
proof (rule ccontr)
  assume x: "0 < x" and y: "x \<le> y" and "\<not> flog2 x \<le> flog2 y"
  then have "(2::rat) powi (flog2 y + 1) \<le> 2 powi (flog2 x)" by (intro powi_mono) simp
  with flog2_bounds [of x] flog2_bounds [of y] x y show False by simp
qed

lemma flog2_eq: "2 powi k \<le> x \<Longrightarrow> x < 2 powi (k + 1) \<Longrightarrow> flog2 x = k"
proof (rule antisym)
  assume lo: "2 powi k \<le> x" and hi: "x < 2 powi (k + 1)"
  have pos: "0 < x" using lo powi_pos [of k] by linarith
  show "flog2 x \<le> k"
  proof (rule ccontr)
    assume "\<not> flog2 x \<le> k"
    then have "(2::rat) powi (k + 1) \<le> 2 powi (flog2 x)" by (intro powi_mono) simp
    with flog2_bounds [OF pos] hi show False by simp
  qed
  show "k \<le> flog2 x"
  proof (rule ccontr)
    assume "\<not> k \<le> flog2 x"
    then have "(2::rat) powi (flog2 x + 1) \<le> 2 powi k" by (intro powi_mono) simp
    with flog2_bounds [OF pos] lo show False by simp
  qed
qed

subsection \<open>Rounding is monotone, and exact on integers below \<open>2^53\<close>\<close>

lemma round_half_even_mono: "p \<le> q \<Longrightarrow> round_half_even p \<le> round_half_even q"
proof -
  assume le: "p \<le> q"
  have fl: "\<lfloor>p\<rfloor> \<le> \<lfloor>q\<rfloor>" using le by (rule floor_mono)
  show ?thesis
  proof (cases "\<lfloor>p\<rfloor> = \<lfloor>q\<rfloor>")
    case True
    with le show ?thesis by (auto simp: round_half_even_def Let_def)
  next
    case False
    with fl have "\<lfloor>p\<rfloor> + 1 \<le> \<lfloor>q\<rfloor>" by simp
    moreover have "round_half_even p \<le> \<lfloor>p\<rfloor> + 1" by (simp add: round_half_even_def Let_def)
    moreover have "\<lfloor>q\<rfloor> \<le> round_half_even q" by (simp add: round_half_even_def Let_def)
    ultimately show ?thesis by simp
  qed
qed

lemma round_half_even_int [simp]: "round_half_even (of_int n) = n"
  by (simp add: round_half_even_def Let_def)

lemma round_half_even_between:
  "of_int m \<le> q \<Longrightarrow> q \<le> of_int n \<Longrightarrow> m \<le> round_half_even q \<and> round_half_even q \<le> n"
  using round_half_even_mono [of "of_int m" q] round_half_even_mono [of q "of_int n"] by simp

lemma ulp_exp_mono: "0 < x \<Longrightarrow> x \<le> y \<Longrightarrow> ulp_exp x \<le> ulp_exp y"
  using flog2_le [of x y] by (simp add: ulp_exp_def)

text \<open>A multiple of the unit in the last place rounds to itself.\<close>

lemma round_pos_exact:
  assumes "x = of_int n * 2 powi (ulp_exp x)"
  shows "round_pos x = x"
proof -
  have "x / 2 powi (ulp_exp x) = of_int n" using assms by (simp add: divide_eq_eq)
  then show ?thesis using assms by (simp add: round_pos_def)
qed

text \<open>Rounding does not cross a power of two.\<close>

lemma round_pos_upper:
  assumes "0 < x" and "x \<le> 2 powi k" and "ulp_exp x \<le> k"
  shows "round_pos x \<le> 2 powi k"
proof -
  let ?e = "ulp_exp x"
  have "x \<le> of_int (2 ^ nat (k - ?e)) * 2 powi ?e"
    using assms(2) powi_split [OF assms(3)] by simp
  then have "x / 2 powi ?e \<le> of_int (2 ^ nat (k - ?e))"
    by (subst divide_le_eq) simp
  then have "round_half_even (x / 2 powi ?e) \<le> 2 ^ nat (k - ?e)"
    using round_half_even_mono round_half_even_int by (metis of_int_numeral of_int_power)
  then have "(of_int (round_half_even (x / 2 powi ?e)) :: rat) \<le> of_int (2 ^ nat (k - ?e))"
    by (simp only: of_int_le_iff)
  then have "of_int (round_half_even (x / 2 powi ?e)) * 2 powi ?e
      \<le> of_int (2 ^ nat (k - ?e)) * (2::rat) powi ?e"
    by (rule mult_right_mono) (simp add: less_imp_le)
  then show ?thesis using assms(1) powi_split [OF assms(3)] by (simp add: round_pos_def)
qed

lemma round_pos_lower:
  assumes "2 powi k \<le> x" and "ulp_exp x \<le> k"
  shows "2 powi k \<le> round_pos x"
proof -
  let ?e = "ulp_exp x"
  have pos: "0 < x" using assms(1) powi_pos [of k] by linarith
  have "of_int (2 ^ nat (k - ?e)) * 2 powi ?e \<le> x"
    using assms(1) powi_split [OF assms(2)] by simp
  then have "of_int (2 ^ nat (k - ?e)) \<le> x / 2 powi ?e"
    by (subst le_divide_eq) simp
  then have "2 ^ nat (k - ?e) \<le> round_half_even (x / 2 powi ?e)"
    using round_half_even_mono round_half_even_int by (metis of_int_numeral of_int_power)
  then have "(of_int (2 ^ nat (k - ?e)) :: rat) \<le> of_int (round_half_even (x / 2 powi ?e))"
    by (simp only: of_int_le_iff)
  then have "of_int (2 ^ nat (k - ?e)) * (2::rat) powi ?e
      \<le> of_int (round_half_even (x / 2 powi ?e)) * 2 powi ?e"
    by (rule mult_right_mono) (simp add: less_imp_le)
  then show ?thesis using pos powi_split [OF assms(2)] by (simp add: round_pos_def)
qed

lemma round_pos_nonneg: "0 \<le> x \<Longrightarrow> 0 \<le> round_pos x"
  using round_half_even_mono [of 0 "x / 2 powi (ulp_exp x)"] round_half_even_int [of 0]
  by (simp add: round_pos_def)

lemma round_pos_mono:
  assumes "0 \<le> x" and "x \<le> y"
  shows "round_pos x \<le> round_pos y"
proof (cases "x = 0")
  case True
  then show ?thesis using assms round_pos_nonneg [of y] by (simp add: round_pos_def)
next
  case False
  with assms have pos: "0 < x" "0 < y" by simp_all
  show ?thesis
  proof (cases "ulp_exp x = ulp_exp y")
    case True
    let ?u = "(2::rat) powi (ulp_exp y)"
    have "round_half_even (x / ?u) \<le> round_half_even (y / ?u)"
      using assms(2) by (intro round_half_even_mono divide_right_mono) (simp_all add: less_imp_le)
    then have "of_int (round_half_even (x / ?u)) * ?u \<le> of_int (round_half_even (y / ?u)) * ?u"
      by (intro mult_right_mono) (simp_all add: less_imp_le)
    with True pos show ?thesis by (simp add: round_pos_def)
  next
    case False
    with ulp_exp_mono [OF pos(1) assms(2)] have lt: "ulp_exp x < ulp_exp y" by simp
    then have y: "ulp_exp y = flog2 y - 52" and fl: "flog2 x + 1 \<le> flog2 y"
      by (auto simp: ulp_exp_def max_def split: if_splits)
    have "x \<le> 2 powi (flog2 y)"
      using flog2_bounds [OF pos(1)] powi_mono [OF fl] by simp
    then have "round_pos x \<le> 2 powi (flog2 y)"
      using pos lt y by (intro round_pos_upper) auto
    also have "\<dots> \<le> round_pos y"
      using flog2_bounds [OF pos(2)] y by (intro round_pos_lower) auto
    finally show ?thesis .
  qed
qed

lemma round_pos_int:
  assumes "n < 2 ^ 53"
  shows "round_pos (of_nat n) = of_nat n"
proof (cases "n = 0")
  case False
  then have pos: "(0::rat) < of_nat n" by simp
  have "(of_nat n :: rat) < 2 powi 53"
    using assms by (simp add: power_int_def)
  then have "flog2 (of_nat n) < 53"
    using flog2_bounds [OF pos] powi_mono [of 53 "flog2 (of_nat n)"] by force
  then have e: "ulp_exp (of_nat n) \<le> 0" by (simp add: ulp_exp_def)
  have "(1::rat) = of_int (2 ^ nat (0 - ulp_exp (of_nat n))) * 2 powi (ulp_exp (of_nat n))"
    using powi_split [OF e] by simp
  then have "(of_nat n :: rat) = of_int (int n * 2 ^ nat (0 - ulp_exp (of_nat n)))
      * 2 powi (ulp_exp (of_nat n))"
    by (metis mult.assoc mult.right_neutral of_int_mult of_int_of_nat_eq)
  then show ?thesis by (rule round_pos_exact)
qed (simp add: round_pos_def)

lemma f64_of_nat_exact: "n < 2 ^ 53 \<Longrightarrow> f64_of_nat n = Fin (of_nat n)"
proof -
  assume n: "n < 2 ^ 53"
  have "(of_nat n :: rat) < 2 ^ 53"
    using n by (metis of_nat_less_iff of_nat_numeral of_nat_power)
  also have "\<dots> \<le> 2 ^ 1024" by (intro power_increasing) simp_all
  finally have "(of_nat n :: rat) < 2 powi 1024" by (simp add: power_int_def)
  with n show ?thesis by (simp add: f64_of_nat_def f64_round_def round_pos_int)
qed

text \<open>Scaling an exactly represented number by a factor in \<open>[0, 1]\<close> never enlarges it.\<close>

lemma f64_mul_shrink:
  assumes "n < 2 ^ 53" and "0 \<le> r" and "r \<le> 1"
  shows "\<exists>y. f64_mul (Fin (of_nat n)) (Fin r) = Fin y \<and> 0 \<le> y \<and> y \<le> of_nat n"
proof -
  have prod: "0 \<le> of_nat n * r" "of_nat n * r \<le> of_nat n"
    using assms by (simp_all add: mult_left_le)
  have "round_pos (of_nat n * r) \<le> of_nat n"
    using round_pos_mono [OF prod] round_pos_int [OF assms(1)] by simp
  moreover have "(of_nat n :: rat) < 2 powi 1024"
    using f64_of_nat_exact [OF assms(1)] round_pos_int [OF assms(1)]
    by (simp add: f64_of_nat_def f64_round_def split: if_splits)
  ultimately show ?thesis
    using prod round_pos_nonneg [OF prod(1)] by (auto simp: f64_round_def)
qed

end
