(* ===== verification/Adaptive.thy ===== *)
theory Adaptive
  imports Limiter_Laws Float64
begin

text \<open>
  Adaptive concurrency (\<open>src/adaptive.rs\<close>, \<open>src/sync.rs\<close>).  A strategy is a
  record with its \<open>adjust\<close> method, which may update the strategy's own atomics;
  the limiter's compare-and-swap loops are one atomic update each.  \<open>ad_woken\<close>
  counts the additional wake-ups sent to waiters.  Shown: the limit stays between floor
  and ceiling under every strategy, one congestion event lowers it at most once, AIMD
  and Vegas move it the way they promise, and the limiter honours the contract of a
  composite's constituent.
\<close>

datatype outcome =
    Success duration
  | Failure

record 'st strategy =
  adjust :: "'st \<Rightarrow> u32 \<Rightarrow> u32 \<Rightarrow> outcome \<Rightarrow> u32 \<times> 'st"

subsection \<open>AIMD\<close>

record aimd =
  increase :: u32
  decrease :: f64

definition aimd_new :: "u32 \<Rightarrow> f64 \<Rightarrow> aimd" where
  "aimd_new inc dec = \<lparr>
     increase = max inc 1,
     decrease = (if dec = NaN then Fin (1 / 2) else f64_clamp dec 0 1)\<rparr>"

definition aimd_default :: aimd where
  "aimd_default = aimd_new 1 (Fin (1 / 2))"

definition aimd_adjust :: "aimd \<Rightarrow> u32 \<Rightarrow> u32 \<Rightarrow> outcome \<Rightarrow> u32 \<times> aimd" where
  "aimd_adjust s current in_flight outcome =
     ((case outcome of
         Success _ \<Rightarrow> if in_flight \<ge> current then sat_add32 current (increase s) else current
       | Failure \<Rightarrow>
           (let cut = f64_to_uint U32_MAX (f64_mul (f64_of_nat current) (decrease s))
            in max cut 1)), s)"

definition aimd_strategy :: "aimd strategy" where
  "aimd_strategy = \<lparr>adjust = aimd_adjust\<rparr>"

subsection \<open>Vegas\<close>

record vegas =
  alpha :: u32
  beta :: u32
  min_rtt_ns :: u64
  samples :: u64
  probe_interval :: u64

definition DEFAULT_PROBE_INTERVAL :: u64 where
  "DEFAULT_PROBE_INTERVAL = 1000"

definition vegas_new :: "u32 \<Rightarrow> u32 \<Rightarrow> vegas" where
  "vegas_new a b = \<lparr>alpha = a, beta = max b a, min_rtt_ns = U64_MAX, samples = 0,
     probe_interval = DEFAULT_PROBE_INTERVAL\<rparr>"

definition with_probe_interval :: "vegas \<Rightarrow> u64 \<Rightarrow> vegas" where
  "with_probe_interval v n = v\<lparr>probe_interval := max n 1\<rparr>"

definition vegas_default :: vegas where
  "vegas_default = vegas_new 3 6"

definition vegas_adjust :: "vegas \<Rightarrow> u32 \<Rightarrow> u32 \<Rightarrow> outcome \<Rightarrow> u32 \<times> vegas" where
  "vegas_adjust v current in_flight outcome =
     (case outcome of
        Failure \<Rightarrow> (max (current div 2) 1, v)
      | Success rtt \<Rightarrow>
          (let rtt_ns = max (nanos_u64 rtt) 1;
               sample = (samples v + 1) mod (U64_MAX + 1);
               probe = sample mod probe_interval v = 0;
               min_ns = (if probe then rtt_ns else min (min_rtt_ns v) rtt_ns);
               v' = v\<lparr>samples := sample, min_rtt_ns := min_ns\<rparr>;
               queue = sat_mul64 current (rtt_ns - min_ns) div rtt_ns
           in (if queue < alpha v then sat_add32 current 1
               else if queue > beta v then current - 1
               else current, v')))"

definition vegas_strategy :: "vegas strategy" where
  "vegas_strategy = \<lparr>adjust = vegas_adjust\<rparr>"

subsection \<open>The limiter\<close>

record 'st adaptive =
  ad_strategy :: 'st
  ad_limit :: u32
  ad_in_flight :: u32
  ad_decrease_epoch :: u64
  ad_floor :: u32
  ad_ceiling :: u32
  ad_clock :: nat
  ad_woken :: nat

definition ad_new :: "'st \<Rightarrow> u32 \<Rightarrow> u32 \<Rightarrow> u32 \<Rightarrow> nat \<Rightarrow> 'st adaptive" where
  "ad_new st fl ce init clock =
     (let fl' = max fl 1; ce' = max ce fl' in
      \<lparr>ad_strategy = st, ad_limit = clamp fl' ce' init, ad_in_flight = 0,
       ad_decrease_epoch = 0, ad_floor = fl', ad_ceiling = ce', ad_clock = clock,
       ad_woken = 0\<rparr>)"

definition ad_with_clock :: "'st adaptive \<Rightarrow> nat \<Rightarrow> 'st adaptive" where
  "ad_with_clock s clock = ad_new (ad_strategy s) (ad_floor s) (ad_ceiling s) (ad_limit s) clock"

definition try_reserve :: "'st adaptive \<Rightarrow> u32 \<Rightarrow> bool \<times> 'st adaptive" where
  "try_reserve s slots =
     (let wanted = ad_in_flight s + slots in
      if wanted > U32_MAX then (False, s)
      else if wanted > ad_limit s then (False, s)
      else (True, s\<lparr>ad_in_flight := wanted\<rparr>))"

definition sync_saturating_sub :: "u32 \<Rightarrow> u32 \<Rightarrow> u32 \<times> u32" where
  "sync_saturating_sub cell n = (cell, cell - n)"

definition notify_additional :: "nat \<Rightarrow> 'st adaptive \<Rightarrow> 'st adaptive" where
  "notify_additional n s = s\<lparr>ad_woken := ad_woken s + n\<rparr>"

definition adjust_limit ::
  "'st strategy \<Rightarrow> 'st adaptive \<Rightarrow> u32 \<Rightarrow> outcome \<Rightarrow> bool \<Rightarrow> 'st adaptive" where
  "adjust_limit S s in_flight outcome is_failure =
     (let current = ad_limit s in
      case adjust S (ad_strategy s) current in_flight outcome of (proposed, st') \<Rightarrow>
        (let new = clamp (ad_floor s) (ad_ceiling s) proposed;
             s1 = s\<lparr>ad_strategy := st'\<rparr>
         in
         if new = current then s1
         else
           (let s2 = s1\<lparr>ad_limit := new\<rparr>;
                s3 = (if is_failure \<and> new < current
                      then s2\<lparr>ad_decrease_epoch := (ad_decrease_epoch s2 + 1) mod (U64_MAX + 1)\<rparr>
                      else s2)
            in if new > current then notify_additional (new - current) s3 else s3)))"

definition ad_settle :: "'st strategy \<Rightarrow> 'st adaptive \<Rightarrow> outcome \<Rightarrow> u64 \<Rightarrow> 'st adaptive" where
  "ad_settle S s outcome epoch =
     (let in_flight = ad_in_flight s;
          is_failure = (outcome = Failure);
          s1 = (if \<not> (is_failure \<and> epoch < ad_decrease_epoch s)
                then adjust_limit S s in_flight outcome is_failure else s);
          s2 = s1\<lparr>ad_in_flight := snd (sync_saturating_sub (ad_in_flight s1) 1)\<rparr>
      in notify_additional 1 s2)"

definition ad_release :: "'st strategy \<Rightarrow> 'st adaptive \<Rightarrow> outcome \<Rightarrow> 'st adaptive" where
  "ad_release S s outcome = ad_settle S s outcome (ad_decrease_epoch s)"

definition ad_peek :: "'st adaptive \<Rightarrow> u32 \<Rightarrow> decision" where
  "ad_peek s cost =
     (if cost > ad_ceiling s then Impossible
      else if cost \<le> ad_limit s - ad_in_flight s then Acquired
      else Retry (from_millis 1))"

definition ad_acquire_cost :: "'st adaptive \<Rightarrow> u32 \<Rightarrow> decision \<times> 'st adaptive" where
  "ad_acquire_cost s cost =
     (if cost > ad_ceiling s then (Impossible, s)
      else (case try_reserve s cost of
              (True, s') \<Rightarrow> (Acquired, s')
            | (False, s') \<Rightarrow> (Retry (from_millis 1), s')))"

definition ad_available :: "'st adaptive \<Rightarrow> u32" where
  "ad_available s = ad_limit s - ad_in_flight s"

definition ad_refund :: "'st adaptive \<Rightarrow> u32 \<Rightarrow> 'st adaptive" where
  "ad_refund s cost =
     notify_additional cost (s\<lparr>ad_in_flight := snd (sync_saturating_sub (ad_in_flight s) cost)\<rparr>)"

text \<open>\<open>impl Limiter for AdaptiveLimiter\<close>; the methods it does not override are the
  trait's defaults.\<close>

definition adaptive_limiter :: "'st adaptive limiter" where
  "adaptive_limiter =
     (let acquire = (\<lambda>cost s. ad_acquire_cost s cost);
          avail = (\<lambda>s. (ad_available s, s));
          base = \<lparr>
            l_peek = (\<lambda>cost s. (ad_peek s cost, s)),
            l_acquire_cost = acquire,
            l_available = avail,
            l_capacity = ad_ceiling,
            l_refund = (\<lambda>cost s. ad_refund s cost),
            l_reserve = default_reserve acquire,
            l_pause_for = default_pause_for avail acquire,
            l_paused_for = default_paused_for,
            l_resume = default_resume,
            l_charge = (\<lambda>cost s. (cost, s))\<rparr>
      in base\<lparr>l_charge := default_charge base\<rparr>)"

subsection \<open>Permits\<close>

record ad_permit =
  pm_started :: nat
  pm_epoch :: u64
  pm_settled :: bool

definition ad_permit_new :: "'st adaptive \<Rightarrow> ad_permit" where
  "ad_permit_new s = \<lparr>pm_started = ad_clock s, pm_epoch = ad_decrease_epoch s, pm_settled = False\<rparr>"

definition ad_try_acquire :: "'st adaptive \<Rightarrow> ad_permit option \<times> 'st adaptive" where
  "ad_try_acquire s =
     (case try_reserve s 1 of
        (True, s') \<Rightarrow> (Some (ad_permit_new s'), s')
      | (False, s') \<Rightarrow> (None, s'))"

definition ad_permit_success ::
  "'st strategy \<Rightarrow> 'st adaptive \<Rightarrow> ad_permit \<Rightarrow> ad_permit \<times> 'st adaptive" where
  "ad_permit_success S s pm =
     (let rtt = ad_clock s - pm_started pm in
      (pm\<lparr>pm_settled := True\<rparr>, ad_settle S s (Success rtt) (pm_epoch pm)))"

definition ad_permit_failure ::
  "'st strategy \<Rightarrow> 'st adaptive \<Rightarrow> ad_permit \<Rightarrow> ad_permit \<times> 'st adaptive" where
  "ad_permit_failure S s pm =
     (pm\<lparr>pm_settled := True\<rparr>, ad_settle S s Failure (pm_epoch pm))"

definition ad_permit_cancel :: "'st adaptive \<Rightarrow> ad_permit \<Rightarrow> ad_permit \<times> 'st adaptive" where
  "ad_permit_cancel s pm = (pm\<lparr>pm_settled := True\<rparr>, ad_refund s 1)"

definition ad_permit_drop :: "'st strategy \<Rightarrow> 'st adaptive \<Rightarrow> ad_permit \<Rightarrow> 'st adaptive" where
  "ad_permit_drop S s pm =
     (if \<not> pm_settled pm then ad_settle S s Failure (pm_epoch pm) else s)"

text \<open>\<open>OwnedAdaptivePermit\<close>: the same fields beside an \<open>Arc\<close>, with methods of its own.\<close>

type_synonym ad_owned_permit = ad_permit

definition ad_owned_new :: "'st adaptive \<Rightarrow> ad_owned_permit" where
  "ad_owned_new s = \<lparr>pm_started = ad_clock s, pm_epoch = ad_decrease_epoch s, pm_settled = False\<rparr>"

definition ad_try_acquire_owned :: "'st adaptive \<Rightarrow> ad_owned_permit option \<times> 'st adaptive" where
  "ad_try_acquire_owned s =
     (case try_reserve s 1 of
        (True, s') \<Rightarrow> (Some (ad_owned_new s'), s')
      | (False, s') \<Rightarrow> (None, s'))"

definition ad_owned_success ::
  "'st strategy \<Rightarrow> 'st adaptive \<Rightarrow> ad_owned_permit \<Rightarrow> ad_owned_permit \<times> 'st adaptive" where
  "ad_owned_success S s pm =
     (let rtt = ad_clock s - pm_started pm in
      (pm\<lparr>pm_settled := True\<rparr>, ad_settle S s (Success rtt) (pm_epoch pm)))"

definition ad_owned_failure ::
  "'st strategy \<Rightarrow> 'st adaptive \<Rightarrow> ad_owned_permit \<Rightarrow> ad_owned_permit \<times> 'st adaptive" where
  "ad_owned_failure S s pm = (pm\<lparr>pm_settled := True\<rparr>, ad_settle S s Failure (pm_epoch pm))"

definition ad_owned_cancel :: "'st adaptive \<Rightarrow> ad_owned_permit \<Rightarrow> ad_owned_permit \<times> 'st adaptive" where
  "ad_owned_cancel s pm = (pm\<lparr>pm_settled := True\<rparr>, ad_refund s 1)"

definition ad_owned_drop :: "'st strategy \<Rightarrow> 'st adaptive \<Rightarrow> ad_owned_permit \<Rightarrow> 'st adaptive" where
  "ad_owned_drop S s pm = (if \<not> pm_settled pm then ad_settle S s Failure (pm_epoch pm) else s)"

subsection \<open>Builder\<close>

record ad_builder =
  ab_floor :: u32
  ab_ceiling :: u32
  ab_initial :: "u32 option"

definition ad_builder_new :: ad_builder where
  "ad_builder_new = \<lparr>ab_floor = 1, ab_ceiling = 100, ab_initial = None\<rparr>"

definition ad_builder_floor :: "ad_builder \<Rightarrow> u32 \<Rightarrow> ad_builder" where
  "ad_builder_floor b n = b\<lparr>ab_floor := max n 1\<rparr>"

definition ad_builder_ceiling :: "ad_builder \<Rightarrow> u32 \<Rightarrow> ad_builder" where
  "ad_builder_ceiling b n = b\<lparr>ab_ceiling := n\<rparr>"

definition ad_builder_initial :: "ad_builder \<Rightarrow> u32 \<Rightarrow> ad_builder" where
  "ad_builder_initial b n = b\<lparr>ab_initial := Some n\<rparr>"

definition ad_builder_build :: "ad_builder \<Rightarrow> 'st \<Rightarrow> nat \<Rightarrow> 'st adaptive" where
  "ad_builder_build b st clock =
     (let initial = (case ab_initial b of Some n \<Rightarrow> n | None \<Rightarrow> ab_floor b) in
      ad_new st (ab_floor b) (ab_ceiling b) initial clock)"

subsection \<open>The invariant\<close>

definition ad_good :: "'st adaptive \<Rightarrow> bool" where
  "ad_good s \<longleftrightarrow> 1 \<le> ad_floor s \<and> ad_floor s \<le> ad_limit s \<and> ad_limit s \<le> ad_ceiling s \<and>
     ad_in_flight s \<le> ad_ceiling s"

lemma ad_new_good: "ad_good (ad_new st fl ce init clock)"
  using clamp_bounds [of "max fl 1" "max ce (max fl 1)" init]
  by (simp add: ad_good_def ad_new_def Let_def)

lemma notify_additional_simps [simp]:
  "ad_limit (notify_additional n s) = ad_limit s"
  "ad_floor (notify_additional n s) = ad_floor s"
  "ad_ceiling (notify_additional n s) = ad_ceiling s"
  "ad_in_flight (notify_additional n s) = ad_in_flight s"
  "ad_decrease_epoch (notify_additional n s) = ad_decrease_epoch s"
  "ad_woken (notify_additional n s) = ad_woken s + n"
  by (simp_all add: notify_additional_def)

lemma adjust_limit_frame:
  "ad_floor (adjust_limit S s i out f) = ad_floor s"
  "ad_ceiling (adjust_limit S s i out f) = ad_ceiling s"
  "ad_in_flight (adjust_limit S s i out f) = ad_in_flight s"
  by (simp_all add: adjust_limit_def Let_def split: prod.splits)

lemma adjust_limit_value:
  "ad_limit (adjust_limit S s i out f) =
     clamp (ad_floor s) (ad_ceiling s) (fst (adjust S (ad_strategy s) (ad_limit s) i out))"
  by (auto simp: adjust_limit_def Let_def split: prod.splits)

lemma adjust_limit_epoch:
  "ad_decrease_epoch (adjust_limit S s i out f) =
     (if f \<and> ad_limit (adjust_limit S s i out f) < ad_limit s
      then (ad_decrease_epoch s + 1) mod (U64_MAX + 1) else ad_decrease_epoch s)"
  by (auto simp: adjust_limit_def Let_def split: prod.splits)

lemma ad_settle_frame:
  "ad_floor (ad_settle S s out e) = ad_floor s"
  "ad_ceiling (ad_settle S s out e) = ad_ceiling s"
  "ad_in_flight (ad_settle S s out e) = ad_in_flight s - 1"
  by (simp_all add: ad_settle_def Let_def adjust_limit_frame sync_saturating_sub_def)

lemma ad_settle_limit:
  "ad_limit (ad_settle S s out e) =
     (if out = Failure \<and> e < ad_decrease_epoch s then ad_limit s
      else ad_limit (adjust_limit S s (ad_in_flight s) out (out = Failure)))"
  by (simp add: ad_settle_def Let_def)

lemma ad_settle_epoch:
  "ad_decrease_epoch (ad_settle S s out e) =
     (if out = Failure \<and> e < ad_decrease_epoch s then ad_decrease_epoch s
      else ad_decrease_epoch (adjust_limit S s (ad_in_flight s) out (out = Failure)))"
  by (simp add: ad_settle_def Let_def)

lemma ad_settle_good: "ad_good s \<Longrightarrow> ad_good (ad_settle S s out e)"
  using clamp_bounds [of "ad_floor s" "ad_ceiling s"]
  by (auto simp: ad_good_def ad_settle_frame ad_settle_limit adjust_limit_value)

lemma try_reserve_good: "ad_good s \<Longrightarrow> try_reserve s n = (r, s') \<Longrightarrow> ad_good s'"
  by (auto simp: ad_good_def try_reserve_def Let_def split: if_splits)

lemma ad_refund_good: "ad_good s \<Longrightarrow> ad_good (ad_refund s n)"
  by (auto simp: ad_good_def ad_refund_def sync_saturating_sub_def)

interpretation adaptive: limiter_obj adaptive_limiter ad_in_flight "\<lambda>_. True" ad_good
proof (unfold_locales, goal_cases)
  case (6 s c)
  then show ?case
    by (simp add: adaptive_limiter_def Let_def ad_refund_good)
       (simp add: ad_refund_def sync_saturating_sub_def)
qed (auto simp: adaptive_limiter_def Let_def ad_acquire_cost_def default_reserve_def ad_good_def
      try_reserve_def split: if_splits prod.splits bool.splits)

subsection \<open>Runs of the limiter\<close>

datatype ad_op =
    Ad_Try_Acquire
  | Ad_Acquire_Cost u32
  | Ad_Settle outcome u64
  | Ad_Release outcome
  | Ad_Refund u32

fun ad_exec :: "'st strategy \<Rightarrow> ad_op \<Rightarrow> 'st adaptive \<Rightarrow> 'st adaptive" where
  "ad_exec S Ad_Try_Acquire s = snd (ad_try_acquire s)"
| "ad_exec S (Ad_Acquire_Cost c) s = snd (ad_acquire_cost s c)"
| "ad_exec S (Ad_Settle out e) s = ad_settle S s out e"
| "ad_exec S (Ad_Release out) s = ad_release S s out"
| "ad_exec S (Ad_Refund c) s = ad_refund s c"

lemma ad_exec_good: "ad_good s \<Longrightarrow> ad_good (ad_exec S x s)"
  using try_reserve_good [of s]
  by (cases x) (auto simp: ad_try_acquire_def ad_acquire_cost_def ad_release_def ad_settle_good
      ad_refund_good split: prod.splits bool.splits)

lemma ad_exec_frame:
  "ad_floor (ad_exec S x s) = ad_floor s \<and> ad_ceiling (ad_exec S x s) = ad_ceiling s"
  by (cases x) (auto simp: ad_try_acquire_def ad_acquire_cost_def ad_release_def ad_settle_frame
      ad_refund_def try_reserve_def Let_def split: prod.splits bool.splits)

lemma ad_run_good:
  "ad_good s \<Longrightarrow> ad_good (fold (ad_exec S) ops s) \<and>
     ad_floor (fold (ad_exec S) ops s) = ad_floor s \<and>
     ad_ceiling (fold (ad_exec S) ops s) = ad_ceiling s"
  by (induction ops arbitrary: s) (auto simp: ad_exec_good ad_exec_frame)

text \<open>C16: the adaptation stays inside its bounds.  Whatever the strategy answers, and in
  whatever order permits are taken, settled, released and refunded, the limit stays
  between the floor and the ceiling and no more requests are in flight than the ceiling
  allows.\<close>

theorem adaptive_limit_bounded:
  "let s = fold (ad_exec S) ops (ad_new st fl ce init clock) in
   max fl 1 \<le> ad_limit s \<and> ad_limit s \<le> max ce (max fl 1) \<and>
   ad_in_flight s \<le> max ce (max fl 1)"
proof -
  let ?s = "ad_new st fl ce init clock"
  have "ad_floor ?s = max fl 1" "ad_ceiling ?s = max ce (max fl 1)"
    by (simp_all add: ad_new_def Let_def)
  with ad_run_good [OF ad_new_good [of st fl ce init clock], of S ops] show ?thesis
    by (auto simp: ad_good_def Let_def)
qed

lemma stale_failure_keeps_limit:
  "e < ad_decrease_epoch s \<Longrightarrow>
   ad_limit (ad_settle S s Failure e) = ad_limit s \<and>
   ad_decrease_epoch (ad_settle S s Failure e) = ad_decrease_epoch s"
  by (simp add: ad_settle_limit ad_settle_epoch)

lemma stale_failures_keep_limit:
  "\<forall>e\<in>set es. e < ad_decrease_epoch s \<Longrightarrow>
   ad_limit (fold (\<lambda>e s. ad_settle S s Failure e) es s) = ad_limit s"
proof (induction es arbitrary: s)
  case (Cons e es)
  have "ad_limit (ad_settle S s Failure e) = ad_limit s"
    "ad_decrease_epoch (ad_settle S s Failure e) = ad_decrease_epoch s"
    using Cons.prems stale_failure_keeps_limit [of e s S] by auto
  with Cons show ?case by simp
qed simp

text \<open>One decrease per congestion event.  When a failure lowers the limit, every
  other failure of a request admitted before that decrease (its permit carries an epoch
  no later than the one at the decrease) leaves the limit where it is, however many of
  them follow.\<close>

theorem one_decrease_per_event:
  assumes "ad_limit (ad_settle S s Failure e0) < ad_limit s"
    and "\<forall>e\<in>set es. e \<le> ad_decrease_epoch s"
    and "ad_decrease_epoch s < U64_MAX"
  shows "ad_limit (fold (\<lambda>e s. ad_settle S s Failure e) es (ad_settle S s Failure e0)) =
         ad_limit (ad_settle S s Failure e0)"
proof -
  have "\<not> e0 < ad_decrease_epoch s"
    using assms(1) by (auto simp: ad_settle_limit)
  then have "ad_decrease_epoch (ad_settle S s Failure e0) = ad_decrease_epoch s + 1"
    using assms(1,3) by (simp add: ad_settle_epoch adjust_limit_epoch ad_settle_limit)
  then show ?thesis using assms(2) by (intro stale_failures_keep_limit) auto
qed

theorem one_decrease_per_event_witness:
  "ad_limit (fold (\<lambda>e s. ad_settle vegas_strategy s Failure e) [0, 0]
     (ad_settle vegas_strategy (ad_new vegas_default 1 100 40 0) Failure 0)) = 20"
  using one_decrease_per_event [of vegas_strategy "ad_new vegas_default 1 100 40 0" 0 "[0, 0]"]
  by (simp add: ad_settle_limit adjust_limit_value ad_new_def vegas_strategy_def vegas_adjust_def
      clamp_def Let_def U64_MAX_def)

subsection \<open>What the strategies do\<close>

lemma aimd_decrease_range: "\<exists>r. decrease (aimd_new inc dec) = Fin r \<and> 0 \<le> r \<and> r \<le> 1"
  by (cases dec) (auto simp: aimd_new_def intro: exI [of _ "1 / 2"])

text \<open>AIMD grows only when saturated and never grows on a failure.  For every
  configured increase and factor (also a NaN or an out-of-range one), a failure moves
  the limit to at least one and to at most the current limit (or one); a success leaves
  it alone while slots are free and adds at least one when none are.\<close>

theorem aimd_adjust_direction:
  assumes "current \<le> U32_MAX"
  shows "let new = \<lambda>out. fst (aimd_adjust (aimd_new inc dec) current in_flight out) in
     1 \<le> new Failure \<and> new Failure \<le> max current 1 \<and>
     (in_flight < current \<longrightarrow> new (Success rtt) = current) \<and>
     (current \<le> in_flight \<longrightarrow> new (Success rtt) = min (current + max inc 1) U32_MAX)"
proof -
  have small: "current < 2 ^ 53" using assms by (simp add: U32_MAX_def)
  obtain r where r: "decrease (aimd_new inc dec) = Fin r" "0 \<le> r" "r \<le> 1"
    using aimd_decrease_range by blast
  obtain y where y: "f64_mul (Fin (of_nat current)) (Fin r) = Fin y" "0 \<le> y" "y \<le> of_nat current"
    using f64_mul_shrink [OF small r(2,3)] by blast
  have "f64_to_uint U32_MAX (Fin y) \<le> current"
    using y(2,3) floor_mono [OF y(3)] by (simp add: min.coboundedI1)
  then have "fst (aimd_adjust (aimd_new inc dec) current in_flight Failure) \<le> max current 1"
    using y(1) r(1) f64_of_nat_exact [OF small]
    by (simp add: aimd_adjust_def Let_def)
  then show ?thesis
    by (auto simp: aimd_adjust_def aimd_new_def sat_add32_def Let_def)
qed

theorem aimd_adjust_direction_witness:
  "fst (aimd_adjust (aimd_new 2 (Fin (1 / 2))) 10 10 (Success 5)) = 12 \<and>
   fst (aimd_adjust (aimd_new 2 (Fin (1 / 2))) 10 3 (Success 5)) = 10 \<and>
   fst (aimd_adjust (aimd_new 2 (Fin (1 / 2))) 10 3 Failure) \<le> 10"
  using aimd_adjust_direction [of 10 2 "Fin (1 / 2)" 10 5]
    aimd_adjust_direction [of 10 2 "Fin (1 / 2)" 3 5]
  by (simp add: Let_def U32_MAX_def)

text \<open>Vegas moves one slot at a time.  A success changes the limit by at most one,
  the remembered minimum round trip never exceeds the sample just taken, and when the
  sample is that minimum (no queue is estimated) a positive \<open>alpha\<close> makes the limit grow.\<close>

theorem vegas_adjust_step:
  assumes "current \<le> U32_MAX"
  shows "let (new, v') = vegas_adjust v current n (Success rtt); sample = max (nanos_u64 rtt) 1 in
   current - 1 \<le> new \<and> new \<le> current + 1 \<and> min_rtt_ns v' \<le> sample \<and>
   (min_rtt_ns v' = sample \<and> 0 < alpha v \<longrightarrow> new = min (current + 1) U32_MAX)"
proof -
  have "sat_mul64 c 0 div r = 0" for c r by (simp add: sat_mul64_def)
  with assms show ?thesis
    by (auto simp: vegas_adjust_def Let_def sat_add32_def min_def)
qed

theorem vegas_adjust_step_witness:
  "fst (vegas_adjust vegas_default 10 4 (Success 500)) = 11"
  using vegas_adjust_step [of 10 vegas_default 4 500]
  by (simp add: vegas_adjust_def Let_def vegas_default_def vegas_new_def machine_arith U32_MAX_def
      U64_MAX_def DEFAULT_PROBE_INTERVAL_def)

subsection \<open>Pausing\<close>

text \<open>\<open>pause_for\<close> is the trait's default: it takes the free slots.  Nothing gives them back.\<close>

lemma ad_pause_takes:
  assumes "ad_good s" and "ad_ceiling s \<le> U32_MAX"
  shows "l_resume adaptive_limiter (l_pause_for adaptive_limiter d s) = s\<lparr>ad_in_flight := max (ad_in_flight s) (ad_limit s)\<rparr>"
proof (cases "ad_limit s \<le> ad_in_flight s")
  case True
  then show ?thesis
    by (simp add: adaptive_limiter_def Let_def default_pause_for_def default_resume_def ad_available_def max_def)
next
  case False
  then show ?thesis
    using assms by (auto simp: adaptive_limiter_def Let_def default_pause_for_def default_resume_def ad_available_def
        ad_acquire_cost_def try_reserve_def ad_good_def)
qed

lemma full_stays_full:
  assumes "ad_limit s \<le> ad_in_flight s" and "x = Ad_Try_Acquire \<or> (\<exists>c. x = Ad_Acquire_Cost c)"
  shows "ad_exec S x s = s"
  using assms by (auto simp: ad_try_acquire_def ad_acquire_cost_def try_reserve_def Let_def split: prod.splits bool.splits)

lemma full_run_stays_full:
  "ad_limit s \<le> ad_in_flight s \<Longrightarrow> \<forall>x\<in>set ops. x = Ad_Try_Acquire \<or> (\<exists>c. x = Ad_Acquire_Cost c) \<Longrightarrow>
   fold (ad_exec S) ops s = s"
  by (induction ops) (auto simp: full_stays_full)

text \<open>C37: A pause of an adaptive limiter does not end.  The free slots are taken, a resume does not
  return them, and however many attempts follow, none is admitted: only a release could free
  a slot, and no permit is outstanding for the taken ones.\<close>

theorem adaptive_pause_does_not_end:
  assumes "ad_good s" and "ad_ceiling s \<le> U32_MAX"
    and "\<forall>x\<in>set ops. x = Ad_Try_Acquire \<or> (\<exists>c. x = Ad_Acquire_Cost c)"
  shows "let s' = fold (ad_exec S) ops (l_resume adaptive_limiter (l_pause_for adaptive_limiter d s)) in
    ad_in_flight s' = max (ad_in_flight s) (ad_limit s) \<and> ad_limit s' = ad_limit s \<and>
    l_paused_for adaptive_limiter s' = 0 \<and> fst (ad_try_acquire s') = None"
proof -
  let ?s = "s\<lparr>ad_in_flight := max (ad_in_flight s) (ad_limit s)\<rparr>"
  have "fold (ad_exec S) ops ?s = ?s" by (rule full_run_stays_full) (use assms(3) in auto)
  then show ?thesis
    unfolding ad_pause_takes [OF assms(1,2)]
    by (auto simp: Let_def ad_try_acquire_def try_reserve_def adaptive_limiter_def default_paused_for_def max_def)
qed

theorem adaptive_pause_does_not_end_witness:
  "let s = ad_new vegas_default 1 100 40 0;
       s' = fold (ad_exec vegas_strategy) [Ad_Try_Acquire, Ad_Acquire_Cost 3]
              (l_resume adaptive_limiter (l_pause_for adaptive_limiter 5 s))
   in ad_in_flight s = 0 \<and> ad_in_flight s' = 40 \<and> fst (ad_try_acquire s') = None"
  using adaptive_pause_does_not_end [of "ad_new vegas_default 1 100 40 0" "[Ad_Try_Acquire, Ad_Acquire_Cost 3]" vegas_strategy 5]
    ad_new_good [of vegas_default 1 100 40 0]
  by (simp add: Let_def ad_new_def clamp_def U32_MAX_def)

end
