(* ===== verification/Hybrid.thy ===== *)
theory Hybrid
  imports Sliding_Window Adaptive
begin

text \<open>
  The hybrid limiter (\<open>src/hybrid.rs\<close>): a request must clear every constituent.  The
  constituents are shared trait objects; the engines of \<open>Limiter\<close> do the work.
\<close>

type_synonym 'w hybrid = "'w limiter list"

definition hy_pairs :: "'w hybrid \<Rightarrow> u32 \<Rightarrow> 'w item list" where
  "hy_pairs h cost = map (\<lambda>l. (l, cost)) h"

definition hy_len :: "'w hybrid \<Rightarrow> usize" where
  "hy_len h = length h"

definition hy_is_empty :: "'w hybrid \<Rightarrow> bool" where
  "hy_is_empty h \<longleftrightarrow> h = []"

definition hy_try_acquire_with_cost :: "'w hybrid \<Rightarrow> u32 \<Rightarrow> 'w \<Rightarrow> bool \<times> 'w" where
  "hy_try_acquire_with_cost h cost w =
     (case acquire_all (hy_pairs h cost) w of (d, w') \<Rightarrow> (is_acquired d, w'))"

definition hy_try_acquire :: "'w hybrid \<Rightarrow> 'w \<Rightarrow> bool \<times> 'w" where
  "hy_try_acquire h w = hy_try_acquire_with_cost h 1 w"

definition hy_peek :: "'w hybrid \<Rightarrow> u32 \<Rightarrow> 'w \<Rightarrow> decision \<times> 'w" where
  "hy_peek h cost w = peek_all (hy_pairs h cost) w"

definition hy_pause_for :: "'w hybrid \<Rightarrow> duration \<Rightarrow> 'w \<Rightarrow> 'w" where
  "hy_pause_for h d w = fold (\<lambda>l w. l_pause_for l d w) h w"

definition hy_resume :: "'w hybrid \<Rightarrow> 'w \<Rightarrow> 'w" where
  "hy_resume h w = fold (\<lambda>l w. l_resume l w) h w"

definition hy_paused_for :: "'w hybrid \<Rightarrow> 'w \<Rightarrow> duration" where
  "hy_paused_for h w = fold (\<lambda>l acc. max acc (l_paused_for l w)) h 0"

text \<open>The minimum over the constituents, or the largest 32-bit value when there is none.\<close>

fun hy_available :: "'w hybrid \<Rightarrow> 'w \<Rightarrow> u32 \<times> 'w" where
  "hy_available [] w = (U32_MAX, w)"
| "hy_available [l] w = l_available l w"
| "hy_available (l # ls) w =
     (case l_available l w of (a, w1) \<Rightarrow>
        (case hy_available ls w1 of (b, w2) \<Rightarrow> (min a b, w2)))"

definition hy_capacity :: "'w hybrid \<Rightarrow> 'w \<Rightarrow> u32" where
  "hy_capacity h w = (if h = [] then U32_MAX else Min (set (map (\<lambda>l. l_capacity l w) h)))"

definition hy_wait ::
  "'w runtime \<Rightarrow> 'w hybrid \<Rightarrow> u32 \<Rightarrow> duration option \<Rightarrow> 'w \<Rightarrow>
   ((throttle_error + unit) option \<times> 'w) option" where
  "hy_wait rt h cost timeout w =
     (case wait_with rt progress_new
             (\<lambda>p budget w. step_all rt (hy_pairs h cost) budget p w)
             (release_all (hy_pairs h cost)) (paused_all (hy_pairs h cost)) timeout w of
        None \<Rightarrow> None
      | Some (r, _, w') \<Rightarrow>
          Some (case r of
                  Wait_Ok \<Rightarrow> Some (Inr ())
                | Wait_Err Refusal_Never \<Rightarrow> Some (Inl (CostExceedsCapacity cost (hy_capacity h w')))
                | Wait_Err Refusal_TimedOut \<Rightarrow> Some (Inl DeadlineExceeded)
                | Wait_Dropped \<Rightarrow> None, w'))"

definition hy_acquire_with_cost_timeout ::
  "'w runtime \<Rightarrow> 'w hybrid \<Rightarrow> u32 \<Rightarrow> duration \<Rightarrow> 'w \<Rightarrow> ((throttle_error + unit) option \<times> 'w) option" where
  "hy_acquire_with_cost_timeout rt h cost timeout w = hy_wait rt h cost (Some timeout) w"

definition hy_acquire_with_cost ::
  "'w runtime \<Rightarrow> 'w hybrid \<Rightarrow> u32 \<Rightarrow> 'w \<Rightarrow> ((throttle_error + unit) option \<times> 'w) option" where
  "hy_acquire_with_cost rt h cost w = hy_wait rt h cost None w"

definition hy_acquire ::
  "'w runtime \<Rightarrow> 'w hybrid \<Rightarrow> 'w \<Rightarrow> ((throttle_error + unit) option \<times> 'w) option" where
  "hy_acquire rt h w = hy_acquire_with_cost rt h 1 w"

definition hybrid_limiter :: "'w hybrid \<Rightarrow> 'w limiter" where
  "hybrid_limiter h =
     (let base = \<lparr>
        l_peek = (\<lambda>cost w. peek_all (hy_pairs h cost) w),
        l_acquire_cost = (\<lambda>cost w. acquire_all (hy_pairs h cost) w),
        l_available = hy_available h,
        l_capacity = hy_capacity h,
        l_refund = (\<lambda>cost w. refund_all (hy_pairs h cost) w),
        l_reserve = (\<lambda>cost max_wait w. reserve_all (hy_pairs h cost) max_wait w),
        l_pause_for = hy_pause_for h,
        l_paused_for = hy_paused_for h,
        l_resume = hy_resume h,
        l_charge = (\<lambda>cost w. (cost, w))\<rparr>
      in base\<lparr>l_charge := default_charge base\<rparr>)"

text \<open>Builder: constituents in the order they were added.\<close>

definition hy_builder_limiter :: "'w hybrid \<Rightarrow> 'w limiter \<Rightarrow> 'w hybrid" where
  "hy_builder_limiter h l = h @ [l]"

subsection \<open>All or nothing\<close>

text \<open>A hybrid over slots \<open>is\<close>: the same slot twice is one limiter shared twice.\<close>

definition hy_of :: "'s limiter \<Rightarrow> 'i list \<Rightarrow> ('i \<Rightarrow> 's) hybrid" where
  "hy_of l slots = map (\<lambda>i. at_slot i l) slots"

lemma hy_pairs_resolve: "hy_pairs (hy_of l slots) c = resolve (\<lambda>i. at_slot i l) (map (\<lambda>i. (i, c)) slots)"
  by (simp add: hy_pairs_def hy_of_def resolve_def)

lemma total_of_const: "total_of j (map (\<lambda>i. (i, c)) slots) = c * count_list slots j"
  by (induction slots) (auto simp: algebra_simps)

context limiter_obj
begin

lemma hybrid_acquire_books:
  assumes "\<forall>i. good (w i)" and "hy_try_acquire_with_cost (hy_of L slots) cost w = (granted, w')"
  shows "(\<forall>i. good (w' i)) \<and>
    (\<forall>i. spent (w' i) = spent (w i) + (if granted then cost * count_list slots i else 0))"
proof -
  let ?xs = "map (\<lambda>i. (i, cost)) slots"
  obtain d where a: "acquire_all (resolve (\<lambda>i. at_slot i L) ?xs) w = (d, w')" and g: "granted = (d = Acquired)"
    using assms(2) by (auto simp: hy_try_acquire_with_cost_def hy_pairs_resolve split: prod.splits)
  have "account (\<lambda>w. \<forall>i. good (w i)) (\<lambda>i w. spent (w i)) (\<lambda>i w. ready (w i)) (\<lambda>i. spent (w i)) (\<lambda>_. 0) w"
    using assms(1) by (simp add: account_def)
  from shared.books_acquire_all [OF this a] g show ?thesis
    by (auto simp: account_def total_of_const split: if_splits)
qed

lemma hybrid_wait_books:
  assumes "\<forall>i. good (w i)"
    and "\<forall>b ow. quiet rt (account (\<lambda>w. \<forall>i. good (w i)) (\<lambda>i w. spent (w i)) (\<lambda>i w. ready (w i)) b ow)"
    and "hy_wait rt (hy_of L slots) cost timeout w = Some (r, w')"
  shows "\<forall>i. spent (w' i) = spent (w i) + (if r = Some (Inr ()) then cost * count_list slots i else 0)"
proof -
  let ?xs = "map (\<lambda>i. (i, cost)) slots" and ?L = "\<lambda>i. at_slot i L"
  have b: "account (\<lambda>w. \<forall>i. good (w i)) (\<lambda>i w. spent (w i)) (\<lambda>i w. ready (w i)) (\<lambda>i. spent (w i)) (\<lambda>_. 0) w"
    using assms(1) by (simp add: account_def)
  obtain q p' where q: "wait_with rt progress_new (\<lambda>p budget w. step_all rt (resolve ?L ?xs) budget p w)
      (release_all (resolve ?L ?xs)) (paused_all (resolve ?L ?xs)) timeout w = Some (q, p', w')"
    and r: "r = Some (Inr ()) \<longleftrightarrow> q = Wait_Ok"
    using assms(3)
    by (auto simp: hy_wait_def hy_pairs_resolve split: option.splits wait_end.splits refusal.splits)
  from shared.composite_wait_all_or_nothing [OF _ b q] assms(2) r show ?thesis
    by (auto simp: account_def total_of_const split: if_splits)
qed

end

text \<open>C4: a hybrid charges every constituent or none.  Over sliding windows in shared slots
  (a slot may occur several times), a granted request charges each slot its cost once per
  occurrence and a refused one leaves the units spent in every slot as they were.\<close>

theorem hybrid_all_or_nothing:
  assumes "\<forall>i. sw_good (w i)"
    and "hy_try_acquire_with_cost (hy_of sliding_limiter slots) cost w = (granted, w')"
  shows "\<forall>i. sw_spent (w' i) = sw_spent (w i) + (if granted then cost * count_list slots i else 0)"
  using sliding.hybrid_acquire_books [OF assms] by blast

lemmas composite_eval = hy_try_acquire_with_cost_def hy_pairs_def hy_of_def acquire_all_def
  peek_all_def at_slot_def

theorem hybrid_all_or_nothing_witness:
  "let w = (\<lambda>_ :: nat. sw_new 3 10 0);
       (granted, w') = hy_try_acquire_with_cost (hy_of sliding_limiter [0, 0, 1]) 1 w
   in granted \<and> sw_spent (w' 0) = 2 \<and> sw_spent (w' 1) = 1 \<and> sw_spent (w' 2) = 0"
proof -
  let ?w = "\<lambda>_ :: nat. sw_new 3 10 0"
  obtain g w' where r: "hy_try_acquire_with_cost (hy_of sliding_limiter [0, 0, 1]) 1 ?w = (g, w')"
    by fastforce
  then have g by (auto simp: composite_eval sliding_limiter_def sw_peek_def sw_eval)
  have "sw_good (sw_new 3 10 0)" "sw_spent (sw_new 3 10 0) = 0"
    by (simp_all add: sw_good_def sw_spent_def sw_live_def sw_eval)
  with hybrid_all_or_nothing [OF _ r] r \<open>g\<close> show ?thesis by simp
qed

text \<open>A waiting hybrid acquires every constituent or none.  Over adaptive limiters in
  shared slots, when nothing else touches them while the waiter sleeps: if the wait
  ends with a grant, each slot has its cost in flight once per occurrence; if it is
  refused, times out or is dropped at any await, no slot holds anything more.\<close>

theorem hybrid_wait_all_or_nothing:
  assumes "\<forall>i. ad_good (w i)"
    and "\<forall>b ow. quiet rt (account (\<lambda>w. \<forall>i. ad_good (w i)) (\<lambda>i w. ad_in_flight (w i)) (\<lambda>_ _. True) b ow)"
    and "hy_wait rt (hy_of adaptive_limiter slots) cost timeout w = Some (r, w')"
  shows "\<forall>i. ad_in_flight (w' i) =
     ad_in_flight (w i) + (if r = Some (Inr ()) then cost * count_list slots i else 0)"
  using adaptive.hybrid_wait_books [OF assms] .

text \<open>A runtime over slots whose sleeps advance every slot's clock.\<close>

definition slots_rt :: "(nat \<Rightarrow> aimd adaptive) runtime" where
  "slots_rt = \<lparr>rt_now = (\<lambda>w. ad_clock (w 0)), rt_checked_add = (\<lambda>a d. Some (a + d)),
     rt_epoch = (\<lambda>_. 0),
     rt_sleep = (\<lambda>d w. (True, \<lambda>i. (w i)\<lparr>ad_clock := ad_clock (w i) + d\<rparr>)),
     rt_race = (\<lambda>d w. (True, \<lambda>i. (w i)\<lparr>ad_clock := ad_clock (w i) + d\<rparr>)),
     rt_yield = (\<lambda>w. (True, w))\<rparr>"

theorem hybrid_wait_all_or_nothing_witness:
  "\<exists>w'. hy_wait slots_rt (hy_of adaptive_limiter [0, 1]) 2 None (\<lambda>_. ad_new aimd_default 1 10 4 0) =
     Some (Some (Inr ()), w') \<and> ad_in_flight (w' 0) = 2 \<and> ad_in_flight (w' 1) = 2 \<and>
     ad_in_flight (w' 2) = 0"
proof -
  let ?w = "\<lambda>_ :: nat. ad_new aimd_default 1 10 4 0"
  have "\<exists>w'. hy_wait slots_rt (hy_of adaptive_limiter [0, 1]) 2 None ?w = Some (Some (Inr ()), w')"
    by (simp add: hy_wait_def wait_with_def wait_loop.simps wait_round_def pause_loop.simps
        step_all_def step_fresh_def progress_new_def composite_eval adaptive_limiter_def
        ad_peek_def ad_acquire_cost_def try_reserve_def ad_new_def clamp_def slots_rt_def
        paused_all_def default_paused_for_def guard_fire_def deadline_after_def
        deadline_remaining_def Let_def machine_arith U32_MAX_def)
  then obtain w' where r: "hy_wait slots_rt (hy_of adaptive_limiter [0, 1]) 2 None ?w =
      Some (Some (Inr ()), w')" by blast
  have q: "quiet slots_rt (account (\<lambda>w. \<forall>i. ad_good (w i)) (\<lambda>i w. ad_in_flight (w i)) (\<lambda>_ _. True) b ow)"
    for b ow
    by (auto simp: quiet_def slots_rt_def account_def ad_good_def)
  have z: "ad_in_flight (ad_new aimd_default 1 10 4 0) = 0" by (simp add: ad_new_def Let_def)
  have g: "\<forall>i. ad_good (?w i)" by (simp add: ad_new_good)
  have q': "\<forall>b ow. quiet slots_rt (account (\<lambda>w. \<forall>i. ad_good (w i)) (\<lambda>i w. ad_in_flight (w i))
      (\<lambda>_ _. True) b ow)" using q by blast
  note each = spec [OF hybrid_wait_all_or_nothing [OF g q' r]]
  show ?thesis using r z each [of 0] each [of 1] each [of 2] by simp
qed

end
