(* ===== verification/Multi.thy ===== *)
theory Multi
  imports Hybrid
begin

text \<open>
  The multi-dimensional limiter (\<open>src/multi.rs\<close>): named dimensions, aliases, and a
  request that states its cost per name.  Every dimension is charged the sum of the
  costs whose name, directly or as an alias, leads to it.
\<close>

record 'w dimension =
  dim_name :: string
  dim_limiter :: "'w limiter"

record dim_alias =
  alias_name :: string
  alias_target :: string

record 'w table =
  dimensions :: "'w dimension list"
  aliases :: "dim_alias list"

record 'w multi =
  m_table :: "'w table"
  m_strict :: bool

type_synonym costs = "(string \<times> u32) list"

definition table_target :: "'w table \<Rightarrow> string \<Rightarrow> string option" where
  "table_target t name =
     (if list_ex (\<lambda>d. dim_name d = name) (dimensions t) then Some name
      else map_option alias_target (find (\<lambda>a. alias_name a = name) (aliases t)))"

definition cost_for :: "'w table \<Rightarrow> string \<Rightarrow> costs \<Rightarrow> u32" where
  "cost_for t dimension costs =
     fold (\<lambda>(_, cost) sum. sat_add32 sum cost)
       (filter (\<lambda>(name, _). table_target t name = Some dimension) costs) 0"

fun position :: "('a \<Rightarrow> bool) \<Rightarrow> 'a list \<Rightarrow> usize option" where
  "position P [] = None"
| "position P (x # xs) = (if P x then Some 0 else map_option Suc (position P xs))"

definition first_unknown :: "'w table \<Rightarrow> costs \<Rightarrow> usize option" where
  "first_unknown t costs = position (\<lambda>(name, _). table_target t name = None) costs"

definition m_pairs :: "'w multi \<Rightarrow> costs \<Rightarrow> 'w item list" where
  "m_pairs m costs =
     map (\<lambda>d. (dim_limiter d, cost_for (m_table m) (dim_name d) costs)) (dimensions (m_table m))"

definition m_unknown :: "'w multi \<Rightarrow> costs \<Rightarrow> usize option" where
  "m_unknown m costs = (if m_strict m then first_unknown (m_table m) costs else None)"

definition m_with_strict :: "'w multi \<Rightarrow> bool \<Rightarrow> 'w multi" where
  "m_with_strict m strict = m\<lparr>m_strict := strict\<rparr>"

definition m_dimension :: "'w multi \<Rightarrow> string \<Rightarrow> 'w limiter option" where
  "m_dimension m name =
     (case table_target (m_table m) name of
        None \<Rightarrow> None
      | Some target \<Rightarrow>
          map_option dim_limiter (find (\<lambda>d. dim_name d = target) (dimensions (m_table m))))"

definition m_peek_costs :: "'w multi \<Rightarrow> costs \<Rightarrow> 'w \<Rightarrow> decision \<times> 'w" where
  "m_peek_costs m costs w =
     (if m_unknown m costs \<noteq> None then (Impossible, w) else peek_all (m_pairs m costs) w)"

definition m_try_acquire_costs :: "'w multi \<Rightarrow> costs \<Rightarrow> 'w \<Rightarrow> bool \<times> 'w" where
  "m_try_acquire_costs m costs w =
     (if m_unknown m costs \<noteq> None then (False, w)
      else (case acquire_all (m_pairs m costs) w of (d, w') \<Rightarrow> (is_acquired d, w')))"

definition m_refund_costs :: "'w multi \<Rightarrow> costs \<Rightarrow> 'w \<Rightarrow> 'w" where
  "m_refund_costs m costs w = refund_all (filter (\<lambda>(_, cost). cost > 0) (m_pairs m costs)) w"

definition m_settle_costs :: "'w multi \<Rightarrow> costs \<Rightarrow> costs \<Rightarrow> 'w \<Rightarrow> 'w" where
  "m_settle_costs m estimated actual w =
     fold (\<lambda>d w.
       let reserved = cost_for (m_table m) (dim_name d) estimated;
           used = cost_for (m_table m) (dim_name d) actual
       in if used < reserved then l_refund (dim_limiter d) (reserved - used) w
          else if reserved < used then snd (l_charge (dim_limiter d) (used - reserved) w)
          else w)
     (dimensions (m_table m)) w"

definition m_available :: "'w multi \<Rightarrow> string \<Rightarrow> 'w \<Rightarrow> u32 option \<times> 'w" where
  "m_available m dimension w =
     (case m_dimension m dimension of
        None \<Rightarrow> (None, w)
      | Some l \<Rightarrow> (case l_available l w of (a, w') \<Rightarrow> (Some a, w')))"

definition m_pause_for :: "'w multi \<Rightarrow> duration \<Rightarrow> 'w \<Rightarrow> 'w" where
  "m_pause_for m dur w = fold (\<lambda>d w. l_pause_for (dim_limiter d) dur w) (dimensions (m_table m)) w"

definition m_resume :: "'w multi \<Rightarrow> 'w \<Rightarrow> 'w" where
  "m_resume m w = fold (\<lambda>d w. l_resume (dim_limiter d) w) (dimensions (m_table m)) w"

definition m_paused_for :: "'w multi \<Rightarrow> 'w \<Rightarrow> duration" where
  "m_paused_for m w =
     fold (\<lambda>d acc. max acc (l_paused_for (dim_limiter d) w)) (dimensions (m_table m)) 0"

definition m_drain_to :: "'w multi \<Rightarrow> string \<Rightarrow> u32 \<Rightarrow> 'w \<Rightarrow> u32 option \<times> 'w" where
  "m_drain_to m dimension remaining w =
     (case m_dimension m dimension of
        None \<Rightarrow> (None, w)
      | Some l \<Rightarrow> (case limiter_drain_to l remaining w of (n, w') \<Rightarrow> (Some n, w')))"

text \<open>The error of a wait that can never succeed: the first dimension whose capacity the
  cost exceeds, or else the first that reports \<open>Impossible\<close>.\<close>

fun never_loop ::
  "'w table \<Rightarrow> costs \<Rightarrow> throttle_error option \<Rightarrow> 'w dimension list \<Rightarrow> 'w \<Rightarrow> throttle_error \<times> 'w" where
  "never_loop t costs fallback [] w =
     ((case fallback of Some e \<Rightarrow> e | None \<Rightarrow> CostExceedsCapacity 0 0), w)"
| "never_loop t costs fallback (d # ds) w =
     (let cost = cost_for t (dim_name d) costs; capacity = l_capacity (dim_limiter d) w in
      if cost > capacity then (CostExceedsCapacity cost capacity, w)
      else if fallback = None then
        (case l_peek (dim_limiter d) cost w of (p, w') \<Rightarrow>
           never_loop t costs (if p = Impossible then Some (CostExceedsCapacity cost capacity) else None)
             ds w')
      else never_loop t costs fallback ds w)"

definition never_error :: "'w multi \<Rightarrow> costs \<Rightarrow> 'w \<Rightarrow> throttle_error \<times> 'w" where
  "never_error m costs w = never_loop (m_table m) costs None (dimensions (m_table m)) w"

definition m_wait ::
  "'w runtime \<Rightarrow> 'w multi \<Rightarrow> costs \<Rightarrow> duration option \<Rightarrow> 'w \<Rightarrow>
   ((throttle_error + unit) option \<times> 'w) option" where
  "m_wait rt m costs timeout w =
     (case m_unknown m costs of
        Some index \<Rightarrow> Some (Some (Inl (UnknownDimension index)), w)
      | None \<Rightarrow>
          (case wait_with rt progress_new
                  (\<lambda>p budget w. step_all rt (m_pairs m costs) budget p w)
                  (release_all (m_pairs m costs)) (paused_all (m_pairs m costs)) timeout w of
             None \<Rightarrow> None
           | Some (r, _, w') \<Rightarrow>
               Some (case r of
                       Wait_Ok \<Rightarrow> (Some (Inr ()), w')
                     | Wait_Err Refusal_Never \<Rightarrow>
                         (case never_error m costs w' of (e, w'') \<Rightarrow> (Some (Inl e), w''))
                     | Wait_Err Refusal_TimedOut \<Rightarrow> (Some (Inl DeadlineExceeded), w')
                     | Wait_Dropped \<Rightarrow> (None, w'))))"

definition m_acquire_costs_timeout ::
  "'w runtime \<Rightarrow> 'w multi \<Rightarrow> costs \<Rightarrow> duration \<Rightarrow> 'w \<Rightarrow> ((throttle_error + unit) option \<times> 'w) option" where
  "m_acquire_costs_timeout rt m costs timeout w = m_wait rt m costs (Some timeout) w"

definition m_acquire_costs ::
  "'w runtime \<Rightarrow> 'w multi \<Rightarrow> costs \<Rightarrow> 'w \<Rightarrow> ((throttle_error + unit) option \<times> 'w) option" where
  "m_acquire_costs rt m costs w = m_wait rt m costs None w"

subsection \<open>Builder\<close>

record 'w m_builder =
  mb_dimensions :: "'w dimension list"
  mb_aliases :: "dim_alias list"
  mb_strict :: bool

definition m_builder_default :: "'w m_builder" where
  "m_builder_default = \<lparr>mb_dimensions = [], mb_aliases = [], mb_strict = True\<rparr>"

definition mb_shared :: "'w m_builder \<Rightarrow> string \<Rightarrow> 'w limiter \<Rightarrow> 'w m_builder" where
  "mb_shared b name l = b\<lparr>mb_dimensions := mb_dimensions b @ [\<lparr>dim_name = name, dim_limiter = l\<rparr>]\<rparr>"

definition mb_alias :: "'w m_builder \<Rightarrow> string \<Rightarrow> string \<Rightarrow> 'w m_builder" where
  "mb_alias b name target =
     b\<lparr>mb_aliases := mb_aliases b @ [\<lparr>alias_name = name, alias_target = target\<rparr>]\<rparr>"

definition mb_set_strict :: "'w m_builder \<Rightarrow> bool \<Rightarrow> 'w m_builder" where
  "mb_set_strict b strict = b\<lparr>mb_strict := strict\<rparr>"

definition mb_build :: "'w m_builder \<Rightarrow> 'w multi" where
  "mb_build b = \<lparr>m_table = \<lparr>dimensions = mb_dimensions b, aliases = mb_aliases b\<rparr>,
     m_strict = mb_strict b\<rparr>"

fun duplicate_dimension :: "'w dimension list \<Rightarrow> 'w dimension list \<Rightarrow> bool" where
  "duplicate_dimension seen [] \<longleftrightarrow> False"
| "duplicate_dimension seen (d # ds) \<longleftrightarrow>
     list_ex (\<lambda>e. dim_name e = dim_name d) seen \<or> duplicate_dimension (seen @ [d]) ds"

fun alias_error :: "'w dimension list \<Rightarrow> dim_alias list \<Rightarrow> dim_alias list \<Rightarrow> string option" where
  "alias_error ds seen [] = None"
| "alias_error ds seen (a # as) =
     (if list_ex (\<lambda>d. dim_name d = alias_name a) ds \<or> list_ex (\<lambda>b. alias_name b = alias_name a) seen
      then Some ''an alias reuses an existing dimension or alias name''
      else if \<not> list_ex (\<lambda>d. dim_name d = alias_target a) ds
      then Some ''an alias targets a dimension that does not exist''
      else alias_error ds (seen @ [a]) as)"

definition mb_try_build :: "'w m_builder \<Rightarrow> throttle_error + 'w multi" where
  "mb_try_build b =
     (if duplicate_dimension [] (mb_dimensions b)
      then Inl (InvalidConfig ''two dimensions share a name'')
      else (case alias_error (mb_dimensions b) [] (mb_aliases b) of
              Some reason \<Rightarrow> Inl (InvalidConfig reason)
            | None \<Rightarrow> Inr (mb_build b)))"

subsection \<open>What a validated table guarantees\<close>

definition table_ok :: "'w table \<Rightarrow> bool" where
  "table_ok t \<longleftrightarrow> distinct (map dim_name (dimensions t)) \<and>
     distinct (map alias_name (aliases t)) \<and>
     set (map alias_name (aliases t)) \<inter> set (map dim_name (dimensions t)) = {} \<and>
     set (map alias_target (aliases t)) \<subseteq> set (map dim_name (dimensions t))"

lemma list_ex_name: "list_ex (\<lambda>d. f d = n) ds \<longleftrightarrow> n \<in> f ` set ds"
  by (induction ds) auto

lemma duplicate_dimension_iff:
  "duplicate_dimension seen ds \<longleftrightarrow> \<not> (distinct (map dim_name ds) \<and>
     dim_name ` set ds \<inter> dim_name ` set seen = {})"
  by (induction seen ds rule: duplicate_dimension.induct) (auto simp: list_ex_name)

lemma alias_error_None:
  "alias_error ds seen as = None \<longleftrightarrow> distinct (map alias_name as) \<and>
     alias_name ` set as \<inter> (alias_name ` set seen \<union> dim_name ` set ds) = {} \<and>
     alias_target ` set as \<subseteq> dim_name ` set ds"
  by (induction ds seen as rule: alias_error.induct) (auto simp: list_ex_name)

lemma table_ok_checks:
  "table_ok (m_table (mb_build b)) \<longleftrightarrow> \<not> duplicate_dimension [] (mb_dimensions b) \<and>
     alias_error (mb_dimensions b) [] (mb_aliases b) = None"
  by (simp add: table_ok_def mb_build_def duplicate_dimension_iff alias_error_None)

lemma try_build_iff: "mb_try_build b = Inr m \<longleftrightarrow> m = mb_build b \<and> table_ok (m_table (mb_build b))"
  by (auto simp: mb_try_build_def table_ok_checks split: option.splits)

lemma target_known:
  assumes "table_ok t"
  shows "table_target t name = Some d \<Longrightarrow> d \<in> dim_name ` set (dimensions t)"
  using assms find_Some_iff [of "\<lambda>a. alias_name a = name" "aliases t"]
  by (auto simp: table_target_def list_ex_name table_ok_def split: if_splits)

lemma target_direct: "d \<in> dim_name ` set (dimensions t) \<Longrightarrow> table_target t d = Some d"
  by (simp add: table_target_def list_ex_name)

text \<open>What a request states for a dimension: the costs of the entries under its name or
  under one of its aliases, as an unbounded sum.\<close>

definition names_of :: "'w table \<Rightarrow> string \<Rightarrow> string set" where
  "names_of t d = set (d # map alias_name (filter (\<lambda>a. alias_target a = d) (aliases t)))"

definition stated :: "'w table \<Rightarrow> string \<Rightarrow> costs \<Rightarrow> nat" where
  "stated t d costs = sum_list (map snd (filter (\<lambda>(name, _). name \<in> names_of t d) costs))"

lemma find_alias:
  assumes "distinct (map alias_name as)"
  shows "map_option alias_target (find (\<lambda>a. alias_name a = n) as) = Some d \<longleftrightarrow>
    (\<exists>a\<in>set as. alias_name a = n \<and> alias_target a = d)"
  using assms by (induction as) (auto simp: image_iff)

lemma table_target_iff:
  assumes "table_ok t" "d \<in> dim_name ` set (dimensions t)"
  shows "table_target t n = Some d \<longleftrightarrow> n \<in> names_of t d"
  using assms find_alias [of "aliases t" n d]
  by (auto simp: table_target_def list_ex_name table_ok_def names_of_def)

lemma fold_sat:
  "acc \<le> U32_MAX \<Longrightarrow> fold (\<lambda>(_, cost) sum. sat_add32 sum cost) cs acc =
     min U32_MAX (acc + sum_list (map snd cs))"
proof (induction cs arbitrary: acc)
  case (Cons c cs)
  have "sat_add32 acc (snd c) \<le> U32_MAX" by (simp add: sat_add32_def)
  with Cons.IH show ?case by (auto simp: sat_add32_def split_beta min_def)
qed simp

lemma cost_for_stated:
  assumes "table_ok t" "d \<in> dim_name ` set (dimensions t)"
  shows "cost_for t d costs = min U32_MAX (stated t d costs)"
  using fold_sat [of 0 "filter (\<lambda>(name, _). table_target t name = Some d) costs"]
  by (simp add: cost_for_def stated_def table_target_iff [OF assms])

lemma sum_list_min_le: "sum_list (map (\<lambda>x. min (c :: nat) (f x)) xs) \<le> sum_list (map f xs)"
  by (induction xs) (auto simp: min_def)

lemma position_None: "position P xs = None \<longleftrightarrow> (\<forall>x\<in>set xs. \<not> P x)"
  by (induction xs) auto

lemma position_Some:
  "position P xs = Some n \<Longrightarrow> n < length xs \<and> P (xs ! n) \<and> (\<forall>k<n. \<not> P (xs ! k))"
proof (induction xs arbitrary: n)
  case (Cons x xs)
  then show ?case by (cases n) (auto split: if_splits simp: less_Suc_eq_0_disj)
qed simp

text \<open>Each entry of a request is charged to exactly one dimension.\<close>

lemma split_by_target:
  assumes "distinct ds" "\<forall>(name, c)\<in>set costs. \<exists>d\<in>set ds. tgt name = Some d"
  shows "(\<Sum>d\<leftarrow>ds. sum_list (map snd (filter (\<lambda>(name, _). tgt name = Some d) costs))) =
     (sum_list (map snd costs) :: nat)"
  using assms(2)
proof (induction costs)
  case (Cons nc costs)
  obtain n c where nc: "nc = (n, c)" by (cases nc)
  obtain d where d: "d \<in> set ds" "tgt n = Some d" using Cons.prems nc by auto
  have one: "(\<Sum>e\<leftarrow>ds. if tgt n = Some e then c else 0) = c"
    using assms(1) d by (simp add: sum_list_distinct_conv_sum_set)
  have "(\<Sum>e\<leftarrow>ds. sum_list (map snd (filter (\<lambda>(name, _). tgt name = Some e) (nc # costs)))) =
      (\<Sum>e\<leftarrow>ds. (if tgt n = Some e then c else 0) +
         sum_list (map snd (filter (\<lambda>(name, _). tgt name = Some e) costs)))"
    by (rule arg_cong [of _ _ sum_list], rule map_cong) (auto simp: nc)
  also have "\<dots> = c + sum_list (map snd costs)"
    using Cons one by (simp add: sum_list_addf)
  finally show ?case by (simp add: nc)
qed simp

lemma stated_total:
  assumes ok: "table_ok t" and known: "first_unknown t costs = None"
  shows "(\<Sum>d\<leftarrow>dimensions t. stated t (dim_name d) costs) = sum_list (map snd costs)"
proof -
  let ?ds = "map dim_name (dimensions t)"
  have "\<forall>(name, c)\<in>set costs. \<exists>d\<in>set ?ds. table_target t name = Some d"
    using known target_known [OF ok] by (fastforce simp: first_unknown_def position_None)
  moreover have "distinct ?ds" using ok by (simp add: table_ok_def)
  ultimately have "(\<Sum>d\<leftarrow>?ds. sum_list (map snd (filter (\<lambda>(name, _). table_target t name = Some d) costs)))
      = sum_list (map snd costs)"
    by (rule split_by_target [rotated])
  moreover have "map (\<lambda>d. sum_list (map snd (filter (\<lambda>(name, _). table_target t name = Some d) costs))) ?ds
      = map (\<lambda>d. stated t (dim_name d) costs) (dimensions t)"
    using table_target_iff [OF ok] by (auto simp: stated_def)
  ultimately show ?thesis by (simp only:)
qed

text \<open>C14: no cost is charged twice, and none is lost but to the 32-bit ceiling.  When
  \<open>try_build\<close> accepts a configuration and every name of a request is known, each
  dimension is charged the sum of the costs stated under its name or one of its aliases
  (repeated names included), cut at \<open>u32::MAX\<close>; what the dimensions state adds up to
  the whole request, so the charges never exceed the request and are exactly the request
  when no dimension's own sum passes \<open>u32::MAX\<close>.\<close>

theorem costs_are_conserved:
  assumes "mb_try_build b = Inr m" and "first_unknown (m_table m) costs = None"
  shows "m_pairs m costs = map (\<lambda>d. (dim_limiter d, min U32_MAX (stated (m_table m) (dim_name d) costs)))
      (dimensions (m_table m)) \<and>
    (\<Sum>d\<leftarrow>dimensions (m_table m). stated (m_table m) (dim_name d) costs) = sum_list (map snd costs) \<and>
    sum_list (map snd (m_pairs m costs)) \<le> sum_list (map snd costs) \<and>
    ((\<forall>d\<in>set (dimensions (m_table m)). stated (m_table m) (dim_name d) costs \<le> U32_MAX) \<longrightarrow>
       sum_list (map snd (m_pairs m costs)) = sum_list (map snd costs))"
proof -
  let ?t = "m_table m"
  let ?f = "\<lambda>d. stated ?t (dim_name d) costs"
  have ok: "table_ok ?t" using assms(1) by (auto simp: try_build_iff)
  note total = stated_total [OF ok assms(2)]
  have pairs: "m_pairs m costs = map (\<lambda>d. (dim_limiter d, min U32_MAX (?f d))) (dimensions ?t)"
    using cost_for_stated [OF ok] by (simp add: m_pairs_def)
  then have charged: "map snd (m_pairs m costs) = map (\<lambda>d. min U32_MAX (?f d)) (dimensions ?t)"
    by simp
  have "map (\<lambda>d. min U32_MAX (?f d)) (dimensions ?t) = map ?f (dimensions ?t)"
    if "\<forall>d\<in>set (dimensions ?t). ?f d \<le> U32_MAX" using that by simp
  with pairs total charged sum_list_min_le [of U32_MAX ?f "dimensions ?t"] show ?thesis by metis
qed

definition sample_multi :: "(nat \<Rightarrow> sliding) multi" where
  "sample_multi = mb_build (mb_alias (mb_alias (mb_shared (mb_shared m_builder_default
     ''requests'' (at_slot 0 sliding_limiter)) ''tokens'' (at_slot 1 sliding_limiter))
     ''input'' ''tokens'') ''output'' ''tokens'')"

lemmas multi_eval = sample_multi_def mb_build_def mb_alias_def mb_shared_def m_builder_default_def
  m_pairs_def first_unknown_def table_target_def

theorem costs_are_conserved_witness:
  "map snd (m_pairs sample_multi
     [(''requests'', 2), (''input'', U32_MAX), (''output'', 20), (''tokens'', 10)]) = [2, U32_MAX] \<and>
   sum_list (map snd (m_pairs sample_multi
     [(''requests'', 2), (''input'', 30), (''output'', 20), (''tokens'', 10)])) = 62"
proof -
  let ?b = "mb_alias (mb_alias (mb_shared (mb_shared m_builder_default
     ''requests'' (at_slot 0 sliding_limiter)) ''tokens'' (at_slot 1 sliding_limiter))
     ''input'' ''tokens'') ''output'' ''tokens''"
  let ?over = "[(''requests'', 2), (''input'', U32_MAX), (''output'', 20), (''tokens'', 10)]"
  let ?fits = "[(''requests'', 2), (''input'', 30), (''output'', 20), (''tokens'', 10)]"
  have b: "mb_try_build ?b = Inr sample_multi"
    by (simp add: try_build_iff sample_multi_def)
       (simp add: table_ok_def mb_build_def mb_alias_def mb_shared_def m_builder_default_def)
  have dims: "map dim_name (dimensions (m_table sample_multi)) = [''requests'', ''tokens'']"
    "aliases (m_table sample_multi) = [\<lparr>alias_name = ''input'', alias_target = ''tokens''\<rparr>,
       \<lparr>alias_name = ''output'', alias_target = ''tokens''\<rparr>]"
    by (simp_all add: multi_eval)
  have known: "first_unknown (m_table sample_multi) ?over = None"
    "first_unknown (m_table sample_multi) ?fits = None"
    by (simp_all add: multi_eval)
  have names: "names_of (m_table sample_multi) ''requests'' = {''requests''}"
    "names_of (m_table sample_multi) ''tokens'' = {''tokens'', ''input'', ''output''}"
    by (simp_all add: names_of_def dims(2))
  have st: "stated (m_table sample_multi) ''requests'' ?over = 2"
    "stated (m_table sample_multi) ''tokens'' ?over = U32_MAX + 30"
    "stated (m_table sample_multi) ''requests'' ?fits = 2"
    "stated (m_table sample_multi) ''tokens'' ?fits = 60"
    by (simp_all add: stated_def names)
  have all: "\<forall>d\<in>set (dimensions (m_table sample_multi)). stated (m_table sample_multi) (dim_name d) ?fits \<le> U32_MAX"
    using dims(1) st(3,4) by (simp add: U32_MAX_def map_eq_Cons_conv) force
  have "map snd (m_pairs sample_multi ?over) =
      map (\<lambda>n. min U32_MAX (stated (m_table sample_multi) n ?over)) (map dim_name (dimensions (m_table sample_multi)))"
    using costs_are_conserved [OF b known(1)] by simp
  then have "map snd (m_pairs sample_multi ?over) = [min U32_MAX 2, min U32_MAX (U32_MAX + 30)]"
    by (simp only: dims(1) st(1,2) list.map)
  moreover have "sum_list (map snd (m_pairs sample_multi ?fits)) = sum_list (map snd ?fits)"
    using costs_are_conserved [OF b known(2)] all by blast
  ultimately show ?thesis by (simp add: min_def U32_MAX_def)
qed

text \<open>A strict limiter refuses unknown names before it touches anything.  If some name of
  the request is neither a dimension nor an alias, a peek answers \<open>Impossible\<close>, a try
  refuses, and a wait fails at once with the index of the first unknown name; no
  limiter is consulted or charged.\<close>

theorem strict_refuses_unknown:
  assumes "m_strict m" and "n < length costs"
    and "table_target (m_table m) (fst (costs ! n)) = None"
    and "\<forall>k<n. table_target (m_table m) (fst (costs ! k)) \<noteq> None"
  shows "m_peek_costs m costs w = (Impossible, w) \<and> m_try_acquire_costs m costs w = (False, w) \<and>
    m_wait rt m costs timeout w = Some (Some (Inl (UnknownDimension n)), w)"
proof -
  let ?P = "\<lambda>(name, _ :: u32). table_target (m_table m) name = None"
  have bad: "?P (costs ! n)" and fine: "\<forall>k<n. \<not> ?P (costs ! k)"
    using assms(3,4) by (auto simp: split_beta)
  obtain k where k: "position ?P costs = Some k"
    using position_None [of ?P costs] bad assms(2) nth_mem by (metis not_None_eq)
  from position_Some [OF k] bad fine have "k = n" by (metis linorder_neqE_nat)
  with k assms(1) have "m_unknown m costs = Some n" by (simp add: m_unknown_def first_unknown_def)
  then show ?thesis by (simp add: m_peek_costs_def m_try_acquire_costs_def m_wait_def)
qed

theorem strict_refuses_unknown_witness:
  "m_try_acquire_costs sample_multi [(''requests'', 1), (''request'', 1)] (\<lambda>_. sw_new 5 10 0) =
     (False, \<lambda>_. sw_new 5 10 0)"
  using strict_refuses_unknown [of sample_multi 1 "[(''requests'', 1), (''request'', 1)]"
      "\<lambda>_. sw_new 5 10 0"]
  by (simp add: multi_eval)

text \<open>Dimensions over shared slots.\<close>

definition multi_of :: "'s limiter \<Rightarrow> (string \<times> 'i) list \<Rightarrow> dim_alias list \<Rightarrow> bool \<Rightarrow> ('i \<Rightarrow> 's) multi" where
  "multi_of l ds as strict = \<lparr>m_table = \<lparr>dimensions =
     map (\<lambda>(name, i). \<lparr>dim_name = name, dim_limiter = at_slot i l\<rparr>) ds, aliases = as\<rparr>, m_strict = strict\<rparr>"

definition shares :: "'w multi \<Rightarrow> (string \<times> 'i) list \<Rightarrow> costs \<Rightarrow> ('i \<times> u32) list" where
  "shares m ds costs = map (\<lambda>(name, i). (i, cost_for (m_table m) name costs)) ds"

lemma m_pairs_resolve:
  "m_pairs (multi_of l ds as strict) costs =
     resolve (\<lambda>i. at_slot i l) (shares (multi_of l ds as strict) ds costs)"
  by (auto simp: m_pairs_def multi_of_def resolve_def shares_def)

context limiter_obj
begin

lemma multi_acquire_books:
  fixes ds :: "(string \<times> 'i) list"
  assumes "\<forall>i. good (w i)" and "m_try_acquire_costs (multi_of L ds as strict) costs w = (granted, w')"
  shows "\<forall>i. spent (w' i) = spent (w i) +
    (if granted then total_of i (shares (multi_of L ds as strict) ds costs) else 0)"
proof (cases "m_unknown (multi_of L ds as strict) costs = None")
  case True
  let ?xs = "shares (multi_of L ds as strict) ds costs"
  obtain d where a: "acquire_all (resolve (\<lambda>i. at_slot i L) ?xs) w = (d, w')"
    and g: "granted = (d = Acquired)"
    using assms(2) True by (auto simp: m_try_acquire_costs_def m_pairs_resolve split: prod.splits)
  have "account (\<lambda>w. \<forall>i. good (w i)) (\<lambda>i w. spent (w i)) (\<lambda>i w. ready (w i)) (\<lambda>i. spent (w i)) (\<lambda>_. 0) w"
    using assms(1) by (simp add: account_def)
  from shared.books_acquire_all [OF this a] g show ?thesis
    by (auto simp: account_def split: if_splits)
next
  case False
  with assms(2) show ?thesis by (auto simp: m_try_acquire_costs_def)
qed

end

text \<open>A multi-dimensional request is charged everywhere or nowhere.  Over sliding
  windows in shared slots, a granted request adds to every slot exactly the costs of the
  dimensions stored there, and a refused one changes no slot's spent units.\<close>

theorem multi_all_or_nothing:
  assumes "\<forall>i. sw_good (w i)"
    and "m_try_acquire_costs (multi_of sliding_limiter ds as strict) costs w = (granted, w')"
  shows "\<forall>i. sw_spent (w' i) = sw_spent (w i) +
    (if granted then total_of i (shares (multi_of sliding_limiter ds as strict) ds costs) else 0)"
  using sliding.multi_acquire_books [OF assms] .

theorem multi_all_or_nothing_witness:
  "\<exists>w'. m_try_acquire_costs (multi_of sliding_limiter [(''a'', 0 :: nat), (''b'', 1)] [] True)
       [(''a'', 2), (''b'', 7)] (\<lambda>_. sw_new 5 10 0) = (False, w') \<and> sw_spent (w' 0) = 0"
proof -
  let ?m = "multi_of sliding_limiter [(''a'', 0 :: nat), (''b'', 1)] [] True"
  obtain g w' where r: "m_try_acquire_costs ?m [(''a'', 2), (''b'', 7)] (\<lambda>_. sw_new 5 10 0) = (g, w')"
    by fastforce
  then have g: "\<not> g"
    by (auto simp: m_try_acquire_costs_def m_unknown_def multi_of_def multi_eval cost_for_def
        composite_eval sliding_limiter_def sw_peek_def sw_eval)
  have "sw_good (sw_new 5 10 0)" "sw_spent (sw_new 5 10 0) = 0"
    by (simp_all add: sw_good_def sw_spent_def sw_live_def sw_eval)
  with multi_all_or_nothing [OF _ r] g r show ?thesis by simp
qed

end
