(* ===== verification/Provider.thy ===== *)
theory Provider
  imports Header_Laws Multi
begin

text \<open>
  Reconciliation with the server (\<open>src/provider.rs\<close>): a parsed window or info is applied to
  a limiter, or to the dimensions of a \<open>MultiLimiter\<close>, by draining and pausing.  The laws
  of the limiter it relies on are the locale \<open>reconcilable\<close>.
\<close>

definition DEFAULT_MAX_PAUSE :: duration where
  "DEFAULT_MAX_PAUSE = from_secs 300"

definition prov_pause :: "'w limiter \<Rightarrow> duration \<Rightarrow> duration \<Rightarrow> 'w \<Rightarrow> 'w" where
  "prov_pause l d max_pause w =
     (let d = min d max_pause in if d \<noteq> 0 then l_pause_for l d w else w)"

definition drain :: "'w limiter \<Rightarrow> u64 \<Rightarrow> 'w \<Rightarrow> u32 \<times> 'w" where
  "drain l remaining w = (if remaining \<le> U32_MAX then limiter_drain_to l remaining w else (0, w))"

definition apply_capped :: "window \<Rightarrow> 'w limiter \<Rightarrow> duration \<Rightarrow> 'w \<Rightarrow> u32 \<times> 'w" where
  "apply_capped win l max_pause w =
     (case win_remaining win of
        None \<Rightarrow> (0, w)
      | Some remaining \<Rightarrow>
          (case drain l remaining w of (drained, w1) \<Rightarrow>
             (drained,
              if remaining = 0
              then (case win_reset win of Some reset \<Rightarrow> prov_pause l reset max_pause w1 | None \<Rightarrow> w1)
              else w1)))"

definition window_apply :: "window \<Rightarrow> 'w limiter \<Rightarrow> 'w \<Rightarrow> u32 \<times> 'w" where
  "window_apply win l w = apply_capped win l DEFAULT_MAX_PAUSE w"

definition sync_window ::
  "rate_limit_info \<Rightarrow> 'w limiter \<Rightarrow> window option \<Rightarrow> duration \<Rightarrow> 'w \<Rightarrow> u32 \<times> 'w" where
  "sync_window info l win max_pause w =
     (case (case win of None \<Rightarrow> (0, w) | Some win \<Rightarrow> apply_capped win l max_pause w) of (drained, w1) \<Rightarrow>
        (drained,
         case info_retry_after info of Some retry \<Rightarrow> prov_pause l retry max_pause w1 | None \<Rightarrow> w1))"

definition sync_requests :: "rate_limit_info \<Rightarrow> 'w limiter \<Rightarrow> 'w \<Rightarrow> u32 \<times> 'w" where
  "sync_requests info l w = sync_window info l (info_requests info) DEFAULT_MAX_PAUSE w"

definition sync_requests_capped :: "rate_limit_info \<Rightarrow> 'w limiter \<Rightarrow> duration \<Rightarrow> 'w \<Rightarrow> u32 \<times> 'w" where
  "sync_requests_capped info l max_pause w = sync_window info l (info_requests info) max_pause w"

definition sync_tokens :: "rate_limit_info \<Rightarrow> 'w limiter \<Rightarrow> 'w \<Rightarrow> u32 \<times> 'w" where
  "sync_tokens info l w = sync_window info l (info_tokens info) DEFAULT_MAX_PAUSE w"

definition sync_tokens_capped :: "rate_limit_info \<Rightarrow> 'w limiter \<Rightarrow> duration \<Rightarrow> 'w \<Rightarrow> u32 \<times> 'w" where
  "sync_tokens_capped info l max_pause w = sync_window info l (info_tokens info) max_pause w"

text \<open>One \<open>if let\<close> of \<open>sync_multi_capped\<close>: apply the window to a dimension, if it exists.\<close>

definition sync_dimension ::
  "window \<Rightarrow> 'w multi \<Rightarrow> string \<Rightarrow> duration \<Rightarrow> u32 \<times> 'w \<Rightarrow> u32 \<times> 'w" where
  "sync_dimension win m name max_pause acc =
     (case m_dimension m name of
        None \<Rightarrow> acc
      | Some l \<Rightarrow>
          (case acc of (drained, w) \<Rightarrow>
             (case apply_capped win l max_pause w of (n, w1) \<Rightarrow> (sat_add32 drained n, w1))))"

definition sync_multi_capped :: "rate_limit_info \<Rightarrow> 'w multi \<Rightarrow> duration \<Rightarrow> 'w \<Rightarrow> u32 \<times> 'w" where
  "sync_multi_capped info m max_pause w =
     (let r1 = (case info_requests info of
                  None \<Rightarrow> (0, w) | Some win \<Rightarrow> sync_dimension win m ''requests'' max_pause (0, w));
          (drained, w2) =
            (case info_tokens info of
               None \<Rightarrow> r1
             | Some win \<Rightarrow>
                 (if m_dimension m ''tokens'' \<noteq> None then sync_dimension win m ''tokens'' max_pause r1
                  else fold (\<lambda>name. sync_dimension win m name max_pause) [''input_tokens'', ''output_tokens''] r1))
      in (drained,
          case info_retry_after info of
            None \<Rightarrow> w2
          | Some retry \<Rightarrow>
              (let retry = min retry max_pause in if retry \<noteq> 0 then m_pause_for m retry w2 else w2)))"

definition sync_multi :: "rate_limit_info \<Rightarrow> 'w multi \<Rightarrow> 'w \<Rightarrow> u32 \<times> 'w" where
  "sync_multi info m w = sync_multi_capped info m DEFAULT_MAX_PAUSE w"

subsection \<open>What reconciliation relies on\<close>

text \<open>Beyond the contract of one limiter: reading what is available costs nothing, that many
  units can be taken at once, and a pause only takes, for at most its length.\<close>

lemma find_member: "find P xs = Some x \<Longrightarrow> x \<in> set xs"
  by (induction xs) (auto split: if_splits)

locale reconcilable = limiter_obj L spent ready good
  for L :: "'s limiter" and spent :: "'s \<Rightarrow> nat" and ready :: "'s \<Rightarrow> bool" and good :: "'s \<Rightarrow> bool" +
  assumes obj_available:
      "good s \<Longrightarrow> l_available L s = (a, s') \<Longrightarrow>
       good s' \<and> spent s' = spent s \<and> a \<le> U32_MAX \<and> l_paused_for L s' = l_paused_for L s \<and> fst (l_available L s') = a"
    and obj_take:
      "good s \<Longrightarrow> l_available L s = (a, s1) \<Longrightarrow> 0 < c \<Longrightarrow> c \<le> a \<Longrightarrow>
       \<exists>s2. l_acquire_cost L c s1 = (Acquired, s2) \<and> fst (l_available L s2) = a - c \<and> l_paused_for L s2 = l_paused_for L s"
    and obj_pause:
      "good s \<Longrightarrow> 0 < d \<Longrightarrow> good (l_pause_for L d s) \<and> spent (l_pause_for L d s) = spent s \<and>
       fst (l_available L (l_pause_for L d s)) \<le> fst (l_available L s) \<and>
       l_paused_for L s \<le> l_paused_for L (l_pause_for L d s) \<and>
       l_paused_for L (l_pause_for L d s) \<le> max (l_paused_for L s) d"
begin

text \<open>\<open>taken n cap s s'\<close>: \<open>n\<close> units were taken, nothing was given back, and any new pause is at
  most \<open>cap\<close>.\<close>

definition taken :: "nat \<Rightarrow> duration \<Rightarrow> 's \<Rightarrow> 's \<Rightarrow> bool" where
  "taken n cap s s' \<longleftrightarrow> good s' \<and> spent s' = spent s + n \<and> fst (l_available L s') \<le> fst (l_available L s) \<and>
     l_paused_for L s \<le> l_paused_for L s' \<and> l_paused_for L s' \<le> max (l_paused_for L s) cap"

lemma taken_refl: "good s \<Longrightarrow> taken 0 cap s s"
  by (simp add: taken_def)

lemma taken_trans: "taken n cap s s1 \<Longrightarrow> taken k cap s1 s2 \<Longrightarrow> taken (n + k) cap s s2"
  by (auto simp: taken_def)

lemma prov_pause_taken: "good s \<Longrightarrow> taken 0 cap s (prov_pause L d cap s)"
  using obj_pause [of s "min d cap"] by (auto simp: prov_pause_def Let_def taken_def)

lemma drain_taken:
  assumes "good s" and "drain L r s = (n, s')"
  shows "taken n cap s s' \<and> fst (l_available L s') \<le> r"
proof -
  obtain a s1 where a: "l_available L s = (a, s1)" by (cases "l_available L s")
  note av = obj_available [OF assms(1) a]
  show ?thesis
  proof (cases "a \<le> r")
    case True
    then have "n = 0" "s' = s \<or> s' = s1"
      using assms(2) a by (auto simp: drain_def limiter_drain_to_def numeral_nat split: if_splits)
    then show ?thesis using av True a assms(1) by (auto simp: taken_def)
  next
    case False
    then have "0 < a - r" "a - r \<le> a" by auto
    from obj_take [OF assms(1) a this] obtain s2 where s2: "l_acquire_cost L (a - r) s1 = (Acquired, s2)"
      "fst (l_available L s2) = a - (a - r)" "l_paused_for L s2 = l_paused_for L s" by blast
    have "r \<le> U32_MAX" using False av by auto
    then have "n = a - r" "s' = s2"
      using assms(2) a s2(1) False by (auto simp: drain_def limiter_drain_to_def numeral_nat split: if_splits)
    then show ?thesis
      using obj_acquire [OF conjunct1 [OF av] s2(1)] av s2 False a by (simp add: taken_def)
  qed
qed

lemma apply_taken:
  assumes "good s" and "apply_capped win L cap s = (n, s')"
  shows "taken n cap s s' \<and> pred_option (\<lambda>r. fst (l_available L s') \<le> r) (win_remaining win)"
proof (cases "win_remaining win")
  case None
  with assms show ?thesis by (simp add: apply_capped_def taken_refl)
next
  case (Some r)
  obtain s1 where d: "drain L r s = (n, s1)"
    and s': "s' = (if r = 0 then (case win_reset win of Some reset \<Rightarrow> prov_pause L reset cap s1 | None \<Rightarrow> s1) else s1)"
    using assms(2) Some by (auto simp: apply_capped_def split: prod.splits)
  note t = drain_taken [OF assms(1) d, of cap]
  have "taken 0 cap s1 s'"
    using t unfolding s' by (auto simp: taken_def [of n] split: option.splits intro: taken_refl prov_pause_taken)
  then show ?thesis using t Some taken_trans [of n cap s s1 0 s'] by (auto simp: taken_def [of 0])
qed

lemma sync_window_taken:
  assumes "good s" and "sync_window info L win cap s = (n, s')"
  shows "taken n cap s s' \<and> pred_option (\<lambda>r. fst (l_available L s') \<le> r) (Option.bind win win_remaining)"
proof -
  obtain s1 where s1: "(case win of None \<Rightarrow> (0, s) | Some win \<Rightarrow> apply_capped win L cap s) = (n, s1)"
    and s': "s' = (case info_retry_after info of Some a \<Rightarrow> prov_pause L a cap s1 | None \<Rightarrow> s1)"
    using assms(2) by (auto simp: sync_window_def split: prod.splits)
  have t: "taken n cap s s1 \<and> pred_option (\<lambda>r. fst (l_available L s1) \<le> r) (Option.bind win win_remaining)"
    using s1 apply_taken [OF assms(1)] taken_refl [OF assms(1)] by (cases win) auto
  have "taken 0 cap s1 s'"
    using t unfolding s' by (auto simp: taken_def [of n] split: option.splits intro: taken_refl prov_pause_taken)
  then show ?thesis
    using t taken_trans [of n cap s s1 0 s'] by (cases "Option.bind win win_remaining") (auto simp: taken_def [of 0])
qed


text \<open>The same over limiters in shared slots: \<open>slots_taken I D\<close> says that \<open>D\<close> units were taken in all
  from the slots \<open>I\<close>.\<close>

definition slots_taken :: "'i set \<Rightarrow> nat \<Rightarrow> duration \<Rightarrow> ('i \<Rightarrow> 's) \<Rightarrow> ('i \<Rightarrow> 's) \<Rightarrow> bool" where
  "slots_taken I D cap w w' \<longleftrightarrow> (\<exists>n. (\<forall>i. taken (n i) cap (w i) (w' i)) \<and> (\<Sum>i\<in>I. n i) = D)"

lemma slots_taken_refl: "\<forall>i. good (w i) \<Longrightarrow> slots_taken I 0 cap w w"
  by (auto simp: slots_taken_def taken_refl intro!: exI [of _ "\<lambda>_. 0"])

lemma slots_taken_good: "slots_taken I D cap w w' \<Longrightarrow> \<forall>i. good (w' i)"
  by (auto simp: slots_taken_def taken_def)

lemma slots_taken_step:
  assumes "slots_taken I D cap w w1" and "finite I" and "i \<in> I" and "taken k cap (w1 i) s"
  shows "slots_taken I (D + k) cap w (w1(i := s))"
proof -
  obtain n where n: "\<forall>j. taken (n j) cap (w j) (w1 j)" "(\<Sum>j\<in>I. n j) = D" using assms(1) by (auto simp: slots_taken_def)
  let ?n = "n(i := n i + k)"
  have "\<forall>j. taken (?n j) cap (w j) ((w1(i := s)) j)" using n(1) taken_trans [OF _ assms(4)] by simp
  moreover have "(\<Sum>j\<in>I. ?n j) = D + k"
    using n(2) assms(2,3) by (simp add: sum.remove [of I i] fun_upd_def)
  ultimately show ?thesis unfolding slots_taken_def by blast
qed

lemma drain_loop_slot:
  "drain_loop k (at_slot i L) r w = (case drain_loop k L r (w i) of (n, s) \<Rightarrow> (n, if k = 0 then w else w(i := s)))"
  by (induction k arbitrary: w) (auto simp: at_slot_def Let_def split: prod.splits)

lemma pause_at_slot: "l_pause_for (at_slot i L) d w = w(i := l_pause_for L d (w i))"
  by (simp add: at_slot_def)

lemma prov_pause_slot: "prov_pause (at_slot i L) d cap w = w(i := prov_pause L d cap (w i))"
  by (simp add: prov_pause_def Let_def at_slot_def)

lemma apply_slot:
  "apply_capped win (at_slot i L) cap w = (case apply_capped win L cap (w i) of (n, s) \<Rightarrow> (n, w(i := s)))"
  by (auto simp: apply_capped_def drain_def limiter_drain_to_def drain_loop_slot prov_pause_slot
      split: option.splits prod.splits)

lemma dimension_slot:
  assumes "m_dimension (multi_of L ds as strict) name = Some l"
  shows "\<exists>i \<in> snd ` set ds. l = at_slot i L"
proof -
  obtain d where d: "l = dim_limiter d" "d \<in> set (map (\<lambda>(name, i). \<lparr>dim_name = name, dim_limiter = at_slot i L\<rparr>) ds)"
    using assms by (auto simp: m_dimension_def multi_of_def split: option.splits dest!: find_member)
  then show ?thesis by force
qed

definition sync_inv :: "'i set \<Rightarrow> duration \<Rightarrow> ('i \<Rightarrow> 's) \<Rightarrow> u32 \<times> ('i \<Rightarrow> 's) \<Rightarrow> bool" where
  "sync_inv I cap w r \<longleftrightarrow> (\<exists>D. fst r = min D U32_MAX \<and> slots_taken I D cap w (snd r))"

lemma sync_dimension_inv:
  assumes "sync_inv (snd ` set ds) cap w r"
  shows "sync_inv (snd ` set ds) cap w (sync_dimension win (multi_of L ds as strict) name cap r)"
proof (cases "m_dimension (multi_of L ds as strict) name")
  case None
  with assms show ?thesis by (simp add: sync_dimension_def)
next
  case (Some l)
  from dimension_slot [OF Some] obtain i where i: "i \<in> snd ` set ds" "l = at_slot i L" by (elim bexE)
  obtain drained w1 where dw: "r = (drained, w1)" by (cases r)
  with assms obtain D where r: "r = (min D U32_MAX, w1)" "slots_taken (snd ` set ds) D cap w w1"
    unfolding sync_inv_def by auto
  obtain k s where k: "apply_capped win L cap (w1 i) = (k, s)" by (cases "apply_capped win L cap (w1 i)")
  have "taken k cap (w1 i) s" using apply_taken [OF _ k] slots_taken_good [OF r(2)] by blast
  from slots_taken_step [OF r(2) _ i(1) this] have "slots_taken (snd ` set ds) (D + k) cap w (w1(i := s))" by simp
  moreover have "sync_dimension win (multi_of L ds as strict) name cap r = (min (D + k) U32_MAX, w1(i := s))"
    using Some i(2) r(1) k by (simp add: sync_dimension_def apply_slot sat_add32_def min_def)
  ultimately show ?thesis unfolding sync_inv_def by (intro exI [of _ "D + k"]) simp
qed

lemma pause_slots:
  assumes "0 < d" "d \<le> cap" and "slots_taken (snd ` set all) D cap w w1" and "set ds \<subseteq> set all"
  shows "slots_taken (snd ` set all) D cap w (m_pause_for (multi_of L ds as strict) d w1)"
  using assms(3,4)
proof (induction ds arbitrary: w1)
  case (Cons x ds)
  obtain name i where x: "x = (name, i)" by (cases x)
  have i: "i \<in> snd ` set all" using Cons.prems(2) x by force
  have "good (w1 i)" using slots_taken_good [OF Cons.prems(1)] by blast
  then have "taken 0 cap (w1 i) (l_pause_for L d (w1 i))" using obj_pause [of "w1 i" d] assms(1,2) by (auto simp: taken_def)
  from slots_taken_step [OF Cons.prems(1) _ i this] have "slots_taken (snd ` set all) D cap w (w1(i := l_pause_for L d (w1 i)))" by simp
  then have "slots_taken (snd ` set all) D cap w (m_pause_for (multi_of L ds as strict) d (l_pause_for (at_slot i L) d w1))"
    unfolding pause_at_slot by (rule Cons.IH) (use Cons.prems(2) in simp)
  then show ?case by (simp add: m_pause_for_def multi_of_def x)
qed (simp add: m_pause_for_def multi_of_def)

lemma sync_multi_taken:
  fixes w :: "'i \<Rightarrow> 's"
  assumes "\<forall>i. good (w i)" and "sync_multi_capped info (multi_of L ds as strict) cap w = (drained, w')"
  shows "sync_inv (snd ` set ds) cap w (drained, w')"
proof -
  let ?m = "multi_of L ds as strict" and ?inv = "sync_inv (snd ` set ds) cap w"
  have start: "?inv (0, w)" using slots_taken_refl [OF assms(1)] by (auto simp: sync_inv_def intro!: exI [of _ 0])
  have step: "?inv (sync_dimension win ?m name cap r)" if "?inv r" for win name r using that by (rule sync_dimension_inv)
  define r1 where "r1 = (case info_requests info of None \<Rightarrow> (0, w) | Some win \<Rightarrow> sync_dimension win ?m ''requests'' cap (0, w))"
  define r2 where "r2 = (case info_tokens info of None \<Rightarrow> r1
     | Some win \<Rightarrow> (if m_dimension ?m ''tokens'' \<noteq> None then sync_dimension win ?m ''tokens'' cap r1
         else fold (\<lambda>name. sync_dimension win ?m name cap) [''input_tokens'', ''output_tokens''] r1))"
  have "?inv r1" unfolding r1_def by (cases "info_requests info") (simp_all add: start step)
  then have "?inv r2" unfolding r2_def by (cases "info_tokens info") (simp_all add: step)
  then obtain D where D: "fst r2 = min D U32_MAX" "slots_taken (snd ` set ds) D cap w (snd r2)" unfolding sync_inv_def by blast
  have e: "sync_multi_capped info ?m cap w = (fst r2, case info_retry_after info of None \<Rightarrow> snd r2
      | Some a \<Rightarrow> (if min a cap \<noteq> 0 then m_pause_for ?m (min a cap) (snd r2) else snd r2))"
    unfolding sync_multi_capped_def Let_def case_prod_beta r2_def r1_def by (rule refl)
  have "slots_taken (snd ` set ds) D cap w w'"
    using assms(2) D(2) pause_slots [OF _ _ D(2), of _ ds] unfolding e by (auto split: option.splits)
  moreover have "drained = min D U32_MAX" using D(1) assms(2) unfolding e by simp
  ultimately show ?thesis unfolding sync_inv_def by (intro exI [of _ D]) simp
qed

end

subsection \<open>Sliding windows can be reconciled\<close>

lemma sw_available_good:
  "sw_good s \<Longrightarrow> sw_available s =
     (if hold_until_ns (sw_log s) > sw_now_ns s then (0, s) else (sw_limit s - sw_spent s, sw_pruned s))"
  by (auto simp: sw_available_def Let_def prune_good sw_pruned_def sw_good_def)

lemma sw_frames:
  "hold_until_ns (sw_log (sw_pruned s)) = hold_until_ns (sw_log s)" "sw_now_ns (sw_pruned s) = sw_now_ns s"
  "sw_limit (sw_pruned s) = sw_limit s" "hold_until_ns (sw_log (sw_pushed s c)) = hold_until_ns (sw_log s)"
  "sw_now_ns (sw_pushed s c) = sw_now_ns s" "sw_limit (sw_pushed s c) = sw_limit s"
  by (simp_all add: sw_pruned_def sw_pushed_def)

lemma sw_pause_frame:
  "sw_now_ns (sw_pause_for s d) = sw_now_ns s" "sw_limit (sw_pause_for s d) = sw_limit s"
  "sw_good (sw_pause_for s d) = sw_good s" "sw_spent (sw_pause_for s d) = sw_spent s"
  by (simp_all add: sw_pause_for_def Let_def sw_defs)

lemma sw_pause_until:
  "0 < d \<Longrightarrow> hold_until_ns (sw_log (sw_pause_for s d)) = max (hold_until_ns (sw_log s)) (max (sat_add64 (sw_now_ns s) (nanos_u64 d)) 1)"
  by (simp add: sw_pause_for_def Let_def)

lemma sw_paused_le: "0 < d \<Longrightarrow> sw_paused_for (sw_pause_for s d) \<le> max (sw_paused_for s) d"
  by (auto simp: sw_paused_for_def sw_pause_until sw_pause_frame sat_add64_def nanos_u64_def to_u64_def max_def)

interpretation sliding: reconcilable sliding_limiter sw_spent sw_ready sw_good
proof (unfold_locales, goal_cases)
  case (1 s a s')
  then show ?case
    by (auto simp: sliding_limiter_def sw_available_good sw_paused_for_def sw_good_pruned sw_frames split: if_splits)
       (auto simp: sw_good_def)
next
  case (2 s a s1 c)
  then have room: "\<not> hold_until_ns (sw_log s) > sw_now_ns s" "a = sw_limit s - sw_spent s" "s1 = sw_pruned s"
    by (auto simp: sliding_limiter_def sw_available_good split: if_splits)
  have fits: "sw_spent s + c \<le> sw_limit s" using 2(3,4) room(2) by linarith
  then have "sw_good (sw_pushed (sw_pruned s) c)" using sw_good_granted [OF sw_good_pruned [OF 2(1)]] by (simp add: sw_frames)
  then show ?case
    using room 2(1,3) fits
    by (simp add: sliding_limiter_def evaluate_good sw_good_pruned sw_frames sw_available_good sw_spent_pushed sw_paused_for_def)
next
  case (3 s d)
  then show ?case
    using sw_paused_le [of d s]
    by (auto simp: sliding_limiter_def sw_pause_frame sw_available_good sw_pause_until)
       (simp add: sw_paused_for_def sw_pause_until sw_pause_frame)
qed

subsection \<open>Properties\<close>

text \<open>C27: Reconciling one limiter only takes.  The drained units are exactly what the window gains,
  afterwards no more is available locally than the server reports as remaining, nothing
  becomes available that was not, and any new pause is at most the cap.\<close>

theorem sync_matches_server:
  assumes "sw_good s" and "sync_window info sliding_limiter win cap s = (drained, s')"
  shows "sw_spent s' = sw_spent s + drained \<and> fst (sw_available s') \<le> fst (sw_available s) \<and>
    pred_option (\<lambda>r. fst (sw_available s') \<le> r) (Option.bind win win_remaining) \<and>
    sw_paused_for s \<le> sw_paused_for s' \<and> sw_paused_for s' \<le> max (sw_paused_for s) cap"
  using sliding.sync_window_taken [OF assms] unfolding sliding.taken_def by (simp add: sliding_limiter_def)

text \<open>C26: Reconciling a whole \<open>MultiLimiter\<close> only takes, in every dimension, also when several dimensions
  share a limiter; the reported count is the sum of what the limiters lost (saturating at
  \<open>u32::MAX\<close>), and no pause exceeds the cap.\<close>

theorem sync_multi_only_takes:
  assumes "\<forall>i. sw_good (w i)" and "sync_multi_capped info (multi_of sliding_limiter ds as strict) cap w = (drained, w')"
  shows "\<exists>n. (\<forall>i. sw_spent (w' i) = sw_spent (w i) + n i \<and> fst (sw_available (w' i)) \<le> fst (sw_available (w i)) \<and>
        sw_paused_for (w' i) \<le> max (sw_paused_for (w i)) cap) \<and>
    drained = min (\<Sum>i \<in> snd ` set ds. n i) U32_MAX"
proof -
  from sliding.sync_multi_taken [OF assms] obtain n where
    n: "drained = min (\<Sum>i \<in> snd ` set ds. n i) U32_MAX" "\<forall>i. sliding.taken (n i) cap (w i) (w' i)"
    unfolding sliding.sync_inv_def sliding.slots_taken_def by auto
  then show ?thesis unfolding sliding.taken_def by (intro exI [of _ n]) (simp add: sliding_limiter_def)
qed

subsection \<open>Witnesses\<close>

definition exhausted :: rate_limit_info where
  "exhausted = \<lparr>info_requests = Some \<lparr>win_limit = Some 5, win_remaining = Some 0, win_reset = Some 7\<rparr>,
     info_tokens = None, info_retry_after = None\<rparr>"

lemma sw_new_good: "limit \<le> U32_MAX \<Longrightarrow> sw_good (sw_new limit window clock)"
  by (simp add: sw_new_def with_clock_inner_def sw_good_def sw_now_ns_def nanos_between_def to_u64_def U64_MAX_def)

theorem sync_matches_server_witness:
  "fst (sw_available (snd (sync_window exhausted sliding_limiter (info_requests exhausted) 100 (sw_new 5 10 0)))) = 0"
proof -
  obtain n s' where e: "sync_window exhausted sliding_limiter (info_requests exhausted) 100 (sw_new 5 10 0) = (n, s')"
    by (meson surj_pair)
  from sync_matches_server [OF _ e] sw_new_good [of 5 10 0]
  have "pred_option (\<lambda>r. fst (sw_available s') \<le> r) (Option.bind (info_requests exhausted) win_remaining)"
    by (simp add: U32_MAX_def)
  then show ?thesis unfolding e by (simp add: exhausted_def)
qed

theorem sync_multi_only_takes_witness:
  "case sync_multi exhausted (multi_of sliding_limiter [(''requests'', 0), (''calls'', 0)] [] True)
      (\<lambda>_ :: nat. sw_new 5 10 0) of
     (drained, w') \<Rightarrow> drained = min (sw_spent (w' 0)) U32_MAX"
proof -
  let ?m = "multi_of sliding_limiter [(''requests'', 0 :: nat), (''calls'', 0)] [] True"
  obtain d w' where e: "sync_multi_capped exhausted ?m DEFAULT_MAX_PAUSE (\<lambda>_. sw_new 5 10 0) = (d, w')"
    by (meson surj_pair)
  have "sw_spent (sw_new 5 10 0) = 0" by (simp add: sw_new_def with_clock_inner_def sw_spent_def sw_live_def)
  moreover have "\<forall>i :: nat. sw_good (sw_new 5 10 0)" using sw_new_good [of 5 10 0] by (simp add: U32_MAX_def)
  from sync_multi_only_takes [OF this e] obtain n where
    "\<forall>i. sw_spent (w' i) = sw_spent (sw_new 5 10 0) + n i" "d = min (n 0) U32_MAX" by auto
  ultimately have "d = min (sw_spent (w' 0)) U32_MAX" by simp
  then show ?thesis unfolding sync_multi_def e by (simp only: prod.case)
qed

end
