(* ===== verification/Throttle.thy ===== *)
theory Throttle
  imports Hold Limiter_Laws
begin

text \<open>
  The core throttle (\<open>src/throttle.rs\<close>): one token bucket, a pause, and a waiting acquire.
  The bucket is the \<open>Bucket\<close> of the \<open>better-bucket\<close> crate, which is not part of the
  repository: it is the parameter \<open>B\<close>, a record of the calls the throttle makes on a bucket
  state, the clock the bucket carries included.  Nothing is assumed of it: what the throttle
  takes and gives back is read off a ledger of the calls it makes (\<open>ledgered\<close>).
\<close>

datatype bucket_decision =
    Allowed
  | Denied duration
  | Other_Decision

record 'b token_bucket =
  tb_now :: "'b \<Rightarrow> nat"
  tb_capacity :: "'b \<Rightarrow> u32"
  tb_available_at :: "nat \<Rightarrow> 'b \<Rightarrow> u32"
  tb_time_until_at :: "u32 \<Rightarrow> nat \<Rightarrow> 'b \<Rightarrow> duration option"
  tb_acquire_at :: "u32 \<Rightarrow> nat \<Rightarrow> 'b \<Rightarrow> bucket_decision \<times> 'b"
  tb_acquire_up_to_at :: "u32 \<Rightarrow> nat \<Rightarrow> 'b \<Rightarrow> u32 \<times> 'b"
  tb_reserve_at :: "u32 \<Rightarrow> duration \<Rightarrow> nat \<Rightarrow> 'b \<Rightarrow> duration option \<times> 'b"
  tb_refund :: "u32 \<Rightarrow> 'b \<Rightarrow> 'b"
  tb_config :: "u32 \<Rightarrow> u32 \<Rightarrow> duration \<Rightarrow> u32 \<Rightarrow> nat \<Rightarrow> 'b option"
  tb_per_second :: "u32 \<Rightarrow> nat \<Rightarrow> 'b"
  tb_per_duration :: "u32 \<Rightarrow> duration \<Rightarrow> nat \<Rightarrow> 'b"
  tb_with_clock :: "nat \<Rightarrow> 'b \<Rightarrow> 'b"

record 'b throttle =
  th_bucket :: 'b
  th_epoch :: nat
  th_hold :: hold

definition from_bucket :: "'b token_bucket \<Rightarrow> 'b \<Rightarrow> 'b throttle" where
  "from_bucket B b = \<lparr>th_bucket = b, th_epoch = tb_now B b, th_hold = hold_new\<rparr>"

definition th_per_second :: "'b token_bucket \<Rightarrow> u32 \<Rightarrow> nat \<Rightarrow> 'b throttle" where
  "th_per_second B rate clock = from_bucket B (tb_per_second B rate clock)"

definition th_per_duration :: "'b token_bucket \<Rightarrow> u32 \<Rightarrow> duration \<Rightarrow> nat \<Rightarrow> 'b throttle" where
  "th_per_duration B amount period clock = from_bucket B (tb_per_duration B amount period clock)"

definition th_per_minute :: "'b token_bucket \<Rightarrow> u32 \<Rightarrow> nat \<Rightarrow> 'b throttle" where
  "th_per_minute B rate clock = th_per_duration B rate (from_secs 60) clock"

definition th_with_clock :: "'b token_bucket \<Rightarrow> 'b throttle \<Rightarrow> nat \<Rightarrow> 'b throttle" where
  "th_with_clock B t clock = from_bucket B (tb_with_clock B clock (th_bucket t))"

definition th_capacity :: "'b token_bucket \<Rightarrow> 'b throttle \<Rightarrow> u32" where
  "th_capacity B t = tb_capacity B (th_bucket t)"

definition th_now :: "'b token_bucket \<Rightarrow> 'b throttle \<Rightarrow> nat" where
  "th_now B t = tb_now B (th_bucket t)"

definition th_held :: "'b throttle \<Rightarrow> nat \<Rightarrow> duration" where
  "th_held t now =
     (if hold_is_set (th_hold t) then hold_remaining (th_hold t) (nanos_between (th_epoch t) now)
      else 0)"

definition th_available :: "'b token_bucket \<Rightarrow> 'b throttle \<Rightarrow> u32" where
  "th_available B t =
     (let now = th_now B t in
      if th_held t now \<noteq> 0 then 0 else tb_available_at B now (th_bucket t))"

definition th_peek :: "'b token_bucket \<Rightarrow> 'b throttle \<Rightarrow> u32 \<Rightarrow> decision" where
  "th_peek B t cost =
     (if cost > th_capacity B t then Impossible
      else
        (let now = th_now B t; held = th_held t now in
         case tb_time_until_at B cost now (th_bucket t) of
           None \<Rightarrow> Impossible
         | Some wait \<Rightarrow>
             (let after_wait = max wait held in
              if after_wait = 0 then Acquired else Retry after_wait)))"

definition th_reserve ::
  "'b token_bucket \<Rightarrow> 'b throttle \<Rightarrow> u32 \<Rightarrow> duration \<Rightarrow> duration option \<times> 'b throttle" where
  "th_reserve B t cost max_wait =
     (let now = th_now B t in
      if th_held t now \<noteq> 0 then (None, t)
      else (case tb_reserve_at B cost max_wait now (th_bucket t) of (r, b) \<Rightarrow> (r, t\<lparr>th_bucket := b\<rparr>)))"

definition th_refund :: "'b token_bucket \<Rightarrow> 'b throttle \<Rightarrow> u32 \<Rightarrow> 'b throttle" where
  "th_refund B t cost = t\<lparr>th_bucket := tb_refund B cost (th_bucket t)\<rparr>"

definition th_drain_to :: "'b token_bucket \<Rightarrow> 'b throttle \<Rightarrow> u32 \<Rightarrow> u32 \<times> 'b throttle" where
  "th_drain_to B t remaining =
     (let now = th_now B t; available = tb_available_at B now (th_bucket t) in
      if available \<le> remaining then (0, t)
      else (case tb_acquire_up_to_at B (available - remaining) now (th_bucket t) of (n, b) \<Rightarrow>
              (n, t\<lparr>th_bucket := b\<rparr>)))"

definition th_pause_for :: "'b token_bucket \<Rightarrow> 'b throttle \<Rightarrow> duration \<Rightarrow> 'b throttle" where
  "th_pause_for B t d =
     (let now = th_now B t in t\<lparr>th_hold := hold_extend (th_hold t) (nanos_between (th_epoch t) now) d\<rparr>)"

definition th_resume :: "'b throttle \<Rightarrow> 'b throttle" where
  "th_resume t = t\<lparr>th_hold := hold_clear (th_hold t)\<rparr>"

definition th_paused_for :: "'b token_bucket \<Rightarrow> 'b throttle \<Rightarrow> duration" where
  "th_paused_for B t = th_held t (th_now B t)"

definition th_decide :: "'b token_bucket \<Rightarrow> 'b throttle \<Rightarrow> u32 \<Rightarrow> decision \<times> 'b throttle" where
  "th_decide B t cost =
     (if cost > th_capacity B t then (Impossible, t)
      else
        (let now = th_now B t; held = th_held t now in
         if held \<noteq> 0 then (Retry held, t)
         else
           (case tb_acquire_at B cost now (th_bucket t) of (d, b) \<Rightarrow>
              ((case d of
                  Allowed \<Rightarrow> Acquired
                | Denied retry \<Rightarrow> if retry = DURATION_MAX then Impossible else Retry retry
                | Other_Decision \<Rightarrow> Impossible), t\<lparr>th_bucket := b\<rparr>))))"

definition th_try_acquire_with_cost :: "'b token_bucket \<Rightarrow> 'b throttle \<Rightarrow> u32 \<Rightarrow> bool \<times> 'b throttle" where
  "th_try_acquire_with_cost B t cost =
     (case th_decide B t cost of (d, t') \<Rightarrow> (is_acquired d, t'))"

definition th_try_acquire :: "'b token_bucket \<Rightarrow> 'b throttle \<Rightarrow> bool \<times> 'b throttle" where
  "th_try_acquire B t = th_try_acquire_with_cost B t 1"

definition th_step :: "'b token_bucket \<Rightarrow> u32 \<Rightarrow> duration \<Rightarrow> 'b throttle \<Rightarrow> step \<times> 'b throttle" where
  "th_step B cost budget t =
     (if cost > th_capacity B t then (Never_Step, t)
      else
        (let now = th_now B t; held = th_held t now in
         if held \<noteq> 0 then (Retry_Step held, t)
         else
           (case tb_reserve_at B cost budget now (th_bucket t) of
              (Some wait, b) \<Rightarrow> (Granted wait, t\<lparr>th_bucket := b\<rparr>)
            | (None, b) \<Rightarrow>
                ((case tb_time_until_at B cost now b of
                    None \<Rightarrow> Never_Step
                  | Some wait \<Rightarrow> Retry_Step wait), t\<lparr>th_bucket := b\<rparr>))))"

definition th_wait ::
  "'b token_bucket \<Rightarrow> 'b throttle runtime \<Rightarrow> u32 \<Rightarrow> duration option \<Rightarrow> 'b throttle \<Rightarrow>
   ((throttle_error + unit) option \<times> 'b throttle) option" where
  "th_wait B rt cost timeout t =
     (case wait_for rt (\<lambda>budget t. th_step B cost budget t) (\<lambda>t. th_refund B t cost)
             (th_paused_for B) timeout t of
        None \<Rightarrow> None
      | Some (r, t') \<Rightarrow>
          Some (case r of
                  Wait_Ok \<Rightarrow> Some (Inr ())
                | Wait_Err Refusal_Never \<Rightarrow> Some (Inl (CostExceedsCapacity cost (th_capacity B t')))
                | Wait_Err Refusal_TimedOut \<Rightarrow> Some (Inl DeadlineExceeded)
                | Wait_Dropped \<Rightarrow> None, t'))"

definition th_acquire_with_cost_timeout ::
  "'b token_bucket \<Rightarrow> 'b throttle runtime \<Rightarrow> u32 \<Rightarrow> duration \<Rightarrow> 'b throttle \<Rightarrow> ((throttle_error + unit) option \<times> 'b throttle) option" where
  "th_acquire_with_cost_timeout B rt cost timeout t = th_wait B rt cost (Some timeout) t"

definition th_acquire_timeout ::
  "'b token_bucket \<Rightarrow> 'b throttle runtime \<Rightarrow> duration \<Rightarrow> 'b throttle \<Rightarrow> ((throttle_error + unit) option \<times> 'b throttle) option" where
  "th_acquire_timeout B rt timeout t = th_acquire_with_cost_timeout B rt 1 timeout t"

definition th_acquire_with_cost ::
  "'b token_bucket \<Rightarrow> 'b throttle runtime \<Rightarrow> u32 \<Rightarrow> 'b throttle \<Rightarrow> ((throttle_error + unit) option \<times> 'b throttle) option" where
  "th_acquire_with_cost B rt cost t = th_wait B rt cost None t"

definition th_acquire ::
  "'b token_bucket \<Rightarrow> 'b throttle runtime \<Rightarrow> 'b throttle \<Rightarrow> ((throttle_error + unit) option \<times> 'b throttle) option" where
  "th_acquire B rt t = th_acquire_with_cost B rt 1 t"

function th_charge_loop :: "'b token_bucket \<Rightarrow> u32 \<Rightarrow> nat \<Rightarrow> u32 \<Rightarrow> 'b \<Rightarrow> u32 \<times> 'b" where
  "th_charge_loop B capacity now left b =
     (if left = 0 \<or> capacity = 0 then (0, b)
      else
        (let chunk = min left capacity in
         case tb_reserve_at B chunk DURATION_MAX now b of
           (None, b') \<Rightarrow> (left, b')
         | (Some _, b') \<Rightarrow> th_charge_loop B capacity now (left - chunk) b'))"
  by pat_completeness auto
termination
  by (relation "measure (\<lambda>(B, capacity, now, left, b). left)") auto

declare th_charge_loop.simps [simp del]

definition th_charge :: "'b token_bucket \<Rightarrow> 'b throttle \<Rightarrow> u32 \<Rightarrow> u32 \<times> 'b throttle" where
  "th_charge B t cost =
     (let capacity = th_capacity B t in
      if capacity = 0 then (cost, t)
      else (case th_charge_loop B capacity (th_now B t) cost (th_bucket t) of (left, b) \<Rightarrow>
              (left, t\<lparr>th_bucket := b\<rparr>)))"

definition throttle_limiter :: "'b token_bucket \<Rightarrow> 'b throttle limiter" where
  "throttle_limiter B = \<lparr>
     l_peek = (\<lambda>cost t. (th_peek B t cost, t)),
     l_acquire_cost = (\<lambda>cost t. th_decide B t cost),
     l_available = (\<lambda>t. (th_available B t, t)),
     l_capacity = th_capacity B,
     l_refund = (\<lambda>cost t. th_refund B t cost),
     l_reserve = (\<lambda>cost max_wait t. th_reserve B t cost max_wait),
     l_pause_for = (\<lambda>d t. th_pause_for B t d),
     l_paused_for = th_paused_for B,
     l_resume = th_resume,
     l_charge = (\<lambda>cost t. th_charge B t cost)\<rparr>"

subsection \<open>Builder\<close>

record th_builder =
  tb_amount :: u32
  tb_period :: duration
  tb_burst :: "u32 option"
  tb_initial :: "u32 option"

definition th_builder_new :: th_builder where
  "th_builder_new = \<lparr>tb_amount = 0, tb_period = from_secs 1, tb_burst = None, tb_initial = None\<rparr>"

definition builder_rate :: "th_builder \<Rightarrow> u32 \<Rightarrow> duration \<Rightarrow> th_builder" where
  "builder_rate b amount period = b\<lparr>tb_amount := amount, tb_period := period\<rparr>"

definition builder_per_second :: "th_builder \<Rightarrow> u32 \<Rightarrow> th_builder" where
  "builder_per_second b amount = builder_rate b amount (from_secs 1)"

definition builder_per_minute :: "th_builder \<Rightarrow> u32 \<Rightarrow> th_builder" where
  "builder_per_minute b amount = builder_rate b amount (from_secs 60)"

definition builder_burst :: "th_builder \<Rightarrow> u32 \<Rightarrow> th_builder" where
  "builder_burst b burst = b\<lparr>tb_burst := Some burst\<rparr>"

definition builder_initial :: "th_builder \<Rightarrow> u32 \<Rightarrow> th_builder" where
  "builder_initial b initial = b\<lparr>tb_initial := Some initial\<rparr>"

definition builder_config :: "'b token_bucket \<Rightarrow> th_builder \<Rightarrow> nat \<Rightarrow> throttle_error + 'b" where
  "builder_config B b clock =
     (if tb_amount b = 0
      then Inl (InvalidConfig ''rate amount must be non-zero; set it with rate/per_second/per_minute'')
      else if tb_period b = 0 then Inl (InvalidConfig ''rate period must be non-zero'')
      else
        (let capacity = (case tb_burst b of Some n \<Rightarrow> n | None \<Rightarrow> tb_amount b) in
         if capacity = 0 then Inl (InvalidConfig ''burst must be non-zero'')
         else
           (let initial = min (case tb_initial b of Some n \<Rightarrow> n | None \<Rightarrow> capacity) capacity in
            case tb_config B capacity (tb_amount b) (tb_period b) initial clock of
              Some bucket \<Rightarrow> Inr bucket
            | None \<Rightarrow> Inl (InvalidConfig ''the token bucket rejected the configuration''))))"

definition builder_try_build :: "'b token_bucket \<Rightarrow> th_builder \<Rightarrow> nat \<Rightarrow> throttle_error + 'b throttle" where
  "builder_try_build B b clock =
     (case builder_config B b clock of Inl e \<Rightarrow> Inl e | Inr bucket \<Rightarrow> Inr (from_bucket B bucket))"

definition builder_build :: "'b token_bucket \<Rightarrow> th_builder \<Rightarrow> nat \<Rightarrow> 'b throttle" where
  "builder_build B b clock =
     from_bucket B (case builder_config B b clock of
                      Inr bucket \<Rightarrow> bucket
                    | Inl _ \<Rightarrow> tb_with_clock B clock (tb_per_second B 0 clock))"

definition th_smooth :: "'b token_bucket \<Rightarrow> u32 \<Rightarrow> duration \<Rightarrow> nat \<Rightarrow> 'b throttle" where
  "th_smooth B amount period clock =
     builder_build B (builder_burst (builder_rate th_builder_new amount period) 1) clock"

subsection \<open>Pauses\<close>

lemma th_held_eq: "th_held t now = hold_remaining (th_hold t) (nanos_between (th_epoch t) now)"
  by (simp add: th_held_def hold_is_set_def hold_remaining_def)

text \<open>C33: a pause stops every way of acquiring, for exactly its length.  After
  \<open>pause_for d\<close> the pause left is the longer of \<open>d\<close> and what was left before; until then
  no acquire, reservation or waiting step touches the bucket and all of them name that
  time; it is over once that time has passed and not before, or at once after a resume.\<close>

theorem pause_blocks_exactly:
  assumes "0 < d" and "th_epoch t \<le> th_now B t" and "th_now B t - th_epoch t + d \<le> U64_MAX"
    and "cost \<le> th_capacity B t"
    and "tb_now B later = th_now B t + x" and "th_now B t + x - th_epoch t \<le> U64_MAX"
  shows "let p = th_pause_for B t d; left = max (th_paused_for B t) d in
     th_paused_for B p = left \<and>
     th_decide B p cost = (Retry left, p) \<and> th_reserve B p cost max_wait = (None, p) \<and>
     th_step B cost budget p = (Retry_Step left, p) \<and> th_available B p = 0 \<and>
     (th_paused_for B (p\<lparr>th_bucket := later\<rparr>) = 0 \<longleftrightarrow> left \<le> x) \<and>
     th_paused_for B (th_resume p) = 0"
proof -
  let ?p = "th_pause_for B t d" and ?now = "nanos_between (th_epoch t) (th_now B t)"
  let ?left = "max (th_paused_for B t) d"
  have now: "?now = th_now B t - th_epoch t" and fits: "?now + d \<le> U64_MAX"
    using assms(3) by (simp_all add: nanos_between_def)
  have same: "th_now B ?p = th_now B t" "th_epoch ?p = th_epoch t" "th_bucket ?p = th_bucket t"
    "th_capacity B ?p = th_capacity B t"
    by (simp_all add: th_pause_for_def th_now_def th_capacity_def Let_def)
  have left: "th_paused_for B ?p = ?left"
    using hold_remaining_extend [OF assms(1) fits, of "th_hold t"] same
    by (simp add: th_paused_for_def th_held_eq th_pause_for_def Let_def)
  then have held: "th_held ?p (th_now B ?p) = ?left" by (simp add: th_paused_for_def)
  have until: "until_ns (th_hold ?p) = ?now + ?left"
    using held assms(1) same by (simp add: th_held_eq hold_remaining_def)
  have later: "nanos_between (th_epoch t) (tb_now B later) = ?now + x"
    using assms(2,5,6) now by (simp add: nanos_between_def)
  have "th_paused_for B (?p\<lparr>th_bucket := later\<rparr>) = ?left - x"
    using later until same by (simp add: th_paused_for_def th_held_eq th_now_def hold_remaining_def)
  moreover have "th_paused_for B (th_resume ?p) = 0"
    by (simp add: th_paused_for_def th_held_eq th_resume_def)
  moreover have "?left \<noteq> 0" using assms(1) by simp
  ultimately show ?thesis
    using left held assms(1,4) same
    by (simp add: Let_def th_decide_def th_reserve_def th_step_def th_available_def)
qed

subsection \<open>What the throttle asks of its bucket\<close>

text \<open>The bucket with a ledger: every granted acquire or reservation and every refund is
  written down as it is made.  The bucket itself is arbitrary and refills as it likes.\<close>

datatype bucket_event = Took u32 | Returned u32

definition ledgered :: "'b token_bucket \<Rightarrow> ('b \<times> bucket_event list) token_bucket" where
  "ledgered B = \<lparr>
     tb_now = (\<lambda>(b, es). tb_now B b),
     tb_capacity = (\<lambda>(b, es). tb_capacity B b),
     tb_available_at = (\<lambda>now (b, es). tb_available_at B now b),
     tb_time_until_at = (\<lambda>c now (b, es). tb_time_until_at B c now b),
     tb_acquire_at = (\<lambda>c now (b, es). case tb_acquire_at B c now b of (d, b') \<Rightarrow>
        (d, b', if d = Allowed then es @ [Took c] else es)),
     tb_acquire_up_to_at = (\<lambda>c now (b, es). case tb_acquire_up_to_at B c now b of (n, b') \<Rightarrow>
        (n, b', es @ [Took n])),
     tb_reserve_at = (\<lambda>c m now (b, es). case tb_reserve_at B c m now b of (r, b') \<Rightarrow>
        (r, b', if r = None then es else es @ [Took c])),
     tb_refund = (\<lambda>c (b, es). (tb_refund B c b, es @ [Returned c])),
     tb_config = (\<lambda>cap amount period initial clock.
        map_option (\<lambda>b. (b, [])) (tb_config B cap amount period initial clock)),
     tb_per_second = (\<lambda>rate clock. (tb_per_second B rate clock, [])),
     tb_per_duration = (\<lambda>amount period clock. (tb_per_duration B amount period clock, [])),
     tb_with_clock = (\<lambda>clock (b, es). (tb_with_clock B clock b, es))\<rparr>"

definition with_ledger :: "bucket_event list \<Rightarrow> 'b throttle \<Rightarrow> ('b \<times> bucket_event list) throttle" where
  "with_ledger es t = \<lparr>th_bucket = (th_bucket t, es), th_epoch = th_epoch t, th_hold = th_hold t\<rparr>"

definition unledgered :: "('b \<times> bucket_event list) throttle \<Rightarrow> 'b throttle" where
  "unledgered t = \<lparr>th_bucket = fst (th_bucket t), th_epoch = th_epoch t, th_hold = th_hold t\<rparr>"

definition ledger :: "('b \<times> bucket_event list) throttle \<Rightarrow> bucket_event list" where
  "ledger t = snd (th_bucket t)"

lemma ledger_simps [simp]:
  "unledgered (with_ledger es t) = t" "ledger (with_ledger es t) = es"
  "with_ledger (ledger u) (unledgered u) = u"
  by (simp_all add: with_ledger_def unledgered_def ledger_def)

text \<open>A runtime of the program, over throttles with a ledger: at every await the other tasks do
  to the throttle whatever they do, and the ledger, which is this task's, stays.\<close>

definition ledger_rt :: "'b throttle runtime \<Rightarrow> ('b \<times> bucket_event list) throttle runtime" where
  "ledger_rt rt = \<lparr>rt_now = (\<lambda>t. rt_now rt (unledgered t)), rt_checked_add = rt_checked_add rt,
     rt_epoch = (\<lambda>t. rt_epoch rt (unledgered t)),
     rt_sleep = (\<lambda>d t. map_prod id (with_ledger (ledger t)) (rt_sleep rt d (unledgered t))),
     rt_race = (\<lambda>d t. map_prod id (with_ledger (ledger t)) (rt_race rt d (unledgered t))),
     rt_yield = (\<lambda>t. map_prod id (with_ledger (ledger t)) (rt_yield rt (unledgered t)))\<rparr>"

lemmas ledger_ops = ledgered_def with_ledger_def unledgered_def ledger_def

lemma ledgered_reads:
  "th_now (ledgered B) t = th_now B (unledgered t)"
  "th_capacity (ledgered B) t = th_capacity B (unledgered t)"
  "th_held t now = th_held (unledgered t) now"
  "th_paused_for (ledgered B) t = th_paused_for B (unledgered t)"
  by (simp_all add: ledger_ops th_now_def th_capacity_def th_held_def th_paused_for_def split_beta)

lemma ledgered_step:
  "th_step (ledgered B) cost budget t =
     (case th_step B cost budget (unledgered t) of (s, t') \<Rightarrow>
        (s, with_ledger (case s of Granted _ \<Rightarrow> ledger t @ [Took cost] | _ \<Rightarrow> ledger t) t'))"
proof -
  obtain b es e h where t: "t = \<lparr>th_bucket = (b, es), th_epoch = e, th_hold = h\<rparr>"
    by (metis surj_pair throttle.cases)
  obtain r b' where "tb_reserve_at B cost budget (tb_now B b) b = (r, b')" by fastforce
  then show ?thesis
    by (cases r) (auto simp: t th_step_def ledgered_reads Let_def ledger_ops th_now_def th_capacity_def
        th_held_def split: option.splits)
qed

lemma step_never_holds: "th_step B cost budget t \<noteq> (Holding d, t')"
  by (auto simp: th_step_def Let_def split: prod.splits option.splits)

lemma ledgered_refund:
  "th_refund (ledgered B) t cost = with_ledger (ledger t @ [Returned cost]) (th_refund B (unledgered t) cost)"
  by (simp add: th_refund_def ledger_ops split_beta)

abbreviation step_fun :: "'b token_bucket \<Rightarrow> u32 \<Rightarrow> unit \<Rightarrow> duration \<Rightarrow> 'b throttle \<Rightarrow> step \<times> unit \<times> 'b throttle" where
  "step_fun B cost \<equiv> (\<lambda>_ budget t. case th_step B cost budget t of (s, t') \<Rightarrow> (s, (), t'))"

abbreviation refund_fun :: "'b token_bucket \<Rightarrow> u32 \<Rightarrow> unit \<Rightarrow> 'b throttle \<Rightarrow> unit \<times> 'b throttle" where
  "refund_fun B cost \<equiv> (\<lambda>_ t. ((), th_refund B t cost))"

interpretation ledger: engine_sim unledgered "ledger_rt rt" rt "step_fun (ledgered B) cost" "step_fun B cost"
  "refund_fun (ledgered B) cost" "refund_fun B cost" "th_paused_for (ledgered B)" "th_paused_for B"
  by unfold_locales
     (auto simp: ledger_rt_def ledgered_step ledgered_refund ledgered_reads prod.map_comp comp_def prod.map_ident
        split: prod.splits)

interpretation ledger: waiting "ledger_rt rt" "step_fun (ledgered B) cost" "refund_fun (ledgered B) cost"
  "\<lambda>_ t. ledger t = [Took cost]" "\<lambda>_ _. False" "\<lambda>_ t. ledger t = []"
  "\<lambda>_ t. ledger t = [Took cost, Returned cost]"
  by unfold_locales
     (auto simp: ledger_rt_def ledgered_step ledgered_refund step_never_holds map_prod_def
        split: prod.splits step.splits)

text \<open>C11: a waiting acquire takes its cost once and keeps it, or takes nothing, or gives back
  exactly what it took.  Whatever the bucket does (it may refill at any time), whatever other
  tasks do to the throttle at every await, and wherever the future is dropped: of the calls
  this wait makes on the bucket, one that returns \<open>Ok\<close> has made exactly one that took units,
  its cost, and none that returned any; one that fails or is dropped has taken nothing, or its
  cost once and returned it once, in that order.\<close>

theorem throttle_wait_all_or_nothing:
  assumes "th_wait B rt cost timeout t = Some (r, t')"
  shows "\<exists>es. th_wait (ledgered B) (ledger_rt rt) cost timeout (with_ledger [] t) = Some (r, with_ledger es t') \<and>
    (if r = Some (Inr ()) then es = [Took cost] else es = [] \<or> es = [Took cost, Returned cost])"
proof -
  obtain q where q: "wait_with rt () (step_fun B cost) (refund_fun B cost) (th_paused_for B) timeout t = Some (q, (), t')"
    and r: "r = (case q of Wait_Ok \<Rightarrow> Some (Inr ())
        | Wait_Err Refusal_Never \<Rightarrow> Some (Inl (CostExceedsCapacity cost (th_capacity B t')))
        | Wait_Err Refusal_TimedOut \<Rightarrow> Some (Inl DeadlineExceeded) | Wait_Dropped \<Rightarrow> None)"
    using assms by (auto simp: th_wait_def wait_for_def split: option.splits)
  obtain l where l: "wait_with (ledger_rt rt) () (step_fun (ledgered B) cost) (refund_fun (ledgered B) cost)
      (th_paused_for (ledgered B)) timeout (with_ledger [] t) = Some (q, (), l)" and t': "t' = unledgered l"
    using ledger.sim_wait_with [of rt "()" B cost timeout "with_ledger [] t"] q by auto
  from ledger.wait_all_or_nothing [OF _ l]
  have "if q = Wait_Ok then ledger l = [Took cost] else ledger l = [] \<or> ledger l = [Took cost, Returned cost]"
    by (auto split: if_splits)
  moreover have "q = Wait_Ok \<longleftrightarrow> r = Some (Inr ())" by (auto simp: r split: wait_end.splits refusal.splits)
  moreover have "th_wait (ledgered B) (ledger_rt rt) cost timeout (with_ledger [] t) = Some (r, with_ledger (ledger l) t')"
    unfolding t' ledger_simps r th_wait_def wait_for_def l
    by (simp only: ledgered_reads(2) option.case prod.case)
  ultimately show ?thesis by (intro exI [of _ "ledger l"] conjI) (assumption, metis)
qed

subsection \<open>Charging\<close>

definition taken :: "bucket_event list \<Rightarrow> nat" where
  "taken es = sum_list (map (\<lambda>e. case e of Took c \<Rightarrow> c | Returned _ \<Rightarrow> 0) es)"

lemma taken_simps [simp]: "taken [] = 0" "taken (es @ [Took c]) = taken es + c"
  by (simp_all add: taken_def)

lemma th_charge_loop_total:
  assumes "0 < capacity"
  shows "th_charge_loop (ledgered B) capacity now left (b, es) = (rest, b', es') \<Longrightarrow>
    taken es' + rest = taken es + left \<and>
    ((\<forall>b c. c \<le> capacity \<longrightarrow> fst (tb_reserve_at B c DURATION_MAX now b) \<noteq> None) \<longrightarrow> rest = 0)"
proof (induction left arbitrary: b es rule: less_induct)
  case (less left)
  show ?case
  proof (cases "left = 0")
    case True
    with less.prems show ?thesis by (simp add: th_charge_loop.simps)
  next
    case False
    let ?c = "min left capacity"
    obtain r b1 where r: "tb_reserve_at B ?c DURATION_MAX now b = (r, b1)" by fastforce
    note loop = less.prems [unfolded th_charge_loop.simps [of "ledgered B" capacity now left]]
    show ?thesis
    proof (cases r)
      case None
      then have "\<exists>b c. c \<le> capacity \<and> fst (tb_reserve_at B c DURATION_MAX now b) = None"
        using r by (intro exI [of _ b] exI [of _ ?c]) simp
      then show ?thesis using loop r None False assms by (auto simp: ledgered_def Let_def)
    next
      case (Some w)
      have "th_charge_loop (ledgered B) capacity now (left - ?c) (b1, es @ [Took ?c]) = (rest, b', es')"
        using loop r Some False assms by (simp add: ledgered_def Let_def)
      from less.IH [OF _ this] False assms show ?thesis by auto
    qed
  qed
qed

text \<open>A charge is booked.  Whatever the bucket does, \<open>charge\<close> terminates, and what it takes from
  the bucket and what it reports as uncharged add up to the cost; over a bucket that
  reserves any amount up to its capacity when allowed to wait for ever, nothing is left
  uncharged, however many times the capacity the cost is.\<close>

theorem charge_books_everything:
  assumes "0 < th_capacity B t" and "th_charge (ledgered B) (with_ledger [] t) cost = (uncharged, t')"
  shows "taken (ledger t') + uncharged = cost \<and>
    ((\<forall>b c. c \<le> th_capacity B t \<longrightarrow> fst (tb_reserve_at B c DURATION_MAX (th_now B t) b) \<noteq> None) \<longrightarrow>
      uncharged = 0)"
proof -
  obtain b' es' where l: "th_charge_loop (ledgered B) (th_capacity B t) (th_now B t) cost (th_bucket t, []) =
      (uncharged, b', es')" and "ledger t' = es'"
    using assms by (auto simp: th_charge_def ledgered_reads Let_def) (auto simp: with_ledger_def ledger_def split: prod.splits)
  with th_charge_loop_total [OF assms(1) l] show ?thesis by simp
qed

subsection \<open>A concrete bucket for the hypotheses\<close>

text \<open>A pool that never refills and lends without limit when allowed to wait: the simplest
  bucket that meets the contract.\<close>

record pool =
  pool_capacity :: nat
  pool_taken :: nat
  pool_now :: nat

definition pool_bucket :: "pool token_bucket" where
  "pool_bucket = \<lparr>
     tb_now = pool_now,
     tb_capacity = pool_capacity,
     tb_available_at = (\<lambda>now b. pool_capacity b - pool_taken b),
     tb_time_until_at = (\<lambda>c now b. if pool_taken b + c \<le> pool_capacity b then Some 0 else None),
     tb_acquire_at = (\<lambda>c now b. if pool_taken b + c \<le> pool_capacity b
        then (Allowed, b\<lparr>pool_taken := pool_taken b + c\<rparr>) else (Denied DURATION_MAX, b)),
     tb_acquire_up_to_at = (\<lambda>c now b. let n = min c (pool_capacity b - pool_taken b) in
        (n, b\<lparr>pool_taken := pool_taken b + n\<rparr>)),
     tb_reserve_at = (\<lambda>c m now b. if pool_taken b + c \<le> pool_capacity b \<or> m = DURATION_MAX
        then (Some 0, b\<lparr>pool_taken := pool_taken b + c\<rparr>) else (None, b)),
     tb_refund = (\<lambda>c b. b\<lparr>pool_taken := pool_taken b - c\<rparr>),
     tb_config = (\<lambda>cap amount period initial clock. Some \<lparr>pool_capacity = cap,
        pool_taken = cap - initial, pool_now = clock\<rparr>),
     tb_per_second = (\<lambda>rate clock. \<lparr>pool_capacity = rate, pool_taken = 0, pool_now = clock\<rparr>),
     tb_per_duration = (\<lambda>amount period clock. \<lparr>pool_capacity = amount, pool_taken = 0, pool_now = clock\<rparr>),
     tb_with_clock = (\<lambda>clock b. b\<lparr>pool_taken := 0, pool_now := clock\<rparr>)\<rparr>"

lemmas throttle_eval = th_per_second_def from_bucket_def pool_bucket_def th_now_def th_capacity_def
  hold_new_def

theorem pause_blocks_exactly_witness:
  "th_decide pool_bucket (th_pause_for pool_bucket (th_per_second pool_bucket 5 10) 100) 1 =
     (Retry 100, th_pause_for pool_bucket (th_per_second pool_bucket 5 10) 100)"
  using pause_blocks_exactly [of 100 "th_per_second pool_bucket 5 10" pool_bucket 1
      "\<lparr>pool_capacity = 5, pool_taken = 0, pool_now = 10 + 100\<rparr>" 100 0 0]
  by (simp add: Let_def throttle_eval th_paused_for_def th_held_def hold_is_set_def U64_MAX_def)

definition frozen_rt :: "'w runtime" where
  "frozen_rt = \<lparr>rt_now = (\<lambda>_. 0), rt_checked_add = (\<lambda>a d. Some (a + d)), rt_epoch = (\<lambda>_. 0),
     rt_sleep = (\<lambda>d w. (True, w)), rt_race = (\<lambda>d w. (True, w)), rt_yield = (\<lambda>w. (True, w))\<rparr>"

text \<open>A bucket that gains one unit per nanosecond of its clock up to its capacity, and a runtime
  on which another task empties it during every sleep.\<close>

definition pool_level :: "pool \<Rightarrow> nat" where
  "pool_level b = min (pool_capacity b) (pool_capacity b + pool_now b - pool_taken b)"

definition refilling_bucket :: "pool token_bucket" where
  "refilling_bucket = pool_bucket\<lparr>
     tb_available_at := (\<lambda>now b. pool_level b),
     tb_time_until_at := (\<lambda>c now b. Some (c - pool_level b)),
     tb_acquire_at := (\<lambda>c now b. if c \<le> pool_level b
        then (Allowed, b\<lparr>pool_taken := pool_capacity b + pool_now b - pool_level b + c\<rparr>)
        else (Denied (c - pool_level b), b)),
     tb_reserve_at := (\<lambda>c m now b. if c \<le> pool_level b + m
        then (Some (c - pool_level b), b\<lparr>pool_taken := pool_capacity b + pool_now b - pool_level b + c\<rparr>)
        else (None, b)),
     tb_refund := (\<lambda>c b. b\<lparr>pool_taken := pool_taken b - c\<rparr>)\<rparr>"

definition emptying_rt :: "pool throttle runtime" where
  "emptying_rt = \<lparr>rt_now = (\<lambda>t. pool_now (th_bucket t)), rt_checked_add = (\<lambda>a d. Some (a + d)), rt_epoch = (\<lambda>_. 0),
     rt_sleep = (\<lambda>d t. (True, t\<lparr>th_bucket := (th_bucket t)\<lparr>pool_now := pool_now (th_bucket t) + d,
        pool_taken := pool_capacity (th_bucket t) + pool_now (th_bucket t) + d\<rparr>\<rparr>)),
     rt_race = (\<lambda>d t. (False, t)), rt_yield = (\<lambda>t. (False, t))\<rparr>"

definition busy_throttle :: "pool throttle" where
  "busy_throttle = from_bucket refilling_bucket \<lparr>pool_capacity = 5, pool_taken = 14, pool_now = 10\<rparr>"

lemmas throttle_wait_eval = th_wait_def wait_for_def wait_with_def wait_loop.simps wait_round_def
  pause_loop.simps nap_after_def th_step_def throttle_eval th_paused_for_def th_held_def hold_is_set_def
  hold_remaining_def hold_extend_def th_pause_for_def emptying_rt_def refilling_bucket_def pool_level_def
  busy_throttle_def sleep_unless_resumed_def deadline_after_def deadline_remaining_def guard_fire_def
  th_refund_def nanos_between_def from_millis_def Let_def

theorem throttle_wait_all_or_nothing_witness:
  "\<exists>t' t''. th_wait refilling_bucket emptying_rt 3 (Some 7) busy_throttle = Some (Some (Inr ()), t') \<and>
     th_wait (ledgered refilling_bucket) (ledger_rt emptying_rt) 3 (Some 7) (with_ledger [] busy_throttle) =
       Some (Some (Inr ()), with_ledger [Took 3] t') \<and>
     th_wait refilling_bucket emptying_rt 9 (Some 7) busy_throttle = Some (Some (Inl (CostExceedsCapacity 9 5)), t'')"
proof -
  have "\<exists>t'. th_wait refilling_bucket emptying_rt 3 (Some 7) busy_throttle = Some (Some (Inr ()), t')"
    by (simp add: throttle_wait_eval)
  then obtain t' where r: "th_wait refilling_bucket emptying_rt 3 (Some 7) busy_throttle = Some (Some (Inr ()), t')" by blast
  have "\<exists>t''. th_wait refilling_bucket emptying_rt 9 (Some 7) busy_throttle = Some (Some (Inl (CostExceedsCapacity 9 5)), t'')"
    by (simp add: throttle_wait_eval)
  with throttle_wait_all_or_nothing [OF r] r show ?thesis by auto
qed

theorem charge_books_everything_witness:
  "let (uncharged, t') = th_charge (ledgered pool_bucket) (with_ledger [] (th_per_second pool_bucket 5 10)) 12 in
     taken (ledger t') = 12"
proof -
  obtain u t' where c: "th_charge (ledgered pool_bucket) (with_ledger [] (th_per_second pool_bucket 5 10)) 12 = (u, t')"
    by fastforce
  from charge_books_everything [OF _ c] c show ?thesis by (simp add: throttle_eval)
qed

end
