(* ===== verification/Presets.thy ===== *)
theory Presets
  imports Throttle Multi
begin

text \<open>
  The tier presets (\<open>src/presets.rs\<close>): token buckets per minute, one per dimension, in the slots of
  the world.  A preset is its limiter and the state of its slots.
\<close>

definition MINUTE :: duration where
  "MINUTE = from_secs 60"

definition preset_dimension :: "'b token_bucket \<Rightarrow> string \<Rightarrow> nat \<Rightarrow> (nat \<Rightarrow> 'b throttle) m_builder \<Rightarrow> (nat \<Rightarrow> 'b throttle) m_builder" where
  "preset_dimension B name i b = mb_shared b name (at_slot i (throttle_limiter B))"

definition separate ::
  "'b token_bucket \<Rightarrow> u32 \<Rightarrow> u32 \<Rightarrow> u32 \<Rightarrow> nat \<Rightarrow> (nat \<Rightarrow> 'b throttle) multi \<times> (nat \<Rightarrow> 'b throttle)" where
  "separate B requests input_tokens output_tokens clock =
     (mb_build (preset_dimension B ''output_tokens'' 2 (preset_dimension B ''input_tokens'' 1
        (preset_dimension B ''requests'' 0 m_builder_default))),
      \<lambda>i. th_per_duration B (if i = 0 then requests else if i = 1 then input_tokens else output_tokens) MINUTE clock)"

definition combined ::
  "'b token_bucket \<Rightarrow> u32 \<Rightarrow> u32 \<Rightarrow> nat \<Rightarrow> (nat \<Rightarrow> 'b throttle) multi \<times> (nat \<Rightarrow> 'b throttle)" where
  "combined B requests tokens clock =
     (mb_build (mb_alias (mb_alias (preset_dimension B ''tokens'' 1 (preset_dimension B ''requests'' 0 m_builder_default))
        ''input_tokens'' ''tokens'') ''output_tokens'' ''tokens''),
      \<lambda>i. th_per_duration B (if i = 0 then requests else tokens) MINUTE clock)"

definition anthropic_tier_1 where
  "anthropic_tier_1 B clock = separate B 50 40000 8000 clock"

definition anthropic_tier_2 where
  "anthropic_tier_2 B clock = separate B 1000 80000 16000 clock"

definition anthropic_tier_4 where
  "anthropic_tier_4 B clock = separate B 4000 400000 80000 clock"

definition openai_tier_1 where
  "openai_tier_1 B clock = combined B 500 30000 clock"

definition openai_tier_2 where
  "openai_tier_2 B clock = combined B 5000 450000 clock"

lemmas preset_defs = separate_def combined_def preset_dimension_def mb_build_def mb_alias_def mb_shared_def m_builder_default_def
  m_pairs_def cost_for_def table_target_def m_dimension_def

text \<open>The presets charge a call to the right budgets.  Under a separate-budget preset the three
  costs of a call go to three buckets; under a combined one the input and the output tokens
  are added on the one token bucket.  Both are strict and pass the builder's validation.\<close>

theorem presets_route_costs:
  assumes "i \<le> U32_MAX" and "j \<le> U32_MAX" and "r \<le> U32_MAX"
  shows "let costs = [(''requests'', r), (''input_tokens'', i), (''output_tokens'', j)];
             L = \<lambda>k. at_slot k (throttle_limiter B);
             ms = fst (separate B a b c clock); mc = fst (combined B a b clock) in
    m_pairs ms costs = [(L 0, r), (L 1, i), (L 2, j)] \<and> m_pairs mc costs = [(L 0, r), (L 1, sat_add32 i j)] \<and>
    m_strict ms \<and> m_strict mc \<and> table_ok (m_table ms) \<and> table_ok (m_table mc) \<and>
    m_dimension ms ''tokens'' = None \<and> m_dimension mc ''tokens'' = Some (L 1)"
  using assms by (simp add: preset_defs Let_def table_ok_def sat_add32_def)

theorem presets_route_costs_witness:
  "m_pairs (fst (openai_tier_1 pool_bucket 0)) [(''requests'', 1), (''input_tokens'', 20000), (''output_tokens'', 10000)] =
     [(at_slot 0 (throttle_limiter pool_bucket), 1), (at_slot 1 (throttle_limiter pool_bucket), 30000)]"
  using presets_route_costs [of 20000 10000 1 pool_bucket 500 30000 0 0]
  by (simp add: Let_def openai_tier_1_def sat_add32_def U32_MAX_def)

end
