(* ===== verification/Layered.thy ===== *)
theory Layered
  imports Hybrid
begin

text \<open>
  Layered scopes (\<open>src/layered.rs\<close>): a global limiter, a limiter per key and a limiter per
  endpoint, each optional; a request must clear them in that order.
\<close>

record ('k, 'e, 'w) layered =
  ly_global :: "'w limiter option"
  ly_per_key :: "('k, 'w) keyed_limiter option"
  ly_per_endpoint :: "('e, 'w) keyed_limiter option"

text \<open>One optional peek of the three; a missing scope contributes nothing.\<close>

definition peek_scope :: "('w \<Rightarrow> decision \<times> 'w) option \<Rightarrow> 'w \<Rightarrow> decision option \<times> 'w" where
  "peek_scope f w = (case f of None \<Rightarrow> (None, w) | Some g \<Rightarrow> (case g w of (d, w') \<Rightarrow> (Some d, w')))"

definition peek_scopes :: "('k, 'e, 'w) layered \<Rightarrow> 'k \<Rightarrow> 'e \<Rightarrow> u32 \<Rightarrow> 'w \<Rightarrow> decision \<times> 'w" where
  "peek_scopes ly key endpoint cost w =
     (case peek_scope (map_option (\<lambda>g. l_peek g cost) (ly_global ly)) w of (d1, w1) \<Rightarrow>
      case peek_scope (map_option (\<lambda>pk. k_peek pk key cost) (ly_per_key ly)) w1 of (d2, w2) \<Rightarrow>
      case peek_scope (map_option (\<lambda>pe. k_peek pe endpoint cost) (ly_per_endpoint ly)) w2 of (d3, w3) \<Rightarrow>
        (finish_peek (fold (\<lambda>d acc. fold_peek acc d)
           (List.map_filter (\<lambda>d. d) [d1, d2, d3]) Ready), w3))"

definition refund_scopes ::
  "('k, 'e, 'w) layered \<Rightarrow> 'k \<Rightarrow> 'e \<Rightarrow> u32 \<Rightarrow> usize \<Rightarrow> 'w \<Rightarrow> 'w" where
  "refund_scopes ly key endpoint cost charged w =
     (let w1 = (if charged \<ge> 1
                then (case ly_global ly of Some g \<Rightarrow> l_refund g cost w | None \<Rightarrow> w) else w);
          w2 = (if charged \<ge> 2
                then (case ly_per_key ly of Some pk \<Rightarrow> k_refund pk key cost w1 | None \<Rightarrow> w1) else w1)
      in if charged \<ge> 3
         then (case ly_per_endpoint ly of Some pe \<Rightarrow> k_refund pe endpoint cost w2 | None \<Rightarrow> w2)
         else w2)"

text \<open>One scope of \<open>decide\<close>: \<open>Some d\<close> is the early return with a refusal.\<close>

definition take_scope :: "('w \<Rightarrow> decision \<times> 'w) option \<Rightarrow> 'w \<Rightarrow> decision option \<times> 'w" where
  "take_scope f w =
     (case f of
        None \<Rightarrow> (None, w)
      | Some g \<Rightarrow> (case g w of (d, w') \<Rightarrow> (if is_acquired d then None else Some d, w')))"

definition decide :: "('k, 'e, 'w) layered \<Rightarrow> 'k \<Rightarrow> 'e \<Rightarrow> u32 \<Rightarrow> 'w \<Rightarrow> decision \<times> 'w" where
  "decide ly key endpoint cost w =
     (case peek_scopes ly key endpoint cost w of
        (Acquired, w0) \<Rightarrow>
          (case take_scope (map_option (\<lambda>g. l_acquire_cost g cost) (ly_global ly)) w0 of
             (Some d, w1) \<Rightarrow> (d, w1)
           | (None, w1) \<Rightarrow>
               (case take_scope (map_option (\<lambda>pk. k_acquire_cost pk key cost) (ly_per_key ly)) w1 of
                  (Some d, w2) \<Rightarrow> (d, refund_scopes ly key endpoint cost 1 w2)
                | (None, w2) \<Rightarrow>
                    (case take_scope (map_option (\<lambda>pe. k_acquire_cost pe endpoint cost)
                            (ly_per_endpoint ly)) w2 of
                       (Some d, w3) \<Rightarrow> (d, refund_scopes ly key endpoint cost 2 w3)
                     | (None, w3) \<Rightarrow> (Acquired, w3))))
      | (other, w0) \<Rightarrow> (other, w0))"

definition ly_capacity :: "('k, 'e, 'w) layered \<Rightarrow> 'w \<Rightarrow> u32" where
  "ly_capacity ly w =
     (let caps = List.map_filter (\<lambda>c. c)
        [map_option (\<lambda>g. l_capacity g w) (ly_global ly),
         map_option (\<lambda>pk. k_capacity pk w) (ly_per_key ly),
         map_option (\<lambda>pe. k_capacity pe w) (ly_per_endpoint ly)]
      in if caps = [] then U32_MAX else Min (set caps))"

definition ly_try_acquire_with_cost ::
  "('k, 'e, 'w) layered \<Rightarrow> 'k \<Rightarrow> 'e \<Rightarrow> u32 \<Rightarrow> 'w \<Rightarrow> bool \<times> 'w" where
  "ly_try_acquire_with_cost ly key endpoint cost w =
     (case decide ly key endpoint cost w of (d, w') \<Rightarrow> (is_acquired d, w'))"

definition ly_try_acquire :: "('k, 'e, 'w) layered \<Rightarrow> 'k \<Rightarrow> 'e \<Rightarrow> 'w \<Rightarrow> bool \<times> 'w" where
  "ly_try_acquire ly key endpoint w = ly_try_acquire_with_cost ly key endpoint 1 w"

definition ly_peek :: "('k, 'e, 'w) layered \<Rightarrow> 'k \<Rightarrow> 'e \<Rightarrow> u32 \<Rightarrow> 'w \<Rightarrow> decision \<times> 'w" where
  "ly_peek ly key endpoint cost w = peek_scopes ly key endpoint cost w"

definition ly_refund :: "('k, 'e, 'w) layered \<Rightarrow> 'k \<Rightarrow> 'e \<Rightarrow> u32 \<Rightarrow> 'w \<Rightarrow> 'w" where
  "ly_refund ly key endpoint cost w = refund_scopes ly key endpoint cost 3 w"

definition ly_pause_for :: "('k, 'e, 'w) layered \<Rightarrow> duration \<Rightarrow> 'w \<Rightarrow> 'w" where
  "ly_pause_for ly d w = (case ly_global ly of Some g \<Rightarrow> l_pause_for g d w | None \<Rightarrow> w)"

definition ly_resume :: "('k, 'e, 'w) layered \<Rightarrow> 'w \<Rightarrow> 'w" where
  "ly_resume ly w = (case ly_global ly of Some g \<Rightarrow> l_resume g w | None \<Rightarrow> w)"

definition ly_paused_for :: "('k, 'e, 'w) layered \<Rightarrow> 'w \<Rightarrow> duration" where
  "ly_paused_for ly w = (case ly_global ly of Some g \<Rightarrow> l_paused_for g w | None \<Rightarrow> 0)"

definition ly_items :: "('k, 'e, 'w) layered \<Rightarrow> 'k \<Rightarrow> 'e \<Rightarrow> u32 \<Rightarrow> 'w item list" where
  "ly_items ly key endpoint cost =
     List.map_filter (\<lambda>s. s)
       [map_option (\<lambda>g. (g, cost)) (ly_global ly),
        map_option (\<lambda>pk. (key_scope pk key, cost)) (ly_per_key ly),
        map_option (\<lambda>pe. (key_scope pe endpoint, cost)) (ly_per_endpoint ly)]"

definition ly_wait ::
  "'w runtime \<Rightarrow> ('k, 'e, 'w) layered \<Rightarrow> 'k \<Rightarrow> 'e \<Rightarrow> u32 \<Rightarrow> duration option \<Rightarrow> 'w \<Rightarrow>
   ((throttle_error + unit) option \<times> 'w) option" where
  "ly_wait rt ly key endpoint cost timeout w =
     (let items = ly_items ly key endpoint cost in
      case wait_with rt progress_new (\<lambda>p budget w. step_all rt items budget p w)
             (release_all items) (paused_all items) timeout w of
        None \<Rightarrow> None
      | Some (r, _, w') \<Rightarrow>
          Some (case r of
                  Wait_Ok \<Rightarrow> Some (Inr ())
                | Wait_Err Refusal_Never \<Rightarrow> Some (Inl (CostExceedsCapacity cost (ly_capacity ly w')))
                | Wait_Err Refusal_TimedOut \<Rightarrow> Some (Inl DeadlineExceeded)
                | Wait_Dropped \<Rightarrow> None, w'))"

definition ly_acquire_with_cost_timeout ::
  "'w runtime \<Rightarrow> ('k, 'e, 'w) layered \<Rightarrow> 'k \<Rightarrow> 'e \<Rightarrow> u32 \<Rightarrow> duration \<Rightarrow> 'w \<Rightarrow> ((throttle_error + unit) option \<times> 'w) option" where
  "ly_acquire_with_cost_timeout rt ly key endpoint cost timeout w = ly_wait rt ly key endpoint cost (Some timeout) w"

definition ly_acquire_with_cost ::
  "'w runtime \<Rightarrow> ('k, 'e, 'w) layered \<Rightarrow> 'k \<Rightarrow> 'e \<Rightarrow> u32 \<Rightarrow> 'w \<Rightarrow> ((throttle_error + unit) option \<times> 'w) option" where
  "ly_acquire_with_cost rt ly key endpoint cost w = ly_wait rt ly key endpoint cost None w"

definition ly_acquire ::
  "'w runtime \<Rightarrow> ('k, 'e, 'w) layered \<Rightarrow> 'k \<Rightarrow> 'e \<Rightarrow> 'w \<Rightarrow> ((throttle_error + unit) option \<times> 'w) option" where
  "ly_acquire rt ly key endpoint w = ly_acquire_with_cost rt ly key endpoint 1 w"

subsection \<open>Builder\<close>

definition ly_builder :: "('k, 'e, 'w) layered" where
  "ly_builder = \<lparr>ly_global = None, ly_per_key = None, ly_per_endpoint = None\<rparr>"

definition lb_global :: "('k, 'e, 'w) layered \<Rightarrow> 'w limiter \<Rightarrow> ('k, 'e, 'w) layered" where
  "lb_global b l = b\<lparr>ly_global := Some l\<rparr>"

definition lb_per_key :: "('k, 'e, 'w) layered \<Rightarrow> ('k, 'w) keyed_limiter \<Rightarrow> ('k, 'e, 'w) layered" where
  "lb_per_key b l = b\<lparr>ly_per_key := Some l\<rparr>"

definition lb_per_endpoint :: "('k, 'e, 'w) layered \<Rightarrow> ('e, 'w) keyed_limiter \<Rightarrow> ('k, 'e, 'w) layered" where
  "lb_per_endpoint b l = b\<lparr>ly_per_endpoint := Some l\<rparr>"

subsection \<open>All or nothing\<close>

text \<open>The scopes a request passes: the constituents of the world that the global limiter, the
  limiter at its key and the limiter at its endpoint are, where present.\<close>

definition scopes_are ::
  "('i \<Rightarrow> 'w limiter) \<Rightarrow> ('k, 'e, 'w) layered \<Rightarrow> 'k \<Rightarrow> 'e \<Rightarrow> 'i option \<Rightarrow> 'i option \<Rightarrow> 'i option \<Rightarrow> bool" where
  "scopes_are L ly key endpoint g k e \<longleftrightarrow>
     ly_global ly = map_option L g \<and>
     map_option (\<lambda>s. key_scope s key) (ly_per_key ly) = map_option L k \<and>
     map_option (\<lambda>s. key_scope s endpoint) (ly_per_endpoint ly) = map_option L e"

lemma key_scope_ops [simp]:
  "l_peek (key_scope s k) = k_peek s k" "l_acquire_cost (key_scope s k) = k_acquire_cost s k"
  "l_refund (key_scope s k) = k_refund s k" "l_reserve (key_scope s k) = k_reserve s k"
  by (simp_all add: key_scope_def Let_def)

lemma scope_ops:
  assumes "scopes_are L ly key endpoint g k e"
  shows "map_option (\<lambda>g. l_peek g c) (ly_global ly) = map_option (\<lambda>i. l_peek (L i) c) g"
    "map_option (\<lambda>s. k_peek s key c) (ly_per_key ly) = map_option (\<lambda>i. l_peek (L i) c) k"
    "map_option (\<lambda>s. k_peek s endpoint c) (ly_per_endpoint ly) = map_option (\<lambda>i. l_peek (L i) c) e"
    "map_option (\<lambda>g. l_acquire_cost g c) (ly_global ly) = map_option (\<lambda>i. l_acquire_cost (L i) c) g"
    "map_option (\<lambda>s. k_acquire_cost s key c) (ly_per_key ly) = map_option (\<lambda>i. l_acquire_cost (L i) c) k"
    "map_option (\<lambda>s. k_acquire_cost s endpoint c) (ly_per_endpoint ly) = map_option (\<lambda>i. l_acquire_cost (L i) c) e"
    "(case ly_global ly of Some g \<Rightarrow> l_refund g c w | None \<Rightarrow> w) = (case g of Some i \<Rightarrow> l_refund (L i) c w | None \<Rightarrow> w)"
    "(case ly_per_key ly of Some s \<Rightarrow> k_refund s key c w | None \<Rightarrow> w) = (case k of Some i \<Rightarrow> l_refund (L i) c w | None \<Rightarrow> w)"
proof -
  have k: "map_option (\<lambda>s. key_scope s key) (ly_per_key ly) = map_option L k"
    and e: "map_option (\<lambda>s. key_scope s endpoint) (ly_per_endpoint ly) = map_option L e"
    and g: "ly_global ly = map_option L g" using assms by (simp_all add: scopes_are_def)
  show "map_option (\<lambda>g. l_peek g c) (ly_global ly) = map_option (\<lambda>i. l_peek (L i) c) g"
    "map_option (\<lambda>g. l_acquire_cost g c) (ly_global ly) = map_option (\<lambda>i. l_acquire_cost (L i) c) g"
    "(case ly_global ly of Some g \<Rightarrow> l_refund g c w | None \<Rightarrow> w) = (case g of Some i \<Rightarrow> l_refund (L i) c w | None \<Rightarrow> w)"
    by (simp_all add: g option.map_comp comp_def split: option.splits)
  show "map_option (\<lambda>s. k_peek s key c) (ly_per_key ly) = map_option (\<lambda>i. l_peek (L i) c) k"
    "map_option (\<lambda>s. k_acquire_cost s key c) (ly_per_key ly) = map_option (\<lambda>i. l_acquire_cost (L i) c) k"
    "(case ly_per_key ly of Some s \<Rightarrow> k_refund s key c w | None \<Rightarrow> w) = (case k of Some i \<Rightarrow> l_refund (L i) c w | None \<Rightarrow> w)"
    using k by (cases "ly_per_key ly"; cases k; auto dest: sym)+
  show "map_option (\<lambda>s. k_peek s endpoint c) (ly_per_endpoint ly) = map_option (\<lambda>i. l_peek (L i) c) e"
    "map_option (\<lambda>s. k_acquire_cost s endpoint c) (ly_per_endpoint ly) = map_option (\<lambda>i. l_acquire_cost (L i) c) e"
    using e by (cases "ly_per_endpoint ly"; cases e; auto dest: sym)+
qed

lemma take_scope_refuses: "take_scope f w = (Some d, w') \<Longrightarrow> d \<noteq> Acquired"
  by (auto simp: take_scope_def split: option.splits prod.splits if_splits)

context composite
begin

lemma books_peek_scope:
  "books b ow w \<Longrightarrow> peek_scope (map_option (\<lambda>i. l_peek (L i) c) x) w = (d, w') \<Longrightarrow> books b ow w'"
  by (auto simp: peek_scope_def dest: books_peek split: option.splits prod.splits)

lemma books_take_scope:
  assumes "books b ow w" "take_scope (map_option (\<lambda>i. l_acquire_cost (L i) c) x) w = (d, w')"
  shows "books b (\<lambda>j. ow j + (if d = None \<and> x = Some j then c else 0)) w'"
proof (cases x)
  case None
  with assms show ?thesis by (auto simp: take_scope_def)
next
  case (Some i)
  obtain a w1 where a: "l_acquire_cost (L i) c w = (a, w1)" by fastforce
  show ?thesis
  proof (cases "a = Acquired")
    case True
    with books_acquire [OF assms(1)] a have "books b (\<lambda>j. ow j + (if j = i then c else 0)) w1" by blast
    then have "books b (\<lambda>j. ow j + (if d = None \<and> x = Some j then c else 0)) w1"
      using Some a True assms(2)
      by (subst account_cong [where owed' = "\<lambda>j. ow j + (if j = i then c else 0)"])
         (auto simp: take_scope_def)
    with Some a True assms(2) show ?thesis by (auto simp: take_scope_def)
  next
    case False
    with books_acquire_refused [OF assms(1) a] Some a assms(2) show ?thesis
      by (auto simp: take_scope_def)
  qed
qed

lemma books_refund_scope:
  "books b (\<lambda>j. ow j + (if x = Some j then c else 0)) w \<Longrightarrow>
   books b ow (case x of Some i \<Rightarrow> l_refund (L i) c w | None \<Rightarrow> w)"
proof (cases x)
  case (Some i)
  assume "books b (\<lambda>j. ow j + (if x = Some j then c else 0)) w"
  then have "books b (\<lambda>j. ow j + (if j = i then c else 0)) w"
    using Some by (subst account_cong [where owed' = "\<lambda>j. ow j + (if x = Some j then c else 0)"]) auto
  with Some show ?thesis by (simp add: books_refund)
qed (simp add: account_def)

lemma layered_decide_books:
  assumes sc: "scopes_are L ly key ep g k e" and b: "books base (\<lambda>_. 0) w" and r: "decide ly key ep cost w = (d, w')"
  shows "books base (\<lambda>j. if d = Acquired then cost * count_list (List.map_filter (\<lambda>x. x) [g, k, e]) j else 0) w'"
proof -
  let ?pk = "\<lambda>x. map_option (\<lambda>i. l_peek (L i) cost) x"
    and ?aq = "\<lambda>x. map_option (\<lambda>i. l_acquire_cost (L i) cost) x"
  obtain d1 v1 where p1: "peek_scope (?pk g) w = (d1, v1)" by fastforce
  obtain d2 v2 where p2: "peek_scope (?pk k) v1 = (d2, v2)" by fastforce
  obtain d3 v3 where p3: "peek_scope (?pk e) v2 = (d3, v3)" by fastforce
  have b3: "books base (\<lambda>_. 0) v3"
    using books_peek_scope [OF books_peek_scope [OF books_peek_scope [OF b p1] p2] p3] .
  obtain pd where pk: "peek_scopes ly key ep cost w = (pd, v3)"
    by (simp add: peek_scopes_def scope_ops [OF sc] p1 p2 p3)
  obtain t1 w1 where a1: "take_scope (?aq g) v3 = (t1, w1)" by fastforce
  obtain t2 w2 where a2: "take_scope (?aq k) w1 = (t2, w2)" by fastforce
  obtain t3 w3 where a3: "take_scope (?aq e) w2 = (t3, w3)" by fastforce
  note s1 = books_take_scope [OF b3 a1]
  note s2 = books_take_scope [OF s1 a2]
  note s3 = books_take_scope [OF s2 a3]
  note run = r [unfolded decide_def pk prod.case scope_ops [OF sc] a1 a2 a3 refund_scopes_def]
  consider (peek) "pd \<noteq> Acquired" | (global) x where "pd = Acquired" "t1 = Some x"
    | (key) x where "pd = Acquired" "t1 = None" "t2 = Some x"
    | (endpoint) x where "pd = Acquired" "t1 = None" "t2 = None" "t3 = Some x"
    | (all) "pd = Acquired" "t1 = None" "t2 = None" "t3 = None"
    by (cases t1; cases t2; cases t3) auto
  then show ?thesis
  proof cases
    case peek
    then have "d = pd" "w' = v3" using run by (cases pd; simp)+
    with b3 peek show ?thesis by simp
  next
    case global
    then have "d = x" "w' = w1" using run by auto
    with s1 global take_scope_refuses [OF a1 [unfolded global]] show ?thesis by simp
  next
    case key
    then have dw: "d = x" "w' = (case g of Some i \<Rightarrow> l_refund (L i) cost w2 | None \<Rightarrow> w2)"
      using run by (auto simp: Let_def scope_ops [OF sc])
    from s2 key have "books base (\<lambda>j. 0 + (if g = Some j then cost else 0)) w2" by simp
    from books_refund_scope [OF this] dw take_scope_refuses [OF a2 [unfolded key]] show ?thesis
      by simp
  next
    case endpoint
    let ?w = "case g of Some i \<Rightarrow> l_refund (L i) cost w3 | None \<Rightarrow> w3"
    have dw: "d = x" "w' = (case k of Some i \<Rightarrow> l_refund (L i) cost ?w | None \<Rightarrow> ?w)"
      using run endpoint by (auto simp: Let_def scope_ops [OF sc])
    from s3 endpoint have "books base (\<lambda>j. (0 + (if k = Some j then cost else 0)) +
        (if g = Some j then cost else 0)) w3" by (simp add: add.commute)
    from books_refund_scope [OF books_refund_scope [OF this]] dw
      take_scope_refuses [OF a3 [unfolded endpoint]] show ?thesis by simp
  next
    case all
    then have dw: "d = Acquired" "w' = w3" using run by auto
    have each: "0 + (if t1 = None \<and> g = Some j then cost else 0) +
        (if t2 = None \<and> k = Some j then cost else 0) + (if t3 = None \<and> e = Some j then cost else 0) =
        cost * count_list (List.map_filter (\<lambda>x. x) [g, k, e]) j" for j
      using all by (cases g; cases k; cases e) (auto simp: List.map_filter_simps)
    have "books base (\<lambda>j. cost * count_list (List.map_filter (\<lambda>x. x) [g, k, e]) j) w3"
      using s3 by (simp only: each)
    with dw show ?thesis by simp
  qed
qed

end

end
