(* ===== verification/Store.thy ===== *)
theory Store
  imports Throttle "HOL-Library.Multiset"
begin

unbundle bit_operations_syntax

text \<open>
  The bounded per-key store (\<open>src/store.rs\<close>) and its eviction policy (\<open>src/eviction.rs\<close>).

  Two third-party types are parameters.  \<open>B\<close> is the \<open>BucketCore\<close> of the \<open>better-bucket\<close>
  crate with its configuration type; \<open>T\<close> is \<open>hashbrown::HashTable<u32>\<close>, the index from
  hashes to positions.  The hash function of a store is a field of it.  Every critical
  section under a shard lock is one function on the shard, so an interleaving of threads
  is a sequence of sections.
\<close>

subsection \<open>Eviction policy\<close>

datatype when_full = RefuseNew | ForgetDebt

record eviction =
  ev_max_keys :: "usize option"
  ev_idle_ttl :: "duration option"
  ev_when_full :: when_full

definition DEFAULT_MAX_KEYS :: usize where
  "DEFAULT_MAX_KEYS = 1048576"

definition ev_capacity :: "usize \<Rightarrow> eviction" where
  "ev_capacity max_keys = \<lparr>ev_max_keys = Some max_keys, ev_idle_ttl = None, ev_when_full = RefuseNew\<rparr>"

definition ev_idle :: "duration \<Rightarrow> eviction" where
  "ev_idle ttl = \<lparr>ev_max_keys = Some DEFAULT_MAX_KEYS, ev_idle_ttl = Some ttl, ev_when_full = RefuseNew\<rparr>"

definition ev_new :: "usize \<Rightarrow> duration \<Rightarrow> eviction" where
  "ev_new max_keys ttl = \<lparr>ev_max_keys = Some max_keys, ev_idle_ttl = Some ttl, ev_when_full = RefuseNew\<rparr>"

definition ev_unbounded :: eviction where
  "ev_unbounded = \<lparr>ev_max_keys = None, ev_idle_ttl = None, ev_when_full = RefuseNew\<rparr>"

definition ev_with_capacity :: "eviction \<Rightarrow> usize \<Rightarrow> eviction" where
  "ev_with_capacity e max_keys = e\<lparr>ev_max_keys := Some max_keys\<rparr>"

definition ev_with_idle :: "eviction \<Rightarrow> duration \<Rightarrow> eviction" where
  "ev_with_idle e ttl = e\<lparr>ev_idle_ttl := Some ttl\<rparr>"

definition ev_without_capacity :: "eviction \<Rightarrow> eviction" where
  "ev_without_capacity e = e\<lparr>ev_max_keys := None\<rparr>"

definition ev_with_when_full :: "eviction \<Rightarrow> when_full \<Rightarrow> eviction" where
  "ev_with_when_full e w = e\<lparr>ev_when_full := w\<rparr>"

definition ev_default :: eviction where
  "ev_default = ev_capacity DEFAULT_MAX_KEYS"

subsection \<open>The bucket and the hash table, as parameters\<close>

record ('b, 'c) bucket_core =
  bc_new :: "'c \<Rightarrow> duration \<Rightarrow> 'b"
  bc_capacity :: "'b \<Rightarrow> u32"
  bc_available_at :: "duration \<Rightarrow> 'b \<Rightarrow> u32"
  bc_time_until_at :: "u32 \<Rightarrow> duration \<Rightarrow> 'b \<Rightarrow> duration option"
  bc_acquire_at :: "u32 \<Rightarrow> duration \<Rightarrow> 'b \<Rightarrow> bucket_decision \<times> 'b"
  bc_acquire_up_to_at :: "u32 \<Rightarrow> duration \<Rightarrow> 'b \<Rightarrow> u32 \<times> 'b"
  bc_reserve_at :: "u32 \<Rightarrow> duration \<Rightarrow> duration \<Rightarrow> 'b \<Rightarrow> duration option \<times> 'b"
  bc_refund :: "u32 \<Rightarrow> 'b \<Rightarrow> 'b"
  bc_reset_at :: "duration \<Rightarrow> 'b \<Rightarrow> 'b"
  cfg_new :: "u32 \<Rightarrow> u32 \<Rightarrow> duration \<Rightarrow> u32 \<Rightarrow> 'c option"
  cfg_capacity :: "'c \<Rightarrow> u32"
  cfg_refill_amount :: "'c \<Rightarrow> u32"
  cfg_refill_period :: "'c \<Rightarrow> duration"

text \<open>\<open>find\<close>, \<open>find_entry\<close> followed by \<open>remove\<close>, \<open>find_mut\<close> followed by an assignment, and
  \<open>insert_unique\<close>, which is given a function that rehashes the elements when it grows.\<close>

record 'i hash_table =
  ht_new :: 'i
  ht_find :: "u64 \<Rightarrow> (u32 \<Rightarrow> bool) \<Rightarrow> 'i \<Rightarrow> u32 option"
  ht_remove :: "u64 \<Rightarrow> (u32 \<Rightarrow> bool) \<Rightarrow> 'i \<Rightarrow> 'i"
  ht_assign :: "u64 \<Rightarrow> (u32 \<Rightarrow> bool) \<Rightarrow> u32 \<Rightarrow> 'i \<Rightarrow> 'i"
  ht_insert_unique :: "u64 \<Rightarrow> u32 \<Rightarrow> (u32 \<Rightarrow> u64) \<Rightarrow> 'i \<Rightarrow> 'i"

subsection \<open>Constants and standard-library helpers\<close>

definition SHARD_SHIFT :: nat where "SHARD_SHIFT = 40"
definition MAX_SHARDS :: usize where "MAX_SHARDS = 65536"
definition MAX_KEYS_PER_SHARD :: usize where "MAX_KEYS_PER_SHARD = 16384"
definition CLOCK_SCAN :: usize where "CLOCK_SCAN = 32"
definition TTL_SWEEP :: usize where "TTL_SWEEP = 8"
definition LEDGER_SCAN :: usize where "LEDGER_SCAN = 8"
definition MIN_REFUSAL_WAIT :: duration where "MIN_REFUSAL_WAIT = from_millis 1"
definition MAX_SLOTS :: usize where "MAX_SLOTS = U32_MAX"

text \<open>\<open>u32::try_from(n).unwrap_or(u32::MAX)\<close>, \<open>slice::get\<close>, \<open>Vec::swap_remove\<close> at a valid
  position, and \<open>usize::next_power_of_two\<close>.\<close>

definition pos_u32 :: "usize \<Rightarrow> u32" where
  "pos_u32 n = min n U32_MAX"

definition nth_opt :: "'a list \<Rightarrow> usize \<Rightarrow> 'a option" where
  "nth_opt xs i = (if i < length xs then Some (xs ! i) else None)"

definition swap_remove :: "'a list \<Rightarrow> usize \<Rightarrow> 'a list" where
  "swap_remove xs pos =
     (if pos = length xs - 1 then butlast xs else (butlast xs)[pos := last xs])"

function next_power_from :: "nat \<Rightarrow> nat \<Rightarrow> nat" where
  "next_power_from p n = (if p = 0 \<or> n \<le> p then p else next_power_from (2 * p) n)"
  by pat_completeness auto
termination
  by (relation "measure (\<lambda>(p, n). n - p)") auto

declare next_power_from.simps [simp del]

definition next_power_of_two :: "usize \<Rightarrow> usize" where
  "next_power_of_two n = next_power_from 1 n"

subsection \<open>Entries\<close>

record 'b entry =
  e_bucket :: 'b
  e_referenced :: bool
  e_last_seen_ms :: u64

definition entry_new :: "'b \<Rightarrow> u64 \<Rightarrow> 'b entry" where
  "entry_new b now_ms = \<lparr>e_bucket = b, e_referenced = False, e_last_seen_ms = now_ms\<rparr>"

definition entry_touch :: "'b entry \<Rightarrow> u64 \<Rightarrow> bool \<Rightarrow> 'b entry" where
  "entry_touch e now_ms track_idle =
     (let e1 = e\<lparr>e_referenced := True\<rparr> in
      if track_idle \<and> e_last_seen_ms e1 < now_ms then e1\<lparr>e_last_seen_ms := now_ms\<rparr> else e1)"

definition is_expired :: "'b entry \<Rightarrow> u64 \<Rightarrow> u64 \<Rightarrow> bool" where
  "is_expired e now_ms ttl_ms \<longleftrightarrow> now_ms - e_last_seen_ms e \<ge> ttl_ms"

definition is_lossless :: "('b, 'c) bucket_core \<Rightarrow> 'b entry \<Rightarrow> duration \<Rightarrow> bool" where
  "is_lossless B e now \<longleftrightarrow> bc_available_at B now (e_bucket e) \<ge> bc_capacity B (e_bucket e)"

definition recovers_in :: "('b, 'c) bucket_core \<Rightarrow> 'b entry \<Rightarrow> duration \<Rightarrow> duration" where
  "recovers_in B e now =
     (case bc_time_until_at B (bc_capacity B (e_bucket e)) now (e_bucket e) of
        Some d \<Rightarrow> d | None \<Rightarrow> DURATION_MAX)"

subsection \<open>The debt ledger\<close>

record debt =
  d_hash :: u64
  d_settles_at :: duration

record 'i ledger =
  lg_index :: 'i
  lg_debts :: "debt list"
  lg_cursor :: usize

definition lg_new :: "'i hash_table \<Rightarrow> 'i ledger" where
  "lg_new T = \<lparr>lg_index = ht_new T, lg_debts = [], lg_cursor = 0\<rparr>"

definition lg_position :: "'i hash_table \<Rightarrow> 'i ledger \<Rightarrow> u64 \<Rightarrow> usize option" where
  "lg_position T g h =
     ht_find T h (\<lambda>pos. case nth_opt (lg_debts g) pos of Some d \<Rightarrow> d_hash d = h | None \<Rightarrow> False)
       (lg_index g)"

text \<open>The index part of a swap-remove: the removed position leaves the index, and the element
  that moves into its place is indexed there.\<close>

definition reindex :: "'i hash_table \<Rightarrow> u64 list \<Rightarrow> usize \<Rightarrow> 'i \<Rightarrow> 'i" where
  "reindex T hashes pos index =
     (let last_pos = length hashes - 1;
          index1 = ht_remove T (hashes ! pos) (\<lambda>p. p = pos) index
      in if pos \<noteq> last_pos
         then ht_assign T (hashes ! last_pos) (\<lambda>p. p = last_pos) (pos_u32 pos) index1
         else index1)"

definition lg_remove_at :: "'i hash_table \<Rightarrow> 'i ledger \<Rightarrow> usize \<Rightarrow> debt option \<times> 'i ledger" where
  "lg_remove_at T g pos =
     (if pos < length (lg_debts g)
      then (Some (lg_debts g ! pos),
            g\<lparr>lg_index := reindex T (map d_hash (lg_debts g)) pos (lg_index g),
              lg_debts := swap_remove (lg_debts g) pos\<rparr>)
      else (None, g))"

definition lg_pay_down ::
  "('b, 'c) bucket_core \<Rightarrow> 'i hash_table \<Rightarrow> 'i ledger \<Rightarrow> u64 \<Rightarrow> u32 \<Rightarrow> 'c \<Rightarrow> bool \<times> 'i ledger" where
  "lg_pay_down B T g h cost config =
     (case lg_position T g h of
        None \<Rightarrow> (False, g)
      | Some pos \<Rightarrow>
          (case nth_opt (lg_debts g) pos of
             None \<Rightarrow> (False, g)
           | Some d \<Rightarrow>
               (let per_token = cfg_refill_period B config div max (cfg_refill_amount B config) 1;
                    credit = to_u64 (sat_mul128 per_token cost)
                in (True, g\<lparr>lg_debts := (lg_debts g)[pos := d\<lparr>d_settles_at := d_settles_at d - credit\<rparr>]\<rparr>))))"

definition lg_take :: "'i hash_table \<Rightarrow> 'i ledger \<Rightarrow> u64 \<Rightarrow> duration option \<times> 'i ledger" where
  "lg_take T g h =
     (case lg_position T g h of
        None \<Rightarrow> (None, g)
      | Some pos \<Rightarrow> (case lg_remove_at T g pos of (d, g') \<Rightarrow> (map_option d_settles_at d, g')))"

text \<open>The scan of \<open>record\<close>: the cursor and the settled or soonest debt it saw.\<close>

fun lg_scan ::
  "nat \<Rightarrow> duration \<Rightarrow> debt list \<Rightarrow> usize \<Rightarrow> (usize \<times> duration) option \<Rightarrow>
   usize \<times> (usize \<times> duration) option" where
  "lg_scan 0 now debts cursor soonest = (cursor, soonest)"
| "lg_scan (Suc n) now debts cursor soonest =
     (let cursor = (if cursor \<ge> length debts then 0 else cursor) in
      case nth_opt debts cursor of
        None \<Rightarrow> lg_scan n now debts (cursor + 1) soonest
      | Some held \<Rightarrow>
          if d_settles_at held \<le> now then (cursor, Some (cursor, d_settles_at held))
          else lg_scan n now debts (cursor + 1)
                 (case soonest of
                    None \<Rightarrow> Some (cursor, d_settles_at held)
                  | Some (q, a) \<Rightarrow> if d_settles_at held < a then Some (cursor, d_settles_at held)
                                  else Some (q, a)))"

definition lg_push :: "'i hash_table \<Rightarrow> debt \<Rightarrow> 'i ledger \<Rightarrow> 'i ledger" where
  "lg_push T d g =
     (let pos = pos_u32 (length (lg_debts g)); debts = lg_debts g @ [d] in
      g\<lparr>lg_debts := debts,
        lg_index := ht_insert_unique T (d_hash d) pos
          (\<lambda>p. case nth_opt debts p of Some held \<Rightarrow> d_hash held | None \<Rightarrow> 0) (lg_index g)\<rparr>)"

definition lg_record ::
  "'i hash_table \<Rightarrow> 'i ledger \<Rightarrow> debt \<Rightarrow> duration \<Rightarrow> usize \<Rightarrow> bool \<Rightarrow> (duration + unit) \<times> 'i ledger" where
  "lg_record T g d now cap forget =
     (case lg_position T g (d_hash d) of
        Some pos \<Rightarrow>
          (Inr (), (case nth_opt (lg_debts g) pos of
              None \<Rightarrow> g
            | Some held \<Rightarrow> g\<lparr>lg_debts := (lg_debts g)[pos :=
                 held\<lparr>d_settles_at := max (d_settles_at held) (d_settles_at d)\<rparr>]\<rparr>))
      | None \<Rightarrow>
          if length (lg_debts g) \<ge> cap
          then (case lg_scan (min LEDGER_SCAN (length (lg_debts g))) now (lg_debts g) (lg_cursor g) None of
                  (cursor, soonest) \<Rightarrow>
                    (let g1 = g\<lparr>lg_cursor := cursor\<rparr> in
                     case soonest of
                       Some (pos, at_) \<Rightarrow>
                         if at_ \<le> now \<or> forget
                         then (Inr (), lg_push T d (snd (lg_remove_at T g1 pos)))
                         else (Inl (at_ - now), g1)
                     | None \<Rightarrow> (Inl DURATION_MAX, g1)))
          else (Inr (), lg_push T d g))"

fun lg_sweep :: "'i hash_table \<Rightarrow> duration \<Rightarrow> nat \<Rightarrow> 'i ledger \<Rightarrow> 'i ledger" where
  "lg_sweep T now 0 g = g"
| "lg_sweep T now (Suc budget) g =
     (if lg_debts g = [] then g
      else
        (let g1 = (if lg_cursor g \<ge> length (lg_debts g) then g\<lparr>lg_cursor := 0\<rparr> else g) in
         lg_sweep T now budget
           (if (case nth_opt (lg_debts g1) (lg_cursor g1) of
                  Some d \<Rightarrow> d_settles_at d \<le> now | None \<Rightarrow> False)
            then snd (lg_remove_at T g1 (lg_cursor g1))
            else g1\<lparr>lg_cursor := lg_cursor g1 + 1\<rparr>)))"

subsection \<open>Restoring a debt\<close>

function restore_loop ::
  "('b, 'c) bucket_core \<Rightarrow> u32 \<Rightarrow> duration \<Rightarrow> nat \<Rightarrow> 'b \<Rightarrow> 'b" where
  "restore_loop B capacity now owed b =
     (if owed = 0 \<or> capacity = 0 then b
      else
        (let chunk = min owed capacity in
         case bc_reserve_at B chunk DURATION_MAX now b of
           (None, b') \<Rightarrow> b'
         | (Some _, b') \<Rightarrow> restore_loop B capacity now (owed - chunk) b'))"
  by pat_completeness auto
termination
  by (relation "measure (\<lambda>(B, capacity, now, owed, b). owed)") auto

declare restore_loop.simps [simp del]

definition restore_debt ::
  "('b, 'c) bucket_core \<Rightarrow> 'b \<Rightarrow> 'c \<Rightarrow> duration \<Rightarrow> duration \<Rightarrow> 'b" where
  "restore_debt B bucket config now settles_at =
     (let remaining = settles_at - now in
      if remaining = 0 then bucket
      else
        (let period = max (cfg_refill_period B config) 1;
             missing = div_ceil (remaining * cfg_refill_amount B config) period;
             capacity = cfg_capacity B config;
             available = bc_available_at B now bucket;
             keep = capacity - missing;
             bucket1 = (if available > keep
                        then snd (bc_acquire_up_to_at B (available - keep) now bucket) else bucket)
         in restore_loop B capacity now (missing - capacity) bucket1))"

subsection \<open>One shard\<close>

record ('k, 'b) slot =
  s_hash :: u64
  s_key :: 'k
  s_entry :: "'b entry"

record ('k, 'b, 'i) shard_map =
  sm_index :: 'i
  sm_slots :: "('k, 'b) slot list"
  sm_hand :: usize
  sm_sweep :: usize
  sm_ledger :: "'i ledger"

definition sm_new :: "'i hash_table \<Rightarrow> ('k, 'b, 'i) shard_map" where
  "sm_new T = \<lparr>sm_index = ht_new T, sm_slots = [], sm_hand = 0, sm_sweep = 0, sm_ledger = lg_new T\<rparr>"

definition sm_position :: "'i hash_table \<Rightarrow> ('k, 'b, 'i) shard_map \<Rightarrow> u64 \<Rightarrow> 'k \<Rightarrow> usize option" where
  "sm_position T m h key =
     ht_find T h (\<lambda>pos. case nth_opt (sm_slots m) pos of
                          Some s \<Rightarrow> s_hash s = h \<and> s_key s = key | None \<Rightarrow> False)
       (sm_index m)"

definition sm_get :: "'i hash_table \<Rightarrow> ('k, 'b, 'i) shard_map \<Rightarrow> u64 \<Rightarrow> 'k \<Rightarrow> 'b entry option" where
  "sm_get T m h key =
     (case sm_position T m h key of
        None \<Rightarrow> None
      | Some pos \<Rightarrow> map_option s_entry (nth_opt (sm_slots m) pos))"

text \<open>Entries are mutated in place through the shared reference \<open>get\<close> returns.\<close>

definition sm_set :: "'i hash_table \<Rightarrow> ('k, 'b, 'i) shard_map \<Rightarrow> u64 \<Rightarrow> 'k \<Rightarrow> 'b entry \<Rightarrow> ('k, 'b, 'i) shard_map" where
  "sm_set T m h key e =
     (case sm_position T m h key of
        None \<Rightarrow> m
      | Some pos \<Rightarrow>
          (case nth_opt (sm_slots m) pos of
             None \<Rightarrow> m
           | Some s \<Rightarrow> m\<lparr>sm_slots := (sm_slots m)[pos := s\<lparr>s_entry := e\<rparr>]\<rparr>))"

definition sm_insert :: "'i hash_table \<Rightarrow> ('k, 'b, 'i) shard_map \<Rightarrow> u64 \<Rightarrow> 'k \<Rightarrow> 'b entry \<Rightarrow> ('k, 'b, 'i) shard_map" where
  "sm_insert T m h key e =
     (let pos = pos_u32 (length (sm_slots m));
          slots = sm_slots m @ [\<lparr>s_hash = h, s_key = key, s_entry = e\<rparr>]
      in m\<lparr>sm_slots := slots,
           sm_index := ht_insert_unique T h pos
             (\<lambda>p. case nth_opt slots p of Some s \<Rightarrow> s_hash s | None \<Rightarrow> 0) (sm_index m)\<rparr>)"

definition sm_remove_at ::
  "'i hash_table \<Rightarrow> ('k, 'b, 'i) shard_map \<Rightarrow> usize \<Rightarrow> ('k, 'b) slot option \<times> ('k, 'b, 'i) shard_map" where
  "sm_remove_at T m pos =
     (if pos < length (sm_slots m)
      then (Some (sm_slots m ! pos),
            m\<lparr>sm_index := reindex T (map s_hash (sm_slots m)) pos (sm_index m),
              sm_slots := swap_remove (sm_slots m) pos\<rparr>)
      else (None, m))"

fun sweep_idle ::
  "('b, 'c) bucket_core \<Rightarrow> 'i hash_table \<Rightarrow> duration \<Rightarrow> u64 \<Rightarrow> u64 \<Rightarrow> nat \<Rightarrow> nat \<Rightarrow>
   ('k, 'b, 'i) shard_map \<Rightarrow> nat \<times> ('k, 'b, 'i) shard_map" where
  "sweep_idle B T now now_ms ttl_ms 0 reclaimed m = (reclaimed, m)"
| "sweep_idle B T now now_ms ttl_ms (Suc budget) reclaimed m =
     (if sm_slots m = [] then (reclaimed, m)
      else
        (let m1 = (if sm_sweep m \<ge> length (sm_slots m) then m\<lparr>sm_sweep := 0\<rparr> else m) in
         if (case nth_opt (sm_slots m1) (sm_sweep m1) of
               Some s \<Rightarrow> is_expired (s_entry s) now_ms ttl_ms \<and> is_lossless B (s_entry s) now
             | None \<Rightarrow> False)
         then sweep_idle B T now now_ms ttl_ms budget (reclaimed + 1)
                (snd (sm_remove_at T m1 (sm_sweep m1)))
         else sweep_idle B T now now_ms ttl_ms budget reclaimed
                (m1\<lparr>sm_sweep := sm_sweep m1 + 1\<rparr>)))"

text \<open>What the CLOCK hand has seen so far.\<close>

record clock_scan =
  cs_hand :: usize
  cs_victim :: "usize option"
  cs_first_recovered :: "usize option"
  cs_limited :: "(usize \<times> bool \<times> duration) option"
  cs_soonest :: duration

text \<open>One slot under the hand: a recovered entry without its reference bit is the victim and
  ends the scan; otherwise the hand moves on.\<close>

definition clock_wrap :: "usize \<Rightarrow> clock_scan \<Rightarrow> clock_scan" where
  "clock_wrap len c = (if cs_hand c \<ge> len then c\<lparr>cs_hand := 0\<rparr> else c)"

definition note_recovered :: "clock_scan \<Rightarrow> clock_scan" where
  "note_recovered c =
     (if cs_first_recovered c = None then c\<lparr>cs_first_recovered := Some (cs_hand c)\<rparr> else c)"

definition note_limited :: "bool \<Rightarrow> duration \<Rightarrow> clock_scan \<Rightarrow> clock_scan" where
  "note_limited referenced recovers c =
     (let c1 = c\<lparr>cs_soonest := min (cs_soonest c) recovers\<rparr> in
      if (case cs_limited c1 of
            None \<Rightarrow> True
          | Some (_, was_referenced, _) \<Rightarrow> was_referenced \<and> \<not> referenced)
      then c1\<lparr>cs_limited := Some (cs_hand c, referenced, recovers)\<rparr> else c1)"

definition clock_visit :: "('b, 'c) bucket_core \<Rightarrow> duration \<Rightarrow> 'b entry \<Rightarrow> clock_scan \<Rightarrow> clock_scan" where
  "clock_visit B now e c =
     (if is_lossless B e now
      then (if \<not> e_referenced e then c\<lparr>cs_victim := Some (cs_hand c)\<rparr>
            else (note_recovered c)\<lparr>cs_hand := cs_hand c + 1\<rparr>)
      else (note_limited (e_referenced e) (recovers_in B e now) c)\<lparr>cs_hand := cs_hand c + 1\<rparr>)"

definition clear_bit :: "('k, 'b) slot list \<Rightarrow> usize \<Rightarrow> ('k, 'b) slot list" where
  "clear_bit slots i = slots[i := (slots ! i)\<lparr>s_entry := (s_entry (slots ! i))\<lparr>e_referenced := False\<rparr>\<rparr>]"

fun clock_loop ::
  "('b, 'c) bucket_core \<Rightarrow> duration \<Rightarrow> nat \<Rightarrow> ('k, 'b) slot list \<Rightarrow> clock_scan \<Rightarrow>
   ('k, 'b) slot list \<times> clock_scan" where
  "clock_loop B now 0 slots c = (slots, c)"
| "clock_loop B now (Suc n) slots c0 =
     (let c = clock_wrap (length slots) c0 in
      case nth_opt slots (cs_hand c) of
        None \<Rightarrow> clock_loop B now n slots (c\<lparr>cs_hand := cs_hand c + 1\<rparr>)
      | Some s \<Rightarrow>
          (let slots1 = clear_bit slots (cs_hand c); c1 = clock_visit B now (s_entry s) c in
           if cs_victim c1 \<noteq> None then (slots1, c1) else clock_loop B now n slots1 c1))"

definition clock_start :: "usize \<Rightarrow> clock_scan" where
  "clock_start hand = \<lparr>cs_hand = hand, cs_victim = None, cs_first_recovered = None,
     cs_limited = None, cs_soonest = DURATION_MAX\<rparr>"

definition evict_at :: "'i hash_table \<Rightarrow> ('k, 'b, 'i) shard_map \<Rightarrow> usize \<Rightarrow> ('k, 'b, 'i) shard_map" where
  "evict_at T m pos = (snd (sm_remove_at T m pos))\<lparr>sm_hand := pos + 1\<rparr>"

definition evict_one ::
  "('b, 'c) bucket_core \<Rightarrow> 'i hash_table \<Rightarrow> ('k, 'b, 'i) shard_map \<Rightarrow> duration \<Rightarrow> usize \<Rightarrow> bool \<Rightarrow>
   (duration + unit) \<times> ('k, 'b, 'i) shard_map" where
  "evict_one B T m now ledger_cap forget =
     (if sm_slots m = [] then (Inr (), m)
      else
        (case clock_loop B now (min CLOCK_SCAN (length (sm_slots m))) (sm_slots m)
                (clock_start (sm_hand m)) of
           (slots, c) \<Rightarrow>
             (let m1 = m\<lparr>sm_slots := slots, sm_hand := cs_hand c\<rparr>;
                  refused = max (cs_soonest c) MIN_REFUSAL_WAIT
              in
              case (case cs_victim c of Some v \<Rightarrow> Some v | None \<Rightarrow> cs_first_recovered c) of
                Some pos \<Rightarrow> (Inr (), evict_at T m1 pos)
              | None \<Rightarrow>
                  (case cs_limited c of
                     None \<Rightarrow> (Inl refused, m1)
                   | Some (pos, _, recovers) \<Rightarrow>
                       (case nth_opt slots pos of
                          None \<Rightarrow> (Inl refused, m1)
                        | Some s \<Rightarrow>
                            (case lg_record T (sm_ledger m1)
                                    \<lparr>d_hash = s_hash s, d_settles_at = dur_add now recovers\<rparr>
                                    now ledger_cap forget of
                               (Inl ledger_wait, g) \<Rightarrow>
                                 (Inl (max (min (cs_soonest c) ledger_wait) MIN_REFUSAL_WAIT),
                                  m1\<lparr>sm_ledger := g\<rparr>)
                             | (Inr _, g) \<Rightarrow> (Inr (), evict_at T (m1\<lparr>sm_ledger := g\<rparr>) pos)))))))"

subsection \<open>The store\<close>

record ('k, 'b, 'i) store =
  st_shards :: "('k, 'b, 'i) shard_map list"
  st_shard_mask :: u64
  st_hasher :: "'k \<Rightarrow> u64"
  st_per_shard_cap :: usize
  st_idle_ttl_ms :: "u64 option"
  st_forget_debt :: bool

definition shards_for :: "usize \<Rightarrow> eviction \<Rightarrow> usize" where
  "shards_for shards ev =
     (let for_cap = (case ev_max_keys ev of None \<Rightarrow> 1 | Some n \<Rightarrow> div_ceil n MAX_KEYS_PER_SHARD)
      in next_power_of_two (clamp 1 MAX_SHARDS (max shards for_cap)))"

definition cap_for :: "usize \<Rightarrow> eviction \<Rightarrow> usize" where
  "cap_for shard_count ev =
     (case ev_max_keys ev of
        None \<Rightarrow> MAX_SLOTS
      | Some n \<Rightarrow> clamp 1 MAX_SLOTS (div_ceil n shard_count))"

definition idle_ttl_for :: "duration \<Rightarrow> eviction \<Rightarrow> u64 option" where
  "idle_ttl_for min_idle ev =
     map_option (\<lambda>ttl. sat_add64 (to_u64 (div_ceil (max ttl min_idle) 1000000)) 1) (ev_idle_ttl ev)"

definition store_new ::
  "'i hash_table \<Rightarrow> usize \<Rightarrow> eviction \<Rightarrow> duration \<Rightarrow> ('k \<Rightarrow> u64) \<Rightarrow> ('k, 'b, 'i) store" where
  "store_new T shards ev min_idle hasher =
     (let shard_count = shards_for shards ev in
      \<lparr>st_shards = replicate shard_count (sm_new T),
       st_shard_mask = shard_count - 1,
       st_hasher = hasher,
       st_per_shard_cap = cap_for shard_count ev,
       st_idle_ttl_ms = idle_ttl_for min_idle ev,
       st_forget_debt = (ev_when_full ev = ForgetDebt)\<rparr>)"

definition shard_of :: "('k, 'b, 'i) store \<Rightarrow> u64 \<Rightarrow> usize" where
  "shard_of st h = drop_bit SHARD_SHIFT h AND st_shard_mask st"

definition shard :: "('k, 'b, 'i) store \<Rightarrow> u64 \<Rightarrow> ('k, 'b, 'i) shard_map" where
  "shard st h = st_shards st ! shard_of st h"

definition put_shard :: "('k, 'b, 'i) store \<Rightarrow> u64 \<Rightarrow> ('k, 'b, 'i) shard_map \<Rightarrow> ('k, 'b, 'i) store" where
  "put_shard st h m = st\<lparr>st_shards := (st_shards st)[shard_of st h := m]\<rparr>"

definition make_room ::
  "('b, 'c) bucket_core \<Rightarrow> 'i hash_table \<Rightarrow> ('k, 'b, 'i) store \<Rightarrow> ('k, 'b, 'i) shard_map \<Rightarrow> duration \<Rightarrow> u64 \<Rightarrow>
   (duration + unit) \<times> ('k, 'b, 'i) shard_map" where
  "make_room B T st m now now_ms =
     (let m1 = (case st_idle_ttl_ms st of
                  Some ttl_ms \<Rightarrow> snd (sweep_idle B T now now_ms ttl_ms TTL_SWEEP 0 m)
                | None \<Rightarrow> m);
          m2 = m1\<lparr>sm_ledger := lg_sweep T now LEDGER_SCAN (sm_ledger m1)\<rparr>
      in if length (sm_slots m2) \<ge> st_per_shard_cap st
         then evict_one B T m2 now (st_per_shard_cap st) (st_forget_debt st)
         else (Inr (), m2))"

text \<open>An operation on a bucket returns a result and the changed bucket.  \<open>touch_section\<close> is
  what both critical sections of \<open>with_or_insert\<close> do for a key that is present;
  \<open>insert_section\<close> is the section under the write lock.\<close>

definition touch_section ::
  "'i hash_table \<Rightarrow> ('k, 'b, 'i) store \<Rightarrow> 'k \<Rightarrow> duration \<Rightarrow> ('b \<Rightarrow> 'r \<times> 'b) \<Rightarrow>
   ('r \<times> ('k, 'b, 'i) store) option" where
  "touch_section T st key now op =
     (let h = st_hasher st key; m = shard st h in
      case sm_get T m h key of
        None \<Rightarrow> None
      | Some e \<Rightarrow>
          (let e1 = entry_touch e (millis_u64 now) (st_idle_ttl_ms st \<noteq> None) in
           case op (e_bucket e1) of (r, b) \<Rightarrow>
             Some (r, put_shard st h (sm_set T m h key (e1\<lparr>e_bucket := b\<rparr>)))))"

definition insert_section ::
  "('b, 'c) bucket_core \<Rightarrow> 'i hash_table \<Rightarrow> ('k, 'b, 'i) store \<Rightarrow> 'k \<Rightarrow> duration \<Rightarrow> 'c \<Rightarrow>
   ('b \<Rightarrow> 'r \<times> 'b) \<Rightarrow> (duration + 'r) \<times> ('k, 'b, 'i) store" where
  "insert_section B T st key now config op =
     (case touch_section T st key now op of
        Some (r, st') \<Rightarrow> (Inr r, st')
      | None \<Rightarrow>
          (let h = st_hasher st key; now_ms = millis_u64 now; m = shard st h in
           case lg_take T (sm_ledger m) h of (owed, g) \<Rightarrow>
           case make_room B T st (m\<lparr>sm_ledger := g\<rparr>) now now_ms of
             (Inl wait, m1) \<Rightarrow>
               (Inl wait, put_shard st h
                  (case owed of
                     None \<Rightarrow> m1
                   | Some settles_at \<Rightarrow>
                       m1\<lparr>sm_ledger := snd (lg_record T (sm_ledger m1)
                            \<lparr>d_hash = h, d_settles_at = settles_at\<rparr> now USIZE_MAX False)\<rparr>))
           | (Inr _, m1) \<Rightarrow>
               (let fresh = bc_new B config now;
                    bucket = (case owed of
                                None \<Rightarrow> fresh
                              | Some settles_at \<Rightarrow> restore_debt B fresh config now settles_at)
                in case op bucket of (r, b) \<Rightarrow>
                     (Inr r, put_shard st h (sm_insert T m1 h key (entry_new b now_ms))))))"

definition with_or_insert ::
  "('b, 'c) bucket_core \<Rightarrow> 'i hash_table \<Rightarrow> ('k, 'b, 'i) store \<Rightarrow> 'k \<Rightarrow> duration \<Rightarrow> 'c \<Rightarrow>
   ('b \<Rightarrow> 'r \<times> 'b) \<Rightarrow> (duration + 'r) \<times> ('k, 'b, 'i) store" where
  "with_or_insert B T st key now config op =
     (case touch_section T st key now op of
        Some (r, st') \<Rightarrow> (Inr r, st')
      | None \<Rightarrow> insert_section B T st key now config op)"

definition with_existing ::
  "'i hash_table \<Rightarrow> ('k, 'b, 'i) store \<Rightarrow> 'k \<Rightarrow> ('b \<Rightarrow> 'r \<times> 'b) \<Rightarrow> 'r option \<times> ('k, 'b, 'i) store" where
  "with_existing T st key op =
     (let h = st_hasher st key; m = shard st h in
      case sm_get T m h key of
        None \<Rightarrow> (None, st)
      | Some e \<Rightarrow> (case op (e_bucket e) of (r, b) \<Rightarrow>
          (Some r, put_shard st h (sm_set T m h key (e\<lparr>e_bucket := b\<rparr>)))))"

definition view ::
  "('b, 'c) bucket_core \<Rightarrow> 'i hash_table \<Rightarrow> ('k, 'b, 'i) store \<Rightarrow> 'k \<Rightarrow> duration \<Rightarrow> 'c \<Rightarrow>
   ('b \<Rightarrow> 'r) \<Rightarrow> 'r" where
  "view B T st key now config op =
     (let h = st_hasher st key; m = shard st h in
      case sm_get T m h key of
        Some e \<Rightarrow> op (e_bucket e)
      | None \<Rightarrow>
          (let fresh = bc_new B config now in
           op (case lg_position T (sm_ledger m) h of
                 None \<Rightarrow> fresh
               | Some pos \<Rightarrow>
                   (case nth_opt (lg_debts (sm_ledger m)) pos of
                      None \<Rightarrow> fresh
                    | Some d \<Rightarrow> restore_debt B fresh config now (d_settles_at d)))))"

text \<open>The two critical sections of \<open>refund\<close>: the read section answers \<open>None\<close> when the debt has
  to be paid down under the write lock.\<close>

definition refund_section ::
  "('b, 'c) bucket_core \<Rightarrow> 'i hash_table \<Rightarrow> ('k, 'b, 'i) store \<Rightarrow> 'k \<Rightarrow> u32 \<Rightarrow>
   (bool \<times> ('k, 'b, 'i) store) option" where
  "refund_section B T st key cost =
     (let h = st_hasher st key; m = shard st h in
      case with_existing T st key (\<lambda>b. ((), bc_refund B cost b)) of
        (Some _, st') \<Rightarrow> Some (True, st')
      | (None, st') \<Rightarrow> if lg_position T (sm_ledger m) h = None then Some (False, st') else None)"

definition pay_section ::
  "('b, 'c) bucket_core \<Rightarrow> 'i hash_table \<Rightarrow> ('k, 'b, 'i) store \<Rightarrow> 'k \<Rightarrow> u32 \<Rightarrow> 'c \<Rightarrow>
   bool \<times> ('k, 'b, 'i) store" where
  "pay_section B T st key cost config =
     (let h = st_hasher st key; m = shard st h in
      case with_existing T st key (\<lambda>b. ((), bc_refund B cost b)) of
        (Some _, st') \<Rightarrow> (True, st')
      | (None, _) \<Rightarrow>
          (case lg_pay_down B T (sm_ledger m) h cost config of (known, g) \<Rightarrow>
             (known, put_shard st h (m\<lparr>sm_ledger := g\<rparr>))))"

definition store_refund ::
  "('b, 'c) bucket_core \<Rightarrow> 'i hash_table \<Rightarrow> ('k, 'b, 'i) store \<Rightarrow> 'k \<Rightarrow> u32 \<Rightarrow> 'c \<Rightarrow>
   bool \<times> ('k, 'b, 'i) store" where
  "store_refund B T st key cost config =
     (case refund_section B T st key cost of
        Some r \<Rightarrow> r
      | None \<Rightarrow> pay_section B T st key cost config)"

definition store_remove :: "'i hash_table \<Rightarrow> ('k, 'b, 'i) store \<Rightarrow> 'k \<Rightarrow> bool \<times> ('k, 'b, 'i) store" where
  "store_remove T st key =
     (let h = st_hasher st key; m = shard st h in
      case lg_take T (sm_ledger m) h of (owed, g) \<Rightarrow>
        (let debt = owed \<noteq> None; m1 = m\<lparr>sm_ledger := g\<rparr> in
         case sm_position T m1 h key of
           None \<Rightarrow> (debt, put_shard st h m1)
         | Some pos \<Rightarrow>
             (case sm_remove_at T m1 pos of (removed, m2) \<Rightarrow>
                (removed \<noteq> None \<or> debt, put_shard st h m2))))"

text \<open>\<open>clear\<close> takes the write lock of one shard after the other.\<close>

definition clear_section :: "'i hash_table \<Rightarrow> usize \<Rightarrow> ('k, 'b, 'i) store \<Rightarrow> ('k, 'b, 'i) store" where
  "clear_section T i st = st\<lparr>st_shards := (st_shards st)[i := sm_new T]\<rparr>"

definition store_clear :: "'i hash_table \<Rightarrow> ('k, 'b, 'i) store \<Rightarrow> ('k, 'b, 'i) store" where
  "store_clear T st = fold (clear_section T) [0..<length (st_shards st)] st"

definition store_len :: "('k, 'b, 'i) store \<Rightarrow> usize" where
  "store_len st = sum_list (map (\<lambda>m. length (sm_slots m)) (st_shards st))"

definition store_is_empty :: "('k, 'b, 'i) store \<Rightarrow> bool" where
  "store_is_empty st \<longleftrightarrow> list_all (\<lambda>m. sm_slots m = []) (st_shards st)"

definition store_shard_count :: "('k, 'b, 'i) store \<Rightarrow> usize" where
  "store_shard_count st = length (st_shards st)"

end
