(* ===== verification/Store_Laws.thy ===== *)
theory Store_Laws
  imports Store
begin

text \<open>
  What the store guarantees: its indexes stay consistent through every swap-remove, its
  size stays under the cap, and eviction never forgives a debt.
\<close>

subsection \<open>The hash table, as documented\<close>

text \<open>\<open>E\<close> gives the elements of a table with the hashes they were inserted under.  A search
  meets every element with the hash it is given, and may meet others; \<open>insert_unique\<close>
  needs a rehash function that agrees with the hashes.\<close>

definition table_finds :: "'i hash_table \<Rightarrow> ('i \<Rightarrow> (u64 \<times> u32) multiset) \<Rightarrow> bool" where
  "table_finds T E \<longleftrightarrow>
     (\<forall>h eq i p. ht_find T h eq i = Some p \<longrightarrow> eq p \<and> (\<exists>h'. (h', p) \<in># E i)) \<and>
     (\<forall>h eq i p. ht_find T h eq i = None \<longrightarrow> (h, p) \<in># E i \<longrightarrow> \<not> eq p)"

definition table_removes :: "'i hash_table \<Rightarrow> ('i \<Rightarrow> (u64 \<times> u32) multiset) \<Rightarrow> bool" where
  "table_removes T E \<longleftrightarrow>
     (\<forall>h eq i q. (h, q) \<in># E i \<longrightarrow> eq q \<longrightarrow>
        (\<exists>h' p. (h', p) \<in># E i \<and> eq p \<and> E (ht_remove T h eq i) = E i - {#(h', p)#}))"

definition table_assigns :: "'i hash_table \<Rightarrow> ('i \<Rightarrow> (u64 \<times> u32) multiset) \<Rightarrow> bool" where
  "table_assigns T E \<longleftrightarrow>
     (\<forall>h eq i v q. (h, q) \<in># E i \<longrightarrow> eq q \<longrightarrow>
        (\<exists>h' p. (h', p) \<in># E i \<and> eq p \<and>
           E (ht_assign T h eq v i) = add_mset (h', v) (E i - {#(h', p)#})))"

definition table_inserts :: "'i hash_table \<Rightarrow> ('i \<Rightarrow> (u64 \<times> u32) multiset) \<Rightarrow> bool" where
  "table_inserts T E \<longleftrightarrow>
     (\<forall>h q f i. (\<forall>(h', p) \<in># E i. f p = h') \<longrightarrow> f q = h \<longrightarrow>
        E (ht_insert_unique T h q f i) = add_mset (h, q) (E i))"

definition lawful_table :: "'i hash_table \<Rightarrow> ('i \<Rightarrow> (u64 \<times> u32) multiset) \<Rightarrow> bool" where
  "lawful_table T E \<longleftrightarrow>
     E (ht_new T) = {#} \<and> table_finds T E \<and> table_removes T E \<and> table_assigns T E \<and> table_inserts T E"

lemma table_found: "lawful_table T E \<Longrightarrow> ht_find T h eq i = Some p \<Longrightarrow> eq p \<and> (\<exists>h'. (h', p) \<in># E i)"
  and table_missed: "lawful_table T E \<Longrightarrow> ht_find T h eq i = None \<Longrightarrow> (h, p) \<in># E i \<Longrightarrow> \<not> eq p"
  unfolding lawful_table_def table_finds_def by blast+

lemma table_removed: "lawful_table T E \<Longrightarrow> (h, q) \<in># E i \<Longrightarrow> eq q \<Longrightarrow>
    \<exists>h' p. (h', p) \<in># E i \<and> eq p \<and> E (ht_remove T h eq i) = E i - {#(h', p)#}"
  by (simp add: lawful_table_def table_removes_def)

lemma table_assigned: "lawful_table T E \<Longrightarrow> (h, q) \<in># E i \<Longrightarrow> eq q \<Longrightarrow>
    \<exists>h' p. (h', p) \<in># E i \<and> eq p \<and> E (ht_assign T h eq v i) = add_mset (h', v) (E i - {#(h', p)#})"
  by (simp add: lawful_table_def table_assigns_def)

lemma table_inserted: "lawful_table T E \<Longrightarrow> \<forall>(h', p) \<in># E i. f p = h' \<Longrightarrow> f q = h \<Longrightarrow>
    E (ht_insert_unique T h q f i) = add_mset (h, q) (E i)"
  unfolding lawful_table_def table_inserts_def by blast

subsection \<open>Dense vectors with an index\<close>

text \<open>The index of a dense vector holds exactly the positions of its elements, each under the
  element's hash.  The ledger and the slots of a shard share this.\<close>

definition dense :: "('i \<Rightarrow> (u64 \<times> u32) multiset) \<Rightarrow> 'i \<Rightarrow> u64 list \<Rightarrow> bool" where
  "dense E i hs \<longleftrightarrow> E i = mset (zip hs [0..<length hs])"

lemma dense_mem: "dense E i hs \<Longrightarrow> (h, p) \<in># E i \<longleftrightarrow> p < length hs \<and> hs ! p = h"
  by (auto simp: dense_def in_set_zip)

lemma dense_empty: "lawful_table T E \<Longrightarrow> dense E (ht_new T) []"
  by (simp add: dense_def lawful_table_def)

lemma dense_found:
  "lawful_table T E \<Longrightarrow> dense E i hs \<Longrightarrow> ht_find T h eq i = Some p \<Longrightarrow> p < length hs \<and> eq p"
  using table_found dense_mem by metis

lemma dense_missed:
  "lawful_table T E \<Longrightarrow> dense E i hs \<Longrightarrow> ht_find T h eq i = None \<Longrightarrow> p < length hs \<Longrightarrow> hs ! p = h \<Longrightarrow> \<not> eq p"
  using table_missed dense_mem by metis

lemma dense_push:
  assumes "lawful_table T E" and "dense E i hs" and "length hs \<le> U32_MAX"
    and "\<And>p. p \<le> length hs \<Longrightarrow> f p = (hs @ [h]) ! p"
  shows "dense E (ht_insert_unique T h (pos_u32 (length hs)) f i) (hs @ [h])"
proof -
  have "\<forall>(h', p) \<in># E i. f p = h'" using assms(2,4) by (auto simp: dense_mem nth_append)
  moreover have "f (pos_u32 (length hs)) = h" using assms(3,4) by (simp add: pos_u32_def nth_append)
  ultimately have "E (ht_insert_unique T h (pos_u32 (length hs)) f i) = add_mset (h, length hs) (E i)"
    using table_inserted [OF assms(1)] assms(3) by (simp add: pos_u32_def)
  then show ?thesis using assms(2) by (simp add: dense_def)
qed

lemma zip_swap_remove:
  assumes "pos < length xs" and "pos \<noteq> length xs - 1"
  shows "mset (zip (swap_remove xs pos) [0..<length xs - 1]) =
     add_mset (last xs, pos) (mset (zip (butlast xs) [0..<length xs - 1]) - {#(xs ! pos, pos)#})"
proof -
  let ?n = "length xs - 1"
  have lt: "pos < ?n" using assms by simp
  then have same: "[0..<?n][pos := pos] = [0..<?n]"
    by (metis add_0 list_update_id nth_upt diff_zero)
  have "zip ((butlast xs)[pos := last xs]) [0..<?n] = (zip (butlast xs) [0..<?n])[pos := (last xs, pos)]"
    by (metis same zip_update)
  moreover have "pos < length (zip (butlast xs) [0..<?n])" using lt by simp
  moreover have "zip (butlast xs) [0..<?n] ! pos = (xs ! pos, pos)" using lt by (simp add: nth_butlast)
  ultimately show ?thesis using assms by (simp add: swap_remove_def mset_update)
qed

lemma dense_reindex:
  assumes "lawful_table T E" and "dense E i hs" and "pos < length hs" and "length hs \<le> U32_MAX"
  shows "dense E (reindex T hs pos i) (swap_remove hs pos)"
proof -
  let ?n = "length hs - 1" and ?i1 = "ht_remove T (hs ! pos) (\<lambda>p. p = pos) i"
  have ne: "hs \<noteq> []" and n: "Suc ?n = length hs" using assms(3) by auto
  have split: "E i = add_mset (last hs, ?n) (mset (zip (butlast hs) [0..<?n]))"
  proof -
    have "zip (butlast hs @ [last hs]) [0..<Suc ?n] = zip (butlast hs) [0..<?n] @ [(last hs, ?n)]"
      by (simp add: zip_append1)
    with ne n assms(2) show ?thesis by (simp add: dense_def)
  qed
  have "(hs ! pos, pos) \<in># E i" using assms(2,3) by (simp add: dense_mem)
  from table_removed [OF assms(1) this, of "\<lambda>p. p = pos"] obtain h' where
    "(h', pos) \<in># E i" and r: "E ?i1 = E i - {#(h', pos)#}" by auto
  then have i1: "E ?i1 = E i - {#(hs ! pos, pos)#}" using assms(2) by (simp add: dense_mem)
  show ?thesis
  proof (cases "pos = ?n")
    case True
    then have "hs ! pos = last hs" using ne by (simp add: last_conv_nth)
    with True i1 split show ?thesis
      by (simp add: reindex_def swap_remove_def dense_def Let_def del: upt_Suc)
  next
    case False
    let ?i2 = "ht_assign T (hs ! ?n) (\<lambda>p. p = ?n) (pos_u32 pos) ?i1"
    have last: "hs ! ?n = last hs" using ne by (simp add: last_conv_nth)
    have i1': "E ?i1 = add_mset (last hs, ?n) (mset (zip (butlast hs) [0..<?n]) - {#(hs ! pos, pos)#})"
      using i1 split False by (simp add: diff_add_mset_swap)
    then have "(hs ! ?n, ?n) \<in># E ?i1" unfolding last by simp
    from table_assigned [OF assms(1) this, of "\<lambda>p. p = ?n" "pos_u32 pos"] obtain h2 where
      h2: "(h2, ?n) \<in># E ?i1" and a: "E ?i2 = add_mset (h2, pos_u32 pos) (E ?i1 - {#(h2, ?n)#})"
      by auto
    have "(h2, ?n) \<in># E i" using h2 unfolding i1 by (rule in_diffD)
    then have "h2 = last hs" using assms(2) last by (simp add: dense_mem)
    with a i1' have "E ?i2 = add_mset (last hs, pos) (mset (zip (butlast hs) [0..<?n]) - {#(hs ! pos, pos)#})"
      using assms(3,4) by (simp add: pos_u32_def)
    with zip_swap_remove [OF assms(3) False] False show ?thesis
      by (simp add: reindex_def dense_def Let_def swap_remove_def)
  qed
qed

lemma mset_swap_remove: "pos < length xs \<Longrightarrow> mset (swap_remove xs pos) = mset xs - {#xs ! pos#}"
proof -
  assume pos: "pos < length xs"
  then have split: "mset xs = add_mset (last xs) (mset (butlast xs))"
    by (metis append_butlast_last_id length_0_conv mset.simps mset_append not_less0 union_mset_add_mset_right add.right_neutral)
  show ?thesis
  proof (cases "pos = length xs - 1")
    case True
    then have "xs ! pos = last xs" using pos by (cases xs rule: rev_cases) auto
    with True split show ?thesis by (simp add: swap_remove_def)
  next
    case False
    then have lt: "pos < length (butlast xs)" using pos by simp
    then have "xs ! pos \<in># mset (butlast xs)" by (metis nth_butlast nth_mem_mset)
    with lt False split show ?thesis
      by (simp add: swap_remove_def mset_update nth_butlast)
  qed
qed

lemma map_swap_remove: "pos < length xs \<Longrightarrow> map f (swap_remove xs pos) = swap_remove (map f xs) pos"
  by (cases "xs = []") (simp_all add: swap_remove_def map_butlast map_update last_map)

lemma length_swap_remove [simp]: "length (swap_remove xs pos) = length xs - 1"
  by (simp add: swap_remove_def)

lemma distinct_swap_remove:
  assumes "distinct (map f xs)" and "pos < length xs"
  shows "distinct (map f (swap_remove xs pos))"
    and "set (swap_remove xs pos) = {x \<in> set xs. f x \<noteq> f (xs ! pos)}"
proof -
  have m: "mset (map f (swap_remove xs pos)) = mset (map f xs) - {#f (xs ! pos)#}"
    using assms(2) by (simp add: map_swap_remove mset_swap_remove)
  have "count (mset (map f (swap_remove xs pos))) a \<le> 1" for a
    unfolding m using assms(1) by (simp add: distinct_count_atmost_1 le_diff_conv)
  then show "distinct (map f (swap_remove xs pos))"
    by (metis One_nat_def count_mset_0_iff distinct_count_atmost_1 le_Suc_eq le_zero_eq)
  have d: "distinct xs" using assms(1) distinct_map by blast
  then have "count (mset xs) a = (if a \<in> set xs then 1 else 0)" for a
    by (simp add: distinct_count_atmost_1)
  then have "set_mset (mset xs - {#xs ! pos#}) = set xs - {xs ! pos}"
    using nth_mem [OF assms(2)] by (auto simp: in_diff_count split: if_splits)
  then have "set (swap_remove xs pos) = set xs - {xs ! pos}"
    using assms(2) by (metis mset_swap_remove set_mset_mset)
  then show "set (swap_remove xs pos) = {x \<in> set xs. f x \<noteq> f (xs ! pos)}"
    using assms by (auto simp: distinct_map inj_on_def)
qed

text \<open>Finite maps read off a dense vector.\<close>

definition table_of :: "('x \<Rightarrow> 'k) \<Rightarrow> ('x \<Rightarrow> 'v) \<Rightarrow> 'x list \<Rightarrow> 'k \<rightharpoonup> 'v" where
  "table_of f g xs = map_of (map (\<lambda>x. (f x, g x)) xs)"

lemma table_of_Some:
  "distinct (map f xs) \<Longrightarrow> table_of f g xs k = Some v \<longleftrightarrow> (\<exists>x \<in> set xs. f x = k \<and> g x = v)"
  unfolding table_of_def by (subst map_of_eq_Some_iff) (auto simp: comp_def image_iff)

lemma table_of_None: "table_of f g xs k = None \<longleftrightarrow> k \<notin> f ` set xs"
  unfolding table_of_def by (auto simp: map_of_eq_None_iff image_iff)

lemma table_of_eqI:
  assumes "distinct (map f xs)" and "\<And>v. m k = Some v \<longleftrightarrow> (\<exists>x \<in> set xs. f x = k \<and> g x = v)"
  shows "table_of f g xs k = m k"
proof -
  have "table_of f g xs k = Some v \<longleftrightarrow> m k = Some v" for v
    using table_of_Some [OF assms(1)] assms(2) by simp
  then show ?thesis by (metis not_Some_eq)
qed

lemma table_of_nth: "distinct (map f xs) \<Longrightarrow> p < length xs \<Longrightarrow> table_of f g xs (f (xs ! p)) = Some (g (xs ! p))"
  by (auto simp: table_of_Some)

lemma table_of_swap_remove:
  assumes "distinct (map f xs)" and "pos < length xs"
  shows "table_of f g (swap_remove xs pos) = (table_of f g xs)(f (xs ! pos) := None)"
proof
  fix k
  show "table_of f g (swap_remove xs pos) k = ((table_of f g xs)(f (xs ! pos) := None)) k"
    by (rule table_of_eqI [OF distinct_swap_remove(1) [OF assms]])
      (auto simp: distinct_swap_remove(2) [OF assms] table_of_Some [OF assms(1)])
qed

lemma table_of_snoc: "f x \<notin> f ` set xs \<Longrightarrow> table_of f g (xs @ [x]) = (table_of f g xs)(f x \<mapsto> g x)"
proof -
  assume "f x \<notin> f ` set xs"
  then have "table_of f g xs (f x) = None" by (simp add: table_of_None)
  then show ?thesis by (auto simp: table_of_def map_add_def split: option.splits)
qed

lemma table_of_update:
  assumes "distinct (map f xs)" and "p < length xs" and "f y = f (xs ! p)"
  shows "table_of f g (xs[p := y]) = (table_of f g xs)(f y \<mapsto> g y)" and "map f (xs[p := y]) = map f xs"
proof -
  show same: "map f (xs[p := y]) = map f xs"
    using assms by (metis list_update_id map_update nth_map)
  show "table_of f g (xs[p := y]) = (table_of f g xs)(f y \<mapsto> g y)"
  proof
    fix k
    have d: "distinct (map f (xs[p := y]))" using same assms(1) by simp
    have "x \<in> set (xs[p := y]) \<longleftrightarrow> x = y \<or> (x \<in> set xs \<and> x \<noteq> xs ! p)" for x
      using assms(1,2) set_update_distinct [of xs p y] by (auto simp: distinct_map)
    then show "table_of f g (xs[p := y]) k = ((table_of f g xs)(f y \<mapsto> g y)) k"
      by (intro table_of_eqI [OF d])
        (use assms in \<open>auto simp: table_of_Some [OF assms(1)] distinct_map inj_on_def\<close>)
  qed
qed

subsection \<open>The ledger\<close>

definition debts_of :: "'i ledger \<Rightarrow> u64 \<rightharpoonup> duration" where
  "debts_of g = table_of d_hash d_settles_at (lg_debts g)"

definition ledger_ok :: "('i \<Rightarrow> (u64 \<times> u32) multiset) \<Rightarrow> usize \<Rightarrow> 'i ledger \<Rightarrow> bool" where
  "ledger_ok E cap g \<longleftrightarrow>
     dense E (lg_index g) (map d_hash (lg_debts g)) \<and> distinct (map d_hash (lg_debts g)) \<and>
     length (lg_debts g) \<le> cap \<and> cap \<le> U32_MAX"

text \<open>Only settled debts are gone.\<close>

definition keeps_debts :: "duration \<Rightarrow> (u64 \<rightharpoonup> duration) \<Rightarrow> (u64 \<rightharpoonup> duration) \<Rightarrow> bool" where
  "keeps_debts now D D' \<longleftrightarrow> (\<forall>h. D' h = D h \<or> D' h = None \<and> (\<exists>a \<le> now. D h = Some a))"

lemma keeps_debts_refl [simp]: "keeps_debts now D D"
  by (simp add: keeps_debts_def)

lemma keeps_debts_trans: "keeps_debts now D D' \<Longrightarrow> keeps_debts now D' D'' \<Longrightarrow> keeps_debts now D D''"
  unfolding keeps_debts_def by metis

lemma keeps_debts_del: "D h = Some a \<Longrightarrow> a \<le> now \<Longrightarrow> keeps_debts now D (D(h := None))"
  by (auto simp: keeps_debts_def)

lemma lg_position_spec:
  assumes "lawful_table T E" and "ledger_ok E cap g"
  shows "case lg_position T g h of
      None \<Rightarrow> debts_of g h = None \<and> h \<notin> d_hash ` set (lg_debts g)
    | Some p \<Rightarrow> p < length (lg_debts g) \<and> d_hash (lg_debts g ! p) = h \<and>
        debts_of g h = Some (d_settles_at (lg_debts g ! p))"
proof -
  have d: "dense E (lg_index g) (map d_hash (lg_debts g))" and ds: "distinct (map d_hash (lg_debts g))"
    using assms(2) by (simp_all add: ledger_ok_def)
  show ?thesis
  proof (cases "lg_position T g h")
    case None
    then have "\<forall>p < length (lg_debts g). d_hash (lg_debts g ! p) \<noteq> h"
      using dense_missed [OF assms(1) d None [unfolded lg_position_def]] by (auto simp: nth_opt_def)
    then have "h \<notin> d_hash ` set (lg_debts g)" by (auto simp: in_set_conv_nth)
    with None show ?thesis by (simp add: debts_of_def table_of_None)
  next
    case (Some p)
    with dense_found [OF assms(1) d, of h _ p] have "p < length (lg_debts g)" "d_hash (lg_debts g ! p) = h"
      by (auto simp: lg_position_def nth_opt_def split: if_splits)
    with Some ds show ?thesis by (auto simp: debts_of_def table_of_nth)
  qed
qed

lemma lg_new_ok: "lawful_table T E \<Longrightarrow> cap \<le> U32_MAX \<Longrightarrow> ledger_ok E cap (lg_new T)"
  by (simp add: ledger_ok_def lg_new_def dense_empty)

lemma lg_remove_at_spec:
  assumes "lawful_table T E" and "ledger_ok E cap g" and "pos < length (lg_debts g)"
  shows "ledger_ok E cap (snd (lg_remove_at T g pos))"
    and "debts_of (snd (lg_remove_at T g pos)) = (debts_of g)(d_hash (lg_debts g ! pos) := None)"
    and "length (lg_debts (snd (lg_remove_at T g pos))) = length (lg_debts g) - 1"
proof -
  have d: "dense E (lg_index g) (map d_hash (lg_debts g))" "distinct (map d_hash (lg_debts g))"
    and le: "length (map d_hash (lg_debts g)) \<le> U32_MAX" and p: "pos < length (map d_hash (lg_debts g))"
    using assms(2,3) by (simp_all add: ledger_ok_def)
  from dense_reindex [OF assms(1) d(1) p le] distinct_swap_remove(1) [OF d(2) assms(3)] assms
  show "ledger_ok E cap (snd (lg_remove_at T g pos))"
    by (auto simp: ledger_ok_def lg_remove_at_def map_swap_remove)
  from table_of_swap_remove [OF d(2) assms(3)] assms(3)
  show "debts_of (snd (lg_remove_at T g pos)) = (debts_of g)(d_hash (lg_debts g ! pos) := None)"
    by (simp add: debts_of_def lg_remove_at_def)
  from assms(3) show "length (lg_debts (snd (lg_remove_at T g pos))) = length (lg_debts g) - 1"
    by (simp add: lg_remove_at_def)
qed

lemma lg_take_spec:
  assumes "lawful_table T E" and "ledger_ok E cap g" and "lg_take T g h = (owed, g')"
  shows "owed = debts_of g h" and "debts_of g' = (debts_of g)(h := None)" and "ledger_ok E cap g'"
    and "owed \<noteq> None \<Longrightarrow> length (lg_debts g') < length (lg_debts g)"
    and "length (lg_debts g') \<le> length (lg_debts g)"
proof -
  have "owed = debts_of g h \<and> debts_of g' = (debts_of g)(h := None) \<and> ledger_ok E cap g' \<and>
     (owed \<noteq> None \<longrightarrow> length (lg_debts g') < length (lg_debts g)) \<and> length (lg_debts g') \<le> length (lg_debts g)"
  proof (cases "lg_position T g h")
    case None
    with lg_position_spec [OF assms(1,2), of h] assms(2,3) show ?thesis
      by (auto simp: lg_take_def)
  next
    case (Some p)
    with lg_position_spec [OF assms(1,2), of h]
    have p: "p < length (lg_debts g)" "d_hash (lg_debts g ! p) = h"
      "debts_of g h = Some (d_settles_at (lg_debts g ! p))" by simp_all
    moreover have "owed = map_option d_settles_at (fst (lg_remove_at T g p))" "g' = snd (lg_remove_at T g p)"
      using assms(3) Some by (auto simp: lg_take_def split: prod.splits)
    moreover from p have "fst (lg_remove_at T g p) = Some (lg_debts g ! p)" by (simp add: lg_remove_at_def)
    ultimately show ?thesis using lg_remove_at_spec [OF assms(1,2) p(1)] by auto
  qed
  then show "owed = debts_of g h" "debts_of g' = (debts_of g)(h := None)" "ledger_ok E cap g'"
    "owed \<noteq> None \<Longrightarrow> length (lg_debts g') < length (lg_debts g)"
    "length (lg_debts g') \<le> length (lg_debts g)" by blast+
qed

lemma lg_push_spec:
  assumes "lawful_table T E" and "ledger_ok E cap g" and "length (lg_debts g) < cap"
    and "d_hash d \<notin> d_hash ` set (lg_debts g)"
  shows "ledger_ok E cap (lg_push T d g)"
    and "debts_of (lg_push T d g) = (debts_of g)(d_hash d \<mapsto> d_settles_at d)"
proof -
  have "dense E (lg_index (lg_push T d g)) (map d_hash (lg_debts g) @ [d_hash d])"
    using dense_push [OF assms(1), of "lg_index g" "map d_hash (lg_debts g)"
        "\<lambda>p. case nth_opt (lg_debts g @ [d]) p of Some held \<Rightarrow> d_hash held | None \<Rightarrow> 0" "d_hash d"] assms(2,3)
    by (auto simp: ledger_ok_def lg_push_def Let_def nth_opt_def nth_append)
  with assms(2-4) show "ledger_ok E cap (lg_push T d g)"
    by (auto simp: ledger_ok_def lg_push_def Let_def)
  show "debts_of (lg_push T d g) = (debts_of g)(d_hash d \<mapsto> d_settles_at d)"
    using table_of_snoc [OF assms(4)] by (simp add: debts_of_def lg_push_def Let_def)
qed

lemma lg_update_spec:
  assumes "ledger_ok E cap g" and "p < length (lg_debts g)" and "d_hash d = d_hash (lg_debts g ! p)"
  shows "ledger_ok E cap (g\<lparr>lg_debts := (lg_debts g)[p := d]\<rparr>)"
    and "debts_of (g\<lparr>lg_debts := (lg_debts g)[p := d]\<rparr>) = (debts_of g)(d_hash d \<mapsto> d_settles_at d)"
  using table_of_update [of d_hash "lg_debts g" p d] assms
  by (auto simp: ledger_ok_def debts_of_def)

lemma lg_scan_spec:
  assumes "lg_scan n now ds cursor soonest = (c, r)"
    and "\<forall>p a. soonest = Some (p, a) \<longrightarrow> p < length ds \<and> d_settles_at (ds ! p) = a"
  shows "\<forall>p a. r = Some (p, a) \<longrightarrow> p < length ds \<and> d_settles_at (ds ! p) = a"
    and "r = None \<Longrightarrow> soonest = None \<and> (n = 0 \<or> ds = [])"
proof -
  have "(\<forall>p a. r = Some (p, a) \<longrightarrow> p < length ds \<and> d_settles_at (ds ! p) = a) \<and>
    (r = None \<longrightarrow> soonest = None \<and> (n = 0 \<or> ds = []))"
    using assms
  proof (induction n now ds cursor soonest rule: lg_scan.induct)
    case (2 n now ds cursor soonest)
    let ?c = "if cursor \<ge> length ds then 0 else cursor"
    show ?case
    proof (cases "?c < length ds")
      case True
      then have nth: "nth_opt ds ?c = Some (ds ! ?c)" by (simp add: nth_opt_def)
      show ?thesis
      proof (cases "d_settles_at (ds ! ?c) \<le> now")
        case True
        with 2(3) nth \<open>?c < length ds\<close> show ?thesis by (auto simp: Let_def)
      next
        case False
        let ?s = "case soonest of None \<Rightarrow> Some (?c, d_settles_at (ds ! ?c))
          | Some (q, a) \<Rightarrow> if d_settles_at (ds ! ?c) < a then Some (?c, d_settles_at (ds ! ?c)) else Some (q, a)"
        have "lg_scan n now ds (?c + 1) ?s = (c, r)" using 2(3) nth False by (simp add: Let_def)
        moreover have "\<forall>p a. ?s = Some (p, a) \<longrightarrow> p < length ds \<and> d_settles_at (ds ! p) = a"
          using 2(4) \<open>?c < length ds\<close> by (auto split: option.splits if_splits)
        moreover have "?s \<noteq> None" by (auto split: option.splits)
        ultimately show ?thesis using 2(2) [OF refl nth False] by blast
      qed
    next
      case False
      then have "nth_opt ds ?c = None" "ds = []" by (auto simp: nth_opt_def split: if_splits)
      with 2(1) [OF refl this(1)] 2(3,4) show ?thesis by (simp add: Let_def)
    qed
  qed simp
  then show "\<forall>p a. r = Some (p, a) \<longrightarrow> p < length ds \<and> d_settles_at (ds ! p) = a"
    and "r = None \<Longrightarrow> soonest = None \<and> (n = 0 \<or> ds = [])" by auto
qed

lemma ledger_ok_cursor [simp]: "ledger_ok E cap (g\<lparr>lg_cursor := c\<rparr>) = ledger_ok E cap g"
  and debts_of_cursor [simp]: "debts_of (g\<lparr>lg_cursor := c\<rparr>) = debts_of g"
  by (simp_all add: ledger_ok_def debts_of_def)

definition later_of :: "duration option \<Rightarrow> duration \<Rightarrow> duration" where
  "later_of held a = (case held of None \<Rightarrow> a | Some x \<Rightarrow> max x a)"

lemma later_of_simps [simp]: "later_of None a = a" "later_of (Some x) a = max x a"
  by (simp_all add: later_of_def)

text \<open>A debt that is recorded is remembered, at least as long as asked; the others stay, but
  for one that has settled or, when the policy says so, is forgotten.  A debt that is not
  recorded changes nothing.\<close>

lemma lg_record_spec:
  assumes L: "lawful_table T E" and ok: "ledger_ok E cap g" and cap: "0 < cap"
    and room: "cap' = cap \<or> length (lg_debts g) < cap \<and> cap \<le> cap'"
    and r: "lg_record T g d now cap' forget = (r, g')"
  shows "ledger_ok E cap g' \<and>
    (case r of
       Inl _ \<Rightarrow> \<not> forget \<and> debts_of g' = debts_of g \<and> cap' \<le> length (lg_debts g) \<and>
         length (lg_debts g') = length (lg_debts g)
     | Inr _ \<Rightarrow> \<exists>D. (forget \<or> keeps_debts now (debts_of g) D) \<and>
         (D (d_hash d) = debts_of g (d_hash d)) \<and>
         debts_of g' = D(d_hash d \<mapsto> later_of (debts_of g (d_hash d)) (d_settles_at d)))"
proof (cases "lg_position T g (d_hash d)")
  case (Some p)
  with lg_position_spec [OF L ok, of "d_hash d"]
  have p: "p < length (lg_debts g)" "d_hash (lg_debts g ! p) = d_hash d"
    "debts_of g (d_hash d) = Some (d_settles_at (lg_debts g ! p))" by simp_all
  let ?d = "(lg_debts g ! p)\<lparr>d_settles_at := max (d_settles_at (lg_debts g ! p)) (d_settles_at d)\<rparr>"
  have "r = Inr ()" "g' = g\<lparr>lg_debts := (lg_debts g)[p := ?d]\<rparr>"
    using r Some p by (auto simp: lg_record_def nth_opt_def)
  with lg_update_spec [OF ok p(1), of ?d] p show ?thesis by (auto intro!: exI [of _ "debts_of g"])
next
  case None
  with lg_position_spec [OF L ok, of "d_hash d"]
  have new: "debts_of g (d_hash d) = None" "d_hash d \<notin> d_hash ` set (lg_debts g)" by simp_all
  show ?thesis
  proof (cases "cap' \<le> length (lg_debts g)")
    case False
    then have "r = Inr ()" "g' = lg_push T d g" using r None by (auto simp: lg_record_def)
    moreover have "length (lg_debts g) < cap" using room False by auto
    ultimately show ?thesis using lg_push_spec [OF L ok _ new(2)] new(1)
      by (auto intro!: exI [of _ "debts_of g"])
  next
    case True
    then have len: "0 < length (lg_debts g)" "length (lg_debts g) \<le> cap"
      using room cap ok by (auto simp: ledger_ok_def)
    obtain c s where s: "lg_scan (min LEDGER_SCAN (length (lg_debts g))) now (lg_debts g) (lg_cursor g) None = (c, s)"
      by fastforce
    have "s \<noteq> None"
    proof
      assume "s = None"
      with lg_scan_spec(2) [OF s] have "min LEDGER_SCAN (length (lg_debts g)) = 0 \<or> lg_debts g = []" by simp
      with len(1) show False by (simp add: LEDGER_SCAN_def min_def split: if_splits)
    qed
    then obtain p a where pa: "s = Some (p, a)" by auto
    then have p: "p < length (lg_debts g)" "d_settles_at (lg_debts g ! p) = a"
      using lg_scan_spec(1) [OF s] by auto
    let ?g1 = "g\<lparr>lg_cursor := c\<rparr>"
    show ?thesis
    proof (cases "a \<le> now \<or> forget")
      case False
      then have "r = Inl (a - now)" "g' = ?g1" using r None True s pa by (auto simp: lg_record_def)
      then show ?thesis using ok False True by simp
    next
      case drop: True
      let ?g2 = "snd (lg_remove_at T ?g1 p)" and ?D = "(debts_of g)(d_hash (lg_debts g ! p) := None)"
      have g': "r = Inr ()" "g' = lg_push T d ?g2" using r None True s pa drop by (auto simp: lg_record_def)
      have rem: "ledger_ok E cap ?g2" "debts_of ?g2 = ?D" "length (lg_debts ?g2) = length (lg_debts g) - 1"
        using lg_remove_at_spec [OF L, of cap ?g1 p] ok p(1) by simp_all
      have absent: "d_hash d \<notin> d_hash ` set (lg_debts ?g2)"
        using rem(2) new(1) by (metis debts_of_def fun_upd_apply table_of_None)
      have "debts_of g (d_hash (lg_debts g ! p)) = Some a"
        using ok p by (auto simp: debts_of_def ledger_ok_def table_of_nth)
      then have "forget \<or> keeps_debts now (debts_of g) ?D" using drop keeps_debts_del by blast
      moreover have "?D (d_hash d) = None" using new(1) by simp
      moreover have "length (lg_debts ?g2) < cap" using rem(3) len by linarith
      moreover note lg_push_spec [OF L rem(1) this absent]
      ultimately show ?thesis using g' rem len new(1) by (auto intro!: exI [of _ ?D])
    qed
  qed
qed

text \<open>With room to spare nothing is dropped.\<close>

lemma lg_record_room:
  assumes L: "lawful_table T E" and ok: "ledger_ok E cap g" and len: "length (lg_debts g) < cap" and cap: "cap \<le> cap'"
  shows "ledger_ok E cap (snd (lg_record T g d now cap' forget)) \<and>
    debts_of (snd (lg_record T g d now cap' forget)) =
      (debts_of g)(d_hash d \<mapsto> later_of (debts_of g (d_hash d)) (d_settles_at d))"
proof (cases "lg_position T g (d_hash d)")
  case (Some p)
  with lg_position_spec [OF L ok, of "d_hash d"]
  have p: "p < length (lg_debts g)" "d_hash (lg_debts g ! p) = d_hash d"
    "debts_of g (d_hash d) = Some (d_settles_at (lg_debts g ! p))" by simp_all
  let ?d = "(lg_debts g ! p)\<lparr>d_settles_at := max (d_settles_at (lg_debts g ! p)) (d_settles_at d)\<rparr>"
  from lg_update_spec [OF ok p(1), of ?d] p Some show ?thesis by (simp add: lg_record_def nth_opt_def)
next
  case None
  with lg_position_spec [OF L ok, of "d_hash d"]
  have new: "debts_of g (d_hash d) = None" "d_hash d \<notin> d_hash ` set (lg_debts g)" by simp_all
  with lg_push_spec [OF L ok len new(2)] None len cap show ?thesis by (simp add: lg_record_def)
qed

lemma lg_sweep_spec:
  assumes "lawful_table T E"
  shows "ledger_ok E cap g \<Longrightarrow> ledger_ok E cap (lg_sweep T now n g) \<and>
    keeps_debts now (debts_of g) (debts_of (lg_sweep T now n g)) \<and>
    length (lg_debts (lg_sweep T now n g)) \<le> length (lg_debts g)"
proof (induction n arbitrary: g)
  case (Suc n)
  let ?g1 = "if lg_cursor g \<ge> length (lg_debts g) then g\<lparr>lg_cursor := 0\<rparr> else g"
  let ?c = "lg_cursor ?g1"
  have g1: "ledger_ok E cap ?g1" "debts_of ?g1 = debts_of g" "lg_debts ?g1 = lg_debts g"
    using Suc.prems by simp_all
  show ?case
  proof (cases "lg_debts g = []")
    case False
    then have c: "?c < length (lg_debts ?g1)" by auto
    show ?thesis
    proof (cases "d_settles_at (lg_debts g ! ?c) \<le> now")
      case True
      let ?g2 = "snd (lg_remove_at T ?g1 ?c)"
      have "debts_of g (d_hash (lg_debts g ! ?c)) = Some (d_settles_at (lg_debts g ! ?c))"
        using g1 c by (auto simp: debts_of_def ledger_ok_def table_of_nth)
      with True have "keeps_debts now (debts_of g) (debts_of ?g2)"
        using lg_remove_at_spec(2) [OF assms g1(1) c] keeps_debts_del g1 by metis
      moreover have "lg_sweep T now (Suc n) g = lg_sweep T now n ?g2"
        using False True c g1(3) by (simp add: Let_def nth_opt_def)
      ultimately show ?thesis
        using Suc.IH [OF lg_remove_at_spec(1) [OF assms g1(1) c]] lg_remove_at_spec(3) [OF assms g1(1) c] g1
        by (auto intro: keeps_debts_trans)
    next
      case stay: False
      then have "lg_sweep T now (Suc n) g = lg_sweep T now n (?g1\<lparr>lg_cursor := ?c + 1\<rparr>)"
        using False c g1(3) by (simp add: Let_def nth_opt_def)
      with Suc.IH [of "?g1\<lparr>lg_cursor := ?c + 1\<rparr>"] g1 show ?thesis by (simp del: lg_sweep.simps)
    qed
  qed (use Suc.prems in simp)
qed simp

end
