(* ===== verification/Shard_Laws.thy ===== *)
theory Shard_Laws
  imports Store_Laws
begin

text \<open>
  One shard of the store: its slots and its ledger stay consistent, and what a key owes
  (the instant its bucket is full again) survives every sweep and eviction.
\<close>

subsection \<open>Slots\<close>

definition entries_of :: "('k, 'b, 'i) shard_map \<Rightarrow> 'k \<rightharpoonup> 'b entry" where
  "entries_of m = table_of s_key s_entry (sm_slots m)"

definition shard_ok ::
  "('i \<Rightarrow> (u64 \<times> u32) multiset) \<Rightarrow> ('k \<Rightarrow> u64) \<Rightarrow> usize \<Rightarrow> ('k, 'b, 'i) shard_map \<Rightarrow> bool" where
  "shard_ok E hasher cap m \<longleftrightarrow>
     dense E (sm_index m) (map s_hash (sm_slots m)) \<and> distinct (map s_key (sm_slots m)) \<and>
     map s_hash (sm_slots m) = map (hasher \<circ> s_key) (sm_slots m) \<and>
     length (sm_slots m) \<le> cap \<and> cap \<le> U32_MAX \<and> ledger_ok E cap (sm_ledger m)"

lemma shard_ok_ledger: "shard_ok E hasher cap m \<Longrightarrow> ledger_ok E cap (sm_ledger m)"
  by (simp add: shard_ok_def)

lemma shard_ok_keys: "shard_ok E hasher cap m \<Longrightarrow> distinct (map s_key (sm_slots m))"
  by (simp add: shard_ok_def)

lemma shard_ok_hash: "shard_ok E hasher cap m \<Longrightarrow> s \<in> set (sm_slots m) \<Longrightarrow> s_hash s = hasher (s_key s)"
  by (auto simp: shard_ok_def)

lemma shard_ok_with_ledger:
  "shard_ok E hasher cap m \<Longrightarrow> ledger_ok E cap g \<Longrightarrow> shard_ok E hasher cap (m\<lparr>sm_ledger := g\<rparr>)"
  by (simp add: shard_ok_def)

lemma shard_ok_cursors [simp]:
  "shard_ok E hasher cap (m\<lparr>sm_hand := x\<rparr>) = shard_ok E hasher cap m"
  "shard_ok E hasher cap (m\<lparr>sm_sweep := x\<rparr>) = shard_ok E hasher cap m"
  "entries_of (m\<lparr>sm_hand := x\<rparr>) = entries_of m" "entries_of (m\<lparr>sm_sweep := x\<rparr>) = entries_of m"
  "entries_of (m\<lparr>sm_ledger := g\<rparr>) = entries_of m"
  by (simp_all add: shard_ok_def entries_of_def)

lemma sm_new_ok: "lawful_table T E \<Longrightarrow> cap \<le> U32_MAX \<Longrightarrow> shard_ok E hasher cap (sm_new T)"
  by (simp add: shard_ok_def sm_new_def dense_empty lg_new_ok)

lemma sm_position_spec:
  assumes "lawful_table T E" and "shard_ok E hasher cap m"
  shows "case sm_position T m (hasher k) k of
      None \<Rightarrow> k \<notin> s_key ` set (sm_slots m)
    | Some p \<Rightarrow> p < length (sm_slots m) \<and> s_key (sm_slots m ! p) = k"
proof -
  have d: "dense E (sm_index m) (map s_hash (sm_slots m))" using assms(2) by (simp add: shard_ok_def)
  show ?thesis
  proof (cases "sm_position T m (hasher k) k")
    case None
    have "s_key (sm_slots m ! p) \<noteq> k" if "p < length (sm_slots m)" for p
      using dense_missed [OF assms(1) d None [unfolded sm_position_def], of p] that
        shard_ok_hash [OF assms(2), of "sm_slots m ! p"] by (auto simp: nth_opt_def)
    then have "k \<notin> s_key ` set (sm_slots m)" by (metis (no_types, lifting) image_iff in_set_conv_nth)
    then show ?thesis using None by simp
  next
    case (Some p)
    with dense_found [OF assms(1) d, of "hasher k" _ p] show ?thesis
      by (auto simp: sm_position_def nth_opt_def split: if_splits)
  qed
qed

lemma sm_position_None_iff:
  assumes "lawful_table T E" and "shard_ok E hasher cap m"
  shows "sm_position T m (hasher k) k = None \<longleftrightarrow> entries_of m k = None"
  using sm_position_spec [OF assms, of k]
  by (auto simp: entries_of_def table_of_None split: option.splits)

lemma sm_position_Some:
  assumes "lawful_table T E" and "shard_ok E hasher cap m" and "sm_position T m (hasher k) k = Some p"
  shows "p < length (sm_slots m)" and "s_key (sm_slots m ! p) = k"
    and "entries_of m k = Some (s_entry (sm_slots m ! p))"
  using sm_position_spec [OF assms(1,2), of k] assms(3) shard_ok_keys [OF assms(2)]
  by (auto simp: entries_of_def table_of_Some)

lemma sm_get_spec:
  assumes "lawful_table T E" and "shard_ok E hasher cap m"
  shows "sm_get T m (hasher k) k = entries_of m k"
proof (cases "sm_position T m (hasher k) k")
  case None
  then show ?thesis using sm_position_None_iff [OF assms, of k] by (simp add: sm_get_def)
next
  case (Some p)
  from sm_position_Some [OF assms Some] Some show ?thesis by (simp add: sm_get_def nth_opt_def)
qed

text \<open>Rewriting slots without changing keys and hashes.\<close>

lemma shard_ok_slots:
  assumes "shard_ok E hasher cap m" and "map s_key xs = map s_key (sm_slots m)"
    and "map s_hash xs = map s_hash (sm_slots m)"
  shows "shard_ok E hasher cap (m\<lparr>sm_slots := xs\<rparr>)"
proof -
  have "map (hasher \<circ> s_key) xs = map (hasher \<circ> s_key) (sm_slots m)"
    using assms(2) by (metis map_map)
  moreover have "length xs = length (sm_slots m)" using assms(2) by (metis length_map)
  ultimately show ?thesis using assms by (simp add: shard_ok_def)
qed

lemma sm_set_spec:
  assumes "lawful_table T E" and "shard_ok E hasher cap m" and "entries_of m k \<noteq> None"
  shows "shard_ok E hasher cap (sm_set T m (hasher k) k e)"
    and "entries_of (sm_set T m (hasher k) k e) = (entries_of m)(k \<mapsto> e)"
    and "sm_ledger (sm_set T m (hasher k) k e) = sm_ledger m"
proof -
  obtain p where p: "sm_position T m (hasher k) k = Some p"
    using sm_position_None_iff [OF assms(1,2), of k] assms(3) by auto
  note q = sm_position_Some [OF assms(1,2) p]
  let ?s = "(sm_slots m ! p)\<lparr>s_entry := e\<rparr>"
  have m: "sm_set T m (hasher k) k e = m\<lparr>sm_slots := (sm_slots m)[p := ?s]\<rparr>"
    using p q by (simp add: sm_set_def nth_opt_def)
  note u = table_of_update [OF shard_ok_keys [OF assms(2)] q(1), of ?s]
  have "map s_hash ((sm_slots m)[p := ?s]) = map s_hash (sm_slots m)"
    using list_update_id [of "map s_hash (sm_slots m)" p] q(1) by (simp add: map_update)
  with u(2) show "shard_ok E hasher cap (sm_set T m (hasher k) k e)"
    unfolding m by (intro shard_ok_slots [OF assms(2)]) simp_all
  show "entries_of (sm_set T m (hasher k) k e) = (entries_of m)(k \<mapsto> e)"
    using u(1) [of s_entry] q(2) by (simp add: m entries_of_def)
  show "sm_ledger (sm_set T m (hasher k) k e) = sm_ledger m" by (simp add: m)
qed

lemma sm_insert_spec:
  assumes "lawful_table T E" and "shard_ok E hasher cap m" and "entries_of m k = None"
    and "length (sm_slots m) < cap"
  shows "shard_ok E hasher cap (sm_insert T m (hasher k) k e)"
    and "entries_of (sm_insert T m (hasher k) k e) = (entries_of m)(k \<mapsto> e)"
    and "sm_ledger (sm_insert T m (hasher k) k e) = sm_ledger m"
proof -
  let ?s = "\<lparr>s_hash = hasher k, s_key = k, s_entry = e\<rparr>" and ?m = "sm_insert T m (hasher k) k e"
  have new: "k \<notin> s_key ` set (sm_slots m)" using assms(3) by (simp add: entries_of_def table_of_None)
  have slots: "sm_slots ?m = sm_slots m @ [?s]" by (simp add: sm_insert_def Let_def)
  have "dense E (sm_index ?m) (map s_hash (sm_slots m) @ [hasher k])"
    using dense_push [OF assms(1), of "sm_index m" "map s_hash (sm_slots m)"
        "\<lambda>p. case nth_opt (sm_slots m @ [?s]) p of Some s \<Rightarrow> s_hash s | None \<Rightarrow> 0" "hasher k"] assms(2,4)
    by (auto simp: shard_ok_def sm_insert_def Let_def nth_opt_def nth_append)
  with assms(2,4) new slots show "shard_ok E hasher cap ?m"
    by (auto simp: shard_ok_def sm_insert_def Let_def)
  show "entries_of ?m = (entries_of m)(k \<mapsto> e)"
    using table_of_snoc [of s_key ?s "sm_slots m" s_entry] new slots by (simp add: entries_of_def)
  show "sm_ledger ?m = sm_ledger m" by (simp add: sm_insert_def Let_def)
qed

lemma sm_remove_at_spec:
  assumes "lawful_table T E" and "shard_ok E hasher cap m" and "pos < length (sm_slots m)"
  shows "shard_ok E hasher cap (snd (sm_remove_at T m pos))"
    and "entries_of (snd (sm_remove_at T m pos)) = (entries_of m)(s_key (sm_slots m ! pos) := None)"
    and "sm_ledger (snd (sm_remove_at T m pos)) = sm_ledger m"
    and "length (sm_slots (snd (sm_remove_at T m pos))) = length (sm_slots m) - 1"
proof -
  have d: "dense E (sm_index m) (map s_hash (sm_slots m))" "distinct (map s_key (sm_slots m))"
    and le: "length (map s_hash (sm_slots m)) \<le> U32_MAX" and p: "pos < length (map s_hash (sm_slots m))"
    using assms(2,3) by (simp_all add: shard_ok_def)
  have "map s_hash (swap_remove (sm_slots m) pos) = map (hasher \<circ> s_key) (swap_remove (sm_slots m) pos)"
    using assms(2,3) by (metis map_swap_remove shard_ok_def)
  with dense_reindex [OF assms(1) d(1) p le] distinct_swap_remove(1) [OF d(2) assms(3)] assms
  show "shard_ok E hasher cap (snd (sm_remove_at T m pos))"
    by (auto simp: shard_ok_def sm_remove_at_def map_swap_remove)
  from table_of_swap_remove [OF d(2) assms(3)] assms(3)
  show "entries_of (snd (sm_remove_at T m pos)) = (entries_of m)(s_key (sm_slots m ! pos) := None)"
    by (simp add: entries_of_def sm_remove_at_def)
  from assms(3) show "sm_ledger (snd (sm_remove_at T m pos)) = sm_ledger m"
    "length (sm_slots (snd (sm_remove_at T m pos))) = length (sm_slots m) - 1"
    by (simp_all add: sm_remove_at_def)
qed

subsection \<open>What a key owes\<close>

text \<open>\<open>full b\<close> is the instant at which the bucket \<open>b\<close> is full again.  The bucket's queries
  follow it: this is all the eviction relies on.\<close>

definition lawful_full :: "('b, 'c) bucket_core \<Rightarrow> ('b \<Rightarrow> duration) \<Rightarrow> bool" where
  "lawful_full B full \<longleftrightarrow>
     (\<forall>b now. bc_time_until_at B (bc_capacity B b) now b = Some (full b - now) \<and>
        (bc_capacity B b \<le> bc_available_at B now b \<longleftrightarrow> full b \<le> now))"

lemma lossless_iff: "lawful_full B full \<Longrightarrow> is_lossless B e now \<longleftrightarrow> full (e_bucket e) \<le> now"
  by (simp add: is_lossless_def lawful_full_def)

lemma recovers_in_eq: "lawful_full B full \<Longrightarrow> recovers_in B e now = full (e_bucket e) - now"
  by (simp add: recovers_in_def lawful_full_def)

definition owes :: "('b \<Rightarrow> duration) \<Rightarrow> ('k \<Rightarrow> u64) \<Rightarrow> ('k, 'b, 'i) shard_map \<Rightarrow> 'k \<Rightarrow> duration" where
  "owes full hasher m k =
     (case entries_of m k of
        Some e \<Rightarrow> full (e_bucket e)
      | None \<Rightarrow> (case debts_of (sm_ledger m) (hasher k) of Some a \<Rightarrow> a | None \<Rightarrow> 0))"

text \<open>No key owes less than before, unless what it owed has settled.\<close>

definition keeps_owed ::
  "('b \<Rightarrow> duration) \<Rightarrow> ('k \<Rightarrow> u64) \<Rightarrow> duration \<Rightarrow> ('k, 'b, 'i) shard_map \<Rightarrow> ('k, 'b, 'i) shard_map \<Rightarrow> bool" where
  "keeps_owed full hasher now m m' \<longleftrightarrow>
     (\<forall>k. min (owes full hasher m k) DURATION_MAX \<le> max now (min (owes full hasher m' k) DURATION_MAX))"

lemma keeps_owed_refl [simp]: "keeps_owed full hasher now m m"
  by (simp add: keeps_owed_def)

lemma keeps_owed_trans:
  "keeps_owed full hasher now m m' \<Longrightarrow> keeps_owed full hasher now m' m'' \<Longrightarrow> keeps_owed full hasher now m m''"
  unfolding keeps_owed_def by (meson le_max_iff_disj order_trans)

lemma owes_cursors [simp]:
  "owes full hasher (m\<lparr>sm_hand := x\<rparr>) = owes full hasher m"
  "owes full hasher (m\<lparr>sm_sweep := x\<rparr>) = owes full hasher m"
  by (simp_all add: owes_def fun_eq_iff split: option.split)

text \<open>Dropping an entry that has recovered, or settled debts, forgives nothing.\<close>

lemma keeps_owed_drop:
  assumes "\<And>k. entries_of m' k = entries_of m k \<or>
      entries_of m' k = None \<and> (\<exists>e. entries_of m k = Some e \<and> full (e_bucket e) \<le> now)"
    and "keeps_debts now (debts_of (sm_ledger m)) (debts_of (sm_ledger m'))"
  shows "keeps_owed full hasher now m m'"
proof -
  have "owes full hasher m k \<le> max now (owes full hasher m' k)" for k
    using assms(1) [of k] spec [OF assms(2) [unfolded keeps_debts_def], of "hasher k"]
    by (auto simp: owes_def split: option.splits)
  then show ?thesis unfolding keeps_owed_def by (meson le_max_iff_disj min.cobounded1 min.mono order_trans order_refl min_le_iff_disj)
qed

lemma sweep_idle_spec:
  assumes "lawful_table T E"
  shows "shard_ok E hasher cap m \<Longrightarrow> sweep_idle B T now now_ms ttl_ms n r m = (r', m') \<Longrightarrow>
    shard_ok E hasher cap m' \<and> sm_ledger m' = sm_ledger m \<and>
    length (sm_slots m') + r' = length (sm_slots m) + r \<and>
    (\<forall>k. entries_of m' k = entries_of m k \<or> entries_of m' k = None \<and>
       (\<exists>e. entries_of m k = Some e \<and> is_lossless B e now \<and> is_expired e now_ms ttl_ms))"
proof (induction n arbitrary: r m)
  case (Suc n)
  let ?m1 = "if sm_sweep m \<ge> length (sm_slots m) then m\<lparr>sm_sweep := 0\<rparr> else m"
  let ?c = "sm_sweep ?m1"
  have m1: "shard_ok E hasher cap ?m1" "entries_of ?m1 = entries_of m" "sm_slots ?m1 = sm_slots m"
    "sm_ledger ?m1 = sm_ledger m" using Suc.prems(1) by simp_all
  show ?case
  proof (cases "sm_slots m = []")
    case False
    then have c: "?c < length (sm_slots ?m1)" by auto
    let ?e = "s_entry (sm_slots m ! ?c)"
    show ?thesis
    proof (cases "is_expired ?e now_ms ttl_ms \<and> is_lossless B ?e now")
      case True
      let ?m2 = "snd (sm_remove_at T ?m1 ?c)"
      note rem = sm_remove_at_spec [OF assms m1(1) c]
      have "sweep_idle B T now now_ms ttl_ms n (r + 1) ?m2 = (r', m')"
        using Suc.prems(2) False True c m1(3) by (simp add: Let_def nth_opt_def)
      note ih = Suc.IH [OF rem(1) this]
      have "entries_of m (s_key (sm_slots m ! ?c)) = Some ?e"
        using shard_ok_keys [OF m1(1)] c m1(3) by (auto simp: entries_of_def table_of_nth)
      moreover have "length (sm_slots ?m2) + 1 = length (sm_slots m)"
        using rem(4) c m1(3) by simp
      ultimately show ?thesis using ih rem(2,3) m1 True by (auto simp del: sweep_idle.simps split: if_splits)
    next
      case stay: False
      have "sweep_idle B T now now_ms ttl_ms n r (?m1\<lparr>sm_sweep := ?c + 1\<rparr>) = (r', m')"
        using Suc.prems(2) False stay c m1(3) by (auto simp: Let_def nth_opt_def)
      with Suc.IH [of "?m1\<lparr>sm_sweep := ?c + 1\<rparr>" r] m1 show ?thesis by (simp del: sweep_idle.simps)
    qed
  qed (use Suc.prems in simp)
qed simp

subsection \<open>The CLOCK hand\<close>

text \<open>The hand changes reference bits only.\<close>

definition slot_core :: "('k, 'b) slot \<Rightarrow> u64 \<times> 'k \<times> 'b \<times> u64" where
  "slot_core s = (s_hash s, s_key s, e_bucket (s_entry s), e_last_seen_ms (s_entry s))"

definition scan_ok :: "('b, 'c) bucket_core \<Rightarrow> duration \<Rightarrow> ('k, 'b) slot list \<Rightarrow> clock_scan \<Rightarrow> bool" where
  "scan_ok B now slots c \<longleftrightarrow>
     (\<forall>p. cs_victim c = Some p \<or> cs_first_recovered c = Some p \<longrightarrow>
        p < length slots \<and> is_lossless B (s_entry (slots ! p)) now) \<and>
     (\<forall>p f d. cs_limited c = Some (p, f, d) \<longrightarrow>
        p < length slots \<and> \<not> is_lossless B (s_entry (slots ! p)) now \<and> d = recovers_in B (s_entry (slots ! p)) now)"

lemma core_eq:
  assumes "map slot_core xs = map slot_core ys"
  shows "map s_key xs = map s_key ys" and "map s_hash xs = map s_hash ys" and "length xs = length ys"
    and "p < length ys \<Longrightarrow> e_bucket (s_entry (xs ! p)) = e_bucket (s_entry (ys ! p))"
    and "map_option e_bucket (table_of s_key s_entry xs k) = map_option e_bucket (table_of s_key s_entry ys k)"
proof -
  show len: "length xs = length ys" using assms by (metis length_map)
  have nth: "slot_core (xs ! i) = slot_core (ys ! i)" if "i < length ys" for i
    using assms that len by (metis nth_map)
  then show "map s_key xs = map s_key ys" "map s_hash xs = map s_hash ys"
    by (auto intro!: nth_equalityI simp: len slot_core_def)
  show "p < length ys \<Longrightarrow> e_bucket (s_entry (xs ! p)) = e_bucket (s_entry (ys ! p))"
    using nth [of p] by (simp add: slot_core_def)
  have "map (\<lambda>s. (s_key s, e_bucket (s_entry s))) xs = map (\<lambda>s. (s_key s, e_bucket (s_entry s))) ys"
    using nth by (auto intro!: nth_equalityI simp: len slot_core_def)
  then have "table_of s_key (\<lambda>s. e_bucket (s_entry s)) xs = table_of s_key (\<lambda>s. e_bucket (s_entry s)) ys"
    by (simp add: table_of_def)
  moreover have "map_option e_bucket (table_of s_key s_entry zs k) = table_of s_key (\<lambda>s. e_bucket (s_entry s)) zs k"
    for zs :: "('a, 'b) slot list" by (induction zs) (simp_all add: table_of_def)
  ultimately show "map_option e_bucket (table_of s_key s_entry xs k) = map_option e_bucket (table_of s_key s_entry ys k)"
    by metis
qed

lemma lossless_bucket: "e_bucket e = e_bucket e' \<Longrightarrow> is_lossless B e now = is_lossless B e' now"
  and recovers_bucket: "e_bucket e = e_bucket e' \<Longrightarrow> recovers_in B e now = recovers_in B e' now"
  by (simp_all add: is_lossless_def recovers_in_def)

lemma scan_ok_core:
  assumes "map slot_core xs = map slot_core ys"
  shows "scan_ok B now xs c = scan_ok B now ys c"
proof -
  have "is_lossless B (s_entry (xs ! p)) now = is_lossless B (s_entry (ys ! p)) now"
    "recovers_in B (s_entry (xs ! p)) now = recovers_in B (s_entry (ys ! p)) now" if "p < length ys" for p
    using core_eq(4) [OF assms that] by (rule lossless_bucket recovers_bucket)+
  with core_eq(3) [OF assms] show ?thesis by (auto simp: scan_ok_def)
qed

lemma core_clear_bit: "map slot_core (clear_bit slots i) = map slot_core slots"
proof (cases "i < length slots")
  case True
  with list_update_id [of "map slot_core slots" i] show ?thesis
    by (simp add: clear_bit_def map_update slot_core_def)
qed (simp add: clear_bit_def list_update_beyond)

lemma clock_wrap_hand: "slots \<noteq> [] \<Longrightarrow> cs_hand (clock_wrap (length slots) c) < length slots"
  and clock_wrap_same [simp]: "cs_victim (clock_wrap n c) = cs_victim c"
  "cs_first_recovered (clock_wrap n c) = cs_first_recovered c" "cs_limited (clock_wrap n c) = cs_limited c"
  by (simp_all add: clock_wrap_def)

lemma clock_visit_ok:
  "scan_ok B now slots c \<Longrightarrow> cs_hand c < length slots \<Longrightarrow>
   scan_ok B now slots (clock_visit B now (s_entry (slots ! cs_hand c)) c)"
  by (auto simp: scan_ok_def clock_visit_def note_recovered_def note_limited_def Let_def split: if_splits)

lemma clock_visit_finds:
  "cs_victim (clock_visit B now e c) \<noteq> None \<or> cs_first_recovered (clock_visit B now e c) \<noteq> None \<or>
   cs_limited (clock_visit B now e c) \<noteq> None"
  by (auto simp: clock_visit_def note_recovered_def note_limited_def Let_def split: option.splits)

lemma clock_visit_recovered:
  "is_lossless B e now \<Longrightarrow> cs_victim (clock_visit B now e c) \<noteq> None \<or> cs_first_recovered (clock_visit B now e c) \<noteq> None"
  "cs_first_recovered c \<noteq> None \<Longrightarrow> cs_first_recovered (clock_visit B now e c) \<noteq> None"
  "cs_victim (clock_visit B now e c) = None \<Longrightarrow> cs_hand (clock_visit B now e c) = cs_hand c + 1"
  by (auto simp: clock_visit_def note_recovered_def note_limited_def Let_def)

definition scan_found :: "clock_scan \<Rightarrow> bool" where
  "scan_found c \<longleftrightarrow> cs_victim c \<noteq> None \<or> cs_first_recovered c \<noteq> None \<or> cs_limited c \<noteq> None"

lemma clock_loop_spec:
  assumes "clock_loop B now n slots c = (slots', c')" and "scan_ok B now slots c" and "slots \<noteq> []"
  shows "map slot_core slots' = map slot_core slots \<and> scan_ok B now slots c' \<and>
    (n \<noteq> 0 \<or> scan_found c \<longrightarrow> scan_found c')"
  using assms
proof (induction n arbitrary: slots c)
  case (Suc n)
  let ?c = "clock_wrap (length slots) c"
  let ?h = "cs_hand ?c"
  let ?c1 = "clock_visit B now (s_entry (slots ! ?h)) ?c" and ?s = "clear_bit slots ?h"
  have h: "?h < length slots" using Suc.prems(3) by (rule clock_wrap_hand)
  have loop: "clock_loop B now (Suc n) slots c =
      (if cs_victim ?c1 \<noteq> None then (?s, ?c1) else clock_loop B now n ?s ?c1)"
    using h by (simp add: nth_opt_def Let_def)
  have "scan_ok B now slots ?c" using Suc.prems(2) by (simp add: scan_ok_def)
  then have ok: "scan_ok B now slots ?c1" using h by (rule clock_visit_ok)
  have found: "scan_found ?c1" unfolding scan_found_def by (rule clock_visit_finds)
  have ne: "?s \<noteq> []" using Suc.prems(3) by (simp add: clear_bit_def)
  show ?case
  proof (cases "cs_victim ?c1 = None")
    case False
    then show ?thesis using loop Suc.prems(1) ok found core_clear_bit by (metis Pair_inject)
  next
    case True
    then have r: "clock_loop B now n ?s ?c1 = (slots', c')" using loop Suc.prems(1) by simp
    have "scan_ok B now ?s ?c1" using ok scan_ok_core [OF core_clear_bit] by blast
    from Suc.IH [OF r this ne] found show ?thesis
      by (simp add: core_clear_bit scan_ok_core [OF core_clear_bit])
  qed
qed simp

text \<open>A recovered entry within reach of the hand is found.\<close>

lemma clock_loop_finds_recovered:
  assumes "clock_loop B now n slots c = (slots', c')" and "slots \<noteq> []"
    and "cs_first_recovered c \<noteq> None \<or>
      (\<exists>j < n. is_lossless B (s_entry (slots ! ((cs_hand (clock_wrap (length slots) c) + j) mod length slots))) now)"
  shows "cs_victim c' \<noteq> None \<or> cs_first_recovered c' \<noteq> None"
  using assms
proof (induction n arbitrary: slots c)
  case (Suc n)
  let ?c = "clock_wrap (length slots) c"
  let ?h = "cs_hand ?c"
  let ?c1 = "clock_visit B now (s_entry (slots ! ?h)) ?c" and ?s = "clear_bit slots ?h"
  have h: "?h < length slots" using Suc.prems(2) by (rule clock_wrap_hand)
  have loop: "clock_loop B now (Suc n) slots c =
      (if cs_victim ?c1 \<noteq> None then (?s, ?c1) else clock_loop B now n ?s ?c1)"
    using h by (simp add: nth_opt_def Let_def)
  show ?case
  proof (cases "cs_victim ?c1 = None")
    case True
    then have r: "clock_loop B now n ?s ?c1 = (slots', c')" using loop Suc.prems(1) by simp
    have ne: "?s \<noteq> []" and len: "length ?s = length slots" using Suc.prems(2) by (simp_all add: clear_bit_def)
    have next_hand: "cs_hand (clock_wrap (length ?s) ?c1) = (?h + 1) mod length slots"
      using clock_visit_recovered(3) [OF True] h len by (auto simp: clock_wrap_def le_Suc_eq)
    have same: "is_lossless B (s_entry (?s ! p)) now = is_lossless B (s_entry (slots ! p)) now" if "p < length slots" for p
      using core_eq(4) [OF core_clear_bit that] by (rule lossless_bucket)
    have "cs_first_recovered ?c1 \<noteq> None \<or>
      (\<exists>j < n. is_lossless B (s_entry (?s ! ((cs_hand (clock_wrap (length ?s) ?c1) + j) mod length ?s))) now)"
      using Suc.prems(3)
    proof
      assume "cs_first_recovered c \<noteq> None"
      then show ?thesis by (simp add: clock_visit_recovered(2))
    next
      assume "\<exists>j < Suc n. is_lossless B (s_entry (slots ! ((?h + j) mod length slots))) now"
      then obtain j where j: "j < Suc n" "is_lossless B (s_entry (slots ! ((?h + j) mod length slots))) now" by blast
      show ?thesis
      proof (cases j)
        case 0
        then show ?thesis using j h True clock_visit_recovered(1) [of B "s_entry (slots ! ?h)" now ?c] by auto
      next
        case (Suc i)
        have "(cs_hand (clock_wrap (length ?s) ?c1) + i) mod length ?s = (?h + j) mod length slots"
          unfolding next_hand unfolding len using Suc by (simp add: mod_add_left_eq)
        moreover have "(?h + j) mod length slots < length slots" using Suc.prems(2) by simp
        ultimately show ?thesis using j Suc same [of "(?h + j) mod length slots"]
          by (intro disjI2 exI [of _ i]) simp
      qed
    qed
    from Suc.IH [OF r ne this] show ?thesis .
  next
    case False
    then show ?thesis using loop Suc.prems(1) by (metis Pair_inject)
  qed
qed simp

subsection \<open>Eviction\<close>

lemma clock_start_ok: "scan_ok B now slots (clock_start hand)"
  by (simp add: scan_ok_def clock_start_def)

text \<open>The slots after a scan: same keys, buckets and hashes.\<close>

lemma scanned_shard:
  assumes "shard_ok E hasher cap m" and "map slot_core slots = map slot_core (sm_slots m)"
  shows "shard_ok E hasher cap (m\<lparr>sm_slots := slots, sm_hand := x\<rparr>)"
    and "map_option e_bucket (entries_of (m\<lparr>sm_slots := slots, sm_hand := x\<rparr>) k) = map_option e_bucket (entries_of m k)"
  using shard_ok_slots [OF assms(1) core_eq(1,2) [OF assms(2)]] core_eq(5) [OF assms(2), of k]
  by (simp_all add: entries_of_def)

lemma dom_bucket:
  assumes "\<And>k. map_option e_bucket (f k) = map_option e_bucket (g k)"
  shows "dom f = dom g"
proof -
  have "f k = None \<longleftrightarrow> g k = None" for k by (metis assms map_option_is_None)
  then show ?thesis by (auto simp: dom_def)
qed

lemma owes_bucket_eq:
  assumes "map_option e_bucket (entries_of m' k) = map_option e_bucket (entries_of m k)"
    and "debts_of (sm_ledger m') (hasher k) = debts_of (sm_ledger m) (hasher k)"
  shows "owes full hasher m' k = owes full hasher m k"
  using assms by (auto simp: owes_def split: option.splits)

lemma evict_at_spec:
  assumes "lawful_table T E" and "shard_ok E hasher cap m" and "p < length (sm_slots m)"
  shows "shard_ok E hasher cap (evict_at T m p)" and "sm_ledger (evict_at T m p) = sm_ledger m"
    and "entries_of (evict_at T m p) = (entries_of m)(s_key (sm_slots m ! p) := None)"
    and "length (sm_slots (evict_at T m p)) = length (sm_slots m) - 1"
  using sm_remove_at_spec [OF assms] by (simp_all add: evict_at_def)

lemma entries_of_nth:
  assumes "shard_ok E hasher cap m" and "p < length (sm_slots m)"
  shows "entries_of m (s_key (sm_slots m ! p)) = Some (s_entry (sm_slots m ! p))"
  using table_of_nth [OF shard_ok_keys [OF assms(1)] assms(2)] by (simp add: entries_of_def)

text \<open>Evicting an entry that has recovered forgives nothing; neither does evicting a limited
  one once its debt is recorded.\<close>

lemma evict_recovered_keeps:
  assumes "lawful_table T E" and "shard_ok E hasher cap m" and "p < length (sm_slots m)"
    and "lawful_full B full" and "is_lossless B (s_entry (sm_slots m ! p)) now"
  shows "keeps_owed full hasher now m (evict_at T m p)"
proof (rule keeps_owed_drop)
  show "entries_of (evict_at T m p) k = entries_of m k \<or> entries_of (evict_at T m p) k = None \<and>
      (\<exists>e. entries_of m k = Some e \<and> full (e_bucket e) \<le> now)" for k
    using evict_at_spec(3) [OF assms(1-3)] entries_of_nth [OF assms(2,3)] lossless_iff [OF assms(4)] assms(5)
    by (cases "k = s_key (sm_slots m ! p)") auto
qed (simp add: evict_at_spec(2) [OF assms(1-3)])

lemma evict_limited_keeps:
  assumes L: "lawful_table T E" and ok: "shard_ok E hasher cap m" and p: "p < length (sm_slots m)"
    and F: "lawful_full B full" and cap: "0 < cap"
    and r: "lg_record T (sm_ledger m)
       \<lparr>d_hash = s_hash (sm_slots m ! p), d_settles_at = dur_add now (recovers_in B (s_entry (sm_slots m ! p)) now)\<rparr>
       now cap False = (Inr u, g)"
  shows "keeps_owed full hasher now m (evict_at T (m\<lparr>sm_ledger := g\<rparr>) p)"
proof -
  let ?s = "sm_slots m ! p" and ?m1 = "m\<lparr>sm_ledger := g\<rparr>"
  let ?k = "s_key ?s" and ?b = "e_bucket (s_entry (sm_slots m ! p))"
  let ?at = "dur_add now (full ?b - now)"
  have hash: "s_hash ?s = hasher ?k" using shard_ok_hash [OF ok] p by simp
  from lg_record_spec [OF L shard_ok_ledger [OF ok] cap _ r] obtain D where
    g: "ledger_ok E cap g" and keep: "keeps_debts now (debts_of (sm_ledger m)) D"
    and same: "D (hasher ?k) = debts_of (sm_ledger m) (hasher ?k)"
    and new: "debts_of g = D(hasher ?k \<mapsto>
      later_of (debts_of (sm_ledger m) (hasher ?k)) ?at)"
    by (auto simp: hash recovers_in_eq [OF F])
  have ev: "entries_of (evict_at T ?m1 p) = (entries_of m)(?k := None)" "sm_ledger (evict_at T ?m1 p) = g"
    using evict_at_spec [OF L shard_ok_with_ledger [OF ok g], of p] p by simp_all
  have at_: "min (full ?b) DURATION_MAX \<le> max now ?at" by (auto simp: dur_add_def)
  have "min (owes full hasher m k) DURATION_MAX \<le> max now (min (owes full hasher (evict_at T ?m1 p) k) DURATION_MAX)" for k
  proof (cases "k = ?k")
    case True
    then have "owes full hasher m k = full ?b" using entries_of_nth [OF ok p] by (simp add: owes_def)
    moreover have "?at \<le> owes full hasher (evict_at T ?m1 p) k"
      using True ev new by (cases "debts_of (sm_ledger m) (hasher ?k)") (simp_all add: owes_def)
    moreover have "?at \<le> DURATION_MAX" by (simp add: dur_add_def)
    ultimately show ?thesis using at_ by linarith
  next
    case False
    then have e: "entries_of (evict_at T ?m1 p) k = entries_of m k" using ev(1) by simp
    show ?thesis
    proof (cases "entries_of m k")
      case None
      have "(case debts_of (sm_ledger m) (hasher k) of Some a \<Rightarrow> a | None \<Rightarrow> 0)
          \<le> max now (case debts_of g (hasher k) of Some a \<Rightarrow> a | None \<Rightarrow> 0)"
        using new same spec [OF keep [unfolded keeps_debts_def], of "hasher k"]
        by (auto split: option.splits)
      then show ?thesis using e None ev(2) by (simp add: owes_def)
    next
      case (Some x)
      then show ?thesis using e by (simp add: owes_def)
    qed
  qed
  then show ?thesis by (simp add: keeps_owed_def)
qed

text \<open>Whatever eviction answers, the shard stays consistent.  A refusal changes neither a
  bucket nor a debt, names at least the shortest wait and never happens when debts may be
  forgotten; otherwise a slot is free and, unless they may be forgotten, all debts are kept.\<close>

lemma evict_one_spec:
  assumes L: "lawful_table T E" and ok: "shard_ok E hasher cap m" and cap: "0 < cap"
    and F: "lawful_full B full" and r: "evict_one B T m now cap forget = (r, m')" and ne: "sm_slots m \<noteq> []"
  shows "shard_ok E hasher cap m' \<and>
    (case r of
       Inl w \<Rightarrow> \<not> forget \<and> MIN_REFUSAL_WAIT \<le> w \<and>
         (\<forall>k. map_option e_bucket (entries_of m' k) = map_option e_bucket (entries_of m k)) \<and>
         debts_of (sm_ledger m') = debts_of (sm_ledger m) \<and>
         length (lg_debts (sm_ledger m')) = length (lg_debts (sm_ledger m))
     | Inr _ \<Rightarrow> length (sm_slots m') < length (sm_slots m) \<and>
         dom (entries_of m') \<subseteq> dom (entries_of m) \<and>
         (\<not> forget \<longrightarrow> keeps_owed full hasher now m m'))"
proof -
  obtain slots c where loop: "clock_loop B now (min CLOCK_SCAN (length (sm_slots m))) (sm_slots m)
      (clock_start (sm_hand m)) = (slots, c)" by fastforce
  have "min CLOCK_SCAN (length (sm_slots m)) \<noteq> 0" using ne by (simp add: CLOCK_SCAN_def)
  with clock_loop_spec [OF loop clock_start_ok ne]
  have core: "map slot_core slots = map slot_core (sm_slots m)" and "scan_ok B now (sm_slots m) c"
    and found: "scan_found c" by auto
  then have scan: "scan_ok B now slots c" using scan_ok_core [OF core] by blast
  let ?m1 = "m\<lparr>sm_slots := slots, sm_hand := cs_hand c\<rparr>"
  note ok1 = scanned_shard(1) [OF ok core, of "cs_hand c"]
    and bk = scanned_shard(2) [OF ok core, of "cs_hand c"]
  have len: "length slots = length (sm_slots m)" by (rule core_eq(3) [OF core])
  have dom1: "dom (entries_of ?m1) = dom (entries_of m)"
    using bk by (rule dom_bucket)
  have k1: "keeps_owed full hasher now m ?m1"
    unfolding keeps_owed_def using owes_bucket_eq [OF bk] by simp
  show ?thesis
  proof (cases "case cs_victim c of Some v \<Rightarrow> Some v | None \<Rightarrow> cs_first_recovered c")
    case (Some p)
    then have p: "p < length (sm_slots ?m1)" "is_lossless B (s_entry (sm_slots ?m1 ! p)) now"
      using scan by (auto simp: scan_ok_def split: option.splits)
    have "r = Inr ()" "m' = evict_at T ?m1 p" using r ne loop Some by (simp_all add: evict_one_def Let_def)
    with evict_at_spec [OF L ok1 p(1)] keeps_owed_trans [OF k1 evict_recovered_keeps [OF L ok1 p(1) F p(2)]]
      len p(1) dom1 show ?thesis by auto
  next
    case None
    then have "cs_limited c \<noteq> None" using found by (auto simp: scan_found_def split: option.splits)
    then obtain p f d where lim: "cs_limited c = Some (p, f, d)" by (cases "cs_limited c") auto
    then have p: "p < length (sm_slots ?m1)" and d: "d = recovers_in B (s_entry (sm_slots ?m1 ! p)) now"
      using scan by (simp_all add: scan_ok_def)
    let ?debt = "\<lparr>d_hash = s_hash (sm_slots ?m1 ! p), d_settles_at = dur_add now d\<rparr>"
    obtain q g where rec: "lg_record T (sm_ledger ?m1) ?debt now cap forget = (q, g)" by fastforce
    note rs = lg_record_spec [OF L shard_ok_ledger [OF ok1] cap _ rec]
    show ?thesis
    proof (cases q)
      case (Inl lw)
      then have "r = Inl (max (min (cs_soonest c) lw) MIN_REFUSAL_WAIT)" "m' = ?m1\<lparr>sm_ledger := g\<rparr>"
        using r ne loop None lim p rec by (simp_all add: evict_one_def Let_def nth_opt_def)
      with rs Inl shard_ok_with_ledger [OF ok1, of g] bk show ?thesis by auto
    next
      case (Inr u)
      then have m': "r = Inr ()" "m' = evict_at T (?m1\<lparr>sm_ledger := g\<rparr>) p"
        using r ne loop None lim p rec by (simp_all add: evict_one_def Let_def nth_opt_def)
      have g: "ledger_ok E cap g" using rs by simp
      have "keeps_owed full hasher now m m'" if "\<not> forget"
        using keeps_owed_trans [OF k1 evict_limited_keeps [OF L ok1 p F cap]] rec Inr d that m'(2) by simp
      moreover note evict_at_spec [OF L shard_ok_with_ledger [OF ok1 g], of p]
      ultimately show ?thesis using m' p len dom1 by auto
    qed
  qed
qed

lemma sweep_ledger_keeps:
  assumes "lawful_table T E" and "shard_ok E hasher cap m"
  shows "shard_ok E hasher cap (m\<lparr>sm_ledger := lg_sweep T now n (sm_ledger m)\<rparr>)"
    and "keeps_owed full hasher now m (m\<lparr>sm_ledger := lg_sweep T now n (sm_ledger m)\<rparr>)"
proof -
  note s = lg_sweep_spec [OF assms(1) shard_ok_ledger [OF assms(2)], of now n]
  show "shard_ok E hasher cap (m\<lparr>sm_ledger := lg_sweep T now n (sm_ledger m)\<rparr>)"
    using s by (intro shard_ok_with_ledger [OF assms(2)]) blast
  show "keeps_owed full hasher now m (m\<lparr>sm_ledger := lg_sweep T now n (sm_ledger m)\<rparr>)"
    using s by (intro keeps_owed_drop) simp_all
qed

text \<open>The entries a sweep leaves: untouched, or recovered and gone.\<close>

definition swept :: "('b, 'c) bucket_core \<Rightarrow> duration \<Rightarrow> ('k, 'b, 'i) shard_map \<Rightarrow> ('k, 'b, 'i) shard_map \<Rightarrow> bool" where
  "swept B now m m' \<longleftrightarrow> (\<forall>k. map_option e_bucket (entries_of m' k) = map_option e_bucket (entries_of m k) \<or>
     entries_of m' k = None \<and> (\<exists>e. entries_of m k = Some e \<and> is_lossless B e now))"

lemma make_room_spec:
  assumes L: "lawful_table T E" and ok: "shard_ok E hasher (st_per_shard_cap st) m" and cap: "0 < st_per_shard_cap st"
    and F: "lawful_full B full" and r: "make_room B T st m now now_ms = (r, m')"
  shows "shard_ok E hasher (st_per_shard_cap st) m' \<and> dom (entries_of m') \<subseteq> dom (entries_of m) \<and>
    (\<not> st_forget_debt st \<longrightarrow> keeps_owed full hasher now m m') \<and>
    (case r of
       Inl w \<Rightarrow> \<not> st_forget_debt st \<and> MIN_REFUSAL_WAIT \<le> w \<and> swept B now m m' \<and>
         keeps_debts now (debts_of (sm_ledger m)) (debts_of (sm_ledger m')) \<and>
         length (lg_debts (sm_ledger m')) \<le> length (lg_debts (sm_ledger m))
     | Inr _ \<Rightarrow> length (sm_slots m') < st_per_shard_cap st)"
proof -
  let ?cap = "st_per_shard_cap st"
  define m1 where "m1 = (case st_idle_ttl_ms st of
      Some ttl_ms \<Rightarrow> snd (sweep_idle B T now now_ms ttl_ms TTL_SWEEP 0 m) | None \<Rightarrow> m)"
  define m2 where "m2 = m1\<lparr>sm_ledger := lg_sweep T now LEDGER_SCAN (sm_ledger m1)\<rparr>"
  have m1: "shard_ok E hasher ?cap m1 \<and> sm_ledger m1 = sm_ledger m \<and>
     (\<forall>k. entries_of m1 k = entries_of m k \<or> entries_of m1 k = None \<and> (\<exists>e. entries_of m k = Some e \<and> is_lossless B e now))"
  proof (cases "st_idle_ttl_ms st")
    case (Some ttl)
    obtain q x where q: "sweep_idle B T now now_ms ttl TTL_SWEEP 0 m = (q, x)" by fastforce
    from sweep_idle_spec [OF L ok q] show ?thesis by (auto simp: m1_def Some q)
  qed (use ok in \<open>simp add: m1_def\<close>)
  have k1: "keeps_owed full hasher now m m1"
    by (rule keeps_owed_drop) (use m1 lossless_iff [OF F] in auto)
  have k2: "keeps_owed full hasher now m m2"
    unfolding m2_def by (rule keeps_owed_trans [OF k1 sweep_ledger_keeps(2) [OF L conjunct1 [OF m1]]])
  have ok2: "shard_ok E hasher ?cap m2" unfolding m2_def by (rule sweep_ledger_keeps(1) [OF L conjunct1 [OF m1]])
  have e2: "entries_of m2 = entries_of m1" by (simp add: m2_def)
  then have dom2: "dom (entries_of m2) \<subseteq> dom (entries_of m)" using m1 by (auto simp: dom_def) (metis option.distinct(1))
  have lg: "keeps_debts now (debts_of (sm_ledger m)) (debts_of (sm_ledger m2))"
    "length (lg_debts (sm_ledger m2)) \<le> length (lg_debts (sm_ledger m))"
    using lg_sweep_spec [OF L shard_ok_ledger, of hasher ?cap m1 now LEDGER_SCAN] m1 by (auto simp: m2_def)
  have run: "make_room B T st m now now_ms =
      (if length (sm_slots m2) \<ge> ?cap then evict_one B T m2 now ?cap (st_forget_debt st) else (Inr (), m2))"
    by (simp add: make_room_def m1_def m2_def Let_def)
  show ?thesis
  proof (cases "length (sm_slots m2) \<ge> ?cap")
    case False
    then show ?thesis using run r ok2 dom2 k2 m1 by auto
  next
    case True
    then have ne: "sm_slots m2 \<noteq> []" using cap by auto
    have "evict_one B T m2 now ?cap (st_forget_debt st) = (r, m')" using run r True by simp
    note ev = evict_one_spec [OF L ok2 cap F this ne]
    have le: "length (sm_slots m2) \<le> ?cap" using ok2 by (simp add: shard_ok_def)
    show ?thesis
    proof (cases r)
      case (Inr u)
      with ev have "dom (entries_of m') \<subseteq> dom (entries_of m2)" by simp
      from subset_trans [OF this dom2] Inr ev le keeps_owed_trans [OF k2] show ?thesis by auto
    next
      case (Inl w)
      with ev have bk: "map_option e_bucket (entries_of m' k) = map_option e_bucket (entries_of m2 k)"
        and dbt: "debts_of (sm_ledger m') = debts_of (sm_ledger m2)" for k by auto
      have "keeps_owed full hasher now m2 m'" unfolding keeps_owed_def using owes_bucket_eq [OF bk] dbt by simp
      then have keep: "keeps_owed full hasher now m m'" using keeps_owed_trans k2 m1 by blast
      have dm: "dom (entries_of m') \<subseteq> dom (entries_of m)"
        using dom2 dom_bucket [of "entries_of m'" "entries_of m2"] bk by simp
      have "map_option e_bucket (entries_of m' k) = map_option e_bucket (entries_of m k) \<or>
          entries_of m' k = None \<and> (\<exists>e. entries_of m k = Some e \<and> is_lossless B e now)" for k
        using spec [OF conjunct2 [OF conjunct2 [OF m1]], of k] bk [of k] by (auto simp: e2)
      then have "swept B now m m'" by (simp add: swept_def)
      with ev Inl lg dbt keep dm show ?thesis by auto
    qed
  qed
qed

end
