(* ===== verification/Store_Safety.thy ===== *)
theory Store_Safety
  imports Shard_Laws
begin

text \<open>
  The store as a whole, under any interleaving of its critical sections: its size, what its
  lookups see, and that no limited key gains an allowance by being evicted.
\<close>

subsection \<open>The invariant\<close>

definition store_ok :: "('i \<Rightarrow> (u64 \<times> u32) multiset) \<Rightarrow> ('k, 'b, 'i) store \<Rightarrow> bool" where
  "store_ok E st \<longleftrightarrow>
     (\<exists>n. length (st_shards st) = 2 ^ n) \<and> st_shard_mask st = length (st_shards st) - 1 \<and>
     0 < st_per_shard_cap st \<and> st_per_shard_cap st \<le> U32_MAX \<and>
     (\<forall>m \<in> set (st_shards st). shard_ok E (st_hasher st) (st_per_shard_cap st) m)"

lemma shard_of_lt: "store_ok E st \<Longrightarrow> shard_of st h < length (st_shards st)"
proof -
  assume "store_ok E st"
  then obtain n where n: "length (st_shards st) = 2 ^ n" "st_shard_mask st = mask n"
    by (auto simp: store_ok_def mask_eq_exp_minus_1)
  then have "shard_of st h = take_bit n (drop_bit SHARD_SHIFT h)"
    by (simp add: shard_of_def take_bit_eq_mask)
  then show ?thesis using n by simp
qed

lemma shard_is_ok: "store_ok E st \<Longrightarrow> shard_ok E (st_hasher st) (st_per_shard_cap st) (shard st h)"
  using shard_of_lt [of E st h] by (simp add: store_ok_def shard_def)

lemma put_shard_same [simp]:
  "st_hasher (put_shard st h m) = st_hasher st" "st_per_shard_cap (put_shard st h m) = st_per_shard_cap st"
  "st_idle_ttl_ms (put_shard st h m) = st_idle_ttl_ms st" "st_forget_debt (put_shard st h m) = st_forget_debt st"
  "st_shard_mask (put_shard st h m) = st_shard_mask st" "length (st_shards (put_shard st h m)) = length (st_shards st)"
  "shard_of (put_shard st h m) = shard_of st"
  by (simp_all add: put_shard_def shard_of_def fun_eq_iff)

lemma shard_put_shard:
  "store_ok E st \<Longrightarrow> shard (put_shard st h m) h' = (if shard_of st h' = shard_of st h then m else shard st h')"
  using shard_of_lt [of E st h] by (auto simp: shard_def) (auto simp: put_shard_def)

lemma put_shard_ok:
  assumes "store_ok E st" and "shard_ok E (st_hasher st) (st_per_shard_cap st) m"
  shows "store_ok E (put_shard st h m)"
proof -
  have "set (st_shards (put_shard st h m)) \<subseteq> insert m (set (st_shards st))"
    by (simp add: put_shard_def set_update_subset_insert)
  then show ?thesis using assms unfolding store_ok_def by (auto simp: store_ok_def)
qed

subsection \<open>What a section leaves to the other keys\<close>

definition others_keep ::
  "('b \<Rightarrow> duration) \<Rightarrow> ('k \<Rightarrow> u64) \<Rightarrow> u64 \<Rightarrow> duration \<Rightarrow> ('k, 'b, 'i) shard_map \<Rightarrow> ('k, 'b, 'i) shard_map \<Rightarrow> bool" where
  "others_keep full hasher h now m m' \<longleftrightarrow>
     (\<forall>k. hasher k \<noteq> h \<longrightarrow>
        min (owes full hasher m k) DURATION_MAX \<le> max now (min (owes full hasher m' k) DURATION_MAX))"

lemma keeps_owed_others: "keeps_owed full hasher now m m' \<Longrightarrow> others_keep full hasher h now m m'"
  by (simp add: keeps_owed_def others_keep_def)

lemma others_keep_trans:
  "others_keep full hasher h now m m' \<Longrightarrow> others_keep full hasher h now m' m'' \<Longrightarrow> others_keep full hasher h now m m''"
  unfolding others_keep_def by (meson le_max_iff_disj order_trans)

lemma others_keep_same:
  assumes "\<And>k. hasher k \<noteq> h \<Longrightarrow> map_option e_bucket (entries_of m' k) = map_option e_bucket (entries_of m k)"
    and "\<And>h'. h' \<noteq> h \<Longrightarrow> debts_of (sm_ledger m') h' = debts_of (sm_ledger m) h'"
  shows "others_keep full hasher h now m m'"
  unfolding others_keep_def using owes_bucket_eq [OF assms] by auto

text \<open>A store step that stays within the shard of \<open>h\<close>.\<close>

definition within ::
  "('i \<Rightarrow> (u64 \<times> u32) multiset) \<Rightarrow> ('b \<Rightarrow> duration) \<Rightarrow> u64 \<Rightarrow> duration \<Rightarrow> ('k, 'b, 'i) store \<Rightarrow> ('k, 'b, 'i) store \<Rightarrow> bool" where
  "within E full h now st st' \<longleftrightarrow>
     (\<exists>m. st' = put_shard st h m \<and> shard_ok E (st_hasher st) (st_per_shard_cap st) m \<and>
        (\<not> st_forget_debt st \<longrightarrow> others_keep full (st_hasher st) h now (shard st h) m))"

lemma withinI:
  "shard_ok E (st_hasher st) (st_per_shard_cap st) m \<Longrightarrow>
   others_keep full (st_hasher st) h now (shard st h) m \<Longrightarrow> within E full h now st (put_shard st h m)"
  by (auto simp: within_def)

lemma within_refl: "store_ok E st \<Longrightarrow> within E full h now st st"
proof -
  assume ok: "store_ok E st"
  have "put_shard st h (shard st h) = st" by (simp add: put_shard_def shard_def)
  moreover have "within E full h now st (put_shard st h (shard st h))"
    by (rule withinI [OF shard_is_ok [OF ok]]) (rule others_keep_same, simp_all)
  ultimately show ?thesis by simp
qed

definition st_owes :: "('b \<Rightarrow> duration) \<Rightarrow> ('k, 'b, 'i) store \<Rightarrow> 'k \<Rightarrow> duration" where
  "st_owes full st k = owes full (st_hasher st) (shard st (st_hasher st k)) k"

lemma within_spec:
  assumes "store_ok E st" and "within E full h now st st'"
  shows "store_ok E st'" and "st_hasher st' = st_hasher st" and "st_forget_debt st' = st_forget_debt st"
    and "\<not> st_forget_debt st \<Longrightarrow> st_hasher st k \<noteq> h \<Longrightarrow>
      min (st_owes full st k) DURATION_MAX \<le> max now (min (st_owes full st' k) DURATION_MAX)"
proof -
  obtain m where m: "st' = put_shard st h m" "shard_ok E (st_hasher st) (st_per_shard_cap st) m"
    and keep: "\<not> st_forget_debt st \<Longrightarrow> others_keep full (st_hasher st) h now (shard st h) m"
    using assms(2) by (auto simp: within_def)
  show "store_ok E st'" using put_shard_ok [OF assms(1) m(2)] m(1) by simp
  show "st_hasher st' = st_hasher st" "st_forget_debt st' = st_forget_debt st" by (simp_all add: m(1))
  assume "\<not> st_forget_debt st" and k: "st_hasher st k \<noteq> h"
  then have "others_keep full (st_hasher st) h now (shard st h) m" by (intro keep)
  then show "min (st_owes full st k) DURATION_MAX \<le> max now (min (st_owes full st' k) DURATION_MAX)"
    using k shard_put_shard [OF assms(1), of h m "st_hasher st k"]
    by (auto simp: st_owes_def m(1) others_keep_def shard_def)
qed

lemma set_entry_within:
  assumes L: "lawful_table T E" and ok: "store_ok E st" and e: "sm_get T (shard st (st_hasher st k)) (st_hasher st k) k = Some e"
  shows "within E full (st_hasher st k) now st
     (put_shard st (st_hasher st k) (sm_set T (shard st (st_hasher st k)) (st_hasher st k) k e'))"
proof -
  note okm = shard_is_ok [OF ok, of "st_hasher st k"]
  have "entries_of (shard st (st_hasher st k)) k \<noteq> None" using e sm_get_spec [OF L okm, of k] by simp
  note s = sm_set_spec [OF L okm this, of e']
  show ?thesis
    by (rule withinI [OF s(1)], rule others_keep_same) (auto simp: s)
qed

lemma touch_section_spec:
  assumes "lawful_table T E" and "store_ok E st" and "touch_section T st k now op = Some (r, st')"
  shows "within E full (st_hasher st k) t st st'"
  using assms(3) set_entry_within [OF assms(1,2)]
  by (auto simp: touch_section_def Let_def split: option.splits prod.splits)

lemma with_existing_spec:
  assumes "lawful_table T E" and "store_ok E st" and "with_existing T st k op = (r, st')"
  shows "within E full (st_hasher st k) t st st'"
  using assms(3) set_entry_within [OF assms(1,2)] within_refl [OF assms(2)]
  by (auto simp: with_existing_def Let_def split: option.splits prod.splits)

text \<open>The section that inserts a key, refused or not.\<close>

lemma insert_section_spec:
  assumes L: "lawful_table T E" and F: "lawful_full B full" and ok: "store_ok E st"
    and r: "insert_section B T st k now config op = (r, st')"
  shows "within E full (st_hasher st k) now st st'"
proof (cases "touch_section T st k now op")
  case (Some x)
  then show ?thesis using r touch_section_spec [OF L ok, of k now op] by (cases x) (auto simp: insert_section_def)
next
  case None
  let ?h = "st_hasher st k" and ?cap = "st_per_shard_cap st"
  let ?m = "shard st ?h"
  note okm = shard_is_ok [OF ok, of ?h]
  have cap: "0 < ?cap" using ok by (simp add: store_ok_def)
  have "sm_get T ?m ?h k = None"
    using None by (auto simp: touch_section_def Let_def split: option.splits prod.splits)
  then have new: "entries_of ?m k = None" using sm_get_spec [OF L okm, of k] by simp
  obtain owed g where tk: "lg_take T (sm_ledger ?m) ?h = (owed, g)" by fastforce
  note t = lg_take_spec [OF L shard_ok_ledger [OF okm] tk]
  let ?taken = "?m\<lparr>sm_ledger := g\<rparr>"
  have ok0: "shard_ok E (st_hasher st) ?cap ?taken" by (rule shard_ok_with_ledger [OF okm t(3)])
  have k0: "others_keep full (st_hasher st) ?h now ?m ?taken"
    by (rule others_keep_same) (simp_all add: t(2))
  obtain q m1 where room: "make_room B T st ?taken now (millis_u64 now) = (q, m1)" by fastforce
  note rm = make_room_spec [OF L ok0 cap F room]
  have k1: "\<not> st_forget_debt st \<Longrightarrow> others_keep full (st_hasher st) ?h now ?m m1"
    using others_keep_trans [OF k0 keeps_owed_others] rm by blast
  have within1: "within E full ?h now st (put_shard st ?h m2)"
    if "shard_ok E (st_hasher st) ?cap m2" and "others_keep full (st_hasher st) ?h now m1 m2" for m2
    unfolding within_def using that k1 others_keep_trans by blast
  show ?thesis
  proof (cases q)
    case (Inl w)
    let ?m2 = "case owed of None \<Rightarrow> m1 | Some a \<Rightarrow>
       m1\<lparr>sm_ledger := snd (lg_record T (sm_ledger m1) \<lparr>d_hash = ?h, d_settles_at = a\<rparr> now USIZE_MAX False)\<rparr>"
    have st': "st' = put_shard st ?h ?m2" using r None tk room Inl by (simp add: insert_section_def Let_def)
    show ?thesis
    proof (cases owed)
      case None
      then show ?thesis using st' rm within1 [of m1] by (auto simp: others_keep_def)
    next
      case (Some a)
      let ?g = "snd (lg_record T (sm_ledger m1) \<lparr>d_hash = ?h, d_settles_at = a\<rparr> now USIZE_MAX False)"
      have "length (lg_debts (sm_ledger m1)) < ?cap"
        using rm Inl t(4) Some shard_ok_ledger [OF okm] by (fastforce simp: ledger_ok_def)
      moreover have "?cap \<le> USIZE_MAX" using ok by (auto simp: store_ok_def U32_MAX_def USIZE_MAX_def)
      ultimately have g: "ledger_ok E ?cap ?g" "debts_of ?g =
          (debts_of (sm_ledger m1))(?h \<mapsto> later_of (debts_of (sm_ledger m1) ?h) a)"
        using lg_record_room [OF L shard_ok_ledger, of "st_hasher st" ?cap m1] rm by auto
      have "others_keep full (st_hasher st) ?h now m1 (m1\<lparr>sm_ledger := ?g\<rparr>)"
        by (rule others_keep_same) (simp_all add: g(2))
      then show ?thesis using st' Some within1 [OF shard_ok_with_ledger [OF _ g(1)]] rm by simp
    qed
  next
    case (Inr u)
    have "entries_of m1 k = None" using rm new by (auto simp: dom_def subset_eq)
    then have ins: "shard_ok E (st_hasher st) ?cap (sm_insert T m1 ?h k e)"
      "entries_of (sm_insert T m1 ?h k e) = (entries_of m1)(k \<mapsto> e)"
      "sm_ledger (sm_insert T m1 ?h k e) = sm_ledger m1" for e
      using sm_insert_spec [OF L, of "st_hasher st" ?cap m1 k e] rm Inr by auto
    have "\<exists>e. st' = put_shard st ?h (sm_insert T m1 ?h k e)"
      using r None tk room Inr by (auto simp: insert_section_def Let_def split: prod.splits)
    then obtain e where "st' = put_shard st ?h (sm_insert T m1 ?h k e)" ..
    moreover have "others_keep full (st_hasher st) ?h now m1 (sm_insert T m1 ?h k e)"
      by (rule others_keep_same) (auto simp: ins(2,3))
    ultimately show ?thesis using within1 [OF ins(1)] by simp
  qed
qed

lemma ledger_within:
  assumes "store_ok E st" and "ledger_ok E (st_per_shard_cap st) g"
    and "\<And>h'. h' \<noteq> h \<Longrightarrow> debts_of g h' = debts_of (sm_ledger (shard st h)) h'"
  shows "within E full h now st (put_shard st h ((shard st h)\<lparr>sm_ledger := g\<rparr>))"
  by (rule withinI [OF shard_ok_with_ledger [OF shard_is_ok [OF assms(1)] assms(2)]], rule others_keep_same)
    (simp_all add: assms(3))

lemma lg_pay_down_spec:
  assumes "lawful_table T E" and "ledger_ok E cap g" and "lg_pay_down B T g h cost config = (r, g')"
  shows "ledger_ok E cap g'" and "h' \<noteq> h \<Longrightarrow> debts_of g' h' = debts_of g h'"
proof -
  have "ledger_ok E cap g' \<and> (h' \<noteq> h \<longrightarrow> debts_of g' h' = debts_of g h')"
  proof (cases "lg_position T g h")
    case None
    then show ?thesis using assms(2,3) by (simp add: lg_pay_down_def)
  next
    case (Some p)
    with lg_position_spec [OF assms(1,2), of h]
    have p: "p < length (lg_debts g)" "d_hash (lg_debts g ! p) = h" by simp_all
    with assms(3) Some obtain a where "g' = g\<lparr>lg_debts := (lg_debts g)[p := (lg_debts g ! p)\<lparr>d_settles_at := a\<rparr>]\<rparr>"
      by (auto simp: lg_pay_down_def nth_opt_def Let_def)
    with lg_update_spec [OF assms(2) p(1), of "(lg_debts g ! p)\<lparr>d_settles_at := a\<rparr>"] p show ?thesis by simp
  qed
  then show "ledger_ok E cap g'" "h' \<noteq> h \<Longrightarrow> debts_of g' h' = debts_of g h'" by blast+
qed

lemma refund_section_spec:
  assumes "lawful_table T E" and "store_ok E st" and "refund_section B T st k cost = Some (r, st')"
  shows "within E full (st_hasher st k) t st st'"
  using assms(3) with_existing_spec [OF assms(1,2), of k "\<lambda>b. ((), bc_refund B cost b)"]
  by (auto simp: refund_section_def Let_def split: prod.splits option.splits if_splits)

lemma pay_section_spec:
  assumes L: "lawful_table T E" and ok: "store_ok E st" and r: "pay_section B T st k cost config = (r, st')"
  shows "within E full (st_hasher st k) t st st'"
proof -
  let ?h = "st_hasher st k"
  obtain q st1 where w: "with_existing T st k (\<lambda>b. ((), bc_refund B cost b)) = (q, st1)" by fastforce
  obtain known g where pd: "lg_pay_down B T (sm_ledger (shard st ?h)) ?h cost config = (known, g)" by fastforce
  note p = lg_pay_down_spec [OF L shard_ok_ledger [OF shard_is_ok [OF ok]] pd]
  show ?thesis
    using r w pd with_existing_spec [OF L ok w] ledger_within [OF ok p(1), of ?h] p(2)
    by (auto simp: pay_section_def Let_def split: option.splits)
qed

lemma store_remove_spec:
  assumes L: "lawful_table T E" and ok: "store_ok E st" and r: "store_remove T st k = (r, st')"
  shows "within E full (st_hasher st k) t st st'"
proof -
  let ?h = "st_hasher st k"
  let ?m = "shard st ?h"
  obtain owed g where tk: "lg_take T (sm_ledger ?m) ?h = (owed, g)" by fastforce
  note t = lg_take_spec [OF L shard_ok_ledger [OF shard_is_ok [OF ok]] tk]
  let ?taken = "?m\<lparr>sm_ledger := g\<rparr>"
  have okt: "shard_ok E (st_hasher st) (st_per_shard_cap st) ?taken"
    by (rule shard_ok_with_ledger [OF shard_is_ok [OF ok] t(3)])
  show ?thesis
  proof (cases "sm_position T ?taken ?h k")
    case None
    then have "st' = put_shard st ?h ?taken" using r tk by (simp add: store_remove_def Let_def)
    then show ?thesis using ledger_within [OF ok t(3)] t(2) by simp
  next
    case (Some p)
    note q = sm_position_Some [OF L okt Some]
    note rem = sm_remove_at_spec [OF L okt q(1)]
    have st': "st' = put_shard st ?h (snd (sm_remove_at T ?taken p))"
      using r tk Some by (auto simp: store_remove_def Let_def split: prod.splits)
    have "others_keep full (st_hasher st) ?h t ?m (snd (sm_remove_at T ?taken p))"
      by (rule others_keep_same) (use rem(2,3) q(2) t(2) in auto)
    with withinI [OF rem(1)] st' show ?thesis by simp
  qed
qed

subsection \<open>Runs of critical sections\<close>

text \<open>Any interleaving of threads is a sequence of these.  A thread that calls
  \<open>with_or_insert\<close> runs \<open>Touch\<close> and, when the key was absent, some time later \<open>Insert\<close>;
  one that calls \<open>refund\<close> runs \<open>Refund\<close> and perhaps \<open>Pay\<close>.\<close>

datatype ('k, 'b) critical =
    Touch 'k duration "'b \<Rightarrow> 'b"
  | Insert 'k duration "'b \<Rightarrow> 'b"
  | Existing 'k "'b \<Rightarrow> 'b"
  | Refund 'k u32
  | Pay 'k u32
  | Remove 'k
  | Clear usize

fun section_key :: "('k, 'b) critical \<Rightarrow> 'k option" where
  "section_key (Touch k _ _) = Some k"
| "section_key (Insert k _ _) = Some k"
| "section_key (Existing k _) = Some k"
| "section_key (Refund k _) = Some k"
| "section_key (Pay k _) = Some k"
| "section_key (Remove k) = Some k"
| "section_key (Clear _) = None"

fun section_time :: "('k, 'b) critical \<Rightarrow> duration" where
  "section_time (Touch _ t _) = t"
| "section_time (Insert _ t _) = t"
| "section_time _ = 0"

fun run_section ::
  "('b, 'c) bucket_core \<Rightarrow> 'i hash_table \<Rightarrow> 'c \<Rightarrow> ('k, 'b) critical \<Rightarrow> ('k, 'b, 'i) store \<Rightarrow> ('k, 'b, 'i) store" where
  "run_section B T config (Touch k t f) st =
     (case touch_section T st k t (\<lambda>b. ((), f b)) of None \<Rightarrow> st | Some (_, st') \<Rightarrow> st')"
| "run_section B T config (Insert k t f) st = snd (insert_section B T st k t config (\<lambda>b. ((), f b)))"
| "run_section B T config (Existing k f) st = snd (with_existing T st k (\<lambda>b. ((), f b)))"
| "run_section B T config (Refund k c) st =
     (case refund_section B T st k c of None \<Rightarrow> st | Some (_, st') \<Rightarrow> st')"
| "run_section B T config (Pay k c) st = snd (pay_section B T st k c config)"
| "run_section B T config (Remove k) st = snd (store_remove T st k)"
| "run_section B T config (Clear i) st = clear_section T i st"

definition run_sections ::
  "('b, 'c) bucket_core \<Rightarrow> 'i hash_table \<Rightarrow> 'c \<Rightarrow> ('k, 'b) critical list \<Rightarrow> ('k, 'b, 'i) store \<Rightarrow> ('k, 'b, 'i) store" where
  "run_sections B T config ss st = fold (run_section B T config) ss st"

lemma run_section_within:
  assumes "lawful_table T E" and "lawful_full B full" and "store_ok E st" and "section_key s = Some k"
  shows "within E full (st_hasher st k) (section_time s) st (run_section B T config s st)"
proof (cases s)
  case (Insert k' t f)
  then show ?thesis using insert_section_spec [OF assms(1-3) prod.collapse [symmetric]] assms(4) by simp
next
  case (Existing k' f)
  then show ?thesis using with_existing_spec [OF assms(1,3) prod.collapse [symmetric]] assms(4) by simp
next
  case (Pay k' c)
  then show ?thesis using pay_section_spec [OF assms(1,3) prod.collapse [symmetric]] assms(4) by simp
next
  case (Remove k')
  then show ?thesis using store_remove_spec [OF assms(1,3) prod.collapse [symmetric]] assms(4) by simp
next
  case (Touch k' t f)
  then show ?thesis using touch_section_spec [OF assms(1,3)] within_refl [OF assms(3)] assms(4)
    by (auto split: option.splits)
next
  case (Refund k' c)
  then show ?thesis using refund_section_spec [OF assms(1,3)] within_refl [OF assms(3)] assms(4)
    by (auto split: option.splits)
qed (use assms(4) in simp)

subsection \<open>A fresh store\<close>

lemma next_power_from_spec:
  "p = 2 ^ i \<Longrightarrow> p \<le> 2 ^ m \<Longrightarrow> n \<le> 2 ^ m \<Longrightarrow>
   \<exists>j. next_power_from p n = 2 ^ j \<and> n \<le> 2 ^ j \<and> (2 :: nat) ^ j \<le> 2 ^ m"
proof (induction p n arbitrary: i rule: next_power_from.induct)
  case (1 p n)
  show ?case
  proof (cases "n \<le> p")
    case True
    then show ?thesis using 1(2,3) by (subst next_power_from.simps) auto
  next
    case False
    then have "(2 :: nat) ^ i < 2 ^ m" using 1(2,4) by linarith
    then have "i < m" by (rule power_less_imp_less_exp [rotated]) simp
    then have "2 * p \<le> 2 ^ m" using 1(2) power_increasing [of "Suc i" m "2 :: nat"] by simp
    moreover have "2 * p = 2 ^ Suc i" using 1(2) by simp
    ultimately have "\<exists>j. next_power_from (2 * p) n = 2 ^ j \<and> n \<le> 2 ^ j \<and> (2 :: nat) ^ j \<le> 2 ^ m"
      using 1(1) [of "Suc i"] 1(2,4) False by auto
    then show ?thesis using False 1(2) by (subst next_power_from.simps) auto
  qed
qed

lemma shards_for_spec: "\<exists>j. shards_for shards ev = 2 ^ j \<and> shards_for shards ev \<le> MAX_SHARDS"
proof -
  let ?n = "clamp 1 MAX_SHARDS (max shards (case ev_max_keys ev of None \<Rightarrow> 1 | Some n \<Rightarrow> div_ceil n MAX_KEYS_PER_SHARD))"
  have "?n \<le> 2 ^ 16" using clamp_bounds [of 1 MAX_SHARDS] by (simp add: MAX_SHARDS_def)
  from next_power_from_spec [of 1 0 16, OF _ _ this] show ?thesis
    by (auto simp: shards_for_def next_power_of_two_def Let_def MAX_SHARDS_def)
qed

lemma store_new_ok:
  assumes "lawful_table T E"
  shows "store_ok E (store_new T shards ev min_idle hasher)"
proof -
  have cap: "0 < cap_for n ev \<and> cap_for n ev \<le> U32_MAX" for n
    using clamp_bounds [of 1 MAX_SLOTS] by (auto simp: cap_for_def MAX_SLOTS_def U32_MAX_def Suc_le_eq split: option.splits)
  from shards_for_spec [of shards ev] obtain j where "shards_for shards ev = 2 ^ j" by blast
  with cap sm_new_ok [OF assms] show ?thesis by (auto simp: store_ok_def store_new_def Let_def)
qed

lemma clear_section_ok: "lawful_table T E \<Longrightarrow> store_ok E st \<Longrightarrow> store_ok E (clear_section T i st)"
  using sm_new_ok [of T E] set_update_subset_insert [of "st_shards st" i "sm_new T"]
  by (auto simp: store_ok_def clear_section_def)

lemma run_section_ok:
  assumes "lawful_table T E" and "lawful_full B full" and "store_ok E st"
  shows "store_ok E (run_section B T config s st)"
proof (cases "section_key s")
  case None
  then show ?thesis using clear_section_ok [OF assms(1,3)] by (cases s) auto
next
  case (Some k)
  then show ?thesis using within_spec(1) [OF assms(3) run_section_within [OF assms]] by blast
qed

lemma run_section_config:
  "st_per_shard_cap (run_section B T config s st) = st_per_shard_cap st \<and>
   length (st_shards (run_section B T config s st)) = length (st_shards st) \<and>
   st_hasher (run_section B T config s st) = st_hasher st"
  by (cases s) (auto simp: touch_section_def insert_section_def with_existing_def refund_section_def pay_section_def
      store_remove_def clear_section_def Let_def split: option.splits prod.splits sum.splits)

lemma run_sections_ok:
  assumes "lawful_table T E" and "lawful_full B full"
  shows "store_ok E st \<Longrightarrow> store_ok E (run_sections B T config ss st) \<and>
    st_per_shard_cap (run_sections B T config ss st) = st_per_shard_cap st \<and>
    length (st_shards (run_sections B T config ss st)) = length (st_shards st) \<and>
    st_hasher (run_sections B T config ss st) = st_hasher st"
proof (induction ss arbitrary: st)
  case (Cons s ss)
  from Cons.IH [OF run_section_ok [OF assms Cons.prems, of config s]] run_section_config [of B T config s st]
  show ?case by (simp add: run_sections_def)
qed (simp add: run_sections_def)

subsection \<open>Size\<close>

lemma sum_list_bound: "(\<And>x. x \<in> set xs \<Longrightarrow> f x \<le> c) \<Longrightarrow> sum_list (map f xs) \<le> length xs * c" for c :: nat
  by (induction xs) (simp_all add: add_mono)

lemma div_ceil_total: "0 < b \<Longrightarrow> b * div_ceil a b \<le> a + b"
  using mult_div_mod_eq [of b a] by (auto simp: div_ceil_def distrib_left)

text \<open>C34: the store is bounded.  However threads interleave, a store built with a cap of \<open>n\<close> keys
  holds at most \<open>n\<close> keys plus one per shard, each shard's ledger at most as many debts as the
  shard has slots, and there are at most \<open>MAX_SHARDS\<close> shards.\<close>

theorem store_stays_bounded:
  assumes "lawful_table T E" and "lawful_full B full" and "ev_max_keys ev = Some n"
  shows "let st = run_sections B T config ss (store_new T shards ev min_idle hasher) in
    store_len st \<le> n + store_shard_count st \<and> store_shard_count st \<le> MAX_SHARDS \<and>
    (\<forall>h. length (lg_debts (sm_ledger (shard st h))) \<le> st_per_shard_cap st)"
proof -
  let ?st = "run_sections B T config ss (store_new T shards ev min_idle hasher)"
  let ?c = "shards_for shards ev"
  have ok: "store_ok E ?st" and cap: "st_per_shard_cap ?st = cap_for ?c ev" and len: "length (st_shards ?st) = ?c"
    using run_sections_ok [OF assms(1,2) store_new_ok [OF assms(1)], where ss = ss and config = config]
    by (simp_all add: store_new_def Let_def)
  have pos: "0 < ?c" using shards_for_spec [of shards ev] by auto
  have "length (sm_slots m) \<le> cap_for ?c ev" if "m \<in> set (st_shards ?st)" for m
    using ok that cap by (auto simp: store_ok_def shard_ok_def)
  then have "store_len ?st \<le> length (st_shards ?st) * cap_for ?c ev"
    unfolding store_len_def by (intro sum_list_bound) blast
  also have "\<dots> \<le> ?c * max 1 (div_ceil n ?c)"
    using assms(3) len by (auto simp: cap_for_def clamp_def MAX_SLOTS_def U32_MAX_def)
  also have "\<dots> \<le> n + ?c" using div_ceil_total [OF pos, of n] by (auto simp: max_def)
  finally have "store_len ?st \<le> n + ?c" .
  moreover have "length (lg_debts (sm_ledger (shard ?st h))) \<le> st_per_shard_cap ?st" for h
    using shard_ok_ledger [OF shard_is_ok [OF ok]] by (simp add: ledger_ok_def)
  ultimately show ?thesis using shards_for_spec [of shards ev] len
    by (auto simp: Let_def store_shard_count_def)
qed

subsection \<open>Debts survive eviction\<close>

text \<open>The bucket of the \<open>better-bucket\<close> crate as the store uses it.  \<open>F b\<close> is the instant at which
  \<open>b\<close> is full, counted in units of a nanosecond over the refill amount, so that one token
  takes \<open>period\<close> units: a fresh bucket is short by what it lacks, taking tokens delays
  the instant by their refill time, and a reservation that may wait for ever is granted.\<close>

definition lawful_core :: "('b, 'c) bucket_core \<Rightarrow> 'c \<Rightarrow> ('b \<Rightarrow> nat) \<Rightarrow> bool" where
  "lawful_core B config F \<longleftrightarrow>
     (let amount = cfg_refill_amount B config; period = cfg_refill_period B config; cap = cfg_capacity B config in
      0 < amount \<and> 0 < period \<and> 0 < cap \<and> lawful_full B (\<lambda>b. div_ceil (F b) amount) \<and>
      (\<forall>now. now * amount + (cap - bc_available_at B now (bc_new B config now)) * period \<le> F (bc_new B config now)) \<and>
      (\<forall>n now b. n \<le> bc_available_at B now b \<longrightarrow>
         max (F b) (now * amount) + n * period \<le> F (snd (bc_acquire_up_to_at B n now b))) \<and>
      (\<forall>c now b. c \<le> cap \<longrightarrow> fst (bc_reserve_at B c DURATION_MAX now b) \<noteq> None \<and>
         max (F b) (now * amount) + c * period \<le> F (snd (bc_reserve_at B c DURATION_MAX now b))))"

definition full_at :: "('b, 'c) bucket_core \<Rightarrow> 'c \<Rightarrow> ('b \<Rightarrow> nat) \<Rightarrow> 'b \<Rightarrow> duration" where
  "full_at B config F b = div_ceil (F b) (cfg_refill_amount B config)"

lemma lawful_core_full: "lawful_core B config F \<Longrightarrow> lawful_full B (full_at B config F)"
  by (simp add: lawful_core_def full_at_def [abs_def] Let_def)

lemma core_reserve:
  assumes "lawful_core B config F" and "c \<le> cfg_capacity B config" and "bc_reserve_at B c DURATION_MAX now b = (r, b')"
  shows "r \<noteq> None" and "F b + c * cfg_refill_period B config \<le> F b'"
proof -
  let ?a = "cfg_refill_amount B config" and ?p = "cfg_refill_period B config"
  have "\<forall>c now b. c \<le> cfg_capacity B config \<longrightarrow> fst (bc_reserve_at B c DURATION_MAX now b) \<noteq> None \<and>
      max (F b) (now * ?a) + c * ?p \<le> F (snd (bc_reserve_at B c DURATION_MAX now b))"
    using assms(1) unfolding lawful_core_def Let_def by blast
  with assms(2,3) have "r \<noteq> None" and le: "max (F b) (now * ?a) + c * ?p \<le> F b'"
    by (metis fst_conv, metis snd_conv)
  then show "r \<noteq> None" "F b + c * ?p \<le> F b'" using max.cobounded1 [of "F b" "now * ?a"] by linarith+
qed

lemma restore_loop_full:
  assumes "lawful_core B config F" and "capacity = cfg_capacity B config"
  shows "F b + owed * cfg_refill_period B config \<le> F (restore_loop B capacity now owed b)"
proof (induction owed arbitrary: b rule: less_induct)
  case (less owed)
  have cap: "0 < capacity" using assms by (simp add: lawful_core_def Let_def)
  show ?case
  proof (cases "owed = 0")
    case True
    then show ?thesis by (simp add: restore_loop.simps)
  next
    case False
    let ?c = "min owed capacity"
    obtain r b1 where r: "bc_reserve_at B ?c DURATION_MAX now b = (r, b1)" by fastforce
    have "?c \<le> cfg_capacity B config" using assms(2) by simp
    note ok = core_reserve(1) [OF assms(1) this r] and f = core_reserve(2) [OF assms(1) this r]
    from ok r False cap have "restore_loop B capacity now owed b = restore_loop B capacity now (owed - ?c) b1"
      by (subst restore_loop.simps) (auto simp: Let_def)
    moreover have "owed - ?c < owed" using False cap by simp
    moreover have "owed * cfg_refill_period B config = ?c * cfg_refill_period B config + (owed - ?c) * cfg_refill_period B config"
      by (simp flip: distrib_right)
    ultimately show ?thesis using less.IH [of "owed - ?c" b1] f by simp
  qed
qed

lemma restored_not_fuller:
  assumes L: "lawful_core B config F"
  shows "settles_at \<le> max now (full_at B config F (restore_debt B (bc_new B config now) config now settles_at))"
proof (cases "settles_at \<le> now")
  case False
  let ?a = "cfg_refill_amount B config" and ?p = "cfg_refill_period B config" and ?cap = "cfg_capacity B config"
  let ?fresh = "bc_new B config now" and ?av = "bc_available_at B now (bc_new B config now)"
  let ?missing = "div_ceil ((settles_at - now) * ?a) ?p"
  let ?keep = "?cap - ?missing"
  let ?b1 = "if ?av > ?keep then snd (bc_acquire_up_to_at B (?av - ?keep) now ?fresh) else ?fresh"
  have a: "0 < ?a" and p: "0 < ?p"
    and fresh: "now * ?a + (?cap - ?av) * ?p \<le> F ?fresh"
    and take_up: "\<And>n b. n \<le> bc_available_at B now b \<Longrightarrow> max (F b) (now * ?a) + n * ?p \<le> F (snd (bc_acquire_up_to_at B n now b))"
    using L by (auto simp: lawful_core_def Let_def)
  have b1: "now * ?a + (?cap - ?keep) * ?p \<le> F ?b1"
  proof (cases "?av > ?keep")
    case True
    then have "max (F ?fresh) (now * ?a) + (?av - ?keep) * ?p \<le> F ?b1"
      using take_up [of "?av - ?keep" ?fresh] by simp
    then have "F ?fresh + (?av - ?keep) * ?p \<le> F ?b1"
      using max.cobounded1 [of "F ?fresh" "now * ?a"] by linarith
    moreover have "?cap - ?keep \<le> (?cap - ?av) + (?av - ?keep)" by linarith
    then have "(?cap - ?keep) * ?p \<le> (?cap - ?av) * ?p + (?av - ?keep) * ?p"
      by (metis distrib_right mult_le_mono1)
    ultimately show ?thesis using fresh by linarith
  next
    case f: False
    then have "(?cap - ?keep) * ?p \<le> (?cap - ?av) * ?p" by (intro mult_le_mono1) simp
    with fresh have "now * ?a + (?cap - ?keep) * ?p \<le> F ?fresh" by linarith
    then show ?thesis using f by simp
  qed
  have eq: "restore_debt B ?fresh config now settles_at = restore_loop B ?cap now (?missing - ?cap) ?b1"
    using False max_absorb1 [of "Suc 0" ?p] p by (simp add: restore_debt_def Let_def)
  have "?missing = (?cap - ?keep) + (?missing - ?cap)" by linarith
  then have parts: "?missing * ?p = (?cap - ?keep) * ?p + (?missing - ?cap) * ?p" by (metis distrib_right)
  have "settles_at * ?a = now * ?a + (settles_at - now) * ?a" using False by (simp flip: distrib_right)
  also have "\<dots> \<le> now * ?a + ?missing * ?p" using div_ceil_upper [OF p] by (intro add_left_mono)
  also have "\<dots> = now * ?a + (?cap - ?keep) * ?p + (?missing - ?cap) * ?p" by (simp only: parts add.assoc)
  also have "\<dots> \<le> F ?b1 + (?missing - ?cap) * ?p" using b1 by (rule add_right_mono)
  also have "\<dots> \<le> F (restore_debt B ?fresh config now settles_at)"
    unfolding eq by (rule restore_loop_full [OF L refl])
  also have "\<dots> \<le> full_at B config F (restore_debt B ?fresh config now settles_at) * ?a"
    unfolding full_at_def by (rule div_ceil_upper [OF a])
  finally have "settles_at \<le> full_at B config F (restore_debt B ?fresh config now settles_at)" using a by simp
  then show ?thesis by simp
qed simp

lemma view_spec:
  assumes "lawful_table T E" and "store_ok E st"
  shows "view B T st k now config op =
    (case entries_of (shard st (st_hasher st k)) k of
       Some e \<Rightarrow> op (e_bucket e)
     | None \<Rightarrow> op (case debts_of (sm_ledger (shard st (st_hasher st k))) (st_hasher st k) of
         None \<Rightarrow> bc_new B config now
       | Some a \<Rightarrow> restore_debt B (bc_new B config now) config now a))"
proof -
  let ?m = "shard st (st_hasher st k)"
  note okm = shard_is_ok [OF assms(2), of "st_hasher st k"]
  show ?thesis
    using lg_position_spec [OF assms(1) shard_ok_ledger [OF okm], of "st_hasher st k"]
    by (auto simp: view_def Let_def sm_get_spec [OF assms(1) okm] nth_opt_def split: option.splits)
qed

lemma view_owes:
  assumes "lawful_table T E" and "lawful_core B config F" and "store_ok E st"
  shows "st_owes (full_at B config F) st k \<le> max now (full_at B config F (view B T st k now config (\<lambda>b. b)))"
  using restored_not_fuller [OF assms(2)] unfolding view_spec [OF assms(1,3)] st_owes_def owes_def
  by (auto split: option.splits)

text \<open>C22: eviction never hands a limited key a fresh allowance.  In a store that refuses new keys
  when full, whatever threads working on keys with other hashes do, in whatever order, up to
  \<open>now\<close>: the bucket that a key's next request will see is not full before the instant at
  which the bucket it had would have been, be the key still stored, evicted with its debt in
  the ledger, or about to be re-created.\<close>

theorem eviction_keeps_debts:
  assumes "lawful_table T E" and "lawful_core B config F" and "store_ok E st" and "\<not> st_forget_debt st"
    and "\<forall>s \<in> set ss. section_time s \<le> now \<and>
      (\<exists>k'. section_key s = Some k' \<and> st_hasher st k' \<noteq> st_hasher st k)"
    and "st_owes (full_at B config F) st k \<le> DURATION_MAX"
  shows "st_owes (full_at B config F) st k
     \<le> max now (full_at B config F (view B T (run_sections B T config ss st) k now config (\<lambda>b. b)))"
proof -
  let ?f = "full_at B config F"
  note full = lawful_core_full [OF assms(2)]
  have "min (st_owes ?f st k) DURATION_MAX \<le> max now (min (st_owes ?f (run_sections B T config ss st) k) DURATION_MAX) \<and>
    store_ok E (run_sections B T config ss st)"
    using assms(3-5)
  proof (induction ss arbitrary: st)
    case (Cons s ss)
    then obtain k' where k': "section_key s = Some k'" "st_hasher st k' \<noteq> st_hasher st k" "section_time s \<le> now" by auto
    let ?st = "run_section B T config s st"
    note w = within_spec [OF Cons.prems(1) run_section_within [OF assms(1) full Cons.prems(1) k'(1), where config = config]]
    have "min (st_owes ?f st k) DURATION_MAX \<le> max (section_time s) (min (st_owes ?f ?st k) DURATION_MAX)"
      using w(4) Cons.prems(2) k'(2) by metis
    moreover have "min (st_owes ?f ?st k) DURATION_MAX \<le>
        max now (min (st_owes ?f (run_sections B T config ss ?st) k) DURATION_MAX) \<and>
      store_ok E (run_sections B T config ss ?st)"
      using Cons.IH [OF w(1)] w(2,3) Cons.prems(2,3) by simp
    ultimately show ?case using k'(3) by (auto simp: run_sections_def)
  qed (simp add: run_sections_def)
  with view_owes [OF assms(1,2), of "run_sections B T config ss st" k now] assms(6) show ?thesis by linarith
qed

subsection \<open>One key's view\<close>

lemma insert_section_view:
  assumes L: "lawful_table T E" and F: "lawful_full B full" and ok: "store_ok E st"
    and absent: "touch_section T st k now op = None"
    and r: "insert_section B T st k now config op = (r, st')"
  shows "case r of
      Inr x \<Rightarrow> x = fst (op (view B T st k now config (\<lambda>b. b))) \<and>
        (\<exists>e. entries_of (shard st' (st_hasher st k)) k = Some e \<and> e_bucket e = snd (op (view B T st k now config (\<lambda>b. b))))
    | Inl w \<Rightarrow> \<not> st_forget_debt st \<and> MIN_REFUSAL_WAIT \<le> w \<and>
        entries_of (shard st' (st_hasher st k)) k = None \<and> entries_of (shard st (st_hasher st k)) k = None \<and>
        debts_of (sm_ledger (shard st' (st_hasher st k))) (st_hasher st k) =
          debts_of (sm_ledger (shard st (st_hasher st k))) (st_hasher st k)"
proof -
  let ?h = "st_hasher st k" and ?cap = "st_per_shard_cap st"
  let ?m = "shard st ?h"
  note okm = shard_is_ok [OF ok, of ?h]
  have cap: "0 < ?cap" using ok by (simp add: store_ok_def)
  have "sm_get T ?m ?h k = None"
    using absent by (auto simp: touch_section_def Let_def split: option.splits prod.splits)
  then have new: "entries_of ?m k = None" using sm_get_spec [OF L okm, of k] by simp
  obtain owed g where tk: "lg_take T (sm_ledger ?m) ?h = (owed, g)" by fastforce
  note t = lg_take_spec [OF L shard_ok_ledger [OF okm] tk]
  let ?taken = "?m\<lparr>sm_ledger := g\<rparr>"
  have okt: "shard_ok E (st_hasher st) ?cap ?taken" by (rule shard_ok_with_ledger [OF okm t(3)])
  obtain q m1 where room: "make_room B T st ?taken now (millis_u64 now) = (q, m1)" by fastforce
  note rm = make_room_spec [OF L okt cap F room]
  have gone: "entries_of m1 k = None" using rm new by (auto simp: dom_def subset_eq)
  have put: "shard (put_shard st ?h m) ?h = m" for m using shard_put_shard [OF ok, of ?h m ?h] by simp
  show ?thesis
  proof (cases q)
    case (Inl w)
    let ?m2 = "case owed of None \<Rightarrow> m1 | Some a \<Rightarrow>
       m1\<lparr>sm_ledger := snd (lg_record T (sm_ledger m1) \<lparr>d_hash = ?h, d_settles_at = a\<rparr> now USIZE_MAX False)\<rparr>"
    have res: "r = Inl w" "st' = put_shard st ?h ?m2"
      using r absent tk room Inl by (simp_all add: insert_section_def Let_def)
    have "keeps_debts now (debts_of g) (debts_of (sm_ledger m1))" using rm Inl by simp
    from spec [OF this [unfolded keeps_debts_def], of ?h] have none: "debts_of (sm_ledger m1) ?h = None"
      using t(2) by simp
    have "debts_of (sm_ledger ?m2) ?h = owed"
    proof (cases owed)
      case (Some a)
      have "length (lg_debts (sm_ledger m1)) < ?cap"
        using rm Inl t(4) Some shard_ok_ledger [OF okm] by (fastforce simp: ledger_ok_def)
      moreover have "?cap \<le> USIZE_MAX" using ok by (auto simp: store_ok_def U32_MAX_def USIZE_MAX_def)
      ultimately show ?thesis
        using lg_record_room [OF L shard_ok_ledger, of "st_hasher st" ?cap m1] rm none Some by simp
    qed (use none in simp)
    moreover have "entries_of ?m2 k = None" using gone by (simp split: option.split)
    ultimately show ?thesis using res put rm Inl new t(1) by simp
  next
    case (Inr u)
    let ?fresh = "bc_new B config now"
    let ?b = "case owed of None \<Rightarrow> ?fresh | Some a \<Rightarrow> restore_debt B ?fresh config now a"
    have v: "view B T st k now config (\<lambda>b. b) = ?b" using view_spec [OF L ok, of B k now config "\<lambda>b. b"] new t(1) by simp
    obtain x b where o: "op ?b = (x, b)" by fastforce
    have res: "r = Inr x" "st' = put_shard st ?h (sm_insert T m1 ?h k (entry_new b (millis_u64 now)))"
      using r absent tk room Inr o by (simp_all add: insert_section_def Let_def)
    have "entries_of (sm_insert T m1 ?h k e) = (entries_of m1)(k \<mapsto> e)" for e
      using sm_insert_spec(2) [OF L, of "st_hasher st" ?cap m1 k e] rm Inr gone by simp
    then show ?thesis using res put v o by (simp add: entry_new_def)
  qed
qed

lemma touch_section_view:
  assumes L: "lawful_table T E" and ok: "store_ok E st" and r: "touch_section T st k now op = Some (x, st')"
  shows "x = fst (op (view B T st k t config (\<lambda>b. b))) \<and>
    (\<exists>e. entries_of (shard st' (st_hasher st k)) k = Some e \<and> e_bucket e = snd (op (view B T st k t config (\<lambda>b. b))))"
proof -
  let ?h = "st_hasher st k"
  let ?m = "shard st ?h"
  note okm = shard_is_ok [OF ok, of ?h]
  obtain e where e: "entries_of ?m k = Some e"
    using r sm_get_spec [OF L okm, of k] by (auto simp: touch_section_def Let_def split: option.splits)
  let ?e = "entry_touch e (millis_u64 now) (st_idle_ttl_ms st \<noteq> None)"
  have b: "e_bucket ?e = e_bucket e" by (simp add: entry_touch_def Let_def)
  obtain y b' where o: "op (e_bucket e) = (y, b')" by fastforce
  have res: "x = y" "st' = put_shard st ?h (sm_set T ?m ?h k (?e\<lparr>e_bucket := b'\<rparr>))"
    using r e sm_get_spec [OF L okm, of k] o b by (simp_all add: touch_section_def Let_def)
  have "entries_of (sm_set T ?m ?h k (?e\<lparr>e_bucket := b'\<rparr>)) k = Some (?e\<lparr>e_bucket := b'\<rparr>)"
    using sm_set_spec(2) [OF L okm, of k] e by simp
  with res o show ?thesis using view_spec [OF L ok, of B k t config "\<lambda>b. b"] e shard_put_shard [OF ok, of ?h _ ?h] by simp
qed

lemma with_or_insert_op:
  assumes "lawful_table T E" and "lawful_full B full" and "store_ok E st"
    and "with_or_insert B T st k now config op = (Inr r, st')"
  shows "op (view B T st k now config (\<lambda>b. b)) = (r, view B T st' k later config (\<lambda>b. b))"
proof -
  let ?v = "view B T st k now config (\<lambda>b. b)" and ?h = "st_hasher st k"
  have *: "r = fst (op ?v) \<and> (\<exists>e. entries_of (shard st' ?h) k = Some e \<and> e_bucket e = snd (op ?v)) \<and>
    store_ok E st' \<and> st_hasher st' = st_hasher st"
  proof (cases "touch_section T st k now op")
    case None
    then have i: "insert_section B T st k now config op = (Inr r, st')" using assms(4) by (simp add: with_or_insert_def)
    from insert_section_view [OF assms(1-3) None i] within_spec(1,2) [OF assms(3) insert_section_spec [OF assms(1-3) i]]
    show ?thesis by simp
  next
    case (Some x)
    then have t: "touch_section T st k now op = Some (r, st')" using assms(4) by (cases x) (simp add: with_or_insert_def)
    from touch_section_view [OF assms(1,3) t, where B = B and t = now and config = config] within_spec(1,2) [OF assms(3) touch_section_spec [OF assms(1,3) t]]
    show ?thesis by blast
  qed
  then obtain e where e: "entries_of (shard st' ?h) k = Some e" "e_bucket e = snd (op ?v)" and ok': "store_ok E st'"
    and same: "st_hasher st' = st_hasher st" by blast
  have "view B T st' k later config (\<lambda>b. b) = snd (op ?v)"
    using view_spec [OF assms(1) ok', of B k later config "\<lambda>b. b"] e same by simp
  then show ?thesis using * by (simp add: prod_eq_iff)
qed

text \<open>A peek sees the bucket an acquire will use.  When \<open>with_or_insert\<close> runs its operation,
  the operation gets exactly the bucket \<open>view\<close> shows at that instant, for a stored key, an
  evicted one with a debt and a new one alike, and what it leaves is what the next \<open>view\<close>
  shows, at any later time.\<close>

theorem peek_matches_acquire:
  assumes "lawful_table T E" and "lawful_full B full" and "store_ok E st"
    and "with_or_insert B T st k now config op = (Inr r, st')"
  shows "op (view B T st k now config (\<lambda>b. b)) = (r, view B T st' k later config (\<lambda>b. b))"
  using assms by (rule with_or_insert_op)

lemma with_or_insert_refused:
  assumes "lawful_table T E" and "lawful_full B full" and "store_ok E st"
    and "with_or_insert B T st k now config op = (Inl wait, st')"
  shows "MIN_REFUSAL_WAIT \<le> wait \<and> \<not> st_forget_debt st \<and>
    view B T st' k later config peek = view B T st k later config peek"
proof -
  have None: "touch_section T st k now op = None" and i: "insert_section B T st k now config op = (Inl wait, st')"
    using assms(4) by (auto simp: with_or_insert_def split: option.splits)
  note w = within_spec(1,2) [OF assms(3) insert_section_spec [OF assms(1-3) i]]
  from insert_section_view [OF assms(1-3) None i] show ?thesis
    using view_spec [OF assms(1) w(1), of B k later config peek] view_spec [OF assms(1,3), of B k later config peek] w(2)
    by simp
qed

text \<open>A refused key loses nothing.  When a full store refuses a new key it names a wait of at
  least a millisecond, creates nothing, and the key's debt, taken out while room was sought,
  is back: every later peek at the key answers as before.  A store that forgets debts never
  refuses.\<close>

theorem refused_key_keeps_debt:
  assumes "lawful_table T E" and "lawful_full B full" and "store_ok E st"
    and "with_or_insert B T st k now config op = (Inl wait, st')"
  shows "MIN_REFUSAL_WAIT \<le> wait \<and> \<not> st_forget_debt st \<and>
    view B T st' k later config peek = view B T st k later config peek"
  using assms by (rule with_or_insert_refused)

text \<open>Recovered keys go first.  When any of the slots the CLOCK hand reaches holds a recovered
  bucket, eviction succeeds by dropping a recovered key: no debt is written, no other key
  is touched, and no limited key is evicted.\<close>

theorem recovered_keys_go_first:
  assumes "lawful_table T E" and "shard_ok E hasher cap m" and "sm_slots m \<noteq> []"
    and "j < min CLOCK_SCAN (length (sm_slots m))"
    and "is_lossless B (s_entry (sm_slots m ! ((cs_hand (clock_wrap (length (sm_slots m)) (clock_start (sm_hand m))) + j)
          mod length (sm_slots m)))) now"
    and "evict_one B T m now cap' forget = (r, m')"
  shows "r = Inr () \<and> sm_ledger m' = sm_ledger m \<and>
    (\<exists>k e. entries_of m k = Some e \<and> is_lossless B e now \<and> entries_of m' k = None \<and>
      (\<forall>k'. k' \<noteq> k \<longrightarrow> map_option e_bucket (entries_of m' k') = map_option e_bucket (entries_of m k')))"
proof -
  obtain slots c where loop: "clock_loop B now (min CLOCK_SCAN (length (sm_slots m))) (sm_slots m)
      (clock_start (sm_hand m)) = (slots, c)" by fastforce
  note sp = clock_loop_spec [OF loop clock_start_ok assms(3)]
  then have core: "map slot_core slots = map slot_core (sm_slots m)" and scan: "scan_ok B now slots c"
    using scan_ok_core [of slots "sm_slots m"] by blast+
  let ?m1 = "m\<lparr>sm_slots := slots, sm_hand := cs_hand c\<rparr>"
  have "cs_victim c \<noteq> None \<or> cs_first_recovered c \<noteq> None"
    using clock_loop_finds_recovered [OF loop assms(3)] assms(4,5) by blast
  then obtain p where v: "(case cs_victim c of Some v \<Rightarrow> Some v | None \<Rightarrow> cs_first_recovered c) = Some p"
    by (cases "cs_victim c") auto
  then have p: "p < length (sm_slots ?m1)" "is_lossless B (s_entry (sm_slots ?m1 ! p)) now"
    using scan by (auto simp: scan_ok_def split: option.splits)
  have res: "r = Inr ()" "m' = evict_at T ?m1 p" using assms(3,6) loop v by (simp_all add: evict_one_def Let_def)
  note ok1 = scanned_shard(1) [OF assms(2) core, of "cs_hand c"]
    and bk = scanned_shard(2) [OF assms(2) core, of "cs_hand c"]
  note ev = evict_at_spec [OF assms(1) ok1 p(1)]
  let ?k = "s_key (sm_slots ?m1 ! p)"
  obtain e where e: "entries_of m ?k = Some e" "e_bucket e = e_bucket (s_entry (sm_slots ?m1 ! p))"
    using bk [of ?k] entries_of_nth [OF ok1 p(1)] by (cases "entries_of m ?k") auto
  moreover have "is_lossless B e now" using p(2) lossless_bucket [OF e(2), of B now] by blast
  moreover have "entries_of m' ?k = None" "\<forall>k'. k' \<noteq> ?k \<longrightarrow>
      map_option e_bucket (entries_of m' k') = map_option e_bucket (entries_of m k')"
    using ev(3) res(2) bk by simp_all
  moreover have "sm_ledger m' = sm_ledger m" using ev(2) res(2) by simp
  ultimately show ?thesis using res(1) by blast
qed

subsection \<open>Concrete parameters\<close>

text \<open>A list of pairs is a lawful table, and the virtual-scheduling token bucket, whose state is
  the instant \<open>F\<close> itself, is a lawful core.\<close>

definition list_table :: "(u64 \<times> u32) list hash_table" where
  "list_table = \<lparr>
     ht_new = [],
     ht_find = (\<lambda>h eq i. map_option snd (List.find (\<lambda>(h', p). h' = h \<and> eq p) i)),
     ht_remove = (\<lambda>h eq i. case List.find (\<lambda>(h', p). h' = h \<and> eq p) i of None \<Rightarrow> i | Some x \<Rightarrow> remove1 x i),
     ht_assign = (\<lambda>h eq q i. case List.find (\<lambda>(h', p). h' = h \<and> eq p) i of
        None \<Rightarrow> i | Some (h', p) \<Rightarrow> (h', q) # remove1 (h', p) i),
     ht_insert_unique = (\<lambda>h q f i. (h, q) # i)\<rparr>"

lemma find_SomeD: "List.find P xs = Some x \<Longrightarrow> x \<in> set xs \<and> P x"
  by (auto simp: find_Some_iff)

lemma find_pair:
  assumes "(h, q) \<in> set i" and "eq q"
  shows "\<exists>p. List.find (\<lambda>(h', p). h' = h \<and> eq p) i = Some (h, p) \<and> (h, p) \<in> set i \<and> eq p"
proof -
  have "List.find (\<lambda>(h', p). h' = h \<and> eq p) i \<noteq> None" using assms by (auto simp: find_None_iff)
  then obtain x where "List.find (\<lambda>(h', p). h' = h \<and> eq p) i = Some x" by blast
  with find_SomeD [OF this] show ?thesis by (cases x) auto
qed

lemma list_table_lawful: "lawful_table list_table mset"
proof -
  have "table_finds list_table mset"
    unfolding table_finds_def list_table_def by (auto dest: find_SomeD simp: find_None_iff)
  moreover have "table_removes list_table mset"
    unfolding table_removes_def using find_pair by (fastforce simp: list_table_def)
  moreover have "table_assigns list_table mset"
    unfolding table_assigns_def using find_pair by (fastforce simp: list_table_def)
  moreover have "table_inserts list_table mset"
    by (simp add: table_inserts_def list_table_def)
  ultimately show ?thesis by (simp add: lawful_table_def) (simp add: list_table_def)
qed

definition gcra_available :: "u32 \<Rightarrow> u32 \<Rightarrow> duration \<Rightarrow> duration \<Rightarrow> nat \<Rightarrow> u32" where
  "gcra_available cap amount period now b = cap - div_ceil (b - now * amount) period"

definition gcra_wait :: "u32 \<Rightarrow> u32 \<Rightarrow> duration \<Rightarrow> u32 \<Rightarrow> duration \<Rightarrow> nat \<Rightarrow> duration" where
  "gcra_wait cap amount period n now b = div_ceil (b - (cap - n) * period) amount - now"

definition gcra_core :: "u32 \<Rightarrow> u32 \<Rightarrow> duration \<Rightarrow> (nat, unit) bucket_core" where
  "gcra_core cap amount period = \<lparr>
     bc_new = (\<lambda>_ now. now * amount),
     bc_capacity = (\<lambda>_. cap),
     bc_available_at = gcra_available cap amount period,
     bc_time_until_at = (\<lambda>n now b. if n \<le> cap then Some (gcra_wait cap amount period n now b) else None),
     bc_acquire_at = (\<lambda>n now b. if n \<le> cap \<and> gcra_wait cap amount period n now b = 0
        then (Allowed, max b (now * amount) + n * period)
        else (Denied (if n \<le> cap then gcra_wait cap amount period n now b else DURATION_MAX), b)),
     bc_acquire_up_to_at = (\<lambda>n now b. let k = min n (gcra_available cap amount period now b) in
        (k, max b (now * amount) + k * period)),
     bc_reserve_at = (\<lambda>n m now b. if n \<le> cap \<and> (m = DURATION_MAX \<or> gcra_wait cap amount period n now b \<le> m)
        then (Some (gcra_wait cap amount period n now b), max b (now * amount) + n * period) else (None, b)),
     bc_refund = (\<lambda>n b. b - n * period),
     bc_reset_at = (\<lambda>now b. now * amount),
     cfg_new = (\<lambda>_ _ _ _. Some ()),
     cfg_capacity = (\<lambda>_. cap),
     cfg_refill_amount = (\<lambda>_. amount),
     cfg_refill_period = (\<lambda>_. period)\<rparr>"

lemma div_ceil_0_iff: "0 < b \<Longrightarrow> div_ceil a b = 0 \<longleftrightarrow> a = 0"
  using div_ceil_upper [of b a] by (cases "a = 0") (auto simp: div_ceil_def)

lemma div_ceil_le_iff: "0 < b \<Longrightarrow> div_ceil a b \<le> n \<longleftrightarrow> a \<le> n * b"
proof
  assume b: "0 < b" and le: "div_ceil a b \<le> n"
  have "a \<le> div_ceil a b * b" by (rule div_ceil_upper [OF b])
  also have "\<dots> \<le> n * b" using le by (rule mult_le_mono1)
  finally show "a \<le> n * b" .
next
  assume b: "0 < b" and le: "a \<le> n * b"
  then have d: "a div b \<le> n" using div_le_mono [OF le, of b] by simp
  show "div_ceil a b \<le> n"
  proof (cases "a mod b = 0")
    case False
    moreover have "a = a div b * b + a mod b" by simp
    ultimately have "a div b \<noteq> n" using le by (metis add_le_same_cancel1 le_zero_eq)
    with d False show ?thesis by (simp add: div_ceil_def)
  qed (use d in \<open>simp add: div_ceil_def\<close>)
qed

lemma gcra_lawful:
  assumes "0 < cap" and "0 < amount" and "0 < period"
  shows "lawful_core (gcra_core cap amount period) () (\<lambda>b. b)"
proof -
  have "cap \<le> cap - div_ceil (b - now * amount) period \<longleftrightarrow> b \<le> now * amount" for b now
    using assms div_ceil_0_iff [OF assms(3), of "b - now * amount"] by auto
  moreover have "cap - div_ceil 0 period = cap" using div_ceil_0_iff [OF assms(3), of 0] by simp
  ultimately show ?thesis using assms
    by (simp add: lawful_core_def lawful_full_def gcra_core_def gcra_wait_def gcra_available_def Let_def
        div_ceil_le_iff)
qed

text \<open>A store of one shard with one slot, over a bucket of five tokens refilled at one per
  microsecond: key \<open>1\<close> has drained its bucket when key \<open>2\<close> arrives.\<close>

abbreviation (input) demo_core :: "(nat, unit) bucket_core" where
  "demo_core \<equiv> gcra_core 5 1 1000"

definition demo_store :: "(nat, nat, (u64 \<times> u32) list) store" where
  "demo_store = snd (with_or_insert demo_core list_table (store_new list_table 1 (ev_capacity 1) 0 (\<lambda>k. k))
     1 0 () (\<lambda>b. bc_acquire_at demo_core 5 0 b))"

lemma lg_sweep_empty: "lg_debts g = [] \<Longrightarrow> lg_sweep T now n g = g"
  by (cases n) simp_all

lemma demo_full: "lawful_full demo_core (full_at demo_core () (\<lambda>b. b))"
  by (rule lawful_core_full [OF gcra_lawful]) simp_all

lemmas store_eval = with_or_insert_def touch_section_def insert_section_def make_room_def evict_one_def
  store_new_def shards_for_def next_power_of_two_def next_power_from.simps cap_for_def idle_ttl_for_def
  ev_capacity_def clamp_def div_ceil_def MAX_SHARDS_def MAX_KEYS_PER_SHARD_def MAX_SLOTS_def U32_MAX_def
  shard_def shard_of_def put_shard_def sm_get_def sm_position_def sm_new_def lg_new_def lg_take_def lg_position_def
  sm_insert_def entry_new_def nth_opt_def pos_u32_def list_table_def gcra_core_def gcra_available_def gcra_wait_def
  LEDGER_SCAN_def CLOCK_SCAN_def clock_start_def clock_wrap_def clock_visit_def note_limited_def clear_bit_def
  is_lossless_def recovers_in_def lg_record_def lg_push_def evict_at_def sm_remove_at_def reindex_def swap_remove_def
  dur_add_def DURATION_MAX_def U64_MAX_def

lemma demo_store_eq: "demo_store = \<lparr>st_shards = [\<lparr>sm_index = [(1, 0)],
    sm_slots = [\<lparr>s_hash = 1, s_key = 1, s_entry = \<lparr>e_bucket = 5000, e_referenced = False, e_last_seen_ms = 0\<rparr>\<rparr>],
    sm_hand = 0, sm_sweep = 0, sm_ledger = \<lparr>lg_index = [], lg_debts = [], lg_cursor = 0\<rparr>\<rparr>],
   st_shard_mask = 0, st_hasher = (\<lambda>k. k), st_per_shard_cap = 1, st_idle_ttl_ms = None, st_forget_debt = False\<rparr>"
  by (simp add: demo_store_def store_eval lg_sweep_empty millis_u64_def to_u64_def)

lemma demo_store_ok: "store_ok mset demo_store"
  by (auto simp: demo_store_eq store_ok_def shard_ok_def ledger_ok_def dense_def U32_MAX_def intro: exI [of _ 0])

theorem store_stays_bounded_witness:
  "let st = run_sections demo_core list_table () [Insert 1 0 Suc, Insert 2 0 Suc]
        (store_new list_table 1 (ev_capacity 1) 0 (\<lambda>k :: nat. k))
   in store_len st \<le> 1 + store_shard_count st"
  using store_stays_bounded [OF list_table_lawful demo_full, of "ev_capacity 1" 1 "()" "[Insert 1 0 Suc, Insert 2 0 Suc]" 1 0
      "\<lambda>k :: nat. k"]
  by (simp add: Let_def ev_capacity_def)

theorem eviction_keeps_debts_witness:
  "st_owes (full_at demo_core () (\<lambda>b. b)) demo_store 1 = 5000 \<and>
   5000 \<le> full_at demo_core () (\<lambda>b. b)
     (view demo_core list_table (run_sections demo_core list_table () [Insert 2 0 (\<lambda>b. b + 1000)] demo_store) 1 0 () (\<lambda>b. b))"
proof -
  have owes: "st_owes (full_at demo_core () (\<lambda>b. b)) demo_store 1 = 5000"
    by (simp add: demo_store_eq st_owes_def owes_def shard_def shard_of_def entries_of_def table_of_def full_at_def
        gcra_core_def div_ceil_def)
  have "lawful_core demo_core () (\<lambda>b. b)" by (rule gcra_lawful) simp_all
  from eviction_keeps_debts [OF list_table_lawful this demo_store_ok, of "[Insert 2 0 (\<lambda>b. b + 1000)]" 0 1] owes
  show ?thesis by (simp add: demo_store_eq DURATION_MAX_def U64_MAX_def)
qed

theorem peek_matches_acquire_witness:
  "\<exists>r st'. with_or_insert demo_core list_table demo_store 1 2000 () (bc_acquire_at demo_core 1 2000) = (Inr r, st') \<and>
     bc_acquire_at demo_core 1 2000 (view demo_core list_table demo_store 1 2000 () (\<lambda>b. b)) =
       (r, view demo_core list_table st' 1 3000 () (\<lambda>b. b))"
proof -
  have "\<exists>r st'. with_or_insert demo_core list_table demo_store 1 2000 () (bc_acquire_at demo_core 1 2000) = (Inr r, st')"
    by (simp add: demo_store_eq store_eval entry_touch_def Let_def)
  then obtain r st' where r: "with_or_insert demo_core list_table demo_store 1 2000 () (bc_acquire_at demo_core 1 2000) = (Inr r, st')"
    by blast
  from peek_matches_acquire [OF list_table_lawful demo_full demo_store_ok r] r show ?thesis by blast
qed

definition demo_full_store :: "(nat, nat, (u64 \<times> u32) list) store" where
  "demo_full_store = snd (with_or_insert demo_core list_table demo_store 2 0 () (\<lambda>b. bc_acquire_at demo_core 5 0 b))"

lemma demo_full_store_ok: "store_ok mset demo_full_store"
proof -
  have "touch_section list_table demo_store 2 0 (\<lambda>b. bc_acquire_at demo_core 5 0 b) = None"
    by (simp add: demo_store_eq store_eval)
  then have "demo_full_store = snd (insert_section demo_core list_table demo_store 2 0 () (\<lambda>b. bc_acquire_at demo_core 5 0 b))"
    by (simp add: demo_full_store_def with_or_insert_def)
  then show ?thesis
    using within_spec(1) [OF demo_store_ok insert_section_spec [OF list_table_lawful demo_full demo_store_ok
          prod.collapse [symmetric], where k = 2 and now = 0 and config = "()" and op = "\<lambda>b. bc_acquire_at demo_core 5 0 b"]]
    by simp
qed

lemma lg_sweep_one:
  assumes "lg_debts g = [d]" and "now < d_settles_at d" and "0 < n"
  shows "lg_sweep T now n g = g\<lparr>lg_cursor := 1\<rparr>"
  using assms
proof (induction n arbitrary: g)
  case (Suc n)
  have step: "lg_sweep T now (Suc n) g = lg_sweep T now n (g\<lparr>lg_cursor := 1\<rparr>)"
    using Suc.prems(1,2) by (cases "lg_cursor g = 0") (simp_all add: nth_opt_def Let_def)
  show ?case
  proof (cases "n = 0")
    case False
    with Suc.IH [of "g\<lparr>lg_cursor := 1\<rparr>"] Suc.prems(1,2) step show ?thesis by simp
  qed (use step in simp)
qed simp

lemma demo_full_store_eq: "demo_full_store = \<lparr>st_shards = [\<lparr>sm_index = [(2, 0)],
    sm_slots = [\<lparr>s_hash = 2, s_key = 2, s_entry = \<lparr>e_bucket = 5000, e_referenced = False, e_last_seen_ms = 0\<rparr>\<rparr>],
    sm_hand = 1, sm_sweep = 0, sm_ledger = \<lparr>lg_index = [(1, 0)], lg_debts = [\<lparr>d_hash = 1, d_settles_at = 5000\<rparr>], lg_cursor = 0\<rparr>\<rparr>],
   st_shard_mask = 0, st_hasher = (\<lambda>k. k), st_per_shard_cap = 1, st_idle_ttl_ms = None, st_forget_debt = False\<rparr>"
  by (simp add: demo_full_store_def demo_store_eq store_eval lg_sweep_empty millis_u64_def to_u64_def)

theorem refused_key_keeps_debt_witness:
  "\<exists>wait st'. with_or_insert demo_core list_table demo_full_store 3 0 () (bc_acquire_at demo_core 1 0) = (Inl wait, st') \<and>
     MIN_REFUSAL_WAIT \<le> wait \<and> view demo_core list_table st' 3 7 () (\<lambda>b. b) = view demo_core list_table demo_full_store 3 7 () (\<lambda>b. b)"
proof -
  have "\<exists>wait st'. with_or_insert demo_core list_table demo_full_store 3 0 () (bc_acquire_at demo_core 1 0) = (Inl wait, st')"
    by (simp add: demo_full_store_eq store_eval lg_sweep_one millis_u64_def to_u64_def Let_def)
  then obtain wait st' where r: "with_or_insert demo_core list_table demo_full_store 3 0 () (bc_acquire_at demo_core 1 0) = (Inl wait, st')"
    by blast
  from refused_key_keeps_debt [OF list_table_lawful demo_full demo_full_store_ok r] r show ?thesis by blast
qed

theorem recovered_keys_go_first_witness:
  "\<exists>m'. evict_one demo_core list_table (shard demo_store 1) 6000 1 False = (Inr (), m') \<and>
     sm_ledger m' = sm_ledger (shard demo_store 1)"
proof -
  let ?m = "shard demo_store 1"
  obtain r m' where r: "evict_one demo_core list_table ?m 6000 1 False = (r, m')" by fastforce
  have "shard_ok mset (\<lambda>k. k) 1 ?m" using shard_is_ok [OF demo_store_ok, of 1] by (simp add: demo_store_eq)
  from recovered_keys_go_first [OF list_table_lawful this, of 0 demo_core 6000 1 False r m'] r
  show ?thesis by (simp add: demo_store_eq store_eval)
qed

end
