(* ===== verification/Per_Key.thy ===== *)
theory Per_Key
  imports Store_Safety
begin

text \<open>
  The per-key limiter (\<open>src/perkey.rs\<close>): one token bucket per key, in the bounded store.
  Its clock is a reading in nanoseconds; the random hasher a store draws when it is built
  is an argument of the operations that build one.
\<close>

record ('k, 'b, 'c, 'i) perkey =
  pk_store :: "('k, 'b, 'i) store"
  pk_config :: "'c option"
  pk_eviction :: eviction
  pk_shards :: usize
  pk_clock :: nat
  pk_epoch :: nat

definition DEFAULT_SHARDS :: usize where "DEFAULT_SHARDS = 16"

definition time_to_full :: "('b, 'c) bucket_core \<Rightarrow> 'c \<Rightarrow> duration" where
  "time_to_full B config =
     to_u64 (div_ceil (sat_mul128 (cfg_refill_period B config) (cfg_capacity B config))
       (max (cfg_refill_amount B config) 1))"

definition pk_assemble ::
  "('b, 'c) bucket_core \<Rightarrow> 'i hash_table \<Rightarrow> ('k \<Rightarrow> u64) \<Rightarrow> 'c option \<Rightarrow> eviction \<Rightarrow> usize \<Rightarrow> nat \<Rightarrow>
   ('k, 'b, 'c, 'i) perkey" where
  "pk_assemble B T hasher config ev shards clock = \<lparr>
     pk_store = store_new T shards ev (case config of None \<Rightarrow> 0 | Some c \<Rightarrow> time_to_full B c) hasher,
     pk_config = config, pk_eviction = ev, pk_shards = shards, pk_clock = clock, pk_epoch = clock\<rparr>"

definition pk_with_clock ::
  "('b, 'c) bucket_core \<Rightarrow> 'i hash_table \<Rightarrow> ('k \<Rightarrow> u64) \<Rightarrow> ('k, 'b, 'c, 'i) perkey \<Rightarrow> nat \<Rightarrow> ('k, 'b, 'c, 'i) perkey" where
  "pk_with_clock B T hasher p clock =
     pk_assemble B T hasher (pk_config p) (pk_eviction p) (pk_shards p) clock"

definition pk_with_eviction ::
  "('b, 'c) bucket_core \<Rightarrow> 'i hash_table \<Rightarrow> ('k \<Rightarrow> u64) \<Rightarrow> ('k, 'b, 'c, 'i) perkey \<Rightarrow> eviction \<Rightarrow> ('k, 'b, 'c, 'i) perkey" where
  "pk_with_eviction B T hasher p ev =
     pk_assemble B T hasher (pk_config p) ev (pk_shards p) (pk_clock p)"

definition pk_with_shards ::
  "('b, 'c) bucket_core \<Rightarrow> 'i hash_table \<Rightarrow> ('k \<Rightarrow> u64) \<Rightarrow> ('k, 'b, 'c, 'i) perkey \<Rightarrow> usize \<Rightarrow> ('k, 'b, 'c, 'i) perkey" where
  "pk_with_shards B T hasher p shards =
     pk_assemble B T hasher (pk_config p) (pk_eviction p) shards (pk_clock p)"

definition pk_capacity :: "('b, 'c) bucket_core \<Rightarrow> ('k, 'b, 'c, 'i) perkey \<Rightarrow> u32" where
  "pk_capacity B p = (case pk_config p of None \<Rightarrow> 0 | Some c \<Rightarrow> cfg_capacity B c)"

definition pk_shard_count :: "('k, 'b, 'c, 'i) perkey \<Rightarrow> usize" where
  "pk_shard_count p = store_shard_count (pk_store p)"

definition pk_len :: "('k, 'b, 'c, 'i) perkey \<Rightarrow> usize" where
  "pk_len p = store_len (pk_store p)"

definition pk_is_empty :: "('k, 'b, 'c, 'i) perkey \<Rightarrow> bool" where
  "pk_is_empty p = store_is_empty (pk_store p)"

definition pk_now :: "('k, 'b, 'c, 'i) perkey \<Rightarrow> duration" where
  "pk_now p = pk_clock p - pk_epoch p"

definition closed :: "u32 \<Rightarrow> decision" where
  "closed cost = (if cost = 0 then Acquired else Impossible)"

fun map_decision :: "bucket_decision \<Rightarrow> decision" where
  "map_decision Allowed = Acquired"
| "map_decision (Denied retry) = (if retry = DURATION_MAX then Impossible else Retry retry)"
| "map_decision Other_Decision = Impossible"

definition pk_decide ::
  "('b, 'c) bucket_core \<Rightarrow> 'i hash_table \<Rightarrow> ('k, 'b, 'c, 'i) perkey \<Rightarrow> 'k \<Rightarrow> u32 \<Rightarrow> decision \<times> ('k, 'b, 'c, 'i) perkey" where
  "pk_decide B T p key cost =
     (case pk_config p of
        None \<Rightarrow> (closed cost, p)
      | Some config \<Rightarrow>
          if cost > cfg_capacity B config then (Impossible, p)
          else if cost = 0 then (Acquired, p)
          else
            (let now = pk_now p in
             case with_or_insert B T (pk_store p) key now config
                    (\<lambda>b. case bc_acquire_at B cost now b of (d, b') \<Rightarrow> (map_decision d, b')) of
               (Inr d, st) \<Rightarrow> (d, p\<lparr>pk_store := st\<rparr>)
             | (Inl wait, st) \<Rightarrow> (Retry wait, p\<lparr>pk_store := st\<rparr>)))"

definition pk_try_acquire_with_cost ::
  "('b, 'c) bucket_core \<Rightarrow> 'i hash_table \<Rightarrow> ('k, 'b, 'c, 'i) perkey \<Rightarrow> 'k \<Rightarrow> u32 \<Rightarrow> bool \<times> ('k, 'b, 'c, 'i) perkey" where
  "pk_try_acquire_with_cost B T p key cost =
     (case pk_decide B T p key cost of (d, p') \<Rightarrow> (is_acquired d, p'))"

definition pk_try_acquire ::
  "('b, 'c) bucket_core \<Rightarrow> 'i hash_table \<Rightarrow> ('k, 'b, 'c, 'i) perkey \<Rightarrow> 'k \<Rightarrow> bool \<times> ('k, 'b, 'c, 'i) perkey" where
  "pk_try_acquire B T p key = pk_try_acquire_with_cost B T p key 1"

definition pk_peek ::
  "('b, 'c) bucket_core \<Rightarrow> 'i hash_table \<Rightarrow> ('k, 'b, 'c, 'i) perkey \<Rightarrow> 'k \<Rightarrow> u32 \<Rightarrow> decision" where
  "pk_peek B T p key cost =
     (case pk_config p of
        None \<Rightarrow> closed cost
      | Some config \<Rightarrow>
          if cost > cfg_capacity B config then Impossible
          else
            (let now = pk_now p in
             case view B T (pk_store p) key now config (bc_time_until_at B cost now) of
               None \<Rightarrow> Impossible
             | Some wait \<Rightarrow> if wait = 0 then Acquired else Retry wait))"

definition pk_available ::
  "('b, 'c) bucket_core \<Rightarrow> 'i hash_table \<Rightarrow> ('k, 'b, 'c, 'i) perkey \<Rightarrow> 'k \<Rightarrow> u32" where
  "pk_available B T p key =
     (case pk_config p of
        None \<Rightarrow> 0
      | Some config \<Rightarrow>
          (let now = pk_now p in view B T (pk_store p) key now config (bc_available_at B now)))"

definition pk_reserve ::
  "('b, 'c) bucket_core \<Rightarrow> 'i hash_table \<Rightarrow> ('k, 'b, 'c, 'i) perkey \<Rightarrow> 'k \<Rightarrow> u32 \<Rightarrow> duration \<Rightarrow>
   duration option \<times> ('k, 'b, 'c, 'i) perkey" where
  "pk_reserve B T p key cost max_wait =
     (case pk_config p of
        None \<Rightarrow> (None, p)
      | Some config \<Rightarrow>
          if cost > cfg_capacity B config then (None, p)
          else if cost = 0 then (Some 0, p)
          else
            (let now = pk_now p in
             case with_or_insert B T (pk_store p) key now config (bc_reserve_at B cost max_wait now) of
               (Inr r, st) \<Rightarrow> (r, p\<lparr>pk_store := st\<rparr>)
             | (Inl _, st) \<Rightarrow> (None, p\<lparr>pk_store := st\<rparr>)))"

definition pk_refund ::
  "('b, 'c) bucket_core \<Rightarrow> 'i hash_table \<Rightarrow> ('k, 'b, 'c, 'i) perkey \<Rightarrow> 'k \<Rightarrow> u32 \<Rightarrow> ('k, 'b, 'c, 'i) perkey" where
  "pk_refund B T p key cost =
     (case pk_config p of
        None \<Rightarrow> p
      | Some config \<Rightarrow> p\<lparr>pk_store := snd (store_refund B T (pk_store p) key cost config)\<rparr>)"

definition pk_remove ::
  "'i hash_table \<Rightarrow> ('k, 'b, 'c, 'i) perkey \<Rightarrow> 'k \<Rightarrow> bool \<times> ('k, 'b, 'c, 'i) perkey" where
  "pk_remove T p key = (case store_remove T (pk_store p) key of (r, st) \<Rightarrow> (r, p\<lparr>pk_store := st\<rparr>))"

definition pk_reset ::
  "('b, 'c) bucket_core \<Rightarrow> 'i hash_table \<Rightarrow> ('k, 'b, 'c, 'i) perkey \<Rightarrow> 'k \<Rightarrow> bool \<times> ('k, 'b, 'c, 'i) perkey" where
  "pk_reset B T p key =
     (let now = pk_now p in
      case with_existing T (pk_store p) key (\<lambda>b. ((), bc_reset_at B now b)) of
        (r, st) \<Rightarrow> (r \<noteq> None, p\<lparr>pk_store := st\<rparr>))"

definition pk_clear :: "'i hash_table \<Rightarrow> ('k, 'b, 'c, 'i) perkey \<Rightarrow> ('k, 'b, 'c, 'i) perkey" where
  "pk_clear T p = p\<lparr>pk_store := store_clear T (pk_store p)\<rparr>"

definition pk_step ::
  "('b, 'c) bucket_core \<Rightarrow> 'i hash_table \<Rightarrow> 'k \<Rightarrow> u32 \<Rightarrow> duration \<Rightarrow> ('k, 'b, 'c, 'i) perkey \<Rightarrow>
   step \<times> ('k, 'b, 'c, 'i) perkey" where
  "pk_step B T key cost budget p =
     (case pk_config p of
        None \<Rightarrow> (if cost = 0 then Granted 0 else Never_Step, p)
      | Some config \<Rightarrow>
          if cost > cfg_capacity B config then (Never_Step, p)
          else if cost = 0 then (Granted 0, p)
          else
            (let now = pk_now p in
             case with_or_insert B T (pk_store p) key now config
                    (\<lambda>b. case bc_reserve_at B cost budget now b of
                       (Some wait, b') \<Rightarrow> (Granted wait, b')
                     | (None, b') \<Rightarrow>
                         ((case bc_time_until_at B cost now b' of
                             None \<Rightarrow> Never_Step | Some wait \<Rightarrow> Retry_Step wait), b')) of
               (Inr s, st) \<Rightarrow> (s, p\<lparr>pk_store := st\<rparr>)
             | (Inl wait, st) \<Rightarrow> (Retry_Step wait, p\<lparr>pk_store := st\<rparr>)))"

definition pk_wait ::
  "('b, 'c) bucket_core \<Rightarrow> 'i hash_table \<Rightarrow> ('k, 'b, 'c, 'i) perkey runtime \<Rightarrow> 'k \<Rightarrow> u32 \<Rightarrow> duration option \<Rightarrow>
   ('k, 'b, 'c, 'i) perkey \<Rightarrow> ((throttle_error + unit) option \<times> ('k, 'b, 'c, 'i) perkey) option" where
  "pk_wait B T rt key cost timeout p =
     (case wait_for rt (pk_step B T key cost) (\<lambda>p. pk_refund B T p key cost) (\<lambda>_. 0) timeout p of
        None \<Rightarrow> None
      | Some (r, p') \<Rightarrow>
          Some (case r of
                  Wait_Ok \<Rightarrow> Some (Inr ())
                | Wait_Err Refusal_Never \<Rightarrow> Some (Inl (CostExceedsCapacity cost (pk_capacity B p')))
                | Wait_Err Refusal_TimedOut \<Rightarrow> Some (Inl DeadlineExceeded)
                | Wait_Dropped \<Rightarrow> None, p'))"

definition pk_acquire_with_cost ::
  "('b, 'c) bucket_core \<Rightarrow> 'i hash_table \<Rightarrow> ('k, 'b, 'c, 'i) perkey runtime \<Rightarrow> 'k \<Rightarrow> u32 \<Rightarrow>
   ('k, 'b, 'c, 'i) perkey \<Rightarrow> ((throttle_error + unit) option \<times> ('k, 'b, 'c, 'i) perkey) option" where
  "pk_acquire_with_cost B T rt key cost p = pk_wait B T rt key cost None p"

definition pk_acquire ::
  "('b, 'c) bucket_core \<Rightarrow> 'i hash_table \<Rightarrow> ('k, 'b, 'c, 'i) perkey runtime \<Rightarrow> 'k \<Rightarrow>
   ('k, 'b, 'c, 'i) perkey \<Rightarrow> ((throttle_error + unit) option \<times> ('k, 'b, 'c, 'i) perkey) option" where
  "pk_acquire B T rt key p = pk_acquire_with_cost B T rt key 1 p"

definition pk_acquire_with_cost_timeout ::
  "('b, 'c) bucket_core \<Rightarrow> 'i hash_table \<Rightarrow> ('k, 'b, 'c, 'i) perkey runtime \<Rightarrow> 'k \<Rightarrow> u32 \<Rightarrow> duration \<Rightarrow>
   ('k, 'b, 'c, 'i) perkey \<Rightarrow> ((throttle_error + unit) option \<times> ('k, 'b, 'c, 'i) perkey) option" where
  "pk_acquire_with_cost_timeout B T rt key cost timeout p = pk_wait B T rt key cost (Some timeout) p"

definition perkey_limiter ::
  "('b, 'c) bucket_core \<Rightarrow> 'i hash_table \<Rightarrow> ('k, ('k, 'b, 'c, 'i) perkey) keyed_limiter" where
  "perkey_limiter B T = \<lparr>
     k_peek = (\<lambda>key cost p. (pk_peek B T p key cost, p)),
     k_acquire_cost = (\<lambda>key cost p. pk_decide B T p key cost),
     k_refund = (\<lambda>key cost p. pk_refund B T p key cost),
     k_reserve = (\<lambda>key cost max_wait p. pk_reserve B T p key cost max_wait),
     k_capacity = pk_capacity B\<rparr>"

subsection \<open>Builder\<close>

record pk_builder =
  pb_amount :: u32
  pb_period :: duration
  pb_burst :: "u32 option"
  pb_initial :: "u32 option"
  pb_eviction :: eviction
  pb_shards :: usize
  pb_clock :: nat

definition pk_builder_new :: "nat \<Rightarrow> pk_builder" where
  "pk_builder_new clock = \<lparr>pb_amount = 0, pb_period = from_secs 1, pb_burst = None, pb_initial = None,
     pb_eviction = ev_default, pb_shards = DEFAULT_SHARDS, pb_clock = clock\<rparr>"

definition pb_rate :: "pk_builder \<Rightarrow> u32 \<Rightarrow> duration \<Rightarrow> pk_builder" where
  "pb_rate b amount period = b\<lparr>pb_amount := amount, pb_period := period\<rparr>"

definition pb_per_second :: "pk_builder \<Rightarrow> u32 \<Rightarrow> pk_builder" where
  "pb_per_second b amount = pb_rate b amount (from_secs 1)"

definition pb_per_minute :: "pk_builder \<Rightarrow> u32 \<Rightarrow> pk_builder" where
  "pb_per_minute b amount = pb_rate b amount (from_secs 60)"

definition pb_set_burst :: "pk_builder \<Rightarrow> u32 \<Rightarrow> pk_builder" where
  "pb_set_burst b burst = b\<lparr>pb_burst := Some burst\<rparr>"

definition pb_set_initial :: "pk_builder \<Rightarrow> u32 \<Rightarrow> pk_builder" where
  "pb_set_initial b initial = b\<lparr>pb_initial := Some initial\<rparr>"

definition pb_set_eviction :: "pk_builder \<Rightarrow> eviction \<Rightarrow> pk_builder" where
  "pb_set_eviction b ev = b\<lparr>pb_eviction := ev\<rparr>"

definition pb_set_shards :: "pk_builder \<Rightarrow> usize \<Rightarrow> pk_builder" where
  "pb_set_shards b shards = b\<lparr>pb_shards := shards\<rparr>"

definition pb_set_clock :: "pk_builder \<Rightarrow> nat \<Rightarrow> pk_builder" where
  "pb_set_clock b clock = b\<lparr>pb_clock := clock\<rparr>"

definition pb_config :: "('b, 'c) bucket_core \<Rightarrow> pk_builder \<Rightarrow> throttle_error + 'c" where
  "pb_config B b =
     (if pb_amount b = 0
      then Inl (InvalidConfig ''rate amount must be non-zero; set it with rate/per_second/per_minute'')
      else if pb_period b = 0 then Inl (InvalidConfig ''rate period must be non-zero'')
      else
        (let capacity = (case pb_burst b of Some n \<Rightarrow> n | None \<Rightarrow> pb_amount b) in
         if capacity = 0 then Inl (InvalidConfig ''burst must be non-zero'')
         else
           (let initial = min (case pb_initial b of Some n \<Rightarrow> n | None \<Rightarrow> capacity) capacity in
            case cfg_new B capacity (pb_amount b) (pb_period b) initial of
              Some c \<Rightarrow> Inr c
            | None \<Rightarrow> Inl (InvalidConfig ''the token bucket rejected the configuration''))))"

definition pk_try_build ::
  "('b, 'c) bucket_core \<Rightarrow> 'i hash_table \<Rightarrow> ('k \<Rightarrow> u64) \<Rightarrow> pk_builder \<Rightarrow> throttle_error + ('k, 'b, 'c, 'i) perkey" where
  "pk_try_build B T hasher b =
     (case pb_config B b of
        Inl e \<Rightarrow> Inl e
      | Inr c \<Rightarrow> Inr (pk_assemble B T hasher (Some c) (pb_eviction b) (pb_shards b) (pb_clock b)))"

definition pk_build ::
  "('b, 'c) bucket_core \<Rightarrow> 'i hash_table \<Rightarrow> ('k \<Rightarrow> u64) \<Rightarrow> pk_builder \<Rightarrow> ('k, 'b, 'c, 'i) perkey" where
  "pk_build B T hasher b =
     pk_assemble B T hasher (case pb_config B b of Inr c \<Rightarrow> Some c | Inl _ \<Rightarrow> None)
       (pb_eviction b) (pb_shards b) (pb_clock b)"

definition pk_per_duration ::
  "('b, 'c) bucket_core \<Rightarrow> 'i hash_table \<Rightarrow> ('k \<Rightarrow> u64) \<Rightarrow> u32 \<Rightarrow> duration \<Rightarrow> nat \<Rightarrow> ('k, 'b, 'c, 'i) perkey" where
  "pk_per_duration B T hasher amount period clock = pk_build B T hasher (pb_rate (pk_builder_new clock) amount period)"

definition pk_per_second ::
  "('b, 'c) bucket_core \<Rightarrow> 'i hash_table \<Rightarrow> ('k \<Rightarrow> u64) \<Rightarrow> u32 \<Rightarrow> nat \<Rightarrow> ('k, 'b, 'c, 'i) perkey" where
  "pk_per_second B T hasher rate clock = pk_per_duration B T hasher rate (from_secs 1) clock"

definition pk_per_minute ::
  "('b, 'c) bucket_core \<Rightarrow> 'i hash_table \<Rightarrow> ('k \<Rightarrow> u64) \<Rightarrow> u32 \<Rightarrow> nat \<Rightarrow> ('k, 'b, 'c, 'i) perkey" where
  "pk_per_minute B T hasher rate clock = pk_per_duration B T hasher rate (from_secs 60) clock"

subsection \<open>Peeking and deciding\<close>

text \<open>What the limiter relies on beyond the store: the bucket grants an acquire exactly when it
  says there is nothing to wait for.\<close>

definition grants_when_ready :: "('b, 'c) bucket_core \<Rightarrow> bool" where
  "grants_when_ready B \<longleftrightarrow>
     (\<forall>c now b. fst (bc_acquire_at B c now b) = Allowed \<longleftrightarrow> bc_time_until_at B c now b = Some 0)"

lemma map_decision_acquired [simp]: "map_decision d = Acquired \<longleftrightarrow> d = Allowed"
  by (cases d) auto

lemma view_comp:
  "view B T st k now config op = op (view B T st k now config (\<lambda>b. b))"
  by (simp add: view_def Let_def split: option.split)

text \<open>A peek predicts the acquire.  An acquire is granted only if a peek just before it says
  so; and when a peek says so the acquire is granted, or the key is new and its shard is
  full of limited keys, in which case the answer is a wait of at least a millisecond and
  later peeks at the key are unchanged.\<close>

theorem peek_predicts_acquire:
  assumes "lawful_table T E" and "lawful_full B full" and "grants_when_ready B"
    and "store_ok E (pk_store p)" and "0 < cost" and "pk_decide B T p k cost = (d, p')"
  shows "(d = Acquired \<longrightarrow> pk_peek B T p k cost = Acquired) \<and>
    (pk_peek B T p k cost = Acquired \<longrightarrow> d = Acquired \<or>
       (\<exists>w. d = Retry w \<and> MIN_REFUSAL_WAIT \<le> w \<and> pk_peek B T p' k cost = Acquired))"
proof (cases "pk_config p")
  case None
  then show ?thesis using assms(5,6) by (auto simp: pk_decide_def pk_peek_def closed_def)
next
  case (Some c)
  let ?v = "view B T (pk_store p) k (pk_now p) c (\<lambda>b. b)"
  let ?op = "\<lambda>b. case bc_acquire_at B cost (pk_now p) b of (d, b') \<Rightarrow> (map_decision d, b')"
  show ?thesis
  proof (cases "cost > cfg_capacity B c")
    case True
    then show ?thesis using Some assms(6) by (auto simp: pk_decide_def pk_peek_def)
  next
    case False
    obtain q st where q: "with_or_insert B T (pk_store p) k (pk_now p) c ?op = (q, st)" by fastforce
    have d: "(d, p') = (case q of Inr d \<Rightarrow> (d, p\<lparr>pk_store := st\<rparr>) | Inl w \<Rightarrow> (Retry w, p\<lparr>pk_store := st\<rparr>))"
      using assms(5,6) Some False q by (auto simp: pk_decide_def Let_def split: sum.splits)
    have peek: "pk_peek B T p k cost = Acquired \<longleftrightarrow> bc_time_until_at B cost (pk_now p) ?v = Some 0"
      using Some False view_comp [of B T "pk_store p" k "pk_now p" c "bc_time_until_at B cost (pk_now p)"]
      by (auto simp: pk_peek_def Let_def split: option.splits)
    show ?thesis
    proof (cases q)
      case (Inr r)
      from with_or_insert_op [OF assms(1,2,4) q [unfolded Inr], of 0] have "r = map_decision (fst (bc_acquire_at B cost (pk_now p) ?v))"
        by (auto split: prod.splits)
      then show ?thesis using d Inr peek assms(3) by (auto simp: grants_when_ready_def)
    next
      case (Inl w)
      have same: "pk_config p' = pk_config p" "pk_now p' = pk_now p" "pk_store p' = st"
        using d Inl by (simp_all add: pk_now_def)
      have "view B T st k (pk_now p) c (bc_time_until_at B cost (pk_now p)) =
          view B T (pk_store p) k (pk_now p) c (bc_time_until_at B cost (pk_now p)) \<and> MIN_REFUSAL_WAIT \<le> w"
        using with_or_insert_refused [OF assms(1,2,4) q [unfolded Inl]] by blast
      then show ?thesis using d Inl Some same by (auto simp: pk_peek_def Let_def)
    qed
  qed
qed

lemma pb_config_invalid:
  "pb_amount b = 0 \<or> pb_period b = 0 \<or> pb_burst b = Some 0 \<Longrightarrow> \<exists>e. pb_config B b = Inl e"
  by (auto simp: pb_config_def Let_def)

text \<open>No state for requests that can never be granted.  A builder with a zero rate, period or
  burst builds a closed limiter, and every way of asking it, like asking any limiter for
  more than its capacity, is refused for good and leaves the store untouched.\<close>

theorem hopeless_requests_leave_no_state:
  assumes "p = pk_build B T hasher b \<and> (pb_amount b = 0 \<or> pb_period b = 0 \<or> pb_burst b = Some 0) \<or>
      pk_capacity B p < cost"
    and "0 < cost"
  shows "pk_decide B T p k cost = (Impossible, p) \<and> pk_peek B T p k cost = Impossible \<and>
    pk_reserve B T p k cost max_wait = (None, p) \<and> pk_step B T k cost budget p = (Never_Step, p)"
proof (cases "pk_config p")
  case None
  then show ?thesis using assms(2)
    by (simp add: pk_decide_def pk_peek_def pk_reserve_def pk_step_def closed_def)
next
  case (Some c)
  then have "pk_capacity B p < cost"
    using assms(1) pb_config_invalid [of b B] by (auto simp: pk_build_def pk_assemble_def)
  with Some show ?thesis
    by (simp add: pk_capacity_def pk_decide_def pk_peek_def pk_reserve_def pk_step_def)
qed

subsection \<open>Waiting\<close>

text \<open>The units a key has taken, as a count kept along with its bucket.\<close>

definition lawful_spend :: "('b, 'c) bucket_core \<Rightarrow> ('b \<Rightarrow> nat) \<Rightarrow> bool" where
  "lawful_spend B spent \<longleftrightarrow>
     (\<forall>b c now d b'. bc_acquire_at B c now b = (d, b') \<longrightarrow> spent b' = spent b + (if d = Allowed then c else 0)) \<and>
     (\<forall>b c m now r b'. bc_reserve_at B c m now b = (r, b') \<longrightarrow> spent b' = spent b + (if r = None then 0 else c)) \<and>
     (\<forall>b c. c \<le> spent b \<longrightarrow> spent (bc_refund B c b) = spent b - c)"

definition key_spent ::
  "('b, 'c) bucket_core \<Rightarrow> 'i hash_table \<Rightarrow> ('b \<Rightarrow> nat) \<Rightarrow> 'k \<Rightarrow> ('k, 'b, 'c, 'i) perkey \<Rightarrow> nat" where
  "key_spent B T spent k p =
     (case pk_config p of None \<Rightarrow> 0 | Some c \<Rightarrow> view B T (pk_store p) k (pk_now p) c spent)"

definition key_stored :: "'k \<Rightarrow> ('k, 'b, 'c, 'i) perkey \<Rightarrow> bool" where
  "key_stored k p \<longleftrightarrow> entries_of (shard (pk_store p) (st_hasher (pk_store p) k)) k \<noteq> None"

definition pk_idle ::
  "('b, 'c) bucket_core \<Rightarrow> 'i hash_table \<Rightarrow> ('i \<Rightarrow> (u64 \<times> u32) multiset) \<Rightarrow> ('b \<Rightarrow> nat) \<Rightarrow> 'k \<Rightarrow> nat \<Rightarrow>
   ('k, 'b, 'c, 'i) perkey \<Rightarrow> bool" where
  "pk_idle B T E spent k n p \<longleftrightarrow> store_ok E (pk_store p) \<and> key_spent B T spent k p = n"

definition pk_holding ::
  "('b, 'c) bucket_core \<Rightarrow> 'i hash_table \<Rightarrow> ('i \<Rightarrow> (u64 \<times> u32) multiset) \<Rightarrow> ('b \<Rightarrow> nat) \<Rightarrow> 'k \<Rightarrow> nat \<Rightarrow>
   ('k, 'b, 'c, 'i) perkey \<Rightarrow> bool" where
  "pk_holding B T E spent k n p \<longleftrightarrow> pk_idle B T E spent k n p \<and> key_stored k p \<and> pk_config p \<noteq> None"

lemma view_op_eq: "view B T st k now config (\<lambda>b. b) = b \<Longrightarrow> view B T st k now config f = f b"
  using view_comp [of B T st k now config f] by simp

lemma with_or_insert_stores:
  assumes L: "lawful_table T E" and F: "lawful_full B full" and ok: "store_ok E st"
    and r: "with_or_insert B T st k now config op = (x, st')"
  shows "store_ok E st'" and "st_hasher st' = st_hasher st"
    and "x = Inr y \<Longrightarrow> entries_of (shard st' (st_hasher st k)) k \<noteq> None"
proof -
  have "within E full (st_hasher st k) now st st' \<and> (\<forall>y. x = Inr y \<longrightarrow> entries_of (shard st' (st_hasher st k)) k \<noteq> None)"
  proof (cases "touch_section T st k now op")
    case None
    then have i: "insert_section B T st k now config op = (x, st')" using r by (simp add: with_or_insert_def)
    from insert_section_view [OF L F ok None i] insert_section_spec [OF L F ok i] show ?thesis
      by (auto split: sum.splits)
  next
    case (Some z)
    then have t: "touch_section T st k now op = Some (fst z, st')" using r by (cases z) (simp add: with_or_insert_def)
    from touch_section_view [OF L ok t, where B = B and t = now and config = config] touch_section_spec [OF L ok t]
    show ?thesis by blast
  qed
  with within_spec(1,2) [OF ok, of full] show "store_ok E st'" "st_hasher st' = st_hasher st"
    "x = Inr y \<Longrightarrow> entries_of (shard st' (st_hasher st k)) k \<noteq> None" by blast+
qed

lemma pk_step_spec:
  assumes L: "lawful_table T E" and F: "lawful_full B full" and S: "lawful_spend B spent"
    and cost: "0 < cost" and idle: "pk_idle B T E spent k n p" and r: "pk_step B T k cost budget p = (s, p')"
  shows "case s of Granted _ \<Rightarrow> pk_holding B T E spent k (n + cost) p' | Holding _ \<Rightarrow> False
    | _ \<Rightarrow> pk_idle B T E spent k n p'"
proof (cases "pk_config p = None \<or> (\<exists>c. pk_config p = Some c \<and> cost > cfg_capacity B c)")
  case True
  then show ?thesis using r idle cost by (auto simp: pk_step_def)
next
  case False
  then obtain c where c: "pk_config p = Some c" "\<not> cost > cfg_capacity B c" by auto
  let ?now = "pk_now p"
  let ?v = "view B T (pk_store p) k ?now c (\<lambda>b. b)"
  let ?op = "\<lambda>b. case bc_reserve_at B cost budget ?now b of
      (Some wait, b') \<Rightarrow> (Granted wait, b')
    | (None, b') \<Rightarrow> ((case bc_time_until_at B cost ?now b' of None \<Rightarrow> Never_Step | Some wait \<Rightarrow> Retry_Step wait), b')"
  have ok: "store_ok E (pk_store p)" and n: "spent ?v = n"
    using idle c view_comp [of B T "pk_store p" k ?now c spent] by (auto simp: pk_idle_def key_spent_def)
  obtain q st where q: "with_or_insert B T (pk_store p) k ?now c ?op = (q, st)" by fastforce
  have res: "(s, p') = (case q of Inr s \<Rightarrow> (s, p\<lparr>pk_store := st\<rparr>) | Inl w \<Rightarrow> (Retry_Step w, p\<lparr>pk_store := st\<rparr>))"
    using r c cost q by (auto simp: pk_step_def Let_def split: sum.splits)
  then have p': "pk_store p' = st" "pk_config p' = Some c" "pk_now p' = ?now"
    using c by (auto simp: pk_now_def split: sum.splits)
  note w = with_or_insert_stores [OF L F ok q]
  show ?thesis
  proof (cases q)
    case (Inl x)
    have "view B T st k ?now c spent = view B T (pk_store p) k ?now c spent"
      using with_or_insert_refused [OF L F ok q [unfolded Inl]] by blast
    then show ?thesis using res Inl p' w(1) n view_op_eq [of B T "pk_store p" k ?now c ?v spent]
      by (simp add: pk_idle_def key_spent_def)
  next
    case (Inr y)
    obtain rr b' where b': "bc_reserve_at B cost budget ?now ?v = (rr, b')" by fastforce
    from with_or_insert_op [OF L F ok q [unfolded Inr], of ?now]
    have o: "?op ?v = (y, view B T st k ?now c (\<lambda>b. b))" .
    then have vb: "view B T st k ?now c (\<lambda>b. b) = b'" using b' by (auto split: option.splits)
    have sp: "spent b' = n + (if rr = None then 0 else cost)"
      using S b' n unfolding lawful_spend_def by blast
    have ks: "key_spent B T spent k p' = spent b'" using p' view_op_eq [OF vb] by (simp add: key_spent_def)
    have "key_stored k p'" using w(2,3) Inr p' by (simp add: key_stored_def)
    moreover have "s = y" using res Inr by simp
    ultimately show ?thesis using o b' sp ks p' w(1)
      by (auto simp: pk_holding_def pk_idle_def split: option.splits)
  qed
qed

lemma pk_refund_spec:
  assumes L: "lawful_table T E" and S: "lawful_spend B spent"
    and hold: "pk_holding B T E spent k (n + cost) p"
  shows "pk_idle B T E spent k n (pk_refund B T p k cost)"
proof -
  obtain c where c: "pk_config p = Some c" using hold by (auto simp: pk_holding_def)
  let ?st = "pk_store p" and ?h = "st_hasher (pk_store p) k"
  have ok: "store_ok E ?st" and ks: "key_spent B T spent k p = n + cost" and "key_stored k p"
    using hold by (auto simp: pk_holding_def pk_idle_def)
  then obtain e where e: "entries_of (shard ?st ?h) k = Some e" by (auto simp: key_stored_def)
  note okm = shard_is_ok [OF ok, of ?h]
  let ?e = "e\<lparr>e_bucket := bc_refund B cost (e_bucket e)\<rparr>"
  let ?st' = "put_shard ?st ?h (sm_set T (shard ?st ?h) ?h k ?e)"
  have st': "store_refund B T ?st k cost c = (True, ?st')"
    using e sm_get_spec [OF L okm, of k]
    by (simp add: store_refund_def refund_section_def with_existing_def Let_def)
  have ok': "store_ok E ?st'"
    using put_shard_ok [OF ok sm_set_spec(1) [OF L okm]] e by simp
  have e': "entries_of (shard ?st' ?h) k = Some ?e"
    using sm_set_spec(2) [OF L okm, of k] e shard_put_shard [OF ok, of ?h _ ?h] by simp
  have "spent (e_bucket e) = n + cost"
    using ks c view_spec [OF L ok, of B k "pk_now p" c spent] e by (simp add: key_spent_def)
  then have "spent (bc_refund B cost (e_bucket e)) = n" using S by (simp add: lawful_spend_def)
  then show ?thesis
    using c st' ok' e' view_spec [OF L ok', of B k "pk_now p" c spent]
    by (simp add: pk_idle_def key_spent_def pk_refund_def pk_now_def)
qed

subsection \<open>A key as a limiter\<close>

text \<open>Any bucket with a count of the units taken from it and not given back: what a key owes to
  the requests made on it, whatever the bucket itself refills.\<close>

definition counted :: "('b, 'c) bucket_core \<Rightarrow> ('b \<times> nat, 'c) bucket_core" where
  "counted B = \<lparr>
     bc_new = (\<lambda>c now. (bc_new B c now, 0)),
     bc_capacity = (\<lambda>b. bc_capacity B (fst b)),
     bc_available_at = (\<lambda>now b. bc_available_at B now (fst b)),
     bc_time_until_at = (\<lambda>c now b. bc_time_until_at B c now (fst b)),
     bc_acquire_at = (\<lambda>c now b. case bc_acquire_at B c now (fst b) of
        (d, b') \<Rightarrow> (d, b', if d = Allowed then snd b + c else snd b)),
     bc_acquire_up_to_at = (\<lambda>c now b. case bc_acquire_up_to_at B c now (fst b) of (n, b') \<Rightarrow> (n, b', snd b + n)),
     bc_reserve_at = (\<lambda>c m now b. case bc_reserve_at B c m now (fst b) of
        (r, b') \<Rightarrow> (r, b', if r = None then snd b else snd b + c)),
     bc_refund = (\<lambda>c b. (bc_refund B c (fst b), snd b - c)),
     bc_reset_at = (\<lambda>now b. (bc_reset_at B now (fst b), 0)),
     cfg_new = cfg_new B,
     cfg_capacity = cfg_capacity B,
     cfg_refill_amount = cfg_refill_amount B,
     cfg_refill_period = cfg_refill_period B\<rparr>"

lemma counted_full: "lawful_full B full \<Longrightarrow> lawful_full (counted B) (\<lambda>b. full (fst b))"
  by (simp add: lawful_full_def counted_def)

lemma counted_spend: "lawful_spend (counted B) snd"
  by (auto simp: lawful_spend_def counted_def split: prod.splits)

text \<open>An operation on a key's bucket through the store: the key's count moves by what the
  operation charges, and a key that is stored stays stored.\<close>

lemma keyed_op_books:
  assumes L: "lawful_table T E" and F: "lawful_full B full" and ok: "store_ok E (pk_store p)"
    and c: "pk_config p = Some c" and q: "with_or_insert B T (pk_store p) k (pk_now p) c op = (q, st)"
    and charge: "\<And>b y b'. op b = (y, b') \<Longrightarrow> spent b' = spent b + charge y"
  shows "store_ok E st"
    and "key_spent B T spent k (p\<lparr>pk_store := st\<rparr>) =
      key_spent B T spent k p + (case q of Inr y \<Rightarrow> charge y | Inl _ \<Rightarrow> 0)"
    and "key_stored k p \<or> (\<exists>y. q = Inr y) \<Longrightarrow> key_stored k (p\<lparr>pk_store := st\<rparr>)"
proof -
  let ?now = "pk_now p" and ?v = "view B T (pk_store p) k (pk_now p) c (\<lambda>b. b)"
  note w = with_or_insert_stores [OF L F ok q]
  show "store_ok E st" by (rule w(1))
  have now: "pk_now (p\<lparr>pk_store := st\<rparr>) = ?now" by (simp add: pk_now_def)
  show "key_spent B T spent k (p\<lparr>pk_store := st\<rparr>) =
      key_spent B T spent k p + (case q of Inr y \<Rightarrow> charge y | Inl _ \<Rightarrow> 0)"
  proof (cases q)
    case (Inl x)
    with with_or_insert_refused [OF L F ok q [unfolded Inl], of ?now spent] c now show ?thesis
      by (simp add: key_spent_def)
  next
    case (Inr y)
    from with_or_insert_op [OF L F ok q [unfolded Inr], of ?now] charge
    have "spent (view B T st k ?now c (\<lambda>b. b)) = spent ?v + charge y" by blast
    with Inr c now view_op_eq [OF refl, of B T st k ?now c spent] view_op_eq [OF refl, of B T "pk_store p" k ?now c spent]
    show ?thesis by (simp add: key_spent_def)
  qed
  assume "key_stored k p \<or> (\<exists>y. q = Inr y)"
  moreover have "\<not> key_stored k p" if "q = Inl x" for x
  proof -
    have "touch_section T (pk_store p) k ?now op = None" "insert_section B T (pk_store p) k ?now c op = (Inl x, st)"
      using q that by (auto simp: with_or_insert_def split: option.splits)
    from insert_section_view [OF L F ok this] show ?thesis by (simp add: key_stored_def)
  qed
  ultimately show "key_stored k (p\<lparr>pk_store := st\<rparr>)"
    using w(2,3) by (cases q) (auto simp: key_stored_def)
qed

lemma pk_refund_keeps:
  assumes L: "lawful_table T E" and ok: "store_ok E (pk_store p)" and "key_stored k p"
  shows "key_stored k (pk_refund B T p k cost)"
proof -
  let ?st = "pk_store p" and ?h = "st_hasher (pk_store p) k"
  obtain e where e: "entries_of (shard ?st ?h) k = Some e" using assms(3) by (auto simp: key_stored_def)
  note okm = shard_is_ok [OF ok, of ?h]
  let ?e = "e\<lparr>e_bucket := bc_refund B cost (e_bucket e)\<rparr>"
  have "store_refund B T ?st k cost c = (True, put_shard ?st ?h (sm_set T (shard ?st ?h) ?h k ?e))" for c
    using e sm_get_spec [OF L okm, of k]
    by (simp add: store_refund_def refund_section_def with_existing_def Let_def)
  moreover have "entries_of (shard (put_shard ?st ?h (sm_set T (shard ?st ?h) ?h k ?e)) ?h) k = Some ?e"
    using sm_set_spec(2) [OF L okm, of k] e shard_put_shard [OF ok, of ?h _ ?h] by simp
  ultimately show ?thesis
    using e by (auto simp: key_stored_def pk_refund_def split: option.splits)
qed

text \<open>A refund of nothing to a key that is not stored changes nothing.\<close>

lemma refund_nothing:
  assumes L: "lawful_table T E" and ok: "store_ok E st" and "entries_of (shard st (st_hasher st k)) k = None"
  shows "snd (store_refund B T st k 0 config) = st"
proof -
  let ?h = "st_hasher st k"
  have put: "put_shard st ?h (shard st ?h) = st" by (simp add: put_shard_def shard_def)
  have "snd (lg_pay_down B T (sm_ledger (shard st ?h)) ?h 0 config) = sm_ledger (shard st ?h)"
    by (auto simp: lg_pay_down_def nth_opt_def sat_mul128_def to_u64_def Let_def split: option.splits if_splits)
  then show ?thesis
    using assms(3) sm_get_spec [OF L shard_is_ok [OF ok], of ?h k] put
    by (auto simp: store_refund_def refund_section_def pay_section_def with_existing_def Let_def split: prod.splits)
qed

lemma pk_store_same [simp]: "p\<lparr>pk_store := pk_store p\<rparr> = p"
  by (cases p) simp

lemma key_refund:
  assumes L: "lawful_table T E" and S: "lawful_spend B spent" and ok: "store_ok E (pk_store p)"
    and le: "cost \<le> key_spent B T spent k p" and held: "key_stored k p \<and> pk_config p \<noteq> None \<or> cost = 0"
  shows "store_ok E (pk_store (pk_refund B T p k cost)) \<and>
    key_spent B T spent k (pk_refund B T p k cost) = key_spent B T spent k p - cost \<and>
    (key_stored k p \<and> pk_config p \<noteq> None \<longrightarrow>
       key_stored k (pk_refund B T p k cost) \<and> pk_config (pk_refund B T p k cost) \<noteq> None)"
proof (cases "key_stored k p \<and> pk_config p \<noteq> None")
  case True
  then have "pk_holding B T E spent k (key_spent B T spent k p - cost + cost) p"
    using ok le by (simp add: pk_holding_def pk_idle_def)
  from pk_refund_spec [OF L S this] pk_refund_keeps [OF L ok] True show ?thesis
    by (simp add: pk_idle_def pk_refund_def split: option.splits)
next
  case False
  then have "cost = 0" and "pk_config p = None \<or> entries_of (shard (pk_store p) (st_hasher (pk_store p) k)) k = None"
    using held by (auto simp: key_stored_def)
  then have "pk_refund B T p k cost = p"
    using refund_nothing [OF L ok, of k B] by (auto simp: pk_refund_def split: option.splits)
  with ok False \<open>cost = 0\<close> show ?thesis by auto
qed

text \<open>The scope of one key keeps the contract of a limiter, for any bucket and any table: a
  peek, a refusal by the bucket and a refusal by a full store charge the key nothing, a grant
  or a reservation charges exactly its cost whether the key was stored, in debt or new, and a
  refund gives it back.\<close>

lemma key_scope_contract:
  assumes L: "lawful_table T E" and F: "lawful_full B full" and S: "lawful_spend B spent"
  shows "limiter_obj (key_scope (perkey_limiter B T) k) (key_spent B T spent k)
    (\<lambda>p. key_stored k p \<and> pk_config p \<noteq> None) (\<lambda>p. store_ok E (pk_store p))"
proof -
  have decide: "store_ok E (pk_store p') \<and>
      key_spent B T spent k p' = key_spent B T spent k p + (if d = Acquired then cost else 0) \<and>
      pk_config p' = pk_config p \<and> (key_stored k p \<or> d = Acquired \<and> 0 < cost \<and> pk_config p \<noteq> None \<longrightarrow> key_stored k p') \<and>
      (d = Acquired \<and> 0 < cost \<longrightarrow> pk_config p \<noteq> None)"
    if ok: "store_ok E (pk_store p)" and r: "pk_decide B T p k cost = (d, p')" for p cost d p'
  proof (cases "pk_config p = None \<or> (\<exists>c. pk_config p = Some c \<and> (cost > cfg_capacity B c \<or> cost = 0))")
    case True
    then show ?thesis using r ok by (auto simp: pk_decide_def closed_def split: if_splits)
  next
    case False
    then obtain c where c: "pk_config p = Some c" "\<not> cost > cfg_capacity B c" "0 < cost" by auto
    let ?op = "\<lambda>b. case bc_acquire_at B cost (pk_now p) b of (d, b') \<Rightarrow> (map_decision d, b')"
    obtain q st where q: "with_or_insert B T (pk_store p) k (pk_now p) c ?op = (q, st)" by fastforce
    have "spent b' = spent b + (if y = Acquired then cost else 0)" if "?op b = (y, b')" for b y b'
      using that S by (auto simp: lawful_spend_def split: prod.splits)
    note books = keyed_op_books [OF L F ok c(1) q, of spent "\<lambda>y. if y = Acquired then cost else 0", OF this]
    have "(d, p') = (case q of Inr d \<Rightarrow> (d, p\<lparr>pk_store := st\<rparr>) | Inl w \<Rightarrow> (Retry w, p\<lparr>pk_store := st\<rparr>))"
      using r c q by (auto simp: pk_decide_def Let_def split: sum.splits)
    with books c(1) show ?thesis by (auto split: sum.splits)
  qed
  have reserve: "store_ok E (pk_store p') \<and>
      key_spent B T spent k p' = key_spent B T spent k p + (if t = None then 0 else cost) \<and>
      pk_config p' = pk_config p \<and> (key_stored k p \<or> t \<noteq> None \<and> 0 < cost \<longrightarrow> key_stored k p') \<and>
      (t \<noteq> None \<longrightarrow> pk_config p \<noteq> None)"
    if ok: "store_ok E (pk_store p)" and r: "pk_reserve B T p k cost m = (t, p')" for p cost m t p'
  proof (cases "pk_config p = None \<or> (\<exists>c. pk_config p = Some c \<and> (cost > cfg_capacity B c \<or> cost = 0))")
    case True
    then show ?thesis using r ok by (auto simp: pk_reserve_def split: if_splits)
  next
    case False
    then obtain c where c: "pk_config p = Some c" "\<not> cost > cfg_capacity B c" "0 < cost" by auto
    let ?op = "bc_reserve_at B cost m (pk_now p)"
    obtain q st where q: "with_or_insert B T (pk_store p) k (pk_now p) c ?op = (q, st)" by fastforce
    have "spent b' = spent b + (if y = None then 0 else cost)" if "?op b = (y, b')" for b y b'
      using that S unfolding lawful_spend_def by blast
    note books = keyed_op_books [OF L F ok c(1) q, of spent "\<lambda>y. if y = None then 0 else cost", OF this]
    have "(t, p') = (case q of Inr r \<Rightarrow> (r, p\<lparr>pk_store := st\<rparr>) | Inl w \<Rightarrow> (None, p\<lparr>pk_store := st\<rparr>))"
      using r c q by (auto simp: pk_reserve_def Let_def split: sum.splits)
    with books c(1) show ?thesis by (auto split: sum.splits)
  qed
  show ?thesis
  proof (unfold_locales, goal_cases)
    case (1 p cost d p')
    then show ?case by (auto simp: key_scope_def perkey_limiter_def Let_def)
  next
    case (2 p cost d p')
    then show ?case using decide [of p cost d p'] by (auto simp: key_scope_def perkey_limiter_def Let_def)
  next
    case (3 p cost p')
    then show ?case using decide [of p cost Acquired p'] by (auto simp: key_scope_def perkey_limiter_def Let_def)
  next
    case (4 p cost m p')
    then show ?case using reserve [of p cost m None p'] by (auto simp: key_scope_def perkey_limiter_def Let_def)
  next
    case (5 p cost m t p')
    then show ?case using reserve [of p cost m "Some t" p'] by (auto simp: key_scope_def perkey_limiter_def Let_def)
  next
    case (6 p cost)
    then show ?case using key_refund [OF L S, of p cost k] by (simp add: key_scope_def perkey_limiter_def Let_def)
  qed
qed

lemma perkey_waiter:
  assumes "lawful_table T E" and "lawful_full B full" and "lawful_spend B spent" and "0 < cost"
    and "\<forall>n. quiet rt (pk_idle B T E spent k n)" and "\<forall>n. quiet rt (pk_holding B T E spent k n)"
  shows "waiting rt (\<lambda>_ budget p. case pk_step B T k cost budget p of (s, p') \<Rightarrow> (s, (), p'))
    (\<lambda>_ p. ((), pk_refund B T p k cost))
    (\<lambda>_ p. pk_holding B T E spent k (n + cost) p) (\<lambda>_ _. False)
    (\<lambda>_ p. pk_idle B T E spent k n p) (\<lambda>_ p. pk_idle B T E spent k n p)"
proof (unfold_locales, goal_cases)
  case (1 u p budget s u' p')
  then show ?case using pk_step_spec [OF assms(1-4), of k n p budget] by (auto split: prod.splits step.splits)
next
  case (2 u p u' p')
  then show ?case using pk_refund_spec [OF assms(1,3)] by auto
next
  case (3 d p alive p' u)
  from quiet_awaits(1) [OF spec [OF assms(5)] _ this] quiet_awaits(1) [OF spec [OF assms(6)] _ this]
  show ?case by blast
next
  case (4 d p alive p' u)
  from quiet_awaits(2) [OF spec [OF assms(5)] _ this] quiet_awaits(2) [OF spec [OF assms(6)] _ this]
  show ?case by blast
next
  case (5 p alive p' u)
  from quiet_awaits(3) [OF spec [OF assms(5)] _ this] quiet_awaits(3) [OF spec [OF assms(6)] _ this]
  show ?case by blast
qed

text \<open>A waiting request for a key takes its cost or nothing.  When nobody else uses the key
  while the request sleeps, a wait that returns \<open>Ok\<close> has taken exactly its cost from the
  key's bucket; one that fails, or whose future is dropped at any await, has taken
  nothing, whether the key was stored, in debt or new, and also when the store refused it.\<close>

theorem perkey_wait_all_or_nothing:
  assumes "lawful_table T E" and "lawful_full B full" and "lawful_spend B spent" and "0 < cost"
    and "\<forall>n. quiet rt (pk_idle B T E spent k n)" and "\<forall>n. quiet rt (pk_holding B T E spent k n)"
    and "store_ok E (pk_store p)" and "pk_wait B T rt k cost timeout p = Some (r, p')"
  shows "key_spent B T spent k p' = key_spent B T spent k p + (if r = Some (Inr ()) then cost else 0)"
proof -
  obtain q where q: "wait_with rt () (\<lambda>_ budget p. case pk_step B T k cost budget p of (s, p') \<Rightarrow> (s, (), p'))
      (\<lambda>_ p. ((), pk_refund B T p k cost)) (\<lambda>_. 0) timeout p = Some (q, (), p')"
    and r: "r = Some (Inr ()) \<longleftrightarrow> q = Wait_Ok"
    using assms(8)
    by (auto simp: pk_wait_def wait_for_def split: option.splits wait_end.splits refusal.splits)
  from waiting.wait_all_or_nothing [OF perkey_waiter [OF assms(1-6)] _ q, of "key_spent B T spent k p"]
  show ?thesis using assms(7) r by (auto simp: pk_idle_def pk_holding_def split: if_splits)
qed

subsection \<open>Witnesses\<close>

lemma gcra_ready: "grants_when_ready (gcra_core cap amount period)"
  by (simp add: grants_when_ready_def gcra_core_def)

abbreviation (input) demo_perkey :: "(nat, nat, unit, (u64 \<times> u32) list) perkey" where
  "demo_perkey \<equiv> pk_assemble demo_core list_table (\<lambda>k. k) (Some ()) (ev_capacity 1) 1 0"

theorem peek_predicts_acquire_witness:
  "\<exists>d p'. pk_decide demo_core list_table demo_perkey 1 2 = (d, p') \<and>
     (d = Acquired \<longrightarrow> pk_peek demo_core list_table demo_perkey 1 2 = Acquired)"
proof -
  obtain d p' where r: "pk_decide demo_core list_table demo_perkey 1 2 = (d, p')" by fastforce
  have "store_ok mset (pk_store demo_perkey)" using store_new_ok [OF list_table_lawful] by (simp add: pk_assemble_def)
  from peek_predicts_acquire [OF list_table_lawful demo_full gcra_ready this _ r] r show ?thesis by auto
qed

theorem hopeless_requests_leave_no_state_witness:
  "pk_decide demo_core list_table demo_perkey 1 6 = (Impossible, demo_perkey)"
  using hopeless_requests_leave_no_state [of demo_perkey demo_core list_table "\<lambda>k. k" "pk_builder_new 0" 6 1 0 0]
  by (simp add: pk_assemble_def pk_capacity_def gcra_core_def)

abbreviation (input) demo_forgetful :: eviction where
  "demo_forgetful \<equiv> ev_with_when_full (ev_capacity 1) ForgetDebt"

lemma view_new:
  fixes B :: "('b, 'c) bucket_core" and T :: "'d hash_table" and hasher :: "'a \<Rightarrow> u64"
  assumes "lawful_table T E"
  shows "view B T (store_new T shards ev min_idle hasher) k now config op = op (bc_new B config now)"
proof -
  let ?st = "store_new T shards ev min_idle hasher :: ('a, 'b, 'd) store"
  have ok: "store_ok E ?st" by (rule store_new_ok [OF assms])
  have "shard ?st h = sm_new T" for h
    using shard_of_lt [OF ok, of h] by (simp add: shard_def) (simp add: store_new_def Let_def)
  then show ?thesis using view_spec [OF assms ok, of B k now config op]
    by (simp add: entries_of_def debts_of_def table_of_def sm_new_def lg_new_def)
qed

theorem perkey_wait_all_or_nothing_witness:
  "\<exists>p'. pk_wait (counted demo_core) list_table frozen_rt 1 3 (Some 7)
       (pk_assemble (counted demo_core) list_table (\<lambda>k. k) (Some ()) demo_forgetful 1 0) = Some (Some (Inr ()), p') \<and>
     key_spent (counted demo_core) list_table snd (1 :: nat) p' = 3"
proof -
  let ?B = "counted demo_core"
  let ?p = "pk_assemble ?B list_table (\<lambda>k. k) (Some ()) demo_forgetful 1 0 :: (nat, nat \<times> nat, unit, (u64 \<times> u32) list) perkey"
  let ?op = "\<lambda>b. case bc_reserve_at ?B 3 7 0 b of (Some wait, b') \<Rightarrow> (Granted wait, b')
    | (None, b') \<Rightarrow> ((case bc_time_until_at ?B 3 0 b' of None \<Rightarrow> Never_Step | Some wait \<Rightarrow> Retry_Step wait), b')"
  have ok: "store_ok mset (pk_store ?p)" using store_new_ok [OF list_table_lawful] by (simp add: pk_assemble_def)
  have cap: "cfg_capacity ?B () = 5" by (simp add: counted_def gcra_core_def)
  obtain q st where q: "with_or_insert ?B list_table (pk_store ?p) 1 0 () ?op = (q, st)" by fastforce
  have "st_forget_debt (pk_store ?p)"
    by (simp add: pk_assemble_def store_new_def Let_def ev_with_when_full_def)
  then obtain y where y: "q = Inr y"
    using with_or_insert_refused [OF list_table_lawful counted_full [OF demo_full] ok] q by (cases q) blast+
  from with_or_insert_op [OF list_table_lawful counted_full [OF demo_full] ok q [unfolded y], of 0]
  have "y = Granted 0"
    by (simp add: pk_assemble_def view_new [OF list_table_lawful] counted_def gcra_core_def gcra_wait_def div_ceil_def)
  then have "\<exists>p1. pk_step ?B list_table 1 3 7 ?p = (Granted 0, p1)"
    using q y cap by (simp add: pk_step_def pk_assemble_def pk_now_def Let_def del: One_nat_def)
  then obtain p1 where p1: "pk_step ?B list_table 1 3 7 ?p = (Granted 0, p1)" by blast
  have "\<exists>p'. pk_wait ?B list_table frozen_rt 1 3 (Some 7) ?p = Some (Some (Inr ()), p')"
    using p1 by (simp add: pk_wait_def wait_for_def wait_with_def wait_loop.simps wait_round_def pause_loop.simps
        frozen_rt_def deadline_after_def deadline_remaining_def guard_fire_def Let_def)
  then obtain p' where r: "pk_wait ?B list_table frozen_rt 1 3 (Some 7) ?p = Some (Some (Inr ()), p')" by blast
  have qu: "quiet frozen_rt I" for I :: "(nat, nat \<times> nat, unit, (u64 \<times> u32) list) perkey \<Rightarrow> bool"
    by (simp add: quiet_def frozen_rt_def)
  from perkey_wait_all_or_nothing [OF list_table_lawful counted_full [OF demo_full] counted_spend _ _ _ ok r] qu
  have "key_spent ?B list_table snd 1 p' = key_spent ?B list_table snd 1 ?p + 3" by simp
  moreover have "key_spent ?B list_table snd 1 ?p = 0"
    by (simp add: key_spent_def pk_assemble_def view_new [OF list_table_lawful]) (simp add: counted_def)
  ultimately show ?thesis using r by simp
qed

end
