(* ===== verification/Layered_Keys.thy ===== *)
theory Layered_Keys
  imports Layered Per_Key
begin

text \<open>
  The layered limiter (\<open>src/layered.rs\<close>) over the scopes its builder accepts: any limiter as the
  global scope, and per-key limiters (\<open>src/perkey.rs\<close>), the one implementation of the keyed
  interface, for keys and for endpoints.  The builder takes the per-key limiters by value, so
  the three states are separate.  Shown here: a request is charged in every scope or in none.
\<close>

record ('g, 'p, 'q) scope_states =
  sc_global :: 'g
  sc_keys :: 'p
  sc_endpoints :: 'q

datatype scope = Global | Key | Endpoint

text \<open>A limiter on its part of the state.\<close>

definition on_global :: "'g limiter \<Rightarrow> ('g, 'p, 'q) scope_states limiter" where
  "on_global l = \<lparr>
     l_peek = (\<lambda>c w. case l_peek l c (sc_global w) of (d, s) \<Rightarrow> (d, w\<lparr>sc_global := s\<rparr>)),
     l_acquire_cost = (\<lambda>c w. case l_acquire_cost l c (sc_global w) of (d, s) \<Rightarrow> (d, w\<lparr>sc_global := s\<rparr>)),
     l_available = (\<lambda>w. case l_available l (sc_global w) of (n, s) \<Rightarrow> (n, w\<lparr>sc_global := s\<rparr>)),
     l_capacity = (\<lambda>w. l_capacity l (sc_global w)),
     l_refund = (\<lambda>c w. w\<lparr>sc_global := l_refund l c (sc_global w)\<rparr>),
     l_reserve = (\<lambda>c m w. case l_reserve l c m (sc_global w) of (t, s) \<Rightarrow> (t, w\<lparr>sc_global := s\<rparr>)),
     l_pause_for = (\<lambda>d w. w\<lparr>sc_global := l_pause_for l d (sc_global w)\<rparr>),
     l_paused_for = (\<lambda>w. l_paused_for l (sc_global w)),
     l_resume = (\<lambda>w. w\<lparr>sc_global := l_resume l (sc_global w)\<rparr>),
     l_charge = (\<lambda>c w. case l_charge l c (sc_global w) of (r, s) \<Rightarrow> (r, w\<lparr>sc_global := s\<rparr>))\<rparr>"

definition on_keys :: "('k, 'p) keyed_limiter \<Rightarrow> ('k, ('g, 'p, 'q) scope_states) keyed_limiter" where
  "on_keys l = \<lparr>
     k_peek = (\<lambda>k c w. case k_peek l k c (sc_keys w) of (d, s) \<Rightarrow> (d, w\<lparr>sc_keys := s\<rparr>)),
     k_acquire_cost = (\<lambda>k c w. case k_acquire_cost l k c (sc_keys w) of (d, s) \<Rightarrow> (d, w\<lparr>sc_keys := s\<rparr>)),
     k_refund = (\<lambda>k c w. w\<lparr>sc_keys := k_refund l k c (sc_keys w)\<rparr>),
     k_reserve = (\<lambda>k c m w. case k_reserve l k c m (sc_keys w) of (t, s) \<Rightarrow> (t, w\<lparr>sc_keys := s\<rparr>)),
     k_capacity = (\<lambda>w. k_capacity l (sc_keys w))\<rparr>"

definition on_endpoints :: "('e, 'q) keyed_limiter \<Rightarrow> ('e, ('g, 'p, 'q) scope_states) keyed_limiter" where
  "on_endpoints l = \<lparr>
     k_peek = (\<lambda>k c w. case k_peek l k c (sc_endpoints w) of (d, s) \<Rightarrow> (d, w\<lparr>sc_endpoints := s\<rparr>)),
     k_acquire_cost = (\<lambda>k c w. case k_acquire_cost l k c (sc_endpoints w) of (d, s) \<Rightarrow> (d, w\<lparr>sc_endpoints := s\<rparr>)),
     k_refund = (\<lambda>k c w. w\<lparr>sc_endpoints := k_refund l k c (sc_endpoints w)\<rparr>),
     k_reserve = (\<lambda>k c m w. case k_reserve l k c m (sc_endpoints w) of (t, s) \<Rightarrow> (t, w\<lparr>sc_endpoints := s\<rparr>)),
     k_capacity = (\<lambda>w. k_capacity l (sc_endpoints w))\<rparr>"

text \<open>The layered limiter built with any selection of the three scopes.\<close>

definition layered_with ::
  "scope set \<Rightarrow> 'g limiter \<Rightarrow> ('k, 'p) keyed_limiter \<Rightarrow> ('e, 'q) keyed_limiter \<Rightarrow>
   ('k, 'e, ('g, 'p, 'q) scope_states) layered" where
  "layered_with present G P Q =
     (let b1 = (if Global \<in> present then lb_global ly_builder (on_global G) else ly_builder);
          b2 = (if Key \<in> present then lb_per_key b1 (on_keys P) else b1)
      in if Endpoint \<in> present then lb_per_endpoint b2 (on_endpoints Q) else b2)"

definition scope_at ::
  "'g limiter \<Rightarrow> ('k, 'p) keyed_limiter \<Rightarrow> ('e, 'q) keyed_limiter \<Rightarrow> 'k \<Rightarrow> 'e \<Rightarrow> scope \<Rightarrow>
   ('g, 'p, 'q) scope_states limiter" where
  "scope_at G P Q key endpoint i =
     (case i of Global \<Rightarrow> on_global G | Key \<Rightarrow> key_scope (on_keys P) key
      | Endpoint \<Rightarrow> key_scope (on_endpoints Q) endpoint)"

definition when_in :: "scope set \<Rightarrow> scope \<Rightarrow> scope option" where
  "when_in present i = (if i \<in> present then Some i else None)"

lemma scopes_layered_with:
  "scopes_are (scope_at G P Q key endpoint) (layered_with present G P Q) key endpoint
     (when_in present Global) (when_in present Key) (when_in present Endpoint)"
  by (simp add: scopes_are_def layered_with_def scope_at_def when_in_def Let_def lb_global_def lb_per_key_def
      lb_per_endpoint_def ly_builder_def)

lemma at_count:
  "count_list (List.map_filter (\<lambda>x. x) [when_in present Global, when_in present Key, when_in present Endpoint]) i =
     (if i \<in> present then 1 else 0)"
  by (cases i) (auto simp: when_in_def List.map_filter_simps)

text \<open>Three limiters that keep the contract, each on its own part of the state, are the
  constituents of a composite.\<close>

lemma scopes_composite:
  assumes "limiter_obj G spent ready good"
    and "limiter_obj (key_scope P key) spent_k ready_k good_k"
    and "limiter_obj (key_scope Q endpoint) spent_e ready_e good_e"
  shows "composite (scope_at G P Q key endpoint)
    (\<lambda>i w. case i of Global \<Rightarrow> spent (sc_global w) | Key \<Rightarrow> spent_k (sc_keys w) | Endpoint \<Rightarrow> spent_e (sc_endpoints w))
    (\<lambda>i w. case i of Global \<Rightarrow> ready (sc_global w) | Key \<Rightarrow> ready_k (sc_keys w) | Endpoint \<Rightarrow> ready_e (sc_endpoints w))
    (\<lambda>w. good (sc_global w) \<and> good_k (sc_keys w) \<and> good_e (sc_endpoints w))"
proof -
  note at_defs = scope_at_def on_global_def on_keys_def on_endpoints_def
  show ?thesis
  proof (unfold_locales, goal_cases)
    case (1 w i c d w')
    then show ?case
      using limiter_obj.obj_peek [OF assms(1), of "sc_global w" c] limiter_obj.obj_peek [OF assms(2), of "sc_keys w" c]
        limiter_obj.obj_peek [OF assms(3), of "sc_endpoints w" c]
      by (cases i) (auto simp: at_defs split: prod.splits scope.splits)
  next
    case (2 w i c d w')
    then show ?case
      using limiter_obj.obj_acquire_refused [OF assms(1), of "sc_global w" c]
        limiter_obj.obj_acquire_refused [OF assms(2), of "sc_keys w" c]
        limiter_obj.obj_acquire_refused [OF assms(3), of "sc_endpoints w" c]
      by (cases i) (auto simp: at_defs split: prod.splits scope.splits)
  next
    case (3 w i c w')
    then show ?case
      using limiter_obj.obj_acquire [OF assms(1), of "sc_global w" c]
        limiter_obj.obj_acquire [OF assms(2), of "sc_keys w" c]
        limiter_obj.obj_acquire [OF assms(3), of "sc_endpoints w" c]
      by (cases i) (auto simp: at_defs split: prod.splits scope.splits)
  next
    case (4 w i c m w')
    then show ?case
      using limiter_obj.obj_reserve_refused [OF assms(1), of "sc_global w" c m]
        limiter_obj.obj_reserve_refused [OF assms(2), of "sc_keys w" c m]
        limiter_obj.obj_reserve_refused [OF assms(3), of "sc_endpoints w" c m]
      by (cases i) (auto simp: at_defs split: prod.splits scope.splits)
  next
    case (5 w i c m t w')
    then show ?case
      using limiter_obj.obj_reserve [OF assms(1), of "sc_global w" c m]
        limiter_obj.obj_reserve [OF assms(2), of "sc_keys w" c m]
        limiter_obj.obj_reserve [OF assms(3), of "sc_endpoints w" c m]
      by (cases i) (auto simp: at_defs split: prod.splits scope.splits)
  next
    case (6 w c i)
    then show ?case
      using limiter_obj.obj_refund [OF assms(1), of "sc_global w" c]
        limiter_obj.obj_refund [OF assms(2), of "sc_keys w" c]
        limiter_obj.obj_refund [OF assms(3), of "sc_endpoints w" c]
      by (cases i) (auto simp: at_defs split: scope.splits)
  qed
qed

text \<open>C15: a layered request is charged in every scope or in none.  The global scope is any
  limiter that keeps the limiter contract, the key and endpoint scopes are per-key limiters over
  any token bucket and hash table, instrumented with a count per key of the units taken and not
  given back, and any of the three may be absent.  A granted request adds its cost to the global
  limiter, to the count of its key and to the count of its endpoint, in every scope that is
  present; a refused one leaves all three as they were, also when an earlier scope had already
  granted it (a later scope may still refuse what its peek allowed: a full store refuses a new
  key).\<close>

theorem layered_all_or_nothing:
  assumes "limiter_obj G spent ready good"
    and "lawful_table T E" and "lawful_full B full" and "lawful_table T' E'" and "lawful_full B' full'"
    and "good (sc_global w)" and "store_ok E (pk_store (sc_keys w))" and "store_ok E' (pk_store (sc_endpoints w))"
    and "ly_try_acquire_with_cost (layered_with present G (perkey_limiter (counted B) T) (perkey_limiter (counted B') T'))
      key endpoint cost w = (granted, w')"
  shows "spent (sc_global w') = spent (sc_global w) + (if granted \<and> Global \<in> present then cost else 0) \<and>
    key_spent (counted B) T snd key (sc_keys w') =
      key_spent (counted B) T snd key (sc_keys w) + (if granted \<and> Key \<in> present then cost else 0) \<and>
    key_spent (counted B') T' snd endpoint (sc_endpoints w') =
      key_spent (counted B') T' snd endpoint (sc_endpoints w) + (if granted \<and> Endpoint \<in> present then cost else 0)"
proof -
  let ?P = "perkey_limiter (counted B) T" and ?Q = "perkey_limiter (counted B') T'"
  let ?spent = "\<lambda>i w. case i of Global \<Rightarrow> spent (sc_global w) | Key \<Rightarrow> key_spent (counted B) T snd key (sc_keys w)
    | Endpoint \<Rightarrow> key_spent (counted B') T' snd endpoint (sc_endpoints w)"
  obtain d where r: "decide (layered_with present G ?P ?Q) key endpoint cost w = (d, w')" and g: "granted = (d = Acquired)"
    using assms(9) by (auto simp: ly_try_acquire_with_cost_def split: prod.splits)
  note C = scopes_composite [OF assms(1) key_scope_contract [OF assms(2) counted_full [OF assms(3)] counted_spend]
      key_scope_contract [OF assms(4) counted_full [OF assms(5)] counted_spend], of key endpoint]
  have "account (\<lambda>w. good (sc_global w) \<and> store_ok E (pk_store (sc_keys w)) \<and> store_ok E' (pk_store (sc_endpoints w)))
      ?spent (\<lambda>i w. case i of Global \<Rightarrow> ready (sc_global w) | Key \<Rightarrow> key_stored key (sc_keys w) \<and> pk_config (sc_keys w) \<noteq> None
        | Endpoint \<Rightarrow> key_stored endpoint (sc_endpoints w) \<and> pk_config (sc_endpoints w) \<noteq> None)
      (\<lambda>i. ?spent i w) (\<lambda>_. 0) w"
    using assms(6-8) by (simp add: account_def)
  from composite.layered_decide_books [OF C scopes_layered_with this r]
  have "?spent i w' = ?spent i w + (if granted \<and> i \<in> present then cost else 0)" for i
    unfolding account_def at_count g by (auto split: if_splits)
  from this [of Global] this [of Key] this [of Endpoint] show ?thesis by simp
qed

text \<open>A per-key limiter with room for one key, over buckets of five tokens: key \<open>2\<close> is stored and
  used up, and the debt of key \<open>1\<close> fills the ledger, so the store refuses a new key although its
  own bucket would be full.\<close>

definition crowded :: "(nat, nat \<times> nat, unit, (u64 \<times> u32) list) perkey" where
  "crowded = \<lparr>pk_store = \<lparr>st_shards = [\<lparr>sm_index = [(2, 0)],
      sm_slots = [\<lparr>s_hash = 2, s_key = 2, s_entry = \<lparr>e_bucket = (5000, 5), e_referenced = False, e_last_seen_ms = 0\<rparr>\<rparr>],
      sm_hand = 1, sm_sweep = 0, sm_ledger = \<lparr>lg_index = [(1, 0)], lg_debts = [\<lparr>d_hash = 1, d_settles_at = 5000\<rparr>], lg_cursor = 0\<rparr>\<rparr>],
      st_shard_mask = 0, st_hasher = (\<lambda>k. k), st_per_shard_cap = 1, st_idle_ttl_ms = None, st_forget_debt = False\<rparr>,
    pk_config = Some (), pk_eviction = ev_capacity 1, pk_shards = 1, pk_clock = 0, pk_epoch = 0\<rparr>"

lemma crowded_ok: "store_ok mset (pk_store crowded)"
  by (auto simp: crowded_def store_ok_def shard_ok_def ledger_ok_def dense_def U32_MAX_def intro: exI [of _ 0])

definition crowded_world ::
  "(sliding, (nat, nat \<times> nat, unit, (u64 \<times> u32) list) perkey, (nat, nat \<times> nat, unit, (u64 \<times> u32) list) perkey) scope_states" where
  "crowded_world = \<lparr>sc_global = sw_new 5 10 0, sc_keys = crowded, sc_endpoints = crowded\<rparr>"

abbreviation (input) demo_layered :: "scope set \<Rightarrow> _" where
  "demo_layered present \<equiv> layered_with present sliding_limiter (perkey_limiter (counted demo_core) list_table)
     (perkey_limiter (counted demo_core) list_table)"

lemmas layered_eval = layered_with_def lb_global_def lb_per_key_def lb_per_endpoint_def ly_builder_def peek_scopes_def
  peek_scope_def take_scope_def on_global_def on_keys_def perkey_limiter_def sliding_limiter_def crowded_world_def
  Let_def List.map_filter_simps

lemma crowded_peek: "pk_peek (counted demo_core) list_table crowded 3 2 = Acquired"
  by (simp add: crowded_def pk_peek_def pk_now_def view_def counted_def Let_def store_eval)

lemma crowded_refuses: "\<exists>d p'. pk_decide (counted demo_core) list_table crowded 3 2 = (Retry d, p')"
  by (simp add: crowded_def pk_decide_def pk_now_def counted_def Let_def store_eval lg_sweep_one millis_u64_def to_u64_def)

theorem layered_all_or_nothing_witness:
  "fst (ly_peek (demo_layered {Global, Key}) 3 0 2 crowded_world) = Acquired \<and>
   (let (granted, w') = ly_try_acquire_with_cost (demo_layered {Global, Key}) 3 0 2 crowded_world in
      \<not> granted \<and> sw_spent (sc_global w') = 0 \<and> key_spent (counted demo_core) list_table snd 3 (sc_keys w') = 0) \<and>
   (let (granted, w') = ly_try_acquire_with_cost (demo_layered {Global}) 3 0 2 crowded_world in
      granted \<and> sw_spent (sc_global w') = 2)"
proof -
  have good: "sw_good (sc_global crowded_world)" "sw_spent (sc_global crowded_world) = 0"
    by (simp_all add: crowded_world_def sw_good_def sw_spent_def sw_live_def sw_eval)
  have ok: "store_ok mset (pk_store (sc_keys crowded_world))" "store_ok mset (pk_store (sc_endpoints crowded_world))"
    using crowded_ok by (simp_all add: crowded_world_def)
  have k0: "key_spent (counted demo_core) list_table snd 3 (sc_keys crowded_world) = 0"
    by (simp add: key_spent_def crowded_world_def crowded_def pk_now_def view_def store_eval counted_def Let_def)
  obtain d p' where refuses: "pk_decide (counted demo_core) list_table crowded 3 2 = (Retry d, p')"
    using crowded_refuses by blast
  have "\<exists>s1 s2. evaluate (sw_new 5 10 0) 2 False = (Acquired, s1) \<and> evaluate s1 2 True = (Acquired, s2)"
    by (simp add: sw_eval)
  then obtain s1 s2 where global: "evaluate (sw_new 5 10 0) 2 False = (Acquired, s1)" "evaluate s1 2 True = (Acquired, s2)"
    by blast
  have peek: "fst (ly_peek (demo_layered {Global, Key}) 3 0 2 crowded_world) = Acquired"
    by (simp add: ly_peek_def layered_eval crowded_peek global del: One_nat_def)
  obtain g w' where r: "ly_try_acquire_with_cost (demo_layered {Global, Key}) 3 0 2 crowded_world = (g, w')" by fastforce
  obtain g2 w2 where r2: "ly_try_acquire_with_cost (demo_layered {Global}) 3 0 2 crowded_world = (g2, w2)" by fastforce
  have "\<not> g"
    using r by (simp add: ly_try_acquire_with_cost_def decide_def layered_eval crowded_peek refuses global del: One_nat_def)
  moreover have g2
    using r2 by (simp add: ly_try_acquire_with_cost_def decide_def layered_eval global del: One_nat_def)
  ultimately show ?thesis
    using layered_all_or_nothing [OF sliding.limiter_obj_axioms list_table_lawful demo_full list_table_lawful demo_full good(1) ok r]
      layered_all_or_nothing [OF sliding.limiter_obj_axioms list_table_lawful demo_full list_table_lawful demo_full good(1) ok r2]
      good(2) k0 peek r r2 by (simp del: One_nat_def)
qed

end
