(* ===== verification/Backoff.thy ===== *)
theory Backoff
  imports Float64
begin

text \<open>
  Backoff policies (\<open>src/backoff.rs\<close>): the base curves, the jitter modes and the
  SplitMix64 generator behind them, the generator on 64-bit words with wrap-around and the
  exponential curve in binary64 arithmetic.
\<close>

unbundle bit_operations_syntax

datatype jitter =
    Jitter_None
  | Jitter_Full
  | Jitter_Equal
  | Jitter_Decorrelated

datatype kind = Kind_Constant | Kind_Linear | Kind_Exponential

definition DEFAULT_MAX :: duration where
  "DEFAULT_MAX = from_secs 30"

definition DEFAULT_BASE :: duration where
  "DEFAULT_BASE = from_millis 100"

definition DEFAULT_FACTOR :: f64 where
  "DEFAULT_FACTOR = Fin 2"

record backoff =
  bo_kind :: kind
  bo_base :: duration
  bo_factor :: f64
  bo_increment :: duration
  bo_max :: duration
  bo_jitter :: jitter
  bo_seed :: "64 word"

definition bo_constant :: "duration \<Rightarrow> backoff" where
  "bo_constant delay = \<lparr>bo_kind = Kind_Constant, bo_base = delay, bo_factor = DEFAULT_FACTOR,
     bo_increment = 0, bo_max = delay, bo_jitter = Jitter_None, bo_seed = 0\<rparr>"

definition bo_linear :: "duration \<Rightarrow> duration \<Rightarrow> backoff" where
  "bo_linear initial increment = \<lparr>bo_kind = Kind_Linear, bo_base = initial,
     bo_factor = DEFAULT_FACTOR, bo_increment = increment, bo_max = DEFAULT_MAX,
     bo_jitter = Jitter_None, bo_seed = 0\<rparr>"

definition bo_exponential :: "duration \<Rightarrow> f64 \<Rightarrow> backoff" where
  "bo_exponential initial factor = \<lparr>bo_kind = Kind_Exponential, bo_base = initial,
     bo_factor = factor, bo_increment = 0, bo_max = DEFAULT_MAX, bo_jitter = Jitter_None,
     bo_seed = 0\<rparr>"

definition with_max :: "backoff \<Rightarrow> duration \<Rightarrow> backoff" where
  "with_max b m = b\<lparr>bo_max := m\<rparr>"

definition with_jitter :: "backoff \<Rightarrow> jitter \<Rightarrow> backoff" where
  "with_jitter b j = b\<lparr>bo_jitter := j\<rparr>"

definition with_seed :: "backoff \<Rightarrow> 64 word \<Rightarrow> backoff" where
  "with_seed b seed = b\<lparr>bo_seed := seed\<rparr>"

definition bo_default :: backoff where
  "bo_default = with_jitter (with_max (bo_exponential DEFAULT_BASE DEFAULT_FACTOR) DEFAULT_MAX)
     Jitter_Decorrelated"

subsection \<open>The generator\<close>

type_synonym rng = "64 word"

text \<open>The SplitMix64 finalizer.\<close>

definition splitmix :: "64 word \<Rightarrow> 64 word" where
  "splitmix z0 =
     (let z1 = (z0 XOR drop_bit 30 z0) * 0xBF58476D1CE4E5B9;
          z2 = (z1 XOR drop_bit 27 z1) * 0x94D049BB133111EB
      in z2 XOR drop_bit 31 z2)"

definition next_u64 :: "rng \<Rightarrow> 64 word \<times> rng" where
  "next_u64 r = (let r' = r + 0x9E3779B97F4A7C15 in (splitmix r', r'))"

definition rng_range :: "rng \<Rightarrow> u64 \<Rightarrow> u64 \<Rightarrow> u64 \<times> rng" where
  "rng_range r lo hi =
     (if hi \<le> lo then (lo, r)
      else (case next_u64 r of (z, r') \<Rightarrow>
              if hi - lo + 1 \<le> U64_MAX then (lo + unat z mod (hi - lo + 1), r')
              else (unat z, r')))"

record backoff_iter =
  it_policy :: backoff
  it_attempt :: u32
  it_previous :: duration
  it_rng :: rng

definition iter_seeded :: "backoff \<Rightarrow> 64 word \<Rightarrow> backoff_iter" where
  "iter_seeded b seed =
     \<lparr>it_policy = b, it_attempt = 0, it_previous = bo_base b, it_rng = seed\<rparr>"

text \<open>\<open>iter\<close>: the process entropy (counter and clock) is an argument.\<close>

definition bo_iter :: "backoff \<Rightarrow> 64 word \<Rightarrow> backoff_iter" where
  "bo_iter b entropy = iter_seeded b (splitmix (entropy XOR word_rotl 32 (bo_seed b)))"

definition entropy_seed :: "64 word \<Rightarrow> 64 word \<Rightarrow> 64 word" where
  "entropy_seed counter nanos = splitmix (nanos XOR counter * 0x9E3779B97F4A7C15)"

definition dur_to_nanos :: "duration \<Rightarrow> u64" where
  "dur_to_nanos d = to_u64 d"

fun scale_loop :: "nat \<Rightarrow> f64 \<Rightarrow> f64 \<Rightarrow> f64" where
  "scale_loop 0 factor scaled = scaled"
| "scale_loop (Suc n) factor scaled = scale_loop n factor (f64_mul scaled factor)"

definition raw_nanos :: "backoff_iter \<Rightarrow> u32 \<Rightarrow> u64" where
  "raw_nanos it attempt =
     (let b = it_policy it; base = dur_to_nanos (bo_base b) in
      case bo_kind b of
        Kind_Constant \<Rightarrow> base
      | Kind_Linear \<Rightarrow> sat_add64 base (sat_mul64 (dur_to_nanos (bo_increment b)) attempt)
      | Kind_Exponential \<Rightarrow>
          (let scaled = scale_loop (min attempt 64) (bo_factor b) (f64_of_nat base) in
           if f64_is_finite scaled \<and> f64_le (Fin 0) scaled \<and> f64_lt scaled (f64_of_nat U64_MAX)
           then f64_to_uint U64_MAX scaled else U64_MAX))"

definition decorrelated :: "backoff_iter \<Rightarrow> u64 \<Rightarrow> u64 \<times> backoff_iter" where
  "decorrelated it mx =
     (let base = dur_to_nanos (bo_base (it_policy it));
          prev = dur_to_nanos (it_previous it);
          hi = min (max (sat_mul64 prev 3) base) mx;
          lo = min base hi
      in case rng_range (it_rng it) lo hi of (chosen, r) \<Rightarrow>
           (chosen, it\<lparr>it_rng := r, it_previous := max chosen base\<rparr>))"

definition next_delay :: "backoff_iter \<Rightarrow> duration \<times> backoff_iter" where
  "next_delay it =
     (let mx = dur_to_nanos (bo_max (it_policy it)) in
      case (if bo_jitter (it_policy it) = Jitter_Decorrelated then decorrelated it mx
            else
              (let capped = min (raw_nanos it (it_attempt it)) mx in
               case bo_jitter (it_policy it) of
                 Jitter_Full \<Rightarrow>
                   (case rng_range (it_rng it) 0 capped of (n, r) \<Rightarrow> (n, it\<lparr>it_rng := r\<rparr>))
               | Jitter_Equal \<Rightarrow>
                   (let half = capped div 2 in
                    case rng_range (it_rng it) 0 (capped - half) of (n, r) \<Rightarrow>
                      (half + n, it\<lparr>it_rng := r\<rparr>))
               | _ \<Rightarrow> (capped, it)))
      of (nanos, it') \<Rightarrow> (nanos, it'\<lparr>it_attempt := sat_add32 (it_attempt it') 1\<rparr>))"

fun delays :: "nat \<Rightarrow> backoff_iter \<Rightarrow> duration list" where
  "delays 0 it = []"
| "delays (Suc n) it = (case next_delay it of (d, it') \<Rightarrow> d # delays n it')"

subsection \<open>Ranges of the generator\<close>

lemma unat_le_U64: "unat (z :: 64 word) \<le> U64_MAX"
proof -
  have "unat z < 2 ^ LENGTH(64)" by (rule unsigned_less)
  then show ?thesis by (simp add: U64_MAX_def)
qed

lemma rng_range_bounds:
  assumes "lo \<le> hi" "hi \<le> U64_MAX" "rng_range r lo hi = (n, r')"
  shows "lo \<le> n \<and> n \<le> hi"
proof (cases "hi \<le> lo")
  case True
  with assms show ?thesis by (simp add: rng_range_def)
next
  case False
  obtain z where z: "next_u64 r = (z, r')" and n: "n = (if hi - lo + 1 \<le> U64_MAX
      then lo + unat z mod (hi - lo + 1) else unat z)"
    using assms(3) False by (auto simp: rng_range_def split: prod.splits if_splits)
  show ?thesis
  proof (cases "hi - lo + 1 \<le> U64_MAX")
    case True
    have "unat z mod (hi - lo + 1) < hi - lo + 1" by (rule mod_less_divisor) simp
    moreover have "n = lo + unat z mod (hi - lo + 1)" using True n by simp
    ultimately show ?thesis using False by linarith
  next
    case full: False
    with assms(2) False have "lo = 0" "hi = U64_MAX" by auto
    with n full unat_le_U64 [of z] show ?thesis by simp
  qed
qed

text \<open>What one delay lies between, by jitter mode.\<close>

lemma next_delay_policy: "next_delay it = (d, it') \<Longrightarrow> it_policy it' = it_policy it"
  by (auto simp: next_delay_def decorrelated_def Let_def split: if_splits prod.splits jitter.splits)

lemma dur_to_nanos_le: "dur_to_nanos d \<le> U64_MAX" "dur_to_nanos d \<le> d"
  by (simp_all add: dur_to_nanos_def to_u64_le_self)

lemma next_delay_range:
  assumes "next_delay it = (d, it')"
  defines "b \<equiv> it_policy it"
  defines "mx \<equiv> dur_to_nanos (bo_max b)"
  defines "capped \<equiv> min (raw_nanos it (it_attempt it)) mx"
  shows "case bo_jitter b of
      Jitter_None \<Rightarrow> d = capped
    | Jitter_Full \<Rightarrow> d \<le> capped
    | Jitter_Equal \<Rightarrow> capped div 2 \<le> d \<and> d \<le> capped
    | Jitter_Decorrelated \<Rightarrow>
        min (dur_to_nanos (bo_base b)) mx \<le> d \<and>
        d \<le> min (max (dur_to_nanos (bo_base b)) (3 * dur_to_nanos (it_previous it))) mx"
proof -
  have mx: "mx \<le> U64_MAX" by (simp add: mx_def dur_to_nanos_le)
  have c: "capped \<le> U64_MAX" using mx by (simp add: capped_def)
  show ?thesis
  proof (cases "bo_jitter b")
    case Jitter_None
    then show ?thesis
      using assms(1) by (simp add: next_delay_def Let_def b_def mx_def capped_def)
  next
    case Jitter_Full
    obtain n r where r: "rng_range (it_rng it) 0 capped = (n, r)" by fastforce
    with assms(1) Jitter_Full have "d = n" by (simp add: next_delay_def Let_def b_def mx_def capped_def)
    with rng_range_bounds [OF _ c r] Jitter_Full show ?thesis by simp
  next
    case Jitter_Equal
    obtain n r where r: "rng_range (it_rng it) 0 (capped - capped div 2) = (n, r)" by fastforce
    with assms(1) Jitter_Equal have "d = capped div 2 + n"
      by (simp add: next_delay_def Let_def b_def mx_def capped_def)
    moreover have "n \<le> capped - capped div 2" using rng_range_bounds [OF _ _ r] c by simp
    ultimately show ?thesis using Jitter_Equal by simp
  next
    case Jitter_Decorrelated
    let ?base = "dur_to_nanos (bo_base b)" and ?prev = "dur_to_nanos (it_previous it)"
    let ?hi = "min (max (sat_mul64 ?prev 3) ?base) mx"
    obtain n r where r: "rng_range (it_rng it) (min ?base ?hi) ?hi = (n, r)" by fastforce
    with assms(1) Jitter_Decorrelated have "d = n"
      by (simp add: next_delay_def decorrelated_def Let_def b_def mx_def)
    moreover have "min ?base ?hi \<le> n \<and> n \<le> ?hi"
      by (rule rng_range_bounds [OF _ _ r]) (use mx in linarith)+
    moreover have "sat_mul64 ?prev 3 \<le> 3 * ?prev" by (simp add: sat_mul64_def)
    ultimately show ?thesis using Jitter_Decorrelated by auto
  qed
qed

lemma next_delay_max: "next_delay it = (d, it') \<Longrightarrow> d \<le> dur_to_nanos (bo_max (it_policy it))"
  using next_delay_range [of it d it']
  by (cases "bo_jitter (it_policy it)") auto

text \<open>C32: no delay exceeds the ceiling.  Whatever the curve, the factor (NaN, infinite and
  negative ones included), the jitter mode, the seed and the number of attempts, every
  delay of a sequence is at most the configured maximum.\<close>

theorem delays_never_exceed_ceiling:
  "list_all (\<lambda>d. d \<le> bo_max b) (delays n (iter_seeded b seed))"
proof -
  have "list_all (\<lambda>d. d \<le> bo_max (it_policy it)) (delays n it)" for it
  proof (induction n arbitrary: it)
    case (Suc n)
    obtain d it' where d: "next_delay it = (d, it')" by fastforce
    with Suc [of it'] next_delay_max [OF d] next_delay_policy [OF d] dur_to_nanos_le(2)
    show ?case by (simp add: order_trans [OF _ dur_to_nanos_le(2)])
  qed simp
  from this [of "iter_seeded b seed"] show ?thesis by (simp add: iter_seeded_def)
qed

text \<open>What each jitter mode promises about one delay.  Without jitter the delay is the
  capped curve, full jitter stays below it, equal jitter keeps half of it as a floor, and
  the decorrelated recurrence stays between the base delay and three times the previous
  one, all under the ceiling.\<close>

theorem jitter_ranges:
  assumes "next_delay it = (d, it')"
  shows "let b = it_policy it; mx = dur_to_nanos (bo_max b);
             capped = min (raw_nanos it (it_attempt it)) mx; base = dur_to_nanos (bo_base b) in
    case bo_jitter b of
      Jitter_None \<Rightarrow> d = capped
    | Jitter_Full \<Rightarrow> d \<le> capped
    | Jitter_Equal \<Rightarrow> capped div 2 \<le> d \<and> d \<le> capped
    | Jitter_Decorrelated \<Rightarrow> min base mx \<le> d \<and>
        d \<le> min (max base (3 * dur_to_nanos (it_previous it))) mx"
  using next_delay_range [OF assms] by (simp add: Let_def)

theorem jitter_ranges_witness:
  "fst (next_delay (iter_seeded (bo_linear (from_millis 100) (from_millis 50)) 7)) = from_millis 100"
  using jitter_ranges [of "iter_seeded (bo_linear (from_millis 100) (from_millis 50)) 7"
      "fst (next_delay (iter_seeded (bo_linear (from_millis 100) (from_millis 50)) 7))"
      "snd (next_delay (iter_seeded (bo_linear (from_millis 100) (from_millis 50)) 7))"]
  by (simp add: iter_seeded_def bo_linear_def raw_nanos_def dur_to_nanos_def DEFAULT_MAX_def
      machine_arith U64_MAX_def Let_def)

subsection \<open>The exponential curve\<close>

lemma f64_round_int:
  assumes "n < 2 ^ 53"
  shows "f64_round (of_nat n) = Fin (of_nat n)" and "f64_round (- of_nat n) = Fin (- of_nat n)"
proof -
  show pos: "f64_round (of_nat n) = Fin (of_nat n)"
    using f64_of_nat_exact [OF assms] by (simp add: f64_of_nat_def)
  show "f64_round (- of_nat n) = Fin (- of_nat n)"
  proof (cases "n = 0")
    case True
    with pos show ?thesis by simp
  next
    case False
    with pos round_pos_int [OF assms] show ?thesis by (simp add: f64_round_def split: if_splits)
  qed
qed

lemma below_u64_max:
  assumes "n < 2 ^ 53 - 1"
  shows "f64_lt (Fin (of_nat n)) (f64_of_nat U64_MAX)"
proof -
  have "(of_nat (2 ^ 53 - 1) :: rat) \<le> of_nat U64_MAX"
    by (simp only: of_nat_le_iff) (simp add: U64_MAX_def)
  then have "round_pos (of_nat (2 ^ 53 - 1)) \<le> round_pos (of_nat U64_MAX)"
    by (rule round_pos_mono [rotated]) simp
  moreover have "round_pos (of_nat (2 ^ 53 - 1)) = of_nat (2 ^ 53 - 1)"
    by (rule round_pos_int) simp
  moreover have "(of_nat n :: rat) < of_nat (2 ^ 53 - 1)"
    using assms by (simp only: of_nat_less_iff)
  ultimately have "(of_nat n :: rat) < round_pos (of_nat U64_MAX)" by linarith
  then show ?thesis by (auto simp: f64_of_nat_def f64_round_def f64_lt_def)
qed

text \<open>A negative factor does not keep the delay at the ceiling.  The documentation of
  \<open>exponential\<close> says that a negative factor makes every delay after the first jump
  straight to the ceiling; with base 100 ms, factor \<open>-2\<close> and the default ceiling of 30 s,
  the second delay is the ceiling but the third is 400 ms, because the product is positive
  again after an even number of attempts.\<close>

theorem negative_factor_leaves_ceiling:
  "delays 3 (iter_seeded (bo_exponential (from_millis 100) (Fin (- 2))) seed) =
     [from_millis 100, from_secs 30, from_millis 400]"
proof -
  have r: "f64_round (- 200000000) = Fin (- 200000000)" "f64_round 400000000 = Fin 400000000"
    "f64_of_nat 100000000 = Fin 100000000"
    using f64_round_int [of 200000000] f64_round_int [of 400000000] f64_of_nat_exact [of 100000000]
    by simp_all
  have l: "f64_lt (Fin 100000000) (f64_of_nat U64_MAX)" "f64_lt (Fin 400000000) (f64_of_nat U64_MAX)"
    using below_u64_max [of 100000000] below_u64_max [of 400000000] by simp_all
  have m: "min 100000000 U64_MAX = 100000000" "min 30000000000 U64_MAX = 30000000000"
    "min 400000000 U64_MAX = 400000000" "min U64_MAX 30000000000 = 30000000000"
    by (simp_all add: U64_MAX_def)
  show ?thesis
    using r l
    by (simp add: numeral_3_eq_3 iter_seeded_def bo_exponential_def next_delay_def raw_nanos_def
        dur_to_nanos_def DEFAULT_MAX_def machine_arith Let_def numeral_2_eq_2 U32_MAX_def m)
qed

end
