(* ===== verification/Retry_Policy.thy ===== *)
theory Retry_Policy
  imports Backoff Decision
begin

text \<open>
  Retry policies and retry budgets (\<open>src/retry.rs\<close>).  The operation, the sleep and the
  budget's bucket are what the loop calls: the operation is any function on the world that
  also says how long it took, the token bucket is the interface of the \<open>better-bucket\<close>
  crate, a parameter here.  A future dropped at an await is an outcome \<open>None\<close>.
\<close>

datatype retry_action =
    Act_Retry
  | Act_RetryAfter duration
  | Act_GiveUp

record retry =
  ry_backoff :: backoff
  ry_max_attempts :: u32
  ry_respect_retry_after :: bool
  ry_max_retry_after :: duration
  ry_max_elapsed :: "duration option"

definition DEFAULT_MAX_ATTEMPTS :: u32 where
  "DEFAULT_MAX_ATTEMPTS = 5"

definition DEFAULT_MAX_RETRY_AFTER :: duration where
  "DEFAULT_MAX_RETRY_AFTER = from_secs 300"

definition retry_new :: "backoff \<Rightarrow> retry" where
  "retry_new b = \<lparr>ry_backoff = b, ry_max_attempts = DEFAULT_MAX_ATTEMPTS,
     ry_respect_retry_after = True, ry_max_retry_after = DEFAULT_MAX_RETRY_AFTER,
     ry_max_elapsed = None\<rparr>"

definition max_attempts :: "retry \<Rightarrow> u32 \<Rightarrow> retry" where
  "max_attempts r n = r\<lparr>ry_max_attempts := max n 1\<rparr>"

definition respect_retry_after :: "retry \<Rightarrow> bool \<Rightarrow> retry" where
  "respect_retry_after r yes = r\<lparr>ry_respect_retry_after := yes\<rparr>"

definition max_retry_after :: "retry \<Rightarrow> duration \<Rightarrow> retry" where
  "max_retry_after r cap = r\<lparr>ry_max_retry_after := cap\<rparr>"

definition max_elapsed :: "retry \<Rightarrow> duration \<Rightarrow> retry" where
  "max_elapsed r budget = r\<lparr>ry_max_elapsed := Some budget\<rparr>"

definition retry_if_retryable :: "throttle_error \<Rightarrow> retry_action" where
  "retry_if_retryable e = (if is_retryable e then Act_Retry else Act_GiveUp)"

subsection \<open>The loop\<close>

text \<open>The delay before the next attempt; \<open>None\<close> gives up.  The backoff advances even when
  the server's hint overrides it.\<close>

definition choose_delay :: "retry \<Rightarrow> retry_action \<Rightarrow> backoff_iter \<Rightarrow> (duration \<times> backoff_iter) option" where
  "choose_delay r act it =
     (case act of
        Act_GiveUp \<Rightarrow> None
      | Act_Retry \<Rightarrow> Some (next_delay it)
      | Act_RetryAfter hint \<Rightarrow>
          (case next_delay it of (computed, it') \<Rightarrow>
             if \<not> ry_respect_retry_after r then Some (computed, it')
             else if hint > ry_max_retry_after r then None
             else Some (hint, it')))"

function drive ::
  "retry \<Rightarrow> ('w \<Rightarrow> ('e + 'v) option \<times> duration \<times> 'w) \<Rightarrow> ('e \<Rightarrow> retry_action) \<Rightarrow>
   ('w \<Rightarrow> bool \<times> 'w) option \<Rightarrow> (duration \<Rightarrow> 'w \<Rightarrow> bool \<times> 'w) \<Rightarrow>
   backoff_iter \<Rightarrow> u32 \<Rightarrow> duration \<Rightarrow> 'w \<Rightarrow> ('e + 'v) option \<times> 'w" where
  "drive r operation classify withdraw slp it attempt elapsed w =
     (case operation w of (outcome, took, w1) \<Rightarrow>
        (let elapsed1 = dur_add elapsed took in
         case outcome of
           None \<Rightarrow> (None, w1)
         | Some (Inr v) \<Rightarrow> (Some (Inr v), w1)
         | Some (Inl e) \<Rightarrow>
             (if attempt \<ge> ry_max_attempts r then (Some (Inl e), w1)
              else
                (case choose_delay r (classify e) it of
                   None \<Rightarrow> (Some (Inl e), w1)
                 | Some (delay, it') \<Rightarrow>
                     (if (case ry_max_elapsed r of None \<Rightarrow> False | Some m \<Rightarrow> dur_add elapsed1 delay > m)
                      then (Some (Inl e), w1)
                      else
                        (case (case withdraw of None \<Rightarrow> (True, w1) | Some f \<Rightarrow> f w1) of (paid, w2) \<Rightarrow>
                           (if \<not> paid then (Some (Inl e), w2)
                            else
                              (case slp delay w2 of (alive, w3) \<Rightarrow>
                                 (if \<not> alive then (None, w3)
                                  else drive r operation classify withdraw slp it' (attempt + 1)
                                         (dur_add elapsed1 delay) w3)))))))))"
  by pat_completeness auto
termination
  by (relation "measure (\<lambda>(r, op, cl, wd, sl, it, attempt, el, w). ry_max_attempts r - attempt)") auto

declare drive.simps [simp del]

definition retry_run ::
  "retry \<Rightarrow> 64 word \<Rightarrow> ('w \<Rightarrow> ('e + 'v) option \<times> duration \<times> 'w) \<Rightarrow> ('e \<Rightarrow> retry_action) \<Rightarrow>
   (duration \<Rightarrow> 'w \<Rightarrow> bool \<times> 'w) \<Rightarrow> 'w \<Rightarrow> ('e + 'v) option \<times> 'w" where
  "retry_run r entropy operation classify slp w =
     drive r operation classify None slp (bo_iter (ry_backoff r) entropy) 1 0 w"

definition run_with_budget ::
  "retry \<Rightarrow> 64 word \<Rightarrow> ('w \<Rightarrow> 'w) \<Rightarrow> ('w \<Rightarrow> bool \<times> 'w) \<Rightarrow>
   ('w \<Rightarrow> ('e + 'v) option \<times> duration \<times> 'w) \<Rightarrow> ('e \<Rightarrow> retry_action) \<Rightarrow>
   (duration \<Rightarrow> 'w \<Rightarrow> bool \<times> 'w) \<Rightarrow> 'w \<Rightarrow> ('e + 'v) option \<times> 'w" where
  "run_with_budget r entropy deposit withdraw operation classify slp w =
     drive r operation classify (Some withdraw) slp (bo_iter (ry_backoff r) entropy) 1 0 (deposit w)"

subsection \<open>Retry budgets\<close>

text \<open>The part of a \<open>better_bucket::Bucket\<close> the budget calls.\<close>

record 'b bucket_api =
  bk_config :: "u32 \<Rightarrow> u32 \<Rightarrow> duration \<Rightarrow> u32 \<Rightarrow> 'b option"
  bk_closed :: 'b
  bk_refund :: "u32 \<Rightarrow> 'b \<Rightarrow> 'b"
  bk_try_acquire :: "u32 \<Rightarrow> 'b \<Rightarrow> bool \<times> 'b"
  bk_available :: "'b \<Rightarrow> u32 \<times> 'b"

definition MILLI :: u32 where
  "MILLI = 1000"

record 'b retry_budget =
  rb_balance :: 'b
  rb_deposit :: u32
  rb_floor :: u32
  rb_max_retries :: u32

definition assemble :: "'b bucket_api \<Rightarrow> u32 \<Rightarrow> u32 \<Rightarrow> u32 \<Rightarrow> 'b retry_budget" where
  "assemble api deposit floor_rate max_retries0 =
     (let max_retries = clamp 1 (U32_MAX div MILLI) max_retries0;
          capacity = max_retries * MILLI;
          (amount, period) =
            (if floor_rate = 0 then (1, from_secs 3600)
             else (min (sat_mul32 floor_rate MILLI) capacity, from_secs 1));
          initial = min (sat_mul32 floor_rate MILLI) capacity;
          balance = (case bk_config api capacity amount period initial of
                       Some b \<Rightarrow> b
                     | None \<Rightarrow> bk_closed api)
      in \<lparr>rb_balance = balance, rb_deposit = deposit, rb_floor = floor_rate,
          rb_max_retries = max_retries\<rparr>)"

definition budget_new :: "'b bucket_api \<Rightarrow> f64 \<Rightarrow> u32 \<Rightarrow> 'b retry_budget" where
  "budget_new api ratio min_per_second =
     (let ratio' = (if ratio = NaN then Fin 0 else f64_clamp ratio 0 1000);
          deposit = f64_to_uint U32_MAX (f64_round_integer (f64_mul ratio' (f64_of_nat MILLI)));
          max_retries = max (sat_mul32 min_per_second 10) 10
      in assemble api deposit min_per_second max_retries)"

definition with_max_balance :: "'b bucket_api \<Rightarrow> 'b retry_budget \<Rightarrow> u32 \<Rightarrow> 'b retry_budget" where
  "with_max_balance api rb retries = assemble api (rb_deposit rb) (rb_floor rb) retries"

definition rb_make_deposit :: "'b bucket_api \<Rightarrow> 'b retry_budget \<Rightarrow> 'b retry_budget" where
  "rb_make_deposit api rb = rb\<lparr>rb_balance := bk_refund api (rb_deposit rb) (rb_balance rb)\<rparr>"

definition try_withdraw :: "'b bucket_api \<Rightarrow> 'b retry_budget \<Rightarrow> bool \<times> 'b retry_budget" where
  "try_withdraw api rb =
     (case bk_try_acquire api MILLI (rb_balance rb) of (ok, b) \<Rightarrow> (ok, rb\<lparr>rb_balance := b\<rparr>))"

definition rb_balance_of :: "'b bucket_api \<Rightarrow> 'b retry_budget \<Rightarrow> u32 \<times> 'b retry_budget" where
  "rb_balance_of api rb =
     (case bk_available api (rb_balance rb) of (a, b) \<Rightarrow> (a div MILLI, rb\<lparr>rb_balance := b\<rparr>))"

subsection \<open>What a run does, by its log\<close>

datatype 'r retry_event =
    Called "'r option"
  | Withdrew bool
  | Slept duration

definition log_call ::
  "('w \<Rightarrow> 'r option \<times> duration \<times> 'w) \<Rightarrow> 'w \<times> 'r retry_event list \<Rightarrow>
   'r option \<times> duration \<times> ('w \<times> 'r retry_event list)" where
  "log_call f = (\<lambda>(w, es). case f w of (r, t, w') \<Rightarrow> (r, t, (w', es @ [Called r])))"

definition log_withdraw ::
  "('w \<Rightarrow> bool \<times> 'w) \<Rightarrow> 'w \<times> 'r retry_event list \<Rightarrow> bool \<times> ('w \<times> 'r retry_event list)" where
  "log_withdraw f = (\<lambda>(w, es). case f w of (ok, w') \<Rightarrow> (ok, (w', es @ [Withdrew ok])))"

definition log_sleep ::
  "(duration \<Rightarrow> 'w \<Rightarrow> bool \<times> 'w) \<Rightarrow> duration \<Rightarrow> 'w \<times> 'r retry_event list \<Rightarrow>
   bool \<times> ('w \<times> 'r retry_event list)" where
  "log_sleep f d = (\<lambda>(w, es). case f d w of (ok, w') \<Rightarrow> (ok, (w', es @ [Slept d])))"

fun calls :: "'r retry_event list \<Rightarrow> 'r option list" where
  "calls [] = []"
| "calls (Called r # es) = r # calls es"
| "calls (_ # es) = calls es"

fun sleeps :: "'r retry_event list \<Rightarrow> duration list" where
  "sleeps [] = []"
| "sleeps (Slept d # es) = d # sleeps es"
| "sleeps (_ # es) = sleeps es"

fun paid :: "'r retry_event list \<Rightarrow> nat" where
  "paid [] = 0"
| "paid (Withdrew ok # es) = (if ok then 1 else 0) + paid es"
| "paid (_ # es) = paid es"

lemma log_append [simp]:
  "calls (es @ fs) = calls es @ calls fs"
  "sleeps (es @ fs) = sleeps es @ sleeps fs"
  "paid (es @ fs) = paid es + paid fs"
  by (induction es rule: calls.induct) auto

lemma choose_delay_bound:
  assumes "choose_delay r act it = Some (d, it')" "bo_max (it_policy it) = m"
  shows "d \<le> max m (ry_max_retry_after r) \<and> it_policy it' = it_policy it"
proof -
  obtain c it1 where n: "next_delay it = (c, it1)" by fastforce
  have "c \<le> m" using next_delay_max [OF n] dur_to_nanos_le(2) [of m] assms(2) by simp
  with assms(1) n next_delay_policy [OF n] show ?thesis
    by (auto simp: choose_delay_def split: retry_action.splits if_splits)
qed

text \<open>What the events of a run from a given attempt on satisfy.\<close>

definition run_ok ::
  "retry \<Rightarrow> bool \<Rightarrow> duration \<Rightarrow> u32 \<Rightarrow> duration \<Rightarrow> 'r option \<Rightarrow> 'r retry_event list \<Rightarrow> bool" where
  "run_ok r budgeted m attempt elapsed res es \<longleftrightarrow>
     1 \<le> length (calls es) \<and> length (calls es) \<le> max 1 (ry_max_attempts r - attempt + 1) \<and>
     (\<forall>d\<in>set (sleeps es). d \<le> max m (ry_max_retry_after r)) \<and>
     (if res = None then length (sleeps es) \<le> length (calls es)
      else length (sleeps es) + 1 = length (calls es) \<and> res = last (calls es)) \<and>
     (budgeted \<longrightarrow> paid es = length (sleeps es)) \<and>
     (\<forall>bound. ry_max_elapsed r = Some bound \<and> bound < DURATION_MAX \<and> sleeps es \<noteq> [] \<longrightarrow>
        elapsed + sum_list (sleeps es) \<le> bound)"

lemma run_ok_end: "run_ok r bud m attempt elapsed res [Called res]"
  by (simp add: run_ok_def)

lemma run_ok_unpaid: "run_ok r bud m attempt elapsed res [Called res, Withdrew False]"
  by (simp add: run_ok_def)

lemma dur_add_below: "dur_add a b \<le> bound \<Longrightarrow> bound < DURATION_MAX \<Longrightarrow> a + b \<le> bound \<and> dur_add a b = a + b"
  by (auto simp: dur_add_def min_def split: if_splits)

lemma run_ok_step:
  assumes "run_ok r bud m (attempt + 1) (dur_add (dur_add elapsed took) d) res es"
    and "attempt < ry_max_attempts r" and "d \<le> max m (ry_max_retry_after r)"
    and "\<forall>bound. ry_max_elapsed r = Some bound \<longrightarrow> dur_add (dur_add elapsed took) d \<le> bound"
    and "pay = (if bud then [Withdrew True] else [])"
  shows "run_ok r bud m attempt elapsed res (Called (Some x) # pay @ Slept d # es)"
proof -
  have "elapsed + (d + sum_list (sleeps es)) \<le> bound"
    if "ry_max_elapsed r = Some bound" "bound < DURATION_MAX" for bound
  proof -
    have b: "dur_add (dur_add elapsed took) d \<le> bound" using assms(4) that(1) by blast
    from dur_add_below [OF this that(2)] have c: "dur_add elapsed took + d \<le> bound"
      "dur_add (dur_add elapsed took) d = dur_add elapsed took + d" by auto
    have "elapsed \<le> dur_add elapsed took"
      using dur_add_below [of elapsed took bound] c(1) that(2) by simp
    then show ?thesis using assms(1) that c by (cases "sleeps es = []") (auto simp: run_ok_def)
  qed
  moreover have "calls es \<noteq> []" using assms(1) by (auto simp: run_ok_def)
  ultimately show ?thesis
    using assms by (auto simp: run_ok_def split: if_splits)
qed

lemma run_ok_dropped:
  assumes "attempt < ry_max_attempts r" and "d \<le> max m (ry_max_retry_after r)"
    and "\<forall>bound. ry_max_elapsed r = Some bound \<longrightarrow> dur_add (dur_add elapsed took) d \<le> bound"
    and "pay = (if bud then [Withdrew True] else [])"
  shows "run_ok r bud m attempt elapsed None (Called (Some x) # pay @ [Slept d])"
proof -
  have "elapsed + d \<le> bound" if "ry_max_elapsed r = Some bound" "bound < DURATION_MAX" for bound
    using assms(3) that dur_add_below [of "dur_add elapsed took" d bound]
      dur_add_below [of elapsed took bound] by fastforce
  then show ?thesis using assms by (auto simp: run_ok_def)
qed

lemma drive_log:
  assumes "drive r (log_call op) cl (map_option log_withdraw wd) (log_sleep slp) it attempt elapsed (w, es0)
      = (res, (w', es))" and "bo_max (it_policy it) = m"
  shows "\<exists>es'. es = es0 @ es' \<and> run_ok r (wd \<noteq> None) m attempt elapsed res es'"
  using assms
proof (induction "ry_max_attempts r - attempt" arbitrary: it attempt elapsed w es0 rule: less_induct)
  case less
  note body = less.prems(1) [unfolded drive.simps [of r "log_call op" cl "map_option log_withdraw wd"
      "log_sleep slp" it attempt elapsed "(w, es0)"] Let_def]
  obtain outcome took w1 where o: "op w = (outcome, took, w1)" by (metis prod_cases3)
  have lc: "log_call op (w, es0) = (outcome, took, (w1, es0 @ [Called outcome]))"
    by (simp add: log_call_def o)
  consider (stop) "res = outcome" "es = es0 @ [Called outcome]"
    | (go) e d it' where "outcome = Some (Inl e)" "attempt < ry_max_attempts r"
        "choose_delay r (cl e) it = Some (d, it')"
        "\<forall>bound. ry_max_elapsed r = Some bound \<longrightarrow> dur_add (dur_add elapsed took) d \<le> bound"
    using body lc
    by (auto split: option.splits sum.splits if_splits prod.splits simp: not_less not_le)
  then show ?case
  proof cases
    case stop
    then show ?thesis using run_ok_end by blast
  next
    case go
    note bnd = choose_delay_bound [OF go(3) less.prems(2)]
    define pay :: "('a + 'b) retry_event list" where "pay = (if wd \<noteq> None then [Withdrew True] else [])"
    obtain ok w2 where p: "(case map_option log_withdraw wd of None \<Rightarrow> (True, (w1, es0 @ [Called outcome]))
        | Some f \<Rightarrow> f (w1, es0 @ [Called outcome])) = (ok, w2)" by (metis surj_pair)
    show ?thesis
    proof (cases ok)
      case False
      then have "res = outcome" "es = es0 @ [Called outcome, Withdrew False]"
        using body lc go p
        by (auto simp: log_withdraw_def split: option.splits prod.splits if_splits)
      then show ?thesis using run_ok_unpaid by blast
    next
      case True
      then obtain w2' where w2: "w2 = (w2', es0 @ Called outcome # pay)"
        using p by (auto simp: log_withdraw_def pay_def split: option.splits prod.splits)
      obtain alive w3 where sl: "slp d w2' = (alive, w3)" by fastforce
      have ls: "log_sleep slp d w2 = (alive, (w3, es0 @ Called outcome # pay @ [Slept d]))"
        by (simp add: log_sleep_def w2 sl)
      have ne: "\<not> (case ry_max_elapsed r of None \<Rightarrow> False
          | Some m \<Rightarrow> dur_add (dur_add elapsed took) d > m)"
        using go(4) by (auto split: option.splits)
      have rest: "(if \<not> alive then (None, (w3, es0 @ Called outcome # pay @ [Slept d]))
          else drive r (log_call op) cl (map_option log_withdraw wd) (log_sleep slp) it' (attempt + 1)
            (dur_add (dur_add elapsed took) d) (w3, es0 @ Called outcome # pay @ [Slept d])) = (res, (w', es))"
        using body [unfolded lc prod.case p, unfolded go(1,3) option.case sum.case prod.case]
          go(1,2) ne True ls by (cases alive) (simp_all add: not_le)
      show ?thesis
      proof (cases alive)
        case False
        then have "res = None" "es = es0 @ Called outcome # pay @ [Slept d]"
          using rest by auto
        then show ?thesis
          using run_ok_dropped [OF go(2) conjunct1 [OF bnd] go(4) pay_def] go(1) by blast
      next
        case alive: True
        have rec: "drive r (log_call op) cl (map_option log_withdraw wd) (log_sleep slp) it' (attempt + 1)
            (dur_add (dur_add elapsed took) d) (w3, es0 @ Called outcome # pay @ [Slept d]) = (res, (w', es))"
          using rest alive by simp
        have pol: "bo_max (it_policy it') = m" using bnd less.prems(2) by simp
        have dec: "ry_max_attempts r - (attempt + 1) < ry_max_attempts r - attempt" using go(2) by simp
        from less.hyps [OF dec rec pol] obtain es'
          where "es = (es0 @ Called outcome # pay @ [Slept d]) @ es'"
            "run_ok r (wd \<noteq> None) m (attempt + 1) (dur_add (dur_add elapsed took) d) res es'" by blast
        then show ?thesis
          using run_ok_step [OF _ go(2) conjunct1 [OF bnd] go(4) pay_def] go(1)
          by (metis append.assoc append_Cons append_Nil)
      qed
    qed
  qed
qed

text \<open>C12: a retry loop is bounded and honest.  Whatever the operation, the classifier, the
  budget and the sleeps do, a run calls the operation at least once and at most
  \<open>max_attempts\<close> times; a run that is not dropped slept exactly once between two calls,
  returns what the last call returned, and with a budget paid for every retry; no sleep
  is longer than the backoff's ceiling or the cap on server hints; and with a total time
  budget the sleeps together stay within it.\<close>

theorem retry_run_bounded:
  assumes "drive (max_attempts r n) (log_call operation) classify (map_option log_withdraw withdraw)
      (log_sleep slp) (bo_iter (ry_backoff r) entropy) 1 0 (w, []) = (res, (w', es))"
  shows "1 \<le> length (calls es) \<and> length (calls es) \<le> max n 1 \<and>
    (res \<noteq> None \<longrightarrow> length (sleeps es) + 1 = length (calls es) \<and> res = last (calls es)) \<and>
    (withdraw \<noteq> None \<longrightarrow> paid es = length (sleeps es)) \<and>
    (\<forall>d\<in>set (sleeps es). d \<le> max (bo_max (ry_backoff r)) (ry_max_retry_after r)) \<and>
    (\<forall>bound. ry_max_elapsed r = Some bound \<and> bound < DURATION_MAX \<longrightarrow> sum_list (sleeps es) \<le> bound)"
proof -
  have "bo_max (it_policy (bo_iter (ry_backoff r) entropy)) = bo_max (ry_backoff r)"
    by (simp add: bo_iter_def iter_seeded_def)
  from drive_log [OF assms this]
  have ok: "run_ok (max_attempts r n) (withdraw \<noteq> None) (bo_max (ry_backoff r)) 1 0 res es" by auto
  have "sum_list (sleeps es) \<le> bound" if "ry_max_elapsed r = Some bound" "bound < DURATION_MAX" for bound
    using ok that by (cases "sleeps es = []") (auto simp: run_ok_def max_attempts_def)
  with ok show ?thesis by (auto simp: run_ok_def max_attempts_def split: if_splits)
qed

theorem retry_run_bounded_witness:
  "let (res, (w', es)) = drive (max_attempts (retry_new (bo_constant 5)) 3)
        (log_call (\<lambda>w :: nat. (Some (if w = 1 then Inr ''ok'' else Inl w), 1, w + 1)))
        (\<lambda>_. Act_Retry) (map_option log_withdraw None) (log_sleep (\<lambda>d w. (True, w)))
        (bo_iter (bo_constant 5) 0) 1 0 (0, [])
   in res = Some (Inr ''ok'') \<and> length (calls es) \<le> 3 \<and> sum_list (sleeps es) = 5"
proof -
  let ?op = "\<lambda>w :: nat. (Some (if w = 1 then Inr ''ok'' else Inl w), 1, w + 1)"
  let ?drive = "drive (max_attempts (retry_new (bo_constant 5)) 3) (log_call ?op) (\<lambda>_. Act_Retry)
      (map_option log_withdraw None) (log_sleep (\<lambda>d w. (True, w)))"
  obtain it where it: "next_delay (bo_iter (bo_constant 5) 0) = (5, it)"
    by (simp add: next_delay_def raw_nanos_def bo_iter_def iter_seeded_def bo_constant_def
        dur_to_nanos_def machine_arith U64_MAX_def Let_def)
  have "?drive (bo_iter (bo_constant 5) 0) 1 0 (0, []) =
      ?drive it 2 6 (1, [Called (Some (Inl 0)), Slept 5])"
    by (subst drive.simps) (simp add: log_call_def log_sleep_def choose_delay_def it retry_new_def
        max_attempts_def machine_arith DURATION_MAX_def numeral_2_eq_2)
  also have "\<dots> = (Some (Inr ''ok''), (2, [Called (Some (Inl 0)), Slept 5, Called (Some (Inr ''ok''))]))"
    by (subst drive.simps) (simp add: log_call_def)
  finally have r: "?drive (bo_iter (ry_backoff (retry_new (bo_constant 5))) 0) 1 0 (0, []) =
      (Some (Inr ''ok''), (2, [Called (Some (Inl 0)), Slept 5, Called (Some (Inr ''ok''))]))"
    by (simp add: retry_new_def)
  from retry_run_bounded [OF r] r show ?thesis by (simp add: retry_new_def)
qed

end
