(* ===== verification/Resume.thy ===== *)
theory Resume
  imports Hold Decision
begin

text \<open>
  Lifting a pause while waiters sleep it out: \<open>resume\<close>, \<open>resume_epoch\<close> and
  \<open>sleep_unless_resumed\<close> of \<open>src/rt.rs\<close>, and the loop of \<open>src/wait.rs\<close> in which a granted waiter
  sleeps out a pause.  Each atomic operation is one step, and the steps of any number of
  waiters and resumers interleave.  A listener of the event is notified by every \<open>notify\<close>
  that follows its registration.
\<close>

subsection \<open>State\<close>

text \<open>Where a waiter is in its loop.  It carries the epoch it read; \<open>Listening\<close> and \<open>Asleep\<close> carry
  whether its listener was notified, \<open>Asleep\<close> also when its timer fires.\<close>

datatype sleeper =
    Looking
  | Has_Epoch usize
  | Saw_Pause usize duration
  | Listening usize duration bool
  | Asleep usize nat bool
  | Napping nat
  | Through

text \<open>Where a resumer is: its epoch is the one its own bump produced, and \<open>Lifted\<close> says whether
  a pause was set.\<close>

datatype resumer =
    Idle
  | Bumped usize
  | Lifted usize bool

record rt_state =
  rs_epoch :: usize
  rs_hold :: hold
  rs_now :: u64
  rs_waiter :: "nat \<Rightarrow> sleeper"
  rs_resumer :: "nat \<Rightarrow> resumer"
  rs_served :: usize

text \<open>\<open>rs_served\<close> records the latest bump among the resumes that lifted a pause and notified; it is
  bookkeeping of the model, which no decision reads.\<close>

definition set_waiter :: "nat \<Rightarrow> sleeper \<Rightarrow> rt_state \<Rightarrow> rt_state" where
  "set_waiter i x s = s\<lparr>rs_waiter := (rs_waiter s)(i := x)\<rparr>"

definition set_resumer :: "nat \<Rightarrow> resumer \<Rightarrow> rt_state \<Rightarrow> rt_state" where
  "set_resumer i x s = s\<lparr>rs_resumer := (rs_resumer s)(i := x)\<rparr>"

subsection \<open>Resuming\<close>

definition bump_epoch :: "nat \<Rightarrow> rt_state \<Rightarrow> rt_state" where
  "bump_epoch i s = set_resumer i (Bumped (rs_epoch s + 1)) (s\<lparr>rs_epoch := rs_epoch s + 1\<rparr>)"

definition lift_pause :: "nat \<Rightarrow> usize \<Rightarrow> rt_state \<Rightarrow> rt_state" where
  "lift_pause i k s = set_resumer i (Lifted k (hold_is_set (rs_hold s))) (s\<lparr>rs_hold := hold_clear (rs_hold s)\<rparr>)"

fun notified :: "sleeper \<Rightarrow> sleeper" where
  "notified (Listening e d _) = Listening e d True"
| "notified (Asleep e t _) = Asleep e t True"
| "notified x = x"

definition notify_all :: "nat \<Rightarrow> usize \<Rightarrow> bool \<Rightarrow> rt_state \<Rightarrow> rt_state" where
  "notify_all i k was_set s = set_resumer i Idle
     (if was_set then s\<lparr>rs_waiter := notified \<circ> rs_waiter s, rs_served := max (rs_served s) k\<rparr> else s)"

subsection \<open>Waiting\<close>

text \<open>What a waiter does next, \<open>None\<close> when it has to wait for its timer or its listener.\<close>

fun waiter_next :: "rt_state \<Rightarrow> sleeper \<Rightarrow> sleeper option" where
  "waiter_next s Looking = Some (Has_Epoch (rs_epoch s))"
| "waiter_next s (Has_Epoch e) =
     (let pause = hold_remaining (rs_hold s) (rs_now s) in
      Some (if pause = 0 then Through
            else if pause \<le> from_millis 1 then Napping (rs_now s + pause)
            else Saw_Pause e pause))"
| "waiter_next s (Saw_Pause e d) = Some (Listening e d False)"
| "waiter_next s (Listening e d n) = Some (if rs_epoch s \<noteq> e then Looking else Asleep e (rs_now s + d) n)"
| "waiter_next s (Asleep e t n) = (if n \<or> t \<le> rs_now s then Some Looking else None)"
| "waiter_next s (Napping t) = (if t \<le> rs_now s then Some Looking else None)"
| "waiter_next s Through = None"

text \<open>One step of anyone.  The clock only moves forward, and fewer than \<open>2^64\<close> resumes happen.\<close>

inductive rt_step :: "rt_state \<Rightarrow> rt_state \<Rightarrow> bool" where
  step_waiter: "waiter_next s (rs_waiter s i) = Some x \<Longrightarrow> rt_step s (set_waiter i x s)"
| step_bump: "rs_resumer s i = Idle \<Longrightarrow> rs_epoch s < U64_MAX \<Longrightarrow> rt_step s (bump_epoch i s)"
| step_lift: "rs_resumer s i = Bumped k \<Longrightarrow> rt_step s (lift_pause i k s)"
| step_notify: "rs_resumer s i = Lifted k b \<Longrightarrow> rt_step s (notify_all i k b s)"
| step_pause: "rt_step s (s\<lparr>rs_hold := hold_extend (rs_hold s) (rs_now s) d\<rparr>)"
| step_clock: "rs_now s \<le> t \<Longrightarrow> rt_step s (s\<lparr>rs_now := t\<rparr>)"

definition rt_init :: rt_state where
  "rt_init = \<lparr>rs_epoch = 0, rs_hold = hold_new, rs_now = 0, rs_waiter = (\<lambda>_. Looking), rs_resumer = (\<lambda>_. Idle), rs_served = 0\<rparr>"

definition rt_reachable :: "rt_state \<Rightarrow> bool" where
  "rt_reachable s \<longleftrightarrow> rt_step\<^sup>*\<^sup>* rt_init s"

subsection \<open>The invariant\<close>

text \<open>No one holds an epoch of the future, a resume notifies after its bump, and a waiter asleep
  without a notification read its epoch no earlier than any completed lifting resume bumped it.\<close>

fun waiter_ok :: "usize \<Rightarrow> usize \<Rightarrow> sleeper \<Rightarrow> bool" where
  "waiter_ok epoch served (Has_Epoch e) \<longleftrightarrow> e \<le> epoch"
| "waiter_ok epoch served (Saw_Pause e d) \<longleftrightarrow> e \<le> epoch"
| "waiter_ok epoch served (Listening e d n) \<longleftrightarrow> e \<le> epoch"
| "waiter_ok epoch served (Asleep e t n) \<longleftrightarrow> e \<le> epoch \<and> (n \<or> served \<le> e)"
| "waiter_ok epoch served x \<longleftrightarrow> True"

fun resumer_ok :: "usize \<Rightarrow> resumer \<Rightarrow> bool" where
  "resumer_ok epoch Idle \<longleftrightarrow> True"
| "resumer_ok epoch (Bumped k) \<longleftrightarrow> k \<le> epoch"
| "resumer_ok epoch (Lifted k b) \<longleftrightarrow> k \<le> epoch"

definition rt_inv :: "rt_state \<Rightarrow> bool" where
  "rt_inv s \<longleftrightarrow> rs_served s \<le> rs_epoch s \<and> (\<forall>i. waiter_ok (rs_epoch s) (rs_served s) (rs_waiter s i)) \<and>
     (\<forall>i. resumer_ok (rs_epoch s) (rs_resumer s i))"

lemma waiter_ok_later: "waiter_ok e k x \<Longrightarrow> e \<le> e' \<Longrightarrow> waiter_ok e' k x"
  by (cases x) auto

lemma resumer_ok_later: "resumer_ok e x \<Longrightarrow> e \<le> e' \<Longrightarrow> resumer_ok e' x"
  by (cases x) auto

lemma waiter_next_ok:
  "waiter_ok (rs_epoch s) k x \<Longrightarrow> k \<le> rs_epoch s \<Longrightarrow> waiter_next s x = Some y \<Longrightarrow> waiter_ok (rs_epoch s) k y"
  by (cases x) (auto simp: Let_def split: if_splits)

lemma notified_ok: "waiter_ok e k x \<Longrightarrow> waiter_ok e k' (notified x)"
  by (cases x) auto

lemmas rt_ops = set_waiter_def set_resumer_def bump_epoch_def lift_pause_def notify_all_def

lemma rt_step_inv:
  assumes "rt_step s s'" and "rt_inv s"
  shows "rt_inv s'"
  using assms
proof (cases rule: rt_step.cases)
  case (step_waiter i x)
  then show ?thesis using assms(2) waiter_next_ok [of s "rs_served s" "rs_waiter s i" x] by (auto simp: rt_inv_def rt_ops)
next
  case (step_bump i)
  then show ?thesis using assms(2) by (auto simp: rt_inv_def rt_ops intro: waiter_ok_later resumer_ok_later)
next
  case (step_lift i k)
  then show ?thesis using assms(2) by (auto simp: rt_inv_def rt_ops) (metis resumer_ok.simps(2))
next
  case (step_notify i k b)
  then have "k \<le> rs_epoch s" using assms(2) by (metis rt_inv_def resumer_ok.simps(3))
  then show ?thesis using step_notify assms(2) by (auto simp: rt_inv_def rt_ops intro: notified_ok)
qed (auto simp: rt_inv_def)

lemma rt_reachable_inv: "rt_reachable s \<Longrightarrow> rt_inv s"
  unfolding rt_reachable_def
proof (induction rule: rtranclp_induct)
  case base
  show ?case by (simp add: rt_inv_def rt_init_def)
qed (rule rt_step_inv)

subsection \<open>Properties\<close>

text \<open>C28: A resume wakes every waiter whose epoch is older than it.  In every reachable state a waiter
  that sleeps without having been notified read its epoch no earlier than the bump of any
  resume that has lifted a pause and notified.\<close>

theorem older_waiters_are_woken:
  assumes "rt_reachable s" and "rs_waiter s i = Asleep e t False"
  shows "rs_served s \<le> e \<and> e \<le> rs_epoch s"
  using rt_reachable_inv [OF assms(1)] assms(2) unfolding rt_inv_def by (metis waiter_ok.simps(4))

text \<open>C29: A resume can be slept through.  A waiter that reads the epoch after the resumer bumped it and
  looks at the pause before the resumer clears it can register its listener after the
  notification: then no pause is set, no resume is in progress, and it sleeps on, unnotified,
  until its timer fires at the end of the lifted pause, however long that is.\<close>

theorem resume_can_be_slept_through:
  assumes "from_millis 1 < d" and "d \<le> U64_MAX"
  shows "\<exists>s. rt_reachable s \<and> rs_waiter s 0 = Asleep (rs_epoch s) (rs_now s + d) False \<and>
    hold_remaining (rs_hold s) (rs_now s) = 0 \<and> (\<forall>i. rs_resumer s i = Idle) \<and> waiter_next s (rs_waiter s 0) = None"
proof -
  let ?s1 = "rt_init\<lparr>rs_hold := hold_extend hold_new 0 d\<rparr>"
  let ?s2 = "bump_epoch 0 ?s1"
  let ?s3 = "set_waiter 0 (Has_Epoch 1) ?s2"
  let ?s4 = "set_waiter 0 (Saw_Pause 1 d) ?s3"
  let ?s5 = "lift_pause 0 1 ?s4"
  let ?s6 = "notify_all 0 1 True ?s5"
  let ?s7 = "set_waiter 0 (Listening 1 d False) ?s6"
  let ?s8 = "set_waiter 0 (Asleep 1 d False) ?s7"
  note ops = rt_init_def rt_ops
  have d: "0 < d" "hold_remaining (hold_extend hold_new 0 d) 0 = d" "hold_is_set (hold_extend hold_new 0 d)"
    using assms by (auto simp: hold_extend_def hold_new_def hold_remaining_def hold_is_set_def Let_def sat_add64_def
        nanos_u64_def to_u64_def from_millis_def max_def)
  have "rt_step rt_init ?s1" using step_pause [of rt_init d] by (simp add: rt_init_def)
  moreover have "rt_step ?s1 ?s2" by (rule step_bump) (simp_all add: ops U64_MAX_def)
  moreover have "rt_step ?s2 ?s3" by (rule step_waiter) (simp add: ops)
  moreover have "rt_step ?s3 ?s4" by (rule step_waiter) (use d assms(1) in \<open>simp add: ops\<close>)
  moreover have "rt_step ?s4 ?s5" by (rule step_lift) (simp add: ops)
  moreover have "rt_step ?s5 ?s6" by (rule step_notify) (use d in \<open>simp add: ops\<close>)
  moreover have "rt_step ?s6 ?s7" by (rule step_waiter) (simp add: ops)
  moreover have "rt_step ?s7 ?s8" by (rule step_waiter) (simp add: ops)
  ultimately have "rt_reachable ?s8"
    unfolding rt_reachable_def by (meson converse_rtranclp_into_rtranclp rtranclp.rtrancl_refl)
  then show ?thesis using d by (intro exI [of _ ?s8]) (simp add: ops)
qed

subsection \<open>Witnesses\<close>

theorem resume_can_be_slept_through_witness:
  "\<exists>s. rt_reachable s \<and> rs_waiter s 0 = Asleep (rs_epoch s) (rs_now s + 3600000000000) False \<and>
    hold_remaining (rs_hold s) (rs_now s) = 0"
  using resume_can_be_slept_through [of 3600000000000] by (auto simp: from_millis_def U64_MAX_def)

lemma asleep_reachable: "\<exists>s. rt_reachable s \<and> rs_waiter s 0 = Asleep (rs_epoch s) (rs_now s + 2000000) False"
proof -
  let ?s1 = "rt_init\<lparr>rs_hold := hold_extend hold_new 0 2000000\<rparr>"
  let ?s2 = "set_waiter 0 (Has_Epoch 0) ?s1"
  let ?s3 = "set_waiter 0 (Saw_Pause 0 2000000) ?s2"
  let ?s4 = "set_waiter 0 (Listening 0 2000000 False) ?s3"
  let ?s5 = "set_waiter 0 (Asleep 0 2000000 False) ?s4"
  note ops = rt_init_def rt_ops hold_extend_def hold_new_def hold_remaining_def Let_def machine_arith from_millis_def U64_MAX_def
  have "rt_step rt_init ?s1" using step_pause [of rt_init 2000000] by (simp add: rt_init_def)
  moreover have "rt_step ?s1 ?s2" by (rule step_waiter) (simp add: ops)
  moreover have "rt_step ?s2 ?s3" by (rule step_waiter) (simp add: ops)
  moreover have "rt_step ?s3 ?s4" by (rule step_waiter) (simp add: ops)
  moreover have "rt_step ?s4 ?s5" by (rule step_waiter) (simp add: ops)
  ultimately have "rt_reachable ?s5"
    unfolding rt_reachable_def by (meson converse_rtranclp_into_rtranclp rtranclp.rtrancl_refl)
  then show ?thesis by (intro exI [of _ ?s5]) (simp add: rt_init_def rt_ops)
qed

theorem older_waiters_are_woken_witness:
  "\<exists>s. rt_reachable s \<and> rs_waiter s 0 = Asleep (rs_epoch s) (rs_now s + 2000000) False \<and> rs_served s \<le> rs_epoch s"
  using asleep_reachable older_waiters_are_woken by blast

end
