(* ===== verification/Slot_Wait.thy ===== *)
theory Slot_Wait
  imports Net_Prelude
begin

text \<open>
  Waiting for a slot: \<open>Bulkhead::wait\<close> (\<open>src/bulkhead.rs\<close>) and \<open>AdaptiveLimiter::wait_for_slot\<close>
  (\<open>src/adaptive.rs\<close>) run the same loop over a counter, a limit and an event.  Tasks interleave
  between any two atomic operations.  Of the event it is used that listeners are notified in
  the order of their registration, that \<open>notify_additional\<close> notifies that many more of them, and
  that a listener dropped after its notification passes it on.
\<close>

datatype slot_pc =
    Away
  | First_Try
  | To_Listen
  | Second_Try
  | Sleeping
  | Holding
  | Raised nat
  | Released

record slots =
  sl_limit :: u32
  sl_used :: u32
  sl_listeners :: "(nat \<times> bool) list"
  sl_pc :: "nat \<Rightarrow> slot_pc"

definition goto :: "nat \<Rightarrow> slot_pc \<Rightarrow> slots \<Rightarrow> slots" where
  "goto i x s = s\<lparr>sl_pc := (sl_pc s)(i := x)\<rparr>"

subsection \<open>The event\<close>

fun notify_more :: "nat \<Rightarrow> (nat \<times> bool) list \<Rightarrow> (nat \<times> bool) list" where
  "notify_more 0 ls = ls"
| "notify_more n [] = []"
| "notify_more n ((i, True) # ls) = (i, True) # notify_more n ls"
| "notify_more (Suc n) ((i, False) # ls) = (i, True) # notify_more n ls"

definition notified_in :: "(nat \<times> bool) list \<Rightarrow> nat \<Rightarrow> bool" where
  "notified_in ls i \<longleftrightarrow> (i, True) \<in> set ls"

definition without :: "nat \<Rightarrow> (nat \<times> bool) list \<Rightarrow> (nat \<times> bool) list" where
  "without i ls = filter (\<lambda>(j, _). j \<noteq> i) ls"

definition drop_listener :: "nat \<Rightarrow> (nat \<times> bool) list \<Rightarrow> (nat \<times> bool) list" where
  "drop_listener i ls =
     (let rest = without i ls in if notified_in ls i then notify_more 1 rest else rest)"

subsection \<open>The operations\<close>

text \<open>A try of the waiting loop.  The second one drops the listener when it succeeds.\<close>

definition first_try :: "nat \<Rightarrow> slots \<Rightarrow> slots" where
  "first_try i s =
     (if sl_used s < sl_limit s then goto i Holding (s\<lparr>sl_used := sl_used s + 1\<rparr>) else goto i To_Listen s)"

definition slot_listen :: "nat \<Rightarrow> slots \<Rightarrow> slots" where
  "slot_listen i s = goto i Second_Try (s\<lparr>sl_listeners := sl_listeners s @ [(i, False)]\<rparr>)"

definition second_try :: "nat \<Rightarrow> slots \<Rightarrow> slots" where
  "second_try i s =
     (if sl_used s < sl_limit s
      then goto i Holding (s\<lparr>sl_listeners := drop_listener i (sl_listeners s), sl_used := sl_used s + 1\<rparr>)
      else goto i Sleeping s)"

text \<open>The awaited listener is ready: it is consumed and the loop goes round.\<close>

definition slot_woken :: "nat \<Rightarrow> slots \<Rightarrow> slots" where
  "slot_woken i s = goto i First_Try (s\<lparr>sl_listeners := without i (sl_listeners s)\<rparr>)"

definition slot_cancel :: "nat \<Rightarrow> slots \<Rightarrow> slots" where
  "slot_cancel i s = goto i Away (s\<lparr>sl_listeners := drop_listener i (sl_listeners s)\<rparr>)"

definition slot_release :: "nat \<Rightarrow> slots \<Rightarrow> slots" where
  "slot_release i s = goto i Released (s\<lparr>sl_used := sl_used s - 1\<rparr>)"

definition slot_notify :: "nat \<Rightarrow> nat \<Rightarrow> slot_pc \<Rightarrow> slots \<Rightarrow> slots" where
  "slot_notify i n next s = goto i next (s\<lparr>sl_listeners := notify_more n (sl_listeners s)\<rparr>)"

text \<open>The outcome of a request moves an adaptive limit before its slot is released.\<close>

definition slot_adjust :: "nat \<Rightarrow> u32 \<Rightarrow> slots \<Rightarrow> slots" where
  "slot_adjust i new s =
     (if sl_limit s < new then goto i (Raised (new - sl_limit s)) (s\<lparr>sl_limit := new\<rparr>) else s\<lparr>sl_limit := new\<rparr>)"

text \<open>One step of one of \<open>n\<close> tasks.  A task takes a slot without waiting, or enters the loop.\<close>

inductive slot_step :: "nat \<Rightarrow> slots \<Rightarrow> slots \<Rightarrow> bool" for n where
  enter: "i < n \<Longrightarrow> sl_pc s i = Away \<Longrightarrow> slot_step n s (goto i First_Try s)"
| take_now: "i < n \<Longrightarrow> sl_pc s i = Away \<Longrightarrow> sl_used s < sl_limit s \<Longrightarrow>
    slot_step n s (goto i Holding (s\<lparr>sl_used := sl_used s + 1\<rparr>))"
| try_first: "i < n \<Longrightarrow> sl_pc s i = First_Try \<Longrightarrow> slot_step n s (first_try i s)"
| listen: "i < n \<Longrightarrow> sl_pc s i = To_Listen \<Longrightarrow> slot_step n s (slot_listen i s)"
| try_second: "i < n \<Longrightarrow> sl_pc s i = Second_Try \<Longrightarrow> slot_step n s (second_try i s)"
| woken: "i < n \<Longrightarrow> sl_pc s i = Sleeping \<Longrightarrow> notified_in (sl_listeners s) i \<Longrightarrow> slot_step n s (slot_woken i s)"
| cancel: "i < n \<Longrightarrow> sl_pc s i = Sleeping \<Longrightarrow> slot_step n s (slot_cancel i s)"
| release: "i < n \<Longrightarrow> sl_pc s i = Holding \<Longrightarrow> slot_step n s (slot_release i s)"
| tell: "i < n \<Longrightarrow> sl_pc s i = Released \<Longrightarrow> slot_step n s (slot_notify i 1 Away s)"
| adjusted: "i < n \<Longrightarrow> sl_pc s i = Holding \<Longrightarrow> slot_step n s (slot_adjust i new s)"
| tell_raise: "i < n \<Longrightarrow> sl_pc s i = Raised k \<Longrightarrow> slot_step n s (slot_notify i k Holding s)"

definition slots_init :: "u32 \<Rightarrow> slots" where
  "slots_init limit = \<lparr>sl_limit = limit, sl_used = 0, sl_listeners = [], sl_pc = (\<lambda>_. Away)\<rparr>"

definition slots_reachable :: "nat \<Rightarrow> u32 \<Rightarrow> slots \<Rightarrow> bool" where
  "slots_reachable n limit s \<longleftrightarrow> (slot_step n)\<^sup>*\<^sup>* (slots_init limit) s"

subsection \<open>Wake-ups\<close>

text \<open>What is on its way to a free slot: tasks that will try again before they sleep, notifications
  about to be sent, and listeners notified but not yet run.\<close>

fun moving :: "slot_pc \<Rightarrow> nat" where
  "moving First_Try = 1"
| "moving To_Listen = 1"
| "moving Second_Try = 1"
| "moving (Raised k) = k"
| "moving Released = 1"
| "moving _ = 0"

definition told :: "(nat \<times> bool) list \<Rightarrow> nat" where
  "told ls = length (filter snd ls)"

definition untold :: "(nat \<times> bool) list \<Rightarrow> nat" where
  "untold ls = length (filter (\<lambda>l. \<not> snd l) ls)"

definition under_way :: "nat \<Rightarrow> slots \<Rightarrow> nat" where
  "under_way n s = (\<Sum>i<n. moving (sl_pc s i)) + told (sl_listeners s)"

definition left_asleep :: "slots \<Rightarrow> nat \<Rightarrow> bool" where
  "left_asleep s i \<longleftrightarrow> sl_pc s i = Sleeping \<and> (i, False) \<in> set (sl_listeners s)"

lemma told_more: "told (notify_more k ls) = told ls + min k (untold ls)"
  by (induction k ls rule: notify_more.induct) (auto simp: told_def untold_def)

lemma untold_more: "untold (notify_more k ls) = untold ls - k"
  by (induction k ls rule: notify_more.induct) (auto simp: told_def untold_def)

lemma fst_more: "map fst (notify_more k ls) = map fst ls"
  by (induction k ls rule: notify_more.induct) auto

lemma more_false: "(i, False) \<in> set (notify_more k ls) \<Longrightarrow> (i, False) \<in> set ls"
  by (induction k ls rule: notify_more.induct) auto

lemma untold_pos: "(i, False) \<in> set ls \<Longrightarrow> 0 < untold ls"
  by (induction ls) (auto simp: untold_def)

lemma without_self: "i \<notin> fst ` set ls \<Longrightarrow> without i ls = ls \<and> \<not> notified_in ls i"
  by (force simp: filter_id_conv notified_in_def without_def)

lemma told_without: "distinct (map fst ls) \<Longrightarrow> told (without i ls) + of_bool (notified_in ls i) = told ls"
proof (induction ls)
  case (Cons l ls)
  obtain j b where l: "l = (j, b)" by (cases l)
  show ?case
  proof (cases "j = i")
    case True
    then show ?thesis using Cons without_self [of i ls] l by (auto simp: told_def notified_in_def without_def)
  next
    case False
    then have "notified_in (l # ls) i = notified_in ls i" by (simp add: notified_in_def l)
    then show ?thesis using Cons False l by (simp add: told_def without_def)
  qed
qed (simp add: told_def notified_in_def without_def)

lemma without_fst:
  "fst ` set (without i ls) = fst ` set ls - {i}"
  "distinct (map fst ls) \<Longrightarrow> distinct (map fst (without i ls))"
  unfolding without_def by (force, simp add: distinct_map_filter)

lemma more_fst [simp]:
  "fst ` set (notify_more k ls) = fst ` set ls" "distinct (map fst (notify_more k ls)) = distinct (map fst ls)"
  by (metis fst_more list.set_map, simp add: fst_more)

lemma drop_fst:
  "fst ` set (drop_listener i ls) = fst ` set ls - {i}"
  "distinct (map fst ls) \<Longrightarrow> distinct (map fst (drop_listener i ls))"
  by (auto simp: drop_listener_def Let_def without_fst)

lemma drop_false: "(j, False) \<in> set (drop_listener i ls) \<Longrightarrow> (j, False) \<in> set ls \<and> j \<noteq> i"
  by (auto simp: drop_listener_def Let_def without_def split: if_splits dest: more_false)

text \<open>A dropped listener takes no notification with it while another one waits for one.\<close>

lemma drop_told:
  assumes "distinct (map fst ls)" and "(j, False) \<in> set (drop_listener i ls)"
  shows "told (drop_listener i ls) = told ls"
proof -
  let ?rest = "without i ls"
  have "(j, False) \<in> set ?rest" using drop_false [OF assms(2)] by (auto simp: without_def)
  then have "0 < untold ?rest" by (rule untold_pos)
  then show ?thesis using told_without [OF assms(1), of i] by (auto simp: drop_listener_def Let_def told_more)
qed

lemma moving_goto:
  fixes n :: nat
  assumes "i < n"
  shows "(\<Sum>j<n. moving ((f(i := x)) j)) + moving (f i) = (\<Sum>j<n. moving (f j)) + moving x"
proof -
  have "(\<Sum>j<n. moving (g j)) = moving (g i) + (\<Sum>j \<in> {..<n} - {i}. moving (g j))" for g
    using assms by (intro sum.remove) auto
  from this [of "f(i := x)"] this [of f] show ?thesis by simp
qed

text \<open>Each step keeps the balance for every task it leaves asleep.\<close>

lemma goto_simps [simp]:
  "sl_limit (goto i x s) = sl_limit s" "sl_used (goto i x s) = sl_used s" "sl_listeners (goto i x s) = sl_listeners s"
  "sl_pc (goto i x s) = (sl_pc s)(i := x)"
  by (simp_all add: goto_def)

lemma under_way_goto: "i < n \<Longrightarrow> under_way n (goto i x s) + moving (sl_pc s i) = under_way n s + moving x"
  using moving_goto [of i n "sl_pc s" x] by (simp add: under_way_def)

lemma under_way_listeners: "under_way n (s\<lparr>sl_listeners := ls\<rparr>) + told (sl_listeners s) = under_way n s + told ls"
  by (simp add: under_way_def)

lemma under_way_other [simp]:
  "under_way n (s\<lparr>sl_used := u\<rparr>) = under_way n s" "under_way n (s\<lparr>sl_limit := l\<rparr>) = under_way n s"
  by (simp_all add: under_way_def)

definition balanced :: "nat \<Rightarrow> slots \<Rightarrow> bool" where
  "balanced n s \<longleftrightarrow> (\<forall>i. left_asleep s i \<longrightarrow> sl_limit s - sl_used s \<le> under_way n s)"

definition listed :: "slots \<Rightarrow> bool" where
  "listed s \<longleftrightarrow> distinct (map fst (sl_listeners s)) \<and>
     (\<forall>i. i \<in> fst ` set (sl_listeners s) \<longleftrightarrow> sl_pc s i = Second_Try \<or> sl_pc s i = Sleeping)"

lemma listed_step: "slot_step n s s' \<Longrightarrow> listed s \<Longrightarrow> listed s'"
  by (induction rule: slot_step.induct)
     (auto simp: listed_def first_try_def slot_listen_def second_try_def slot_woken_def slot_cancel_def slot_release_def
       slot_notify_def slot_adjust_def drop_fst without_fst)

lemma asleep_goto: "x \<noteq> Sleeping \<Longrightarrow> left_asleep (goto i x s) j \<Longrightarrow> j \<noteq> i \<and> left_asleep s j"
  by (auto simp: left_asleep_def split: if_splits)

lemma asleep_other [simp]:
  "left_asleep (s\<lparr>sl_used := u\<rparr>) j = left_asleep s j" "left_asleep (s\<lparr>sl_limit := l\<rparr>) j = left_asleep s j"
  by (simp_all add: left_asleep_def)

text \<open>A task that moves on without losing weight, or takes a slot with the weight it had.\<close>

lemma balanced_move:
  assumes "balanced n s" and "i < n" and "x \<noteq> Sleeping" and "moving (sl_pc s i) \<le> moving x"
  shows "balanced n (goto i x s)"
  unfolding balanced_def
proof (intro allI impI)
  fix j assume "left_asleep (goto i x s) j"
  then have "sl_limit s - sl_used s \<le> under_way n s" using assms(1) asleep_goto [OF assms(3)] by (auto simp: balanced_def)
  then show "sl_limit (goto i x s) - sl_used (goto i x s) \<le> under_way n (goto i x s)"
    using under_way_goto [OF assms(2), of x s] assms(4) by simp
qed

lemma balanced_take:
  assumes "balanced n s" and "i < n" and "moving (sl_pc s i) \<le> 1"
  shows "balanced n (goto i Holding (s\<lparr>sl_used := sl_used s + 1\<rparr>))"
  unfolding balanced_def
proof (intro allI impI)
  fix j assume "left_asleep (goto i Holding (s\<lparr>sl_used := sl_used s + 1\<rparr>)) j"
  then have "left_asleep s j" using asleep_goto [of Holding i "s\<lparr>sl_used := sl_used s + 1\<rparr>" j] by simp
  then have "sl_limit s - sl_used s \<le> under_way n s" using assms(1) by (auto simp: balanced_def)
  then show "sl_limit (goto i Holding (s\<lparr>sl_used := sl_used s + 1\<rparr>)) - sl_used (goto i Holding (s\<lparr>sl_used := sl_used s + 1\<rparr>))
      \<le> under_way n (goto i Holding (s\<lparr>sl_used := sl_used s + 1\<rparr>))"
    using under_way_goto [OF assms(2), of Holding "s\<lparr>sl_used := sl_used s + 1\<rparr>"] assms(3) by simp
qed

lemma balanced_full: "sl_limit s \<le> sl_used s \<Longrightarrow> balanced n s"
  by (simp add: balanced_def)

lemma balanced_drop:
  assumes "balanced n s" and "listed s"
  shows "balanced n (s\<lparr>sl_listeners := drop_listener i (sl_listeners s)\<rparr>)"
  unfolding balanced_def
proof (intro allI impI)
  let ?ls = "drop_listener i (sl_listeners s)"
  fix j assume "left_asleep (s\<lparr>sl_listeners := ?ls\<rparr>) j"
  then have j: "sl_pc s j = Sleeping" "(j, False) \<in> set ?ls" by (auto simp: left_asleep_def)
  then have "left_asleep s j" using drop_false by (simp add: left_asleep_def)
  moreover have "told ?ls = told (sl_listeners s)" using drop_told [OF _ j(2)] assms(2) by (simp add: listed_def)
  ultimately show "sl_limit (s\<lparr>sl_listeners := ?ls\<rparr>) - sl_used (s\<lparr>sl_listeners := ?ls\<rparr>) \<le> under_way n (s\<lparr>sl_listeners := ?ls\<rparr>)"
    using assms(1) by (auto simp: balanced_def under_way_def)
qed

lemma balanced_notify:
  assumes "balanced n s" and "i < n" and "moving (sl_pc s i) \<le> k" and "x \<noteq> Sleeping"
  shows "balanced n (slot_notify i k x s)"
  unfolding balanced_def
proof (intro allI impI)
  let ?ls = "notify_more k (sl_listeners s)"
  fix j assume "left_asleep (slot_notify i k x s) j"
  then have j: "left_asleep (s\<lparr>sl_listeners := ?ls\<rparr>) j" unfolding slot_notify_def using asleep_goto [OF assms(4)] by blast
  then have "left_asleep s j" and more: "0 < untold ?ls" by (auto simp: left_asleep_def dest: more_false untold_pos)
  then have "sl_limit s - sl_used s \<le> under_way n s" using assms(1) by (auto simp: balanced_def)
  moreover have "told ?ls = told (sl_listeners s) + k" using more by (simp add: told_more untold_more)
  ultimately show "sl_limit (slot_notify i k x s) - sl_used (slot_notify i k x s) \<le> under_way n (slot_notify i k x s)"
    using under_way_goto [OF assms(2), of x "s\<lparr>sl_listeners := ?ls\<rparr>"] under_way_listeners [of n ?ls s] assms(3)
    by (simp add: slot_notify_def)
qed

lemma balanced_step:
  assumes "slot_step n s s'" and "listed s" and "balanced n s"
  shows "balanced n s'"
  using assms
proof (induction rule: slot_step.induct)
  case (enter i s)
  then show ?case by (intro balanced_move) auto
next
  case (take_now i s)
  then show ?case by (intro balanced_take) auto
next
  case (try_first i s)
  have "balanced n (goto i Holding (s\<lparr>sl_used := sl_used s + 1\<rparr>))" using try_first by (intro balanced_take) auto
  then show ?case unfolding first_try_def by (simp add: balanced_full)
next
  case (listen i s)
  let ?s = "s\<lparr>sl_listeners := sl_listeners s @ [(i, False)]\<rparr>"
  have "balanced n ?s"
    unfolding balanced_def
  proof (intro allI impI)
    fix j assume "left_asleep ?s j"
    then have "left_asleep s j" using listen.hyps(2) by (auto simp: left_asleep_def)
    then show "sl_limit ?s - sl_used ?s \<le> under_way n ?s"
      using listen.prems(2) by (auto simp: balanced_def under_way_def told_def)
  qed
  then show ?case unfolding slot_listen_def using listen.hyps by (intro balanced_move) auto
next
  case (try_second i s)
  let ?s = "s\<lparr>sl_listeners := drop_listener i (sl_listeners s)\<rparr>"
  have "balanced n ?s" using try_second by (intro balanced_drop)
  then have "balanced n (goto i Holding (?s\<lparr>sl_used := sl_used ?s + 1\<rparr>))"
    using try_second.hyps by (intro balanced_take) auto
  then show ?case unfolding second_try_def by (simp add: balanced_full)
next
  case (woken i s)
  let ?s = "s\<lparr>sl_listeners := without i (sl_listeners s)\<rparr>"
  show ?case
    unfolding balanced_def
  proof (intro allI impI)
    fix j assume "left_asleep (slot_woken i s) j"
    then have "left_asleep s j" by (auto simp: left_asleep_def slot_woken_def without_def split: if_splits)
    then have "sl_limit s - sl_used s \<le> under_way n s" using woken.prems(2) by (auto simp: balanced_def)
    moreover have "told (without i (sl_listeners s)) + 1 = told (sl_listeners s)"
      using told_without [of "sl_listeners s" i] woken by (simp add: listed_def)
    ultimately show "sl_limit (slot_woken i s) - sl_used (slot_woken i s) \<le> under_way n (slot_woken i s)"
      using under_way_goto [OF woken.hyps(1), of First_Try ?s] under_way_listeners [of n "without i (sl_listeners s)" s]
        woken.hyps(2) by (simp add: slot_woken_def)
  qed
next
  case (cancel i s)
  then show ?case unfolding slot_cancel_def by (intro balanced_move balanced_drop) auto
next
  case (release i s)
  let ?s = "goto i Released s"
  have step: "under_way n (slot_release i s) = under_way n s + 1"
    using under_way_goto [OF release.hyps(1), of Released "s\<lparr>sl_used := sl_used s - 1\<rparr>"] release.hyps(2)
    by (simp add: slot_release_def)
  show ?case
    unfolding balanced_def
  proof (intro allI impI)
    fix j assume "left_asleep (slot_release i s) j"
    then have "left_asleep s j" using asleep_goto [of Released i "s\<lparr>sl_used := sl_used s - 1\<rparr>" j] by (simp add: slot_release_def)
    then have "sl_limit s - sl_used s \<le> under_way n s" using release.prems(2) by (auto simp: balanced_def)
    then show "sl_limit (slot_release i s) - sl_used (slot_release i s) \<le> under_way n (slot_release i s)"
      unfolding step by (simp add: slot_release_def)
  qed
next
  case (tell i s)
  then show ?case by (intro balanced_notify) auto
next
  case (adjusted i s new)
  show ?case
    unfolding balanced_def
  proof (intro allI impI)
    fix j assume "left_asleep (slot_adjust i new s) j"
    then have "left_asleep s j"
      using asleep_goto [of "Raised (new - sl_limit s)" i "s\<lparr>sl_limit := new\<rparr>" j] by (simp add: slot_adjust_def split: if_splits)
    then have "sl_limit s - sl_used s \<le> under_way n s" using adjusted.prems(2) by (auto simp: balanced_def)
    then show "sl_limit (slot_adjust i new s) - sl_used (slot_adjust i new s) \<le> under_way n (slot_adjust i new s)"
      using under_way_goto [OF adjusted.hyps(1), of "Raised (new - sl_limit s)" "s\<lparr>sl_limit := new\<rparr>"] adjusted.hyps(2)
      by (auto simp: slot_adjust_def)
  qed
next
  case (tell_raise i s k)
  then show ?case by (intro balanced_notify) auto
qed

lemma slots_reachable_inv: "slots_reachable n limit s \<Longrightarrow> listed s \<and> balanced n s"
  unfolding slots_reachable_def
proof (induction rule: rtranclp_induct)
  case base
  show ?case by (simp add: listed_def balanced_def left_asleep_def slots_init_def)
qed (blast intro: listed_step balanced_step)

subsection \<open>Properties\<close>

text \<open>C38: No waiter is left behind.  Whatever the interleaving of arrivals, tries, releases, cancelled
  waits and moves of the limit, while a waiter sleeps without a notification every free slot
  has someone on the way to it: so when nothing else is in progress, no slot is free.\<close>

theorem no_waiter_left_behind:
  assumes "slots_reachable n limit s" and "left_asleep s i"
  shows "sl_limit s - sl_used s \<le> under_way n s \<and>
    ((\<forall>j<n. moving (sl_pc s j) = 0) \<and> (\<forall>l\<in>set (sl_listeners s). \<not> snd l) \<longrightarrow> sl_limit s \<le> sl_used s)"
proof -
  have le: "sl_limit s - sl_used s \<le> under_way n s"
    using slots_reachable_inv [OF assms(1)] assms(2) by (auto simp: balanced_def)
  moreover have "under_way n s = 0" if "\<forall>j<n. moving (sl_pc s j) = 0" "\<forall>l\<in>set (sl_listeners s). \<not> snd l"
    using that by (simp add: under_way_def told_def filter_empty_conv)
  ultimately show ?thesis by auto
qed

lemma slots_sample: "\<exists>s. slots_reachable 2 1 s \<and> left_asleep s 1"
proof -
  let ?s0 = "slots_init 1"
  let ?s1 = "goto 0 Holding (?s0\<lparr>sl_used := sl_used ?s0 + 1\<rparr>)"
  let ?s2 = "goto 1 First_Try ?s1"
  let ?s3 = "first_try 1 ?s2"
  let ?s4 = "slot_listen 1 ?s3"
  let ?s5 = "second_try 1 ?s4"
  note ops = slots_init_def first_try_def slot_listen_def second_try_def goto_def
  have "slot_step 2 ?s0 ?s1" by (rule take_now) (simp_all add: ops)
  moreover have "slot_step 2 ?s1 ?s2" by (rule enter) (simp_all add: ops)
  moreover have "slot_step 2 ?s2 ?s3" by (rule try_first) (simp_all add: ops)
  moreover have "slot_step 2 ?s3 ?s4" by (rule listen) (simp_all add: ops)
  moreover have "slot_step 2 ?s4 ?s5" by (rule try_second) (simp_all add: ops)
  ultimately have "slots_reachable 2 1 ?s5"
    unfolding slots_reachable_def by (meson converse_rtranclp_into_rtranclp rtranclp.rtrancl_refl)
  then show ?thesis by (intro exI [of _ ?s5]) (simp add: ops left_asleep_def)
qed

theorem no_waiter_left_behind_witness:
  "\<exists>s. slots_reachable 2 1 s \<and> left_asleep s 1 \<and> sl_limit s - sl_used s \<le> under_way 2 s"
  using slots_sample no_waiter_left_behind by blast

end
