(* ===== verification/Window_Wait.thy ===== *)
theory Window_Wait
  imports Sliding_Window Wait_Engine
begin

text \<open>
  The waiting acquire of the sliding-window log (\<open>src/sliding.rs\<close>): the engine over the window's
  step, and its methods.  Shown here: on a runtime that sleeps exactly and with nobody else at the
  limiter, it is granted at the first instant at which the window has room, or refuses when
  that instant lies beyond the timeout.
\<close>

definition sw_wait ::
  "sliding runtime \<Rightarrow> u32 \<Rightarrow> duration option \<Rightarrow> sliding \<Rightarrow> ((throttle_error + unit) option \<times> sliding) option" where
  "sw_wait rt cost timeout s =
     (case wait_for rt (\<lambda>budget s. sw_step s cost budget) (\<lambda>s. sw_refund s cost) sw_paused_for timeout s of
        None \<Rightarrow> None
      | Some (r, s') \<Rightarrow>
          Some (case r of
                  Wait_Ok \<Rightarrow> Some (Inr ())
                | Wait_Err Refusal_Never \<Rightarrow> Some (Inl (CostExceedsCapacity cost (sw_limit s')))
                | Wait_Err Refusal_TimedOut \<Rightarrow> Some (Inl DeadlineExceeded)
                | Wait_Dropped \<Rightarrow> None, s'))"

definition sw_acquire_with_cost_timeout ::
  "sliding runtime \<Rightarrow> u32 \<Rightarrow> duration \<Rightarrow> sliding \<Rightarrow> ((throttle_error + unit) option \<times> sliding) option" where
  "sw_acquire_with_cost_timeout rt cost timeout s = sw_wait rt cost (Some timeout) s"

definition sw_acquire_with_cost ::
  "sliding runtime \<Rightarrow> u32 \<Rightarrow> sliding \<Rightarrow> ((throttle_error + unit) option \<times> sliding) option" where
  "sw_acquire_with_cost rt cost s = sw_wait rt cost None s"

definition sw_acquire :: "sliding runtime \<Rightarrow> sliding \<Rightarrow> ((throttle_error + unit) option \<times> sliding) option" where
  "sw_acquire rt s = sw_acquire_with_cost rt 1 s"

subsection \<open>Alone, on an exact clock\<close>

text \<open>Every sleep takes exactly as long as asked, nobody resumes the limiter, and nothing else
  happens meanwhile.  The limiter reads the same clock.\<close>

definition exact_rt :: "sliding runtime" where
  "exact_rt = \<lparr>rt_now = sw_clock, rt_checked_add = (\<lambda>a d. Some (a + d)), rt_epoch = (\<lambda>_. 0),
     rt_sleep = (\<lambda>d s. (True, sw_after s d)), rt_race = (\<lambda>d s. (True, sw_after s d)), rt_yield = (\<lambda>s. (True, s))\<rparr>"

text \<open>The first instant at which a request is granted, as a delay from now.\<close>

definition first_room :: "sliding \<Rightarrow> u32 \<Rightarrow> duration \<Rightarrow> bool" where
  "first_room s c d \<longleftrightarrow> fst (evaluate (sw_after s d) c True) = Acquired \<and>
     (\<forall>e<d. fst (evaluate (sw_after s e) c True) \<noteq> Acquired)"

lemma sw_after_simps [simp]:
  "sw_after s 0 = s" "sw_after (sw_after s d) e = sw_after s (d + e)" "sw_clock (sw_after s d) = sw_clock s + d"
  "sw_limit (sw_after s d) = sw_limit s" "sw_log (sw_after s d) = sw_log s" "sw_window_ns (sw_after s d) = sw_window_ns s"
  by (simp_all add: sw_after_def add.assoc)

lemma sw_pruned_simps [simp]:
  "sw_limit (sw_pruned s) = sw_limit s" "sw_clock (sw_pruned s) = sw_clock s" "sw_window_ns (sw_pruned s) = sw_window_ns s"
  "hold_until_ns (sw_log (sw_pruned s)) = hold_until_ns (sw_log s)"
  by (simp_all add: sw_pruned_def)

text \<open>Pruning early changes no later decision.\<close>

lemma spent_pruned_after:
  assumes "sw_good s" and "sw_now_ns s + d < U64_MAX"
  shows "sw_spent (sw_after (sw_pruned s) d) = sw_spent (sw_after s d)"
proof -
  let ?live = "\<lambda>n g. \<not> expired (sw_window_ns s) n g"
  have "filter (?live (sw_now_ns s + d)) (sw_live s) = filter (?live (sw_now_ns s + d)) (grants (sw_log s))"
    unfolding sw_live_def filter_filter by (rule filter_cong) (auto simp: expired_def)
  then show ?thesis
    unfolding sw_spent_after [OF assms] by (simp add: sw_spent_def sw_live_def [of "sw_after s d"] sw_after_now [OF assms])
qed

lemma granted_after_pruned:
  assumes "sw_good s" and "sw_now_ns s + d < U64_MAX"
  shows "fst (evaluate (sw_after (sw_pruned s) d) c True) = Acquired \<longleftrightarrow> fst (evaluate (sw_after s d) c True) = Acquired"
proof -
  have g: "sw_good (sw_after s d)" "sw_good (sw_after (sw_pruned s) d)"
    using assms sw_after_good [of s d] sw_after_good [OF sw_good_pruned [OF assms(1)], of d] by auto
  have now: "sw_now_ns (sw_after (sw_pruned s) d) = sw_now_ns (sw_after s d)"
    using assms sw_after_now [of s d] sw_after_now [OF sw_good_pruned [OF assms(1)], of d] by simp
  show ?thesis
    by (simp add: evaluate_good [OF g(1)] evaluate_good [OF g(2)] now spent_pruned_after [OF assms])
qed

text \<open>One round: a refusal that fits the budget is slept out, one that does not ends the wait.\<close>

definition in_time :: "deadline \<Rightarrow> nat \<Rightarrow> bool" where
  "in_time dl at \<longleftrightarrow> (case dl of None \<Rightarrow> True | Some t \<Rightarrow> at \<le> t)"

abbreviation window_loop where
  "window_loop c dl zw g s \<equiv>
     wait_loop exact_rt (\<lambda>_ budget s. case sw_step s c budget of (x, s') \<Rightarrow> (x, (), s'))
       (\<lambda>_ s. ((), sw_refund s c)) sw_paused_for dl zw g s"

lemma window_loop_grants:
  assumes "evaluate s c True = (Acquired, s')" and "sw_paused_for s' = 0"
  shows "\<exists>g'. window_loop c dl zw g s = Some (Wait_Ok, g', s') \<and> \<not> g_armed g'"
  using assms by (simp add: wait_loop.simps wait_round_def sw_step_def pause_loop.simps Let_def)

lemma window_loop_sleeps:
  assumes "evaluate s c True = (Retry a, s')" and "0 < a" and "a \<le> DURATION_MAX" and "sw_clock s' = sw_clock s"
  shows "window_loop c dl zw g s =
    (if in_time dl (sw_clock s + a) then window_loop c dl 0 \<lparr>g_state = (), g_armed = False\<rparr> (sw_after s' a)
     else Some (Wait_Err Refusal_TimedOut, \<lparr>g_state = (), g_armed = False\<rparr>, s'))"
proof -
  have "a \<le> deadline_remaining exact_rt dl s \<longleftrightarrow> in_time dl (sw_clock s + a)"
    using assms(2,3) by (auto simp: deadline_remaining_def in_time_def exact_rt_def split: option.splits)
  then show ?thesis
    using assms
    by (subst wait_loop.simps)
       (auto simp: wait_round_def sw_step_def nap_after_def Let_def exact_rt_def sleep_unless_resumed_def)
qed

text \<open>How a loop ended: granted at the first instant with room, or timed out without taking anything.\<close>

definition loop_result :: "u32 \<Rightarrow> deadline \<Rightarrow> sliding \<Rightarrow> duration \<Rightarrow> (wait_end \<times> unit release_guard \<times> sliding) option \<Rightarrow> bool" where
  "loop_result c dl s d y \<longleftrightarrow>
     (\<exists>r g s' e. y = Some (r, g, s') \<and> \<not> g_armed g \<and> sw_clock s' = sw_clock s + e \<and>
        (if in_time dl (sw_clock s + d) then r = Wait_Ok \<and> e = d \<and> sw_spent s' = sw_spent (sw_after s e) + c
         else r = Wait_Err Refusal_TimedOut \<and> e < d \<and> sw_spent s' = sw_spent (sw_after s e)))"

lemma window_grants_now:
  assumes good: "sw_good s" and c: "0 < c" and hold: "hold_until_ns (sw_log s) \<le> sw_now_ns s"
    and ev: "fst (evaluate s c True) = Acquired"
  shows "\<exists>g'. window_loop c dl zw g s = Some (Wait_Ok, g', sw_pushed s c) \<and> \<not> g_armed g'"
    and "sw_spent (sw_pushed s c) = sw_spent s + c" and "sw_clock (sw_pushed s c) = sw_clock s"
proof -
  have "evaluate s c True = (Acquired, sw_pushed s c)"
    using ev c hold by (auto simp: evaluate_good [OF good] split: if_splits)
  moreover have "sw_paused_for (sw_pushed s c) = 0" using hold by (simp add: sw_paused_for_def sw_pushed_def)
  ultimately show "\<exists>g'. window_loop c dl zw g s = Some (Wait_Ok, g', sw_pushed s c) \<and> \<not> g_armed g'"
    by (rule window_loop_grants)
  show "sw_spent (sw_pushed s c) = sw_spent s + c" by (rule sw_spent_pushed [OF good])
  show "sw_clock (sw_pushed s c) = sw_clock s" by (simp add: sw_pushed_def)
qed

text \<open>Outside a pause at most one sleep is needed.\<close>

lemma loop_unpaused:
  assumes good: "sw_good s" and c: "0 < c" "c \<le> sw_limit s" and hold: "hold_until_ns (sw_log s) \<le> sw_now_ns s"
    and clock: "sw_now_ns s + sw_window_ns s < U64_MAX" and dl: "in_time dl (sw_clock s)"
  shows "\<exists>d. first_room s c d \<and> loop_result c dl s d (window_loop c dl zw g s)"
proof (cases "sw_spent s + c \<le> sw_limit s")
  case True
  then have ev: "fst (evaluate s c True) = Acquired" using c hold by (simp add: evaluate_good [OF good])
  then have "first_room s c 0" by (simp add: first_room_def)
  moreover have "loop_result c dl s 0 (window_loop c dl zw g s)"
    using window_grants_now(1) [OF good c(1) hold ev, of dl zw g] window_grants_now(2,3) [OF good c(1) hold ev] dl by (auto simp: loop_result_def)
  ultimately show ?thesis by blast
next
  case False
  let ?p = "sw_pruned s"
  obtain a where ev: "evaluate s c True = (Retry a, ?p)" using False c hold by (simp add: evaluate_good [OF good])
  note exact = refused_wait [OF good ev hold clock]
  have a: "0 < a" "a \<le> sw_window_ns s" using exact by auto
  have later: "sw_now_ns s + e < U64_MAX" if "e \<le> a" for e using that a clock by simp
  have room: "first_room s c a"
    using exact granted_after_pruned [OF good later] by (auto simp: first_room_def)
  have good': "sw_good (sw_after ?p a)" using sw_after_good [OF sw_good_pruned [OF good]] later [of a] by simp
  have hold': "hold_until_ns (sw_log (sw_after ?p a)) \<le> sw_now_ns (sw_after ?p a)"
    using sw_after_now [OF sw_good_pruned [OF good], of a] later [of a] hold by simp
  have "a \<le> DURATION_MAX" using later [of a] U64_MAX_le_DURATION_MAX by simp
  from window_loop_sleeps [OF ev a(1) this, of dl zw g]
    window_grants_now(1) [OF good' c(1) hold' conjunct1 [OF exact], of dl 0 "\<lparr>g_state = (), g_armed = False\<rparr>"]
    window_grants_now(2,3) [OF good' c(1) hold' conjunct1 [OF exact]]
  have "loop_result c dl s a (window_loop c dl zw g s)"
    using a spent_pruned_after [OF good later [of a]] by (auto simp: loop_result_def)
  with room show ?thesis by blast
qed

text \<open>A pause is slept out first; during it nothing is granted.\<close>

lemma first_room_after_hold:
  assumes "sw_good s" and "sw_now_ns s + h < U64_MAX" and "h = hold_until_ns (sw_log s) - sw_now_ns s"
    and "0 < c" and "first_room (sw_after s h) c d"
  shows "first_room s c (h + d)"
proof -
  have "fst (evaluate (sw_after s e) c True) \<noteq> Acquired" if "e < h" for e
  proof -
    have "sw_now_ns s + e < U64_MAX" using that assms(2) by simp
    from evaluate_good [OF sw_after_good [OF assms(1) this], of c True] sw_after_now [OF assms(1) this]
    show ?thesis using that assms(3,4) by (auto simp: less_diff_conv add.commute)
  qed
  moreover have "fst (evaluate (sw_after s e) c True) \<noteq> Acquired" if "\<not> e < h" "e < h + d" for e
  proof -
    from that obtain k where "e = h + k" "k < d" by (metis add_less_cancel_left le_Suc_ex not_less)
    then show ?thesis using assms(5) by (simp add: first_room_def)
  qed
  ultimately show ?thesis using assms(5) by (auto simp: first_room_def)
qed

lemma loop_prompt:
  assumes good: "sw_good s" and c: "0 < c" "c \<le> sw_limit s"
    and clock: "max (sw_now_ns s) (hold_until_ns (sw_log s)) + sw_window_ns s < U64_MAX" and dl: "in_time dl (sw_clock s)"
  shows "\<exists>d. first_room s c d \<and> loop_result c dl s d (window_loop c dl zw g s)"
proof (cases "hold_until_ns (sw_log s) \<le> sw_now_ns s")
  case True
  then show ?thesis using loop_unpaused [OF good c] clock dl by simp
next
  case False
  let ?h = "hold_until_ns (sw_log s) - sw_now_ns s"
  have ev: "evaluate s c True = (Retry ?h, s)" using False c by (simp add: evaluate_good [OF good])
  have lim: "sw_now_ns s + ?h < U64_MAX" using clock by simp
  have h: "0 < ?h" "?h \<le> DURATION_MAX" using False lim U64_MAX_le_DURATION_MAX by auto
  note later = sw_after_good [OF good lim] sw_after_now [OF good lim]
  note sleeps = window_loop_sleeps [OF ev h refl, of dl zw g]
  have sub: "\<exists>d. first_room (sw_after s ?h) c d \<and>
      loop_result c dl' (sw_after s ?h) d (window_loop c dl' 0 \<lparr>g_state = (), g_armed = False\<rparr> (sw_after s ?h))"
    if "in_time dl' (sw_clock s + ?h)" for dl'
    by (rule loop_unpaused [OF later(1)]) (use c clock that later(2) False in auto)
  show ?thesis
  proof (cases "in_time dl (sw_clock s + ?h)")
    case True
    then obtain d where d: "first_room (sw_after s ?h) c d"
      "loop_result c dl (sw_after s ?h) d (window_loop c dl 0 \<lparr>g_state = (), g_armed = False\<rparr> (sw_after s ?h))"
      using sub by blast
    from d(2) have "loop_result c dl s (?h + d) (window_loop c dl zw g s)"
      unfolding sleeps using True by (fastforce simp: loop_result_def add.assoc)
    with first_room_after_hold [OF good lim refl c(1) d(1)] show ?thesis by blast
  next
    case False
    obtain d where d: "first_room (sw_after s ?h) c d" using sub [of None] by (auto simp: in_time_def)
    have "\<not> in_time dl (sw_clock s + (?h + d))" using False by (auto simp: in_time_def split: option.splits)
    then have "loop_result c dl s (?h + d) (window_loop c dl zw g s)"
      unfolding sleeps using False h by (auto simp: loop_result_def)
    with first_room_after_hold [OF good lim refl c(1) d] show ?thesis by blast
  qed
qed

subsection \<open>Property\<close>

text \<open>C2: A waiting acquire is granted at the first possible instant.  On a runtime that sleeps exactly and
  with nobody else at the limiter, a request within the limit returns, paused limiter or not:
  with \<open>d\<close> the delay to the first instant at which the limiter would grant it, it returns \<open>Ok\<close>
  exactly then and has taken exactly its cost, unless \<open>d\<close> exceeds the timeout; in that case it gives
  up before \<open>d\<close> has passed and has taken nothing.\<close>

theorem window_wait_is_prompt:
  assumes "sw_good s" and "0 < cost" and "cost \<le> sw_limit s"
    and "max (sw_now_ns s) (hold_until_ns (sw_log s)) + sw_window_ns s < U64_MAX"
  shows "\<exists>d e s'. first_room s cost d \<and> sw_clock s' = sw_clock s + e \<and>
    (if (case timeout of None \<Rightarrow> True | Some t \<Rightarrow> d \<le> t)
     then sw_wait exact_rt cost timeout s = Some (Some (Inr ()), s') \<and> e = d \<and>
          sw_spent s' = sw_spent (sw_after s e) + cost
     else sw_wait exact_rt cost timeout s = Some (Some (Inl DeadlineExceeded), s') \<and> e < d \<and>
          sw_spent s' = sw_spent (sw_after s e))"
proof -
  let ?dl = "deadline_after exact_rt timeout s"
  have dl: "?dl = map_option (\<lambda>t. sw_clock s + t) timeout"
    by (simp add: deadline_after_def exact_rt_def split: option.splits)
  have "in_time ?dl (sw_clock s)" by (simp add: dl in_time_def split: option.splits)
  from loop_prompt [OF assms this, of 0 "\<lparr>g_state = (), g_armed = False\<rparr>"]
  obtain d where d: "first_room s cost d"
    "loop_result cost ?dl s d (window_loop cost ?dl 0 \<lparr>g_state = (), g_armed = False\<rparr> s)" by blast
  have "in_time ?dl (sw_clock s + d) \<longleftrightarrow> (case timeout of None \<Rightarrow> True | Some t \<Rightarrow> d \<le> t)"
    by (simp add: dl in_time_def split: option.splits)
  with d show ?thesis
    by (fastforce simp: loop_result_def sw_wait_def wait_for_def wait_with_def guard_fire_def split: if_splits)
qed

theorem window_wait_is_prompt_witness:
  "\<exists>s'. sw_wait exact_rt 1 (Some 20) (sw_pause_for sw_sample 5) = Some (Some (Inr ()), s') \<and> sw_clock s' = 10"
proof -
  let ?s = "sw_pause_for sw_sample 5"
  have good: "sw_good ?s" "sw_limit ?s = 2" "max (sw_now_ns ?s) (hold_until_ns (sw_log ?s)) + sw_window_ns ?s < U64_MAX"
    by (simp_all add: sw_sample_def sw_eval sw_good_def sw_pause_for_def)
  obtain d e s' where r: "first_room ?s 1 d" "sw_clock s' = sw_clock ?s + e"
    "if d \<le> 20 then sw_wait exact_rt 1 (Some 20) ?s = Some (Some (Inr ()), s') \<and> e = d \<and>
          sw_spent s' = sw_spent (sw_after ?s e) + 1
     else sw_wait exact_rt 1 (Some 20) ?s = Some (Some (Inl DeadlineExceeded), s') \<and> e < d \<and>
          sw_spent s' = sw_spent (sw_after ?s e)"
    using window_wait_is_prompt [OF good(1) _ _ good(3), of 1 "Some 20"] good(2) by auto
  have "{e. e < 7} = {0, 1, 2, 3, 4, 5, 6 :: nat}" by auto
  then have "first_room ?s 1 7 \<longleftrightarrow> fst (evaluate (sw_after ?s 7) 1 True) = Acquired \<and>
      (\<forall>e\<in>{0, 1, 2, 3, 4, 5, 6}. fst (evaluate (sw_after ?s e) 1 True) \<noteq> Acquired)"
    unfolding first_room_def by (metis mem_Collect_eq)
  also have "\<dots>" by (simp add: sw_sample_def sw_eval sw_pause_for_def sw_after_def)
  finally have "first_room ?s 1 7" by blast
  then have "d = 7" using r(1) unfolding first_room_def by (meson linorder_neqE_nat)
  moreover have "sw_clock ?s = 3" by (simp add: sw_sample_def sw_eval sw_pause_for_def)
  ultimately show ?thesis using r(2,3) by auto
qed

end
