(* ===== verification/Circuit_Breaker.thy ===== *)
theory Circuit_Breaker
  imports Hybrid "HOL-Library.Sublist"
begin

text \<open>
  The circuit breaker (\<open>src/circuit.rs\<close>).  The mutex makes each operation one step
  on \<open>shared\<close>; the wrapped limiter is a parameter \<open>L\<close> with its own state in the
  breaker's record.  The generation counter is a 64-bit word and wraps.
\<close>

datatype trip =
    Consecutive u32
  | Ratio u32 f64 u32
  | Windowed u32 duration

fun trip_normalised :: "trip \<Rightarrow> trip" where
  "trip_normalised (Consecutive n) = Consecutive (max n 1)"
| "trip_normalised (Ratio window ratio min_calls) =
     (let window' = max window 1 in
      Ratio window' (if ratio = NaN then Fin 1 else f64_clamp ratio 0 1) (min min_calls window'))"
| "trip_normalised (Windowed failures period) = Windowed (max failures 1) period"

datatype breaker_state = Closed | Open | HalfOpen

fun describe :: "breaker_state \<Rightarrow> string \<times> nat" where
  "describe Closed = (''Closed'', 0)"
| "describe HalfOpen = (''HalfOpen'', 1)"
| "describe Open = (''Open'', 2)"

record shared =
  state :: breaker_state
  generation :: "64 word"
  consecutive :: u32
  outcomes :: "bool list"
  failure_times :: "u64 list"
  half_open_inflight :: u32
  trait_probes :: u32
  half_open_successes :: u32
  open_until_ms :: u64

definition shared_new :: shared where
  "shared_new = \<lparr>state = Closed, generation = 0, consecutive = 0, outcomes = [],
     failure_times = [], half_open_inflight = 0, trait_probes = 0, half_open_successes = 0,
     open_until_ms = 0\<rparr>"

definition reset_counters :: "shared \<Rightarrow> shared" where
  "reset_counters s = s\<lparr>consecutive := 0, outcomes := [], failure_times := [],
     half_open_inflight := 0, trait_probes := 0, half_open_successes := 0\<rparr>"

record ticket =
  t_generation :: "64 word"
  t_probe :: bool

record config =
  cfg_trip :: trip
  cooldown :: duration
  half_open_trials :: u32
  half_open_required :: u32

record 'i breaker =
  cb_inner :: 'i
  cb_config :: config
  cb_shared :: shared
  cb_clock :: nat
  cb_epoch :: nat

definition breaker_new :: "'i \<Rightarrow> config \<Rightarrow> nat \<Rightarrow> 'i breaker" where
  "breaker_new inner cfg clock = \<lparr>cb_inner = inner, cb_config = cfg, cb_shared = shared_new,
     cb_clock = clock, cb_epoch = clock\<rparr>"

definition cb_with_clock :: "'i breaker \<Rightarrow> nat \<Rightarrow> 'i breaker" where
  "cb_with_clock b clock = breaker_new (cb_inner b) (cb_config b) clock"

definition cb_state :: "'i breaker \<Rightarrow> breaker_state" where
  "cb_state b = state (cb_shared b)"

definition now_ms :: "'i breaker \<Rightarrow> u64" where
  "now_ms b = millis_u64 (cb_clock b - cb_epoch b)"

definition transition :: "shared \<Rightarrow> breaker_state \<Rightarrow> shared" where
  "transition s to = s\<lparr>state := to, generation := generation s + 1\<rparr>"

definition cb_reset :: "'i breaker \<Rightarrow> 'i breaker" where
  "cb_reset b = b\<lparr>cb_shared := transition (reset_counters (cb_shared b)) Closed\<rparr>"

subsection \<open>Admission\<close>

definition admit_locked :: "config \<Rightarrow> shared \<Rightarrow> u64 \<Rightarrow> (duration + ticket) \<times> shared" where
  "admit_locked cfg s now =
     (case state s of
        Closed \<Rightarrow> (Inr \<lparr>t_generation = generation s, t_probe = False\<rparr>, s)
      | Open \<Rightarrow>
          (if now \<ge> open_until_ms s then
             (let s1 = transition s HalfOpen;
                  s2 = s1\<lparr>half_open_inflight := 1, trait_probes := 0, half_open_successes := 0\<rparr>
              in (Inr \<lparr>t_generation = generation s2, t_probe = True\<rparr>, s2))
           else (Inl (from_millis (open_until_ms s - now)), s))
      | HalfOpen \<Rightarrow>
          (if half_open_inflight s < half_open_trials cfg
           then (Inr \<lparr>t_generation = generation s, t_probe = True\<rparr>,
                 s\<lparr>half_open_inflight := half_open_inflight s + 1\<rparr>)
           else (Inl 0, s)))"

definition admit_as :: "bool \<Rightarrow> 'i breaker \<Rightarrow> (duration + ticket) \<times> 'i breaker" where
  "admit_as via_trait b =
     (case admit_locked (cb_config b) (cb_shared b) (now_ms b) of
        (Inl d, s) \<Rightarrow> (Inl d, b\<lparr>cb_shared := s\<rparr>)
      | (Inr t, s) \<Rightarrow>
          (Inr t, b\<lparr>cb_shared :=
             (if t_probe t \<and> via_trait
              then s\<lparr>trait_probes := sat_add32 (trait_probes s) 1\<rparr> else s)\<rparr>))"

definition admit :: "'i breaker \<Rightarrow> (duration + ticket) \<times> 'i breaker" where
  "admit b = admit_as False b"

definition admit_or_shed :: "'i breaker \<Rightarrow> (throttle_error + ticket) \<times> 'i breaker" where
  "admit_or_shed b =
     (case admit b of
        (Inl d, b') \<Rightarrow> (Inl (CircuitOpen d), b')
      | (Inr t, b') \<Rightarrow> (Inr t, b'))"

definition abort_as :: "bool \<Rightarrow> ticket \<Rightarrow> 'i breaker \<Rightarrow> 'i breaker" where
  "abort_as via_trait t b =
     (if \<not> t_probe t then b
      else
        (let s = cb_shared b in
         if generation s = t_generation t \<and> state s = HalfOpen
         then b\<lparr>cb_shared := s\<lparr>half_open_inflight := half_open_inflight s - 1,
                trait_probes := (if via_trait then trait_probes s - 1 else trait_probes s)\<rparr>\<rparr>
         else b))"

definition abort :: "ticket \<Rightarrow> 'i breaker \<Rightarrow> 'i breaker" where
  "abort t b = abort_as False t b"

definition release_trait_probe :: "'i breaker \<Rightarrow> 'i breaker" where
  "release_trait_probe b =
     (let s = cb_shared b in
      if state s = HalfOpen \<and> trait_probes s > 0
      then b\<lparr>cb_shared := s\<lparr>trait_probes := trait_probes s - 1,
             half_open_inflight := half_open_inflight s - 1\<rparr>\<rparr>
      else b)"

definition still_admits :: "ticket \<Rightarrow> 'i breaker \<Rightarrow> duration + unit" where
  "still_admits t b =
     (let s = cb_shared b in
      if generation s = t_generation t \<or> state s = Closed then Inr ()
      else Inl (if state s = Open then from_millis (open_until_ms s - now_ms b) else 0))"

subsection \<open>Outcomes\<close>

definition period_ms :: "duration \<Rightarrow> u64" where
  "period_ms p = millis_u64 p"

definition record_outcome :: "shared \<Rightarrow> bool \<Rightarrow> u64 \<Rightarrow> trip \<Rightarrow> shared" where
  "record_outcome s failure now tr =
     (case tr of
        Consecutive _ \<Rightarrow> s
      | Ratio window _ _ \<Rightarrow>
          (let os = outcomes s @ [failure] in
           s\<lparr>outcomes := drop (length os - window) os\<rparr>)
      | Windowed _ period \<Rightarrow>
          (let ts = (if failure then failure_times s @ [now] else failure_times s);
               cutoff = now - period_ms period
           in s\<lparr>failure_times := dropWhile (\<lambda>t. t < cutoff) ts\<rparr>))"

definition tripped :: "shared \<Rightarrow> u64 \<Rightarrow> trip \<Rightarrow> bool" where
  "tripped s now tr =
     (case tr of
        Consecutive n \<Rightarrow> consecutive s \<ge> n
      | Ratio _ ratio min_calls \<Rightarrow>
          (let total = length (outcomes s) in
           if total = 0 \<or> total < min_calls then False
           else
             (let failures = length (filter (\<lambda>f. f) (outcomes s));
                  observed = (case f64_of_nat total of
                                Fin t \<Rightarrow> f64_div_pos (f64_of_nat failures) t
                              | _ \<Rightarrow> NaN)
              in f64_le ratio observed))
      | Windowed failures period \<Rightarrow>
          (let cutoff = now - period_ms period;
               recent = length (filter (\<lambda>t. t \<ge> cutoff) (failure_times s))
           in recent \<ge> failures))"

definition cb_open :: "config \<Rightarrow> shared \<Rightarrow> u64 \<Rightarrow> shared" where
  "cb_open cfg s now =
     transition (s\<lparr>open_until_ms := sat_add64 now (millis_u64 (cooldown cfg)),
       half_open_inflight := 0, trait_probes := 0, half_open_successes := 0\<rparr>) Open"

definition apply_outcome :: "config \<Rightarrow> shared \<Rightarrow> bool \<Rightarrow> u64 \<Rightarrow> bool \<Rightarrow> shared" where
  "apply_outcome cfg s success now probe =
     (case state s of
        HalfOpen \<Rightarrow>
          (let s1 = (if probe then s\<lparr>half_open_inflight := half_open_inflight s - 1\<rparr> else s) in
           if success then
             (let s2 = s1\<lparr>half_open_successes := half_open_successes s1 + 1\<rparr> in
              if half_open_successes s2 \<ge> half_open_required cfg
              then transition (reset_counters s2) Closed
              else s2)
           else cb_open cfg s1 now)
      | Closed \<Rightarrow>
          (let s1 = s\<lparr>consecutive := (if success then 0 else sat_add32 (consecutive s) 1)\<rparr>;
               s2 = record_outcome s1 (\<not> success) now (cfg_trip cfg)
           in if \<not> success \<and> tripped s2 now (cfg_trip cfg) then cb_open cfg s2 now else s2)
      | Open \<Rightarrow> s)"

definition settle :: "ticket \<Rightarrow> bool \<Rightarrow> 'i breaker \<Rightarrow> 'i breaker" where
  "settle t success b =
     (let s = cb_shared b in
      if generation s \<noteq> t_generation t then b
      else b\<lparr>cb_shared := apply_outcome (cb_config b) s success (now_ms b) (t_probe t)\<rparr>)"

definition record_manual :: "bool \<Rightarrow> 'i breaker \<Rightarrow> 'i breaker" where
  "record_manual success b =
     (let s = cb_shared b;
          probe = (state s = HalfOpen \<and> trait_probes s > 0);
          s1 = (if probe then s\<lparr>trait_probes := trait_probes s - 1\<rparr> else s)
      in b\<lparr>cb_shared := apply_outcome (cb_config b) s1 success (now_ms b) probe\<rparr>)"

definition record_success :: "'i breaker \<Rightarrow> 'i breaker" where
  "record_success b = record_manual True b"

definition record_failure :: "'i breaker \<Rightarrow> 'i breaker" where
  "record_failure b = record_manual False b"

subsection \<open>Acquiring through the breaker\<close>

definition try_admit ::
  "'i limiter \<Rightarrow> 'i breaker \<Rightarrow> (throttle_error + ticket option) \<times> 'i breaker" where
  "try_admit L b =
     (case admit_or_shed b of
        (Inl e, b1) \<Rightarrow> (Inl e, b1)
      | (Inr t, b1) \<Rightarrow>
          (case l_acquire_cost L 1 (cb_inner b1) of
             (Acquired, i) \<Rightarrow> (Inr (Some t), b1\<lparr>cb_inner := i\<rparr>)
           | (Retry _, i) \<Rightarrow> (Inr None, abort t (b1\<lparr>cb_inner := i\<rparr>))
           | (Impossible, i) \<Rightarrow>
               (Inl (CostExceedsCapacity 1 (l_capacity L i)), abort t (b1\<lparr>cb_inner := i\<rparr>))))"

record permit =
  p_ticket :: ticket
  p_settled :: bool

definition permit_new :: "ticket \<Rightarrow> permit" where
  "permit_new t = \<lparr>p_ticket = t, p_settled = False\<rparr>"

definition cb_try_acquire ::
  "'i limiter \<Rightarrow> 'i breaker \<Rightarrow> (throttle_error + permit option) \<times> 'i breaker" where
  "cb_try_acquire L b =
     (case try_admit L b of
        (Inl e, b') \<Rightarrow> (Inl e, b')
      | (Inr t, b') \<Rightarrow> (Inr (map_option permit_new t), b'))"

definition cb_try_acquire_owned ::
  "'i limiter \<Rightarrow> 'i breaker \<Rightarrow> (throttle_error + permit option) \<times> 'i breaker" where
  "cb_try_acquire_owned L b =
     (case try_admit L b of
        (Inl e, b') \<Rightarrow> (Inl e, b')
      | (Inr t, b') \<Rightarrow> (Inr (map_option permit_new t), b'))"

definition permit_success :: "permit \<Rightarrow> 'i breaker \<Rightarrow> permit \<times> 'i breaker" where
  "permit_success p b = (p\<lparr>p_settled := True\<rparr>, settle (p_ticket p) True b)"

definition permit_failure :: "permit \<Rightarrow> 'i breaker \<Rightarrow> permit \<times> 'i breaker" where
  "permit_failure p b = (p\<lparr>p_settled := True\<rparr>, settle (p_ticket p) False b)"

definition permit_cancel :: "'i limiter \<Rightarrow> permit \<Rightarrow> 'i breaker \<Rightarrow> permit \<times> 'i breaker" where
  "permit_cancel L p b =
     (let b1 = abort (p_ticket p) b in
      (p\<lparr>p_settled := True\<rparr>, b1\<lparr>cb_inner := l_refund L 1 (cb_inner b1)\<rparr>))"

definition permit_drop :: "permit \<Rightarrow> 'i breaker \<Rightarrow> 'i breaker" where
  "permit_drop p b = (if \<not> p_settled p then settle (p_ticket p) False b else b)"

text \<open>\<open>settle_call\<close>: the outcome of the wrapped operation settles the permit.\<close>

datatype 'e call_error = Rejected throttle_error | Failed 'e

definition settle_call ::
  "permit \<Rightarrow> 'e + 'r \<Rightarrow> 'i breaker \<Rightarrow> ('e call_error + 'r) \<times> 'i breaker" where
  "settle_call p result b =
     (case result of
        Inr v \<Rightarrow> (Inr v, snd (permit_success p b))
      | Inl e \<Rightarrow> (Inl (Failed e), snd (permit_failure p b)))"

text \<open>The waiting acquire: one step of its wait, and what it does when the wait is over.\<close>

definition cb_wait_step :: "'i limiter \<Rightarrow> duration \<Rightarrow> 'i breaker \<Rightarrow> step \<times> 'i breaker" where
  "cb_wait_step L budget b =
     (case l_reserve L 1 budget (cb_inner b) of
        (Some w, i) \<Rightarrow> (Granted w, b\<lparr>cb_inner := i\<rparr>)
      | (None, i) \<Rightarrow>
          (case l_peek L 1 i of
             (Retry a, i') \<Rightarrow> (Retry_Step a, b\<lparr>cb_inner := i'\<rparr>)
           | (Acquired, i') \<Rightarrow> (Retry_Step 0, b\<lparr>cb_inner := i'\<rparr>)
           | (Impossible, i') \<Rightarrow> (Never_Step, b\<lparr>cb_inner := i'\<rparr>)))"

definition cb_wait_done ::
  "'i limiter \<Rightarrow> ticket \<Rightarrow> 'i breaker \<Rightarrow> (throttle_error + ticket) \<times> 'i breaker" where
  "cb_wait_done L t b =
     (case still_admits t b of
        Inr _ \<Rightarrow> (Inr t, b)
      | Inl d \<Rightarrow>
          (let b1 = b\<lparr>cb_inner := l_refund L 1 (cb_inner b)\<rparr> in
           (Inl (CircuitOpen d), abort t b1)))"

subsection \<open>The breaker as a limiter\<close>

definition cb_peek :: "'i limiter \<Rightarrow> u32 \<Rightarrow> 'i breaker \<Rightarrow> decision \<times> 'i breaker" where
  "cb_peek L cost b =
     (let s = cb_shared b; now = now_ms b in
      if state s = Open \<and> now < open_until_ms s
      then (Retry (from_millis (open_until_ms s - now)), b)
      else if state s = HalfOpen \<and> half_open_inflight s \<ge> half_open_trials (cb_config b)
      then (Retry 0, b)
      else (case l_peek L cost (cb_inner b) of (d, i) \<Rightarrow> (d, b\<lparr>cb_inner := i\<rparr>)))"

definition cb_acquire_cost :: "'i limiter \<Rightarrow> u32 \<Rightarrow> 'i breaker \<Rightarrow> decision \<times> 'i breaker" where
  "cb_acquire_cost L cost b =
     (case admit_as True b of
        (Inl d, b1) \<Rightarrow> (Retry d, b1)
      | (Inr t, b1) \<Rightarrow>
          (case l_acquire_cost L cost (cb_inner b1) of (d, i) \<Rightarrow>
             (d, if is_acquired d then b1\<lparr>cb_inner := i\<rparr>
                 else abort_as True t (b1\<lparr>cb_inner := i\<rparr>))))"

definition cb_available :: "'i limiter \<Rightarrow> 'i breaker \<Rightarrow> u32 \<times> 'i breaker" where
  "cb_available L b =
     (case cb_peek L 0 b of (d, b1) \<Rightarrow>
        (if is_acquired d
         then (case l_available L (cb_inner b1) of (a, i) \<Rightarrow> (a, b1\<lparr>cb_inner := i\<rparr>))
         else (0, b1)))"

definition cb_refund :: "'i limiter \<Rightarrow> u32 \<Rightarrow> 'i breaker \<Rightarrow> 'i breaker" where
  "cb_refund L cost b = release_trait_probe (b\<lparr>cb_inner := l_refund L cost (cb_inner b)\<rparr>)"

definition cb_reserve ::
  "'i limiter \<Rightarrow> u32 \<Rightarrow> duration \<Rightarrow> 'i breaker \<Rightarrow> duration option \<times> 'i breaker" where
  "cb_reserve L cost max_wait b =
     (case admit_as True b of
        (Inl d, b1) \<Rightarrow> (None, b1)
      | (Inr t, b1) \<Rightarrow>
          (case l_reserve L cost max_wait (cb_inner b1) of (r, i) \<Rightarrow>
             (r, if r = None then abort_as True t (b1\<lparr>cb_inner := i\<rparr>) else b1\<lparr>cb_inner := i\<rparr>)))"

definition breaker_limiter :: "'i limiter \<Rightarrow> 'i breaker limiter" where
  "breaker_limiter L = \<lparr>
     l_peek = cb_peek L,
     l_acquire_cost = cb_acquire_cost L,
     l_available = cb_available L,
     l_capacity = (\<lambda>b. l_capacity L (cb_inner b)),
     l_refund = cb_refund L,
     l_reserve = cb_reserve L,
     l_pause_for = (\<lambda>d b. b\<lparr>cb_inner := l_pause_for L d (cb_inner b)\<rparr>),
     l_paused_for = (\<lambda>b. l_paused_for L (cb_inner b)),
     l_resume = (\<lambda>b. b\<lparr>cb_inner := l_resume L (cb_inner b)\<rparr>),
     l_charge = (\<lambda>cost b. case l_charge L cost (cb_inner b) of (r, i) \<Rightarrow> (r, b\<lparr>cb_inner := i\<rparr>))\<rparr>"

subsection \<open>Builder\<close>

record cb_builder =
  cbb_trip :: trip
  cbb_cooldown :: duration
  cbb_trials :: u32
  cbb_required :: u32

definition cb_builder_new :: cb_builder where
  "cb_builder_new = \<lparr>cbb_trip = Consecutive 5, cbb_cooldown = from_secs 30, cbb_trials = 1,
     cbb_required = 1\<rparr>"

definition cb_builder_trip :: "cb_builder \<Rightarrow> trip \<Rightarrow> cb_builder" where
  "cb_builder_trip c tr = c\<lparr>cbb_trip := tr\<rparr>"

definition cb_builder_cooldown :: "cb_builder \<Rightarrow> duration \<Rightarrow> cb_builder" where
  "cb_builder_cooldown c d = c\<lparr>cbb_cooldown := d\<rparr>"

definition cb_builder_half_open :: "cb_builder \<Rightarrow> u32 \<Rightarrow> u32 \<Rightarrow> cb_builder" where
  "cb_builder_half_open c trials required =
     (let c1 = c\<lparr>cbb_trials := max trials 1\<rparr> in
      c1\<lparr>cbb_required := min (max required 1) (cbb_trials c1)\<rparr>)"

definition cb_builder_build :: "cb_builder \<Rightarrow> 'i \<Rightarrow> nat \<Rightarrow> 'i breaker" where
  "cb_builder_build c inner clock =
     breaker_new inner
       \<lparr>cfg_trip = trip_normalised (cbb_trip c), cooldown = cbb_cooldown c,
        half_open_trials = cbb_trials c, half_open_required = cbb_required c\<rparr> clock"


subsection \<open>The generation counter\<close>

named_theorems breaker_ops

lemmas breaker_lock_defs [breaker_ops] =
  admit_as_def admit_locked_def abort_as_def release_trait_probe_def settle_def record_manual_def
  cb_reset_def transition_def reset_counters_def cb_open_def apply_outcome_def Let_def

lemma record_outcome_frame [simp]:
  "state (record_outcome s f now tr) = state s"
  "generation (record_outcome s f now tr) = generation s"
  "consecutive (record_outcome s f now tr) = consecutive s"
  "half_open_inflight (record_outcome s f now tr) = half_open_inflight s"
  "trait_probes (record_outcome s f now tr) = trait_probes s"
  "half_open_successes (record_outcome s f now tr) = half_open_successes s"
  "open_until_ms (record_outcome s f now tr) = open_until_ms s"
  by (simp_all add: record_outcome_def Let_def split: trip.splits)

text \<open>Every operation either keeps state and generation or moves to another state and
  adds one to the generation.\<close>

definition evolves :: "shared \<Rightarrow> shared \<Rightarrow> bool" where
  "evolves s s' \<longleftrightarrow>
     (state s' = state s \<and> generation s' = generation s) \<or> generation s' = generation s + 1"

lemma evolves_refl [simp]: "evolves s s"
  by (simp add: evolves_def)

lemma evolves_admit: "admit_as v b = (r, b') \<Longrightarrow> evolves (cb_shared b) (cb_shared b')"
  by (auto simp: breaker_ops evolves_def split: breaker_state.splits if_splits)

lemma evolves_abort: "evolves (cb_shared b) (cb_shared (abort_as v t b))"
  by (simp add: breaker_ops evolves_def)

lemma evolves_apply: "evolves s (apply_outcome cfg s ok now probe)"
  by (simp add: breaker_ops evolves_def split: breaker_state.splits)

lemma evolves_release: "evolves (cb_shared b) (cb_shared (release_trait_probe b))"
  by (simp add: breaker_ops evolves_def)

subsection \<open>The slots of the half-open state\<close>

text \<open>The tickets that are out and hold a probe slot of generation \<open>g\<close>.\<close>

definition live_probes :: "64 word \<Rightarrow> ticket list \<Rightarrow> nat" where
  "live_probes g ts = length (filter (\<lambda>t. t_probe t \<and> t_generation t = g) ts)"

definition slots_ok :: "config \<Rightarrow> shared \<Rightarrow> ticket list \<Rightarrow> bool" where
  "slots_ok cfg s ts \<longleftrightarrow>
     (if state s = HalfOpen
      then half_open_inflight s = trait_probes s + live_probes (generation s) ts \<and>
           half_open_inflight s \<le> half_open_trials cfg \<and>
           half_open_successes s < half_open_required cfg
      else live_probes (generation s) ts = 0 \<and> half_open_inflight s = 0 \<and> trait_probes s = 0) \<and>
     (\<forall>t\<in>set ts. unat (t_generation t) \<le> unat (generation s))"

definition config_ok :: "config \<Rightarrow> bool" where
  "config_ok cfg \<longleftrightarrow> 1 \<le> half_open_required cfg \<and> half_open_required cfg \<le> half_open_trials cfg \<and>
     half_open_trials cfg \<le> U32_MAX"

lemma live_probes_simps [simp]:
  "live_probes g [] = 0"
  "live_probes g (t # ts) = (if t_probe t \<and> t_generation t = g then 1 else 0) + live_probes g ts"
  by (simp_all add: live_probes_def)

lemma live_probes_drop:
  assumes "n < length ts"
  shows "live_probes g ts =
     (if t_probe (ts ! n) \<and> t_generation (ts ! n) = g then 1 else 0) + live_probes g (omit n ts)"
proof -
  have "live_probes g ts = live_probes g (take n ts @ ts ! n # drop (Suc n) ts)"
    using assms id_take_nth_drop by fastforce
  then show ?thesis by (simp add: live_probes_def omit_def)
qed

lemma set_omit: "set (omit n ts) \<subseteq> set ts"
  by (auto simp: omit_def dest: in_set_takeD in_set_dropD)

lemma unat_next: "(g :: 64 word) \<noteq> - 1 \<Longrightarrow> unat (g + 1) = unat g + 1"
  using unatSuc [of g] by (metis Suc_eq_plus1 add.commute add_eq_0_iff add.inverse_inverse)

text \<open>After a transition no ticket that is out carries the new generation.\<close>

lemma live_probes_next:
  assumes "\<forall>t\<in>set ts. unat (t_generation t) \<le> unat g" and "g \<noteq> - 1"
  shows "live_probes (g + 1) ts = 0 \<and> (\<forall>t\<in>set ts. unat (t_generation t) \<le> unat (g + 1))"
proof -
  have "\<forall>t\<in>set ts. unat (t_generation t) < unat (g + 1)"
    using assms by (force simp: unat_next)
  then have "\<forall>t\<in>set ts. t_generation t \<noteq> g + 1"
    and "\<forall>t\<in>set ts. unat (t_generation t) \<le> unat (g + 1)" by auto
  then show ?thesis by (auto simp: live_probes_def filter_empty_conv)
qed

text \<open>Each operation under the lock keeps the slots in step with the tickets that are out.\<close>

lemma slots_admit_locked:
  assumes "config_ok cfg" "slots_ok cfg s ts" "generation s \<noteq> - 1"
    and "admit_locked cfg s now = (r, s')"
  shows "case r of Inl _ \<Rightarrow> slots_ok cfg s' ts | Inr t \<Rightarrow> slots_ok cfg s' (t # ts)"
  using assms live_probes_next [of ts "generation s"]
  by (auto simp: admit_locked_def transition_def Let_def slots_ok_def config_ok_def
      split: breaker_state.splits if_splits)

lemma slots_trait_mark:
  "slots_ok cfg s (t # ts) \<Longrightarrow> config_ok cfg \<Longrightarrow> t_generation t = generation s \<Longrightarrow>
   t_probe t \<longleftrightarrow> state s = HalfOpen \<Longrightarrow>
   slots_ok cfg (if t_probe t then s\<lparr>trait_probes := sat_add32 (trait_probes s) 1\<rparr> else s) ts"
  by (auto simp: slots_ok_def config_ok_def sat_add32_def)

lemma admit_locked_ticket:
  "admit_locked cfg s now = (Inr t, s') \<Longrightarrow>
   t_generation t = generation s' \<and> (t_probe t \<longleftrightarrow> state s' = HalfOpen)"
  by (auto simp: admit_locked_def transition_def Let_def split: breaker_state.splits if_splits)

lemma slots_admit_as:
  assumes "config_ok (cb_config b)" "slots_ok (cb_config b) (cb_shared b) ts"
    and "generation (cb_shared b) \<noteq> - 1" and "admit_as v b = (r, b')"
  shows "case r of Inl _ \<Rightarrow> slots_ok (cb_config b) (cb_shared b') ts
     | Inr t \<Rightarrow> slots_ok (cb_config b) (cb_shared b') (if v then ts else t # ts)"
proof -
  obtain r1 s1 where a: "admit_locked (cb_config b) (cb_shared b) (now_ms b) = (r1, s1)"
    by fastforce
  show ?thesis
  proof (cases r1)
    case (Inl d)
    with slots_admit_locked [OF assms(1-3) a] assms(4) a show ?thesis
      by (auto simp: admit_as_def)
  next
    case (Inr t)
    with slots_admit_locked [OF assms(1-3) a] have "slots_ok (cb_config b) s1 (t # ts)" by simp
    with slots_trait_mark [OF this assms(1)] admit_locked_ticket [OF a [unfolded Inr]] assms(4) a Inr
    show ?thesis by (auto simp: admit_as_def split: if_splits)
  qed
qed

lemma slots_abort:
  assumes "slots_ok (cb_config b) (cb_shared b) ts" "n < length ts"
  shows "slots_ok (cb_config b) (cb_shared (abort_as False (ts ! n) b)) (omit n ts)"
  using assms(1) live_probes_drop [OF assms(2), of "generation (cb_shared b)"] set_omit [of n ts]
  by (auto simp: slots_ok_def abort_as_def Let_def)

lemma slots_apply:
  assumes "config_ok cfg" "generation s \<noteq> - 1"
    and "slots_ok cfg (if state s = HalfOpen \<and> probe
           then s\<lparr>half_open_inflight := half_open_inflight s - 1\<rparr> else s) ts"
  shows "slots_ok cfg (apply_outcome cfg s ok now probe) ts"
  using assms live_probes_next [of ts "generation s"]
  by (auto simp: apply_outcome_def cb_open_def transition_def reset_counters_def Let_def
      slots_ok_def config_ok_def split: breaker_state.splits if_splits)

lemma slots_settle:
  assumes "config_ok (cb_config b)" "slots_ok (cb_config b) (cb_shared b) ts"
    and "generation (cb_shared b) \<noteq> - 1" "n < length ts"
  shows "slots_ok (cb_config b) (cb_shared (settle (ts ! n) ok b)) (omit n ts)"
proof -
  let ?s = "cb_shared b"
  note one = live_probes_drop [OF assms(4), of "generation ?s"] set_omit [of n ts]
  show ?thesis
  proof (cases "generation ?s = t_generation (ts ! n)")
    case True
    with assms(2) one have "slots_ok (cb_config b) (if state ?s = HalfOpen \<and> t_probe (ts ! n)
        then ?s\<lparr>half_open_inflight := half_open_inflight ?s - 1\<rparr> else ?s) (omit n ts)"
      by (auto simp: slots_ok_def split: if_splits)
    from slots_apply [OF assms(1,3) this] True show ?thesis by (simp add: settle_def Let_def)
  next
    case False
    with assms(2) one show ?thesis by (auto simp: settle_def slots_ok_def split: if_splits)
  qed
qed

lemma slots_manual:
  assumes "config_ok (cb_config b)" "slots_ok (cb_config b) (cb_shared b) ts"
    and "generation (cb_shared b) \<noteq> - 1"
  shows "slots_ok (cb_config b) (cb_shared (record_manual ok b)) ts"
proof -
  let ?s = "cb_shared b"
  have "slots_ok (cb_config b) (let probe = (state ?s = HalfOpen \<and> trait_probes ?s > 0);
      s1 = (if probe then ?s\<lparr>trait_probes := trait_probes ?s - 1\<rparr> else ?s)
    in if state s1 = HalfOpen \<and> probe
       then s1\<lparr>half_open_inflight := half_open_inflight s1 - 1\<rparr> else s1) ts"
    using assms(2) by (auto simp: slots_ok_def Let_def split: if_splits)
  then show ?thesis
    using slots_apply [OF assms(1), of ?s False ts]
      slots_apply [OF assms(1), of "?s\<lparr>trait_probes := trait_probes ?s - 1\<rparr>" True ts] assms(3)
    by (auto simp: record_manual_def Let_def split: if_splits)
qed

lemma slots_release_trait:
  "slots_ok (cb_config b) (cb_shared b) ts \<Longrightarrow>
   slots_ok (cb_config b) (cb_shared (release_trait_probe b)) ts"
  by (auto simp: slots_ok_def release_trait_probe_def Let_def)

lemma slots_reset:
  assumes "slots_ok cfg (cb_shared b) ts" "generation (cb_shared b) \<noteq> - 1"
  shows "slots_ok cfg (cb_shared (cb_reset b)) ts"
  using assms live_probes_next [of ts "generation (cb_shared b)"]
  by (auto simp: slots_ok_def cb_reset_def transition_def reset_counters_def)

text \<open>A trait admission that is taken back leaves the slots as an admission that was refused.\<close>

lemma slots_trait_undone:
  assumes "config_ok (cb_config b)" "slots_ok (cb_config b) (cb_shared b) ts"
    and "generation (cb_shared b) \<noteq> - 1" and "admit_as True b = (Inr t, b')"
  shows "slots_ok (cb_config b) (cb_shared (abort_as True t (b'\<lparr>cb_inner := i\<rparr>))) ts"
proof -
  from slots_admit_as [OF assms(1-3) assms(4)] have "slots_ok (cb_config b) (cb_shared b') ts" by simp
  moreover have "t_probe t \<Longrightarrow> 0 < trait_probes (cb_shared b')"
    using assms(4)
    by (auto simp: admit_as_def sat_add32_def U32_MAX_def split: sum.splits prod.splits if_splits)
  ultimately show ?thesis by (auto simp: slots_ok_def abort_as_def Let_def)
qed

subsection \<open>Runs of a breaker\<close>

text \<open>What callers do with a breaker, one lock acquisition per step for the permits: a
  permit is taken (its ticket is out from then on), settled with an outcome (\<open>Settle\<close>,
  also what dropping an unsettled permit does), cancelled (\<open>Cancel\<close>, which refunds the wrapped
  limiter too), or given back before it was handed out (\<open>Give_Back\<close>: a cancelled wait, an inner
  refusal).  The trait operations, the manual outcomes, \<open>reset\<close> and the passage of time come
  in between in any order.\<close>

datatype cb_op =
    Take
  | Settle nat bool
  | Cancel nat
  | Give_Back nat
  | Trait_Acquire u32
  | Trait_Reserve u32 duration
  | Trait_Refund u32
  | Manual bool
  | Reset
  | Tick nat

fun cb_exec :: "'i limiter \<Rightarrow> cb_op \<Rightarrow> 'i breaker \<times> ticket list \<Rightarrow> 'i breaker \<times> ticket list" where
  "cb_exec L Take (b, ts) = (case admit b of (Inl _, b') \<Rightarrow> (b', ts) | (Inr t, b') \<Rightarrow> (b', t # ts))"
| "cb_exec L (Settle n ok) (b, ts) =
     (if n < length ts then (settle (ts ! n) ok b, omit n ts) else (b, ts))"
| "cb_exec L (Cancel n) (b, ts) =
     (if n < length ts then (snd (permit_cancel L (permit_new (ts ! n)) b), omit n ts) else (b, ts))"
| "cb_exec L (Give_Back n) (b, ts) =
     (if n < length ts then (abort (ts ! n) b, omit n ts) else (b, ts))"
| "cb_exec L (Trait_Acquire c) (b, ts) = (snd (cb_acquire_cost L c b), ts)"
| "cb_exec L (Trait_Reserve c m) (b, ts) = (snd (cb_reserve L c m b), ts)"
| "cb_exec L (Trait_Refund c) (b, ts) = (cb_refund L c b, ts)"
| "cb_exec L (Manual ok) (b, ts) = (record_manual ok b, ts)"
| "cb_exec L Reset (b, ts) = (cb_reset b, ts)"
| "cb_exec L (Tick d) (b, ts) = (b\<lparr>cb_clock := cb_clock b + d\<rparr>, ts)"

definition cb_run :: "'i limiter \<Rightarrow> cb_op list \<Rightarrow> 'i breaker \<Rightarrow> 'i breaker \<times> ticket list" where
  "cb_run L ops b = fold (cb_exec L) ops (b, [])"

lemma config_frame [simp]:
  "cb_config (snd (admit_as v b)) = cb_config b"
  "cb_config (abort_as v t b) = cb_config b"
  "cb_config (settle t ok b) = cb_config b"
  "cb_config (record_manual ok b) = cb_config b"
  "cb_config (cb_reset b) = cb_config b"
  "cb_config (release_trait_probe b) = cb_config b"
  by (auto simp: breaker_lock_defs split: sum.splits prod.splits)

lemma config_admit: "admit_as v b = (r, b') \<Longrightarrow> cb_config b' = cb_config b"
  using config_frame(1) [of v b] by simp

lemma slots_exec:
  assumes "config_ok (cb_config b)" "slots_ok (cb_config b) (cb_shared b) ts"
    and "generation (cb_shared b) \<noteq> - 1" "cb_exec L x (b, ts) = (b', ts')"
  shows "cb_config b' = cb_config b \<and> slots_ok (cb_config b) (cb_shared b') ts'"
proof (cases x)
  case Take
  then show ?thesis using slots_admit_as [OF assms(1-3), of False] assms(4) config_admit
    by (fastforce simp: admit_def split: sum.splits prod.splits)
next
  case (Trait_Acquire c)
  then show ?thesis
    using slots_admit_as [OF assms(1-3), of True] slots_trait_undone [OF assms(1-3)] assms(4)
      config_admit [of True b]
    by (fastforce simp: cb_acquire_cost_def split: sum.splits prod.splits)
next
  case (Trait_Reserve c m)
  then show ?thesis
    using slots_admit_as [OF assms(1-3), of True] slots_trait_undone [OF assms(1-3)] assms(4)
      config_admit [of True b]
    by (fastforce simp: cb_reserve_def split: sum.splits prod.splits)
next
  case (Trait_Refund c)
  then show ?thesis
    using slots_release_trait [of "b\<lparr>cb_inner := l_refund L c (cb_inner b)\<rparr>" ts] assms(2,4)
    by (auto simp: cb_refund_def)
qed (use assms slots_settle slots_abort slots_manual slots_reset in
     \<open>auto simp: abort_def permit_cancel_def permit_new_def Let_def split: if_splits\<close>)

lemma evolves_trait: "evolves (s\<lparr>trait_probes := x\<rparr>) s' \<longleftrightarrow> evolves s s'"
  by (simp add: evolves_def)

lemma evolves_manual: "evolves (cb_shared b) (cb_shared (record_manual ok b))"
  using evolves_apply [of "cb_shared b"] evolves_apply [of "(cb_shared b)\<lparr>trait_probes := x\<rparr>" for x]
  by (simp add: record_manual_def Let_def evolves_trait)

lemma evolves_undone:
  "admit_as True b = (Inr t, b1) \<Longrightarrow>
   evolves (cb_shared b) (cb_shared (abort_as True t (b1\<lparr>cb_inner := i\<rparr>)))"
  by (auto simp: breaker_lock_defs evolves_def split: breaker_state.splits if_splits)

lemma evolves_exec:
  assumes "cb_exec L x (b, ts) = (b', ts')"
  shows "evolves (cb_shared b) (cb_shared b')"
proof (cases x)
  case Take
  then show ?thesis using assms evolves_admit [of False b]
    by (auto simp: admit_def split: sum.splits prod.splits)
next
  case (Settle n ok)
  then show ?thesis using assms evolves_apply [of "cb_shared b"]
    by (auto simp: settle_def Let_def split: if_splits)
next
  case (Give_Back n)
  then show ?thesis using assms evolves_abort [of b] by (auto simp: abort_def split: if_splits)
next
  case (Cancel n)
  then show ?thesis using assms evolves_abort [of b]
    by (auto simp: abort_def permit_cancel_def permit_new_def Let_def split: if_splits)
next
  case (Trait_Acquire c)
  then show ?thesis using assms evolves_admit [of True b] evolves_undone [of b]
    by (auto simp: cb_acquire_cost_def split: sum.splits prod.splits if_splits)
next
  case (Trait_Reserve c m)
  then show ?thesis using assms evolves_admit [of True b] evolves_undone [of b]
    by (auto simp: cb_reserve_def split: sum.splits prod.splits if_splits)
next
  case (Trait_Refund c)
  then show ?thesis
    using assms evolves_release [of "b\<lparr>cb_inner := l_refund L c (cb_inner b)\<rparr>"]
    by (auto simp: cb_refund_def)
qed (use assms evolves_manual in \<open>auto simp: cb_reset_def transition_def reset_counters_def evolves_def\<close>)

lemma evolves_unat:
  "evolves s s' \<Longrightarrow> generation s \<noteq> - 1 \<Longrightarrow>
   (if generation s' = generation s then state s' = state s
    else unat (generation s') = unat (generation s) + 1)"
  by (auto simp: evolves_def unat_next)

lemma below_wrap: "unat (g :: 64 word) < 2 ^ 64 - 1 \<Longrightarrow> g \<noteq> - 1"
proof
  assume "unat g < 2 ^ 64 - 1" "g = - 1"
  moreover have "unat (- 1 :: 64 word) = 2 ^ 64 - 1" by (simp add: unsigned_minus_1_eq_mask mask_eq_exp_minus_1)
  ultimately show False by simp
qed

lemma cb_exec_pair: "\<exists>b' ts'. cb_exec L x p = (b', ts')"
  by fastforce

text \<open>The invariant of a run: slots and tickets agree, and the generation grows with every
  change of state.\<close>

lemma run_slots:
  assumes "config_ok (cb_config b)" "slots_ok (cb_config b) (cb_shared b) ts"
    and "unat (generation (cb_shared b)) + length ops < 2 ^ 64"
    and "fold (cb_exec L) ops (b, ts) = (b', ts')"
  shows "cb_config b' = cb_config b \<and> slots_ok (cb_config b) (cb_shared b') ts' \<and>
    unat (generation (cb_shared b')) \<le> unat (generation (cb_shared b)) + length ops \<and>
    unat (generation (cb_shared b)) \<le> unat (generation (cb_shared b')) \<and>
    (generation (cb_shared b') = generation (cb_shared b) \<longrightarrow> cb_state b' = cb_state b)"
  using assms
proof (induction ops arbitrary: b ts)
  case (Cons x ops)
  obtain b1 ts1 where x: "cb_exec L x (b, ts) = (b1, ts1)" using cb_exec_pair by blast
  have nowrap: "generation (cb_shared b) \<noteq> - 1" using Cons.prems(3) by (intro below_wrap) simp
  note ok = slots_exec [OF Cons.prems(1,2) nowrap x]
  note ev = evolves_unat [OF evolves_exec [OF x] nowrap]
  have "unat (generation (cb_shared b1)) + length ops < 2 ^ 64"
    using ev Cons.prems(3) by (auto split: if_splits)
  with Cons.IH [of b1 ts1] ok Cons.prems(1,4) x
  have IH: "cb_config b' = cb_config b1 \<and> slots_ok (cb_config b1) (cb_shared b') ts' \<and>
    unat (generation (cb_shared b')) \<le> unat (generation (cb_shared b1)) + length ops \<and>
    unat (generation (cb_shared b1)) \<le> unat (generation (cb_shared b')) \<and>
    (generation (cb_shared b') = generation (cb_shared b1) \<longrightarrow> cb_state b' = cb_state b1)"
    by simp
  show ?case
  proof (cases "generation (cb_shared b1) = generation (cb_shared b)")
    case True
    with IH ok ev show ?thesis by (simp add: cb_state_def)
  next
    case False
    with IH ok ev show ?thesis by auto
  qed
qed (simp add: cb_state_def)

lemma build_slots:
  assumes "cbb_trials c \<le> U32_MAX" "1 \<le> cbb_required c" "cbb_required c \<le> cbb_trials c"
  shows "config_ok (cb_config (cb_builder_build c i clk)) \<and>
    slots_ok (cb_config (cb_builder_build c i clk)) (cb_shared (cb_builder_build c i clk)) [] \<and>
    generation (cb_shared (cb_builder_build c i clk)) = 0 \<and>
    cb_state (cb_builder_build c i clk) = Closed"
  using assms
  by (simp add: cb_builder_build_def breaker_new_def shared_new_def config_ok_def slots_ok_def cb_state_def)

lemma half_open_builder:
  "trials \<le> U32_MAX \<Longrightarrow> cbb_trials (cb_builder_half_open c trials req) \<le> U32_MAX"
  "1 \<le> cbb_required (cb_builder_half_open c trials req)"
  "cbb_required (cb_builder_half_open c trials req) \<le> cbb_trials (cb_builder_half_open c trials req)"
  "cbb_trials (cb_builder_half_open c trials req) = max trials 1"
  "cbb_required (cb_builder_half_open c trials req) = min (max req 1) (max trials 1)"
  by (auto simp: cb_builder_half_open_def Let_def U32_MAX_def)

lemmas built = build_slots [OF half_open_builder(1) half_open_builder(2,3)]

lemma built_config:
  "half_open_trials (cb_config (cb_builder_build (cb_builder_half_open c trials req) i clk)) = max trials 1"
  "half_open_required (cb_config (cb_builder_build (cb_builder_half_open c trials req) i clk)) =
     min (max req 1) (max trials 1)"
  by (simp_all add: cb_builder_build_def breaker_new_def half_open_builder)

subsection \<open>The trials that are really outstanding\<close>

text \<open>The breaker counts the trials admitted through the trait in \<open>trait_probes\<close>, and a
  refund or a manual outcome names no admission.  A traced run records what the callers
  know: \<open>us\<close> are the admissions granted through the trait and not yet reported on, and each
  refund or manual outcome comes with the index of the one it belongs to (out of range for a
  report that belongs to none).\<close>

definition trait_granted :: "'i limiter \<Rightarrow> cb_op \<Rightarrow> 'i breaker \<Rightarrow> ticket list" where
  "trait_granted L x b =
     (case (x, fst (admit_as True b)) of
        (Trait_Acquire c, Inr t) \<Rightarrow> (if is_acquired (fst (cb_acquire_cost L c b)) then [t] else [])
      | (Trait_Reserve c m, Inr t) \<Rightarrow> (if fst (cb_reserve L c m b) \<noteq> None then [t] else [])
      | _ \<Rightarrow> [])"

definition is_report :: "cb_op \<Rightarrow> bool" where
  "is_report x = (case x of Trait_Refund _ \<Rightarrow> True | Manual _ \<Rightarrow> True | _ \<Rightarrow> False)"

definition traced ::
  "'i limiter \<Rightarrow> cb_op \<times> nat \<Rightarrow> 'i breaker \<times> ticket list \<times> ticket list \<Rightarrow>
   'i breaker \<times> ticket list \<times> ticket list" where
  "traced L xn w =
     (case (xn, w) of ((x, n), (b, ts, us)) \<Rightarrow>
        case cb_exec L x (b, ts) of (b', ts') \<Rightarrow>
          (b', ts', if is_report x then (if n < length us then omit n us else us)
                    else trait_granted L x b @ us))"

text \<open>A report is timely when it is made outside a half-open period or belongs to a trial
  of the running one.\<close>

definition report_timely :: "cb_op \<times> nat \<Rightarrow> 'i breaker \<times> ticket list \<times> ticket list \<Rightarrow> bool" where
  "report_timely xn w =
     (case (xn, w) of ((x, n), (b, ts, us)) \<Rightarrow>
        is_report x \<and> cb_state b = HalfOpen \<longrightarrow>
        n < length us \<and> t_probe (us ! n) \<and> t_generation (us ! n) = generation (cb_shared b))"

fun timely :: "'i limiter \<Rightarrow> (cb_op \<times> nat) list \<Rightarrow> 'i breaker \<times> ticket list \<times> ticket list \<Rightarrow> bool" where
  "timely L [] w \<longleftrightarrow> True"
| "timely L (x # xs) w \<longleftrightarrow> report_timely x w \<and> timely L xs (traced L x w)"

definition trait_ok :: "bool \<Rightarrow> shared \<Rightarrow> ticket list \<Rightarrow> bool" where
  "trait_ok exact s us \<longleftrightarrow>
     (if state s = HalfOpen
      then trait_probes s \<le> live_probes (generation s) us \<and>
           (exact \<longrightarrow> trait_probes s = live_probes (generation s) us)
      else live_probes (generation s) us = 0) \<and>
     (\<forall>u\<in>set us. unat (t_generation u) \<le> unat (generation s))"

text \<open>Whatever is not a trait admission or a report keeps \<open>trait_probes\<close> within a period and
  clears it at the start of the next.\<close>

definition trait_kept :: "shared \<Rightarrow> shared \<Rightarrow> bool" where
  "trait_kept s s' \<longleftrightarrow>
     (state s' = state s \<and> generation s' = generation s \<and> trait_probes s' = trait_probes s) \<or>
     (generation s' = generation s + 1 \<and> trait_probes s' = 0)"

lemma trait_ok_kept:
  assumes "trait_ok e s us" "trait_kept s s'" "generation s \<noteq> - 1"
  shows "trait_ok e s' us"
  using assms live_probes_next [of us "generation s"] by (auto simp: trait_ok_def trait_kept_def)

lemma trait_kept_refl [simp]: "trait_kept s s"
  by (simp add: trait_kept_def)

lemma kept_apply: "trait_kept s (apply_outcome cfg s ok now probe)"
  by (simp add: breaker_lock_defs trait_kept_def split: breaker_state.splits)

lemma kept_abort: "trait_kept (cb_shared b) (cb_shared (abort_as False t b))"
  by (simp add: breaker_lock_defs trait_kept_def)

lemma kept_admit: "admit_as False b = (r, b') \<Longrightarrow> trait_kept (cb_shared b) (cb_shared b')"
  by (auto simp: breaker_lock_defs trait_kept_def split: breaker_state.splits if_splits)

lemma kept_settle: "trait_kept (cb_shared b) (cb_shared (settle t ok b))"
  by (simp add: settle_def kept_apply Let_def)

lemma kept_reset: "trait_kept (cb_shared b) (cb_shared (cb_reset b))"
  by (simp add: cb_reset_def transition_def reset_counters_def trait_kept_def)

lemma kept_exec:
  assumes "cb_exec L x (b, ts) = (b', ts')" "\<not> is_report x"
    and "\<forall>c m. x \<noteq> Trait_Acquire c \<and> x \<noteq> Trait_Reserve c m"
  shows "trait_kept (cb_shared b) (cb_shared b')"
proof (cases x)
  case Take
  then show ?thesis using assms(1) kept_admit [of b]
    by (auto simp: admit_def split: sum.splits prod.splits)
qed (use assms kept_settle kept_abort kept_reset in
     \<open>auto simp: is_report_def abort_def permit_cancel_def permit_new_def Let_def split: if_splits\<close>)

text \<open>An admission through the trait: the count moves with the granted ticket.\<close>

lemma trait_admit:
  assumes "config_ok (cb_config b)" "slots_ok (cb_config b) (cb_shared b) ts" "generation (cb_shared b) \<noteq> - 1"
    and "trait_ok e (cb_shared b) us" and "admit_as True b = (Inr t, b')"
  shows "trait_ok e (cb_shared b') (t # us)"
    and "trait_kept (cb_shared b) (cb_shared (abort_as True t (b'\<lparr>cb_inner := i\<rparr>)))"
proof -
  have room: "trait_probes (cb_shared b) + 1 \<le> U32_MAX" if "cb_state b = HalfOpen"
    "half_open_inflight (cb_shared b) < half_open_trials (cb_config b)"
    using that assms(1,2) by (auto simp: slots_ok_def config_ok_def cb_state_def)
  show "trait_ok e (cb_shared b') (t # us)"
    using assms(3-5) room live_probes_next [of us "generation (cb_shared b)"]
    by (auto simp: admit_as_def admit_locked_def transition_def trait_ok_def sat_add32_def cb_state_def
        U32_MAX_def Let_def split: breaker_state.splits if_splits)
  show "trait_kept (cb_shared b) (cb_shared (abort_as True t (b'\<lparr>cb_inner := i\<rparr>)))"
    using assms(5) room
    by (auto simp: admit_as_def admit_locked_def abort_as_def transition_def trait_kept_def sat_add32_def
        cb_state_def U32_MAX_def Let_def split: breaker_state.splits if_splits)
qed

text \<open>A report: the count goes down by one, and so do the outstanding trials if it is timely.\<close>

lemma omit_live: "live_probes g us \<le> live_probes g (if n < length us then omit n us else us) + 1"
  using live_probes_drop [of n us g] by simp

lemma trait_report:
  assumes "trait_ok e s us"
    and "e \<and> state s = HalfOpen \<longrightarrow> n < length us \<and> t_probe (us ! n) \<and> t_generation (us ! n) = generation s"
  shows "trait_ok e (if state s = HalfOpen \<and> trait_probes s > 0 then s\<lparr>trait_probes := trait_probes s - 1\<rparr> else s)
    (if n < length us then omit n us else us)"
  using assms omit_live [of "generation s" us n] live_probes_drop [of n us "generation s"] set_omit [of n us]
  by (auto simp: trait_ok_def split: if_splits)

lemma trait_ok_frame:
  "trait_ok e (s\<lparr>half_open_inflight := k\<rparr>) us \<longleftrightarrow> trait_ok e s us"
  by (simp add: trait_ok_def)

lemma trait_traced:
  assumes cfg: "config_ok (cb_config b)" and slots: "slots_ok (cb_config b) (cb_shared b) ts"
    and gen: "generation (cb_shared b) \<noteq> - 1" and tok: "trait_ok e (cb_shared b) us"
    and tm: "e \<longrightarrow> report_timely (x, n) (b, ts, us)" and st: "traced L (x, n) (b, ts, us) = (b', ts', us')"
  shows "trait_ok e (cb_shared b') us'"
proof -
  obtain b1 ts1 where x: "cb_exec L x (b, ts) = (b1, ts1)" using cb_exec_pair by blast
  have b1: "b1 = b'" "ts1 = ts'"
    and us': "us' = (if is_report x then (if n < length us then omit n us else us) else trait_granted L x b @ us)"
    using st x by (simp_all add: traced_def del: cb_exec.simps)
  note admitted = trait_admit [OF cfg slots gen tok]
  obtain r b2 where ad: "admit_as True b = (r, b2)" by fastforce
  have refused: "trait_ok e (cb_shared b2) us" if "r = Inl d" for d
    using ad that tok by (auto simp: admit_as_def admit_locked_def Let_def split: breaker_state.splits if_splits)
  have undone: "trait_ok e (cb_shared (abort_as True t (b2\<lparr>cb_inner := i\<rparr>))) us" if "r = Inr t" for t i
    using trait_ok_kept [OF tok admitted(2) gen] ad that by blast
  have report: "trait_ok e (if state (cb_shared b) = HalfOpen \<and> trait_probes (cb_shared b) > 0
      then (cb_shared b)\<lparr>trait_probes := trait_probes (cb_shared b) - 1\<rparr> else cb_shared b) us'" if "is_report x"
    using trait_report [OF tok, of n] tm us' that by (simp add: report_timely_def cb_state_def)
  show ?thesis
  proof (cases x)
    case (Trait_Acquire c)
    then show ?thesis
      using x b1 us' ad refused undone admitted(1)
      by (cases r) (auto simp: cb_acquire_cost_def trait_granted_def is_report_def split: prod.splits if_splits)
  next
    case (Trait_Reserve c m)
    then show ?thesis
      using x b1 us' ad refused undone admitted(1)
      by (cases r) (auto simp: cb_reserve_def trait_granted_def is_report_def split: prod.splits if_splits)
  next
    case (Trait_Refund c)
    then show ?thesis
      using x b1 report trait_ok_frame
      by (auto simp: is_report_def cb_refund_def release_trait_probe_def Let_def split: if_splits)
  next
    case (Manual ok)
    let ?s = "if state (cb_shared b) = HalfOpen \<and> trait_probes (cb_shared b) > 0
      then (cb_shared b)\<lparr>trait_probes := trait_probes (cb_shared b) - 1\<rparr> else cb_shared b"
    have "cb_shared b' = apply_outcome (cb_config b) ?s ok (now_ms b) (state (cb_shared b) = HalfOpen \<and> trait_probes (cb_shared b) > 0)"
      using x b1 Manual by (auto simp: record_manual_def Let_def)
    with trait_ok_kept [OF _ kept_apply] report Manual gen show ?thesis by (simp add: is_report_def)
  qed (use x b1 us' kept_exec [OF x] trait_ok_kept [OF tok _ gen] in
       \<open>auto simp: is_report_def trait_granted_def split: sum.splits\<close>)
qed

lemma traced_cb_exec: "traced L (x, n) (b, ts, us) = (b', ts', us') \<Longrightarrow> cb_exec L x (b, ts) = (b', ts')"
  by (auto simp: traced_def simp del: cb_exec.simps split: prod.splits)

lemma fold_traced:
  "fold (traced L) xs (b, ts, us) = (b', ts', us') \<Longrightarrow> fold (cb_exec L) (map fst xs) (b, ts) = (b', ts')"
proof (induction xs arbitrary: b ts us)
  case (Cons xn xs)
  obtain x n where xn: "xn = (x, n)" by (cases xn)
  obtain b1 ts1 us1 where t: "traced L (x, n) (b, ts, us) = (b1, ts1, us1)" by (metis prod_cases3)
  with Cons xn traced_cb_exec [OF t] show ?case by simp
qed simp

lemma run_traits:
  assumes "config_ok (cb_config b)" "slots_ok (cb_config b) (cb_shared b) ts"
    and "unat (generation (cb_shared b)) + length xs < 2 ^ 64"
    and "trait_ok e (cb_shared b) us" and "e \<longrightarrow> timely L xs (b, ts, us)"
    and "fold (traced L) xs (b, ts, us) = (b', ts', us')"
  shows "trait_ok e (cb_shared b') us'"
  using assms
proof (induction xs arbitrary: b ts us)
  case (Cons xn xs)
  obtain x n where xn: "xn = (x, n)" by (cases xn)
  obtain b1 ts1 us1 where t: "traced L (x, n) (b, ts, us) = (b1, ts1, us1)" by (metis prod_cases3)
  have nowrap: "generation (cb_shared b) \<noteq> - 1" using Cons.prems(3) by (intro below_wrap) simp
  note ok = slots_exec [OF Cons.prems(1,2) nowrap traced_cb_exec [OF t]]
  have "unat (generation (cb_shared b1)) + length xs < 2 ^ 64"
    using evolves_unat [OF evolves_exec [OF traced_cb_exec [OF t]] nowrap] Cons.prems(3) by (auto split: if_splits)
  moreover have "trait_ok e (cb_shared b1) us1"
    using trait_traced [OF Cons.prems(1,2) nowrap Cons.prems(4) _ t] Cons.prems(5) xn by simp
  ultimately show ?case
    using Cons.IH [of b1 ts1 us1] ok Cons.prems(1,5,6) xn t by simp
qed simp

lemma live_probes_append: "live_probes g (us @ ts) = live_probes g us + live_probes g ts"
  by (simp add: live_probes_def)

text \<open>C5: no probe slot leaks, and none is counted twice.  Take any run of a built breaker,
  whatever the wrapped limiter answers, and let the outstanding trials be the permits of the
  current half-open period that are out together with the admissions through the trait of
  this period that nobody has reported on.  While the breaker is half-open, the slots in use
  are at most the outstanding trials and at most the configured trials, so whenever fewer
  trials than configured are outstanding the next admission succeeds and is a probe; outside
  the half-open state no slot is in use and no trial is outstanding.  If every refund and
  manual outcome made in a half-open period belongs to a trial of that period, the slots in
  use are exactly the outstanding trials, which then never exceed the configured number.  (A
  report that belongs to an older admission may free the slot of a live trial, as the source
  documents, and one more trial can then run.)\<close>

theorem probe_slots_never_leak:
  assumes "trials \<le> U32_MAX" and "length xs < 2 ^ 64"
    and "b0 = cb_builder_build (cb_builder_half_open c trials required) i clk"
    and "fold (traced L) xs (b0, [], []) = (b, ts, us)"
  shows "let s = cb_shared b; outstanding = live_probes (generation s) (us @ ts) in
     (state s = HalfOpen \<longrightarrow>
        half_open_inflight s = trait_probes s + live_probes (generation s) ts \<and>
        half_open_inflight s \<le> outstanding \<and> half_open_inflight s \<le> max trials 1 \<and>
        (outstanding < max trials 1 \<longrightarrow> (\<exists>t. fst (admit b) = Inr t \<and> t_probe t)) \<and>
        (timely L xs (b0, [], []) \<longrightarrow> half_open_inflight s = outstanding)) \<and>
     (state s \<noteq> HalfOpen \<longrightarrow> half_open_inflight s = 0 \<and> outstanding = 0)"
proof -
  note b0 = built [OF assms(1), of c required i clk, folded assms(3)]
  have cfg0: "half_open_trials (cb_config b0) = max trials 1" by (simp add: assms(3) built_config)
  have len: "unat (generation (cb_shared b0)) + length xs < 2 ^ 64"
    using b0 assms(2) by (metis add_0 unsigned_0)
  have len': "unat (generation (cb_shared b0)) + length (map fst xs) < 2 ^ 64" using len by simp
  from run_slots [OF _ _ len' fold_traced [OF assms(4)]] b0
  have ok: "slots_ok (cb_config b0) (cb_shared b) ts" and cfg: "cb_config b = cb_config b0" by blast+
  have "trait_ok e (cb_shared b0) []" for e
    using b0 by (simp add: trait_ok_def cb_state_def)
  with run_traits [OF _ _ len _ _ assms(4)] b0
  have tok: "trait_ok (timely L xs (b0, [], [])) (cb_shared b) us" by blast
  from ok tok show ?thesis
    using cfg cfg0
    by (auto simp: slots_ok_def trait_ok_def live_probes_append Let_def admit_def admit_as_def admit_locked_def
        split: if_splits)
qed

lemmas breaker_eval = cb_run_def cb_builder_build_def cb_builder_half_open_def cb_builder_trip_def
  cb_builder_cooldown_def cb_builder_new_def breaker_new_def shared_new_def admit_def
  breaker_lock_defs abort_def record_outcome_def tripped_def now_ms_def omit_def cb_state_def
  machine_arith U32_MAX_def U64_MAX_def

theorem probe_slots_never_leak_witness:
  "let (b, ts, us) = fold (traced sliding_limiter) [(Take, 0), (Settle 0 False, 0), (Trait_Acquire 1, 0), (Take, 0)]
       (cb_builder_build (cb_builder_half_open (cb_builder_cooldown
          (cb_builder_trip cb_builder_new (Consecutive 1)) 0) 3 1) (sw_new 5 1000 0) 0, [], [])
   in state (cb_shared b) = HalfOpen \<and> half_open_inflight (cb_shared b) = 2 \<and>
      live_probes (generation (cb_shared b)) (us @ ts) = 2 \<and> (\<exists>t. fst (admit b) = Inr t \<and> t_probe t)"
proof -
  let ?c = "cb_builder_cooldown (cb_builder_trip cb_builder_new (Consecutive 1)) 0"
  let ?b = "cb_builder_build (cb_builder_half_open ?c 3 1) (sw_new 5 1000 0) 0"
  let ?xs = "[(Take, 0), (Settle 0 False, 0), (Trait_Acquire 1, 0), (Take, 0)]"
  obtain b ts us where r: "fold (traced sliding_limiter) ?xs (?b, [], []) = (b, ts, us)" by (metis prod_cases3)
  have s: "state (cb_shared b) = HalfOpen" "half_open_inflight (cb_shared b) = 2"
    using r by (auto simp: traced_def breaker_eval is_report_def trait_granted_def cb_acquire_cost_def
        sliding_limiter_def sw_eval)
  have "timely sliding_limiter ?xs (?b, [], [])"
    by (simp add: report_timely_def traced_def is_report_def split: prod.splits)
  with probe_slots_never_leak [OF _ _ refl r] s r show ?thesis by (simp add: Let_def U32_MAX_def)
qed

text \<open>C6: an outcome that arrives late changes nothing.  A permit taken before the
  breaker changed its state belongs to an older generation: settling it or giving it
  back afterwards, after any run in between, leaves the breaker exactly as it is.\<close>

theorem late_outcome_ignored:
  assumes "trials \<le> U32_MAX" and "length ops1 + length ops2 < 2 ^ 64"
    and "cb_run L ops1 (cb_builder_build (cb_builder_half_open c trials required) i clk) = (b1, ts1)"
    and "t \<in> set ts1"
    and "fold (cb_exec L) ops2 (b1, ts1) = (b2, ts2)"
    and "cb_state b2 \<noteq> cb_state b1"
  shows "settle t ok b2 = b2 \<and> abort t b2 = b2"
proof -
  let ?b = "cb_builder_build (cb_builder_half_open c trials required) i clk"
  note b0 = built [OF assms(1), of c required i clk]
  have "unat (generation (cb_shared ?b)) + length ops1 < 2 ^ 64"
    using b0 assms(2) by (metis add_0 add_lessD1 unsigned_0)
  from run_slots [OF _ _ this assms(3) [unfolded cb_run_def]] b0
  have ok: "slots_ok (cb_config b1) (cb_shared b1) ts1" and cfg: "config_ok (cb_config b1)"
    and len: "unat (generation (cb_shared b1)) \<le> length ops1"
    by auto
  have "unat (generation (cb_shared b1)) + length ops2 < 2 ^ 64" using len assms(2) by simp
  from run_slots [OF cfg ok this assms(5)] assms(6)
  have "unat (generation (cb_shared b1)) \<le> unat (generation (cb_shared b2))"
    and "generation (cb_shared b2) \<noteq> generation (cb_shared b1)" by auto
  then have "unat (generation (cb_shared b1)) < unat (generation (cb_shared b2))"
    by (metis le_neq_implies_less word_unat_eq_iff)
  moreover have "unat (t_generation t) \<le> unat (generation (cb_shared b1))"
    using ok assms(4) by (simp add: slots_ok_def)
  ultimately have "generation (cb_shared b2) \<noteq> t_generation t" by auto
  then show ?thesis by (simp add: settle_def abort_def abort_as_def Let_def)
qed

theorem late_outcome_ignored_witness:
  "let c = cb_builder_cooldown (cb_builder_trip cb_builder_new (Consecutive 1)) 0;
       (b1, ts1) = cb_run sliding_limiter [Take, Take]
         (cb_builder_build (cb_builder_half_open c 1 1) (sw_new 5 1000 0) 0);
       (b2, ts2) = fold (cb_exec sliding_limiter) [Settle 0 False] (b1, ts1)
   in cb_state b1 = Closed \<and> cb_state b2 = Open \<and> settle (ts1 ! 1) True b2 = b2"
proof -
  let ?c = "cb_builder_cooldown (cb_builder_trip cb_builder_new (Consecutive 1)) 0"
  let ?b = "cb_builder_build (cb_builder_half_open ?c 1 1) (sw_new 5 1000 0) 0"
  obtain b1 ts1 where r1: "cb_run sliding_limiter [Take, Take] ?b = (b1, ts1)" by fastforce
  obtain b2 ts2 where r2: "fold (cb_exec sliding_limiter) [Settle 0 False] (b1, ts1) = (b2, ts2)"
    by fastforce
  have s: "cb_state b1 = Closed" "length ts1 = 2" "cb_state b2 = Open"
    using r1 r2 by (auto simp: breaker_eval)
  from late_outcome_ignored [OF _ _ r1 _ r2, of "ts1 ! 1" True] s r1 r2 show ?thesis
    by (auto simp: Let_def U32_MAX_def)
qed

subsection \<open>When the breaker opens, sheds and recovers\<close>

text \<open>One call through the breaker, one after the other: it is shed, or it is admitted and
  then settled with its outcome.\<close>

definition one_call :: "bool \<Rightarrow> 'i breaker \<Rightarrow> 'i breaker" where
  "one_call ok b = (case admit b of (Inl _, b') \<Rightarrow> b' | (Inr t, b') \<Rightarrow> settle t ok b')"

lemma closed_call:
  assumes "cb_state b = Closed"
  shows "one_call ok b = b\<lparr>cb_shared := apply_outcome (cb_config b) (cb_shared b) ok (now_ms b) False\<rparr>"
  using assms
  by (simp add: one_call_def admit_def admit_as_def admit_locked_def settle_def cb_state_def now_ms_def Let_def)

lemma now_frame [simp]: "now_ms (b\<lparr>cb_shared := s\<rparr>) = now_ms b" "now_ms (b\<lparr>cb_inner := i\<rparr>) = now_ms b"
  by (simp_all add: now_ms_def)

lemma open_call:
  assumes "cb_state b = Open" "now_ms b < open_until_ms (cb_shared b)"
  shows "one_call ok b = b"
  using assms by (simp add: one_call_def admit_def admit_as_def admit_locked_def cb_state_def)

lemma trailing_failures:
  assumes "\<not> sublist (replicate n False) outs"
  shows "length (takeWhile Not (rev outs)) < n"
proof (rule ccontr)
  let ?k = "length (takeWhile Not (rev outs))"
  assume "\<not> ?k < n"
  have rep: "takeWhile Not xs = replicate (length (takeWhile Not xs)) False" for xs
    by (induction xs) auto
  have "rev outs = takeWhile Not (rev outs) @ dropWhile Not (rev outs)" by simp
  then have "outs = rev (dropWhile Not (rev outs)) @ rev (takeWhile Not (rev outs))"
    by (metis rev_append rev_rev_ident)
  also have "rev (takeWhile Not (rev outs)) = replicate ?k False"
    using rep [of "rev outs"] by (metis rev_replicate)
  also have "replicate ?k False = replicate (?k - n) False @ replicate n False"
    using \<open>\<not> ?k < n\<close> by (simp flip: replicate_add)
  finally have "sublist (replicate n False) outs"
    by (metis append.assoc append.right_neutral sublist_appendI)
  with assms show False by blast
qed

lemma sublist_snoc_failure:
  assumes "\<not> sublist (replicate n False) outs" "0 < n"
  shows "sublist (replicate n False) (outs @ [ok]) \<longleftrightarrow>
    \<not> ok \<and> n \<le> length (takeWhile Not (rev outs)) + 1"
proof
  assume "sublist (replicate n False) (outs @ [ok])"
  with assms have suf: "suffix (replicate n False) (outs @ [ok])" by (simp add: sublist_snoc)
  then have "prefix (replicate n False) (rev (outs @ [ok]))"
    by (metis rev_replicate suffix_to_prefix)
  then obtain zs where zs: "ok # rev outs = replicate n False @ zs" by (auto simp: prefix_def)
  with assms(2) have "\<not> ok" and "rev outs = replicate (n - 1) False @ zs"
    by (cases n; simp)+
  then show "\<not> ok \<and> n \<le> length (takeWhile Not (rev outs)) + 1"
    using takeWhile_append2 [of "replicate (n - 1) False" Not zs] by (simp add: takeWhile_append)
next
  assume "\<not> ok \<and> n \<le> length (takeWhile Not (rev outs)) + 1"
  then have "n \<le> length (takeWhile Not (rev (outs @ [ok])))" by simp
  then show "sublist (replicate n False) (outs @ [ok])"
    using trailing_failures [of n "outs @ [ok]"] by fastforce
qed

lemma consecutive_run:
  assumes "cfg_trip (cb_config b) = Consecutive n" "0 < n" "n \<le> U32_MAX"
    and "cb_state b = Closed" "consecutive (cb_shared b) = 0"
    and "now_ms b < sat_add64 (now_ms b) (millis_u64 (cooldown (cb_config b)))"
  defines "b' outs \<equiv> fold one_call outs b"
  shows "cb_config (b' outs) = cb_config b \<and> now_ms (b' outs) = now_ms b \<and>
    (if sublist (replicate n False) outs
     then cb_state (b' outs) = Open \<and> now_ms b < open_until_ms (cb_shared (b' outs))
     else cb_state (b' outs) = Closed \<and>
          consecutive (cb_shared (b' outs)) = length (takeWhile Not (rev outs)))"
proof (induction outs rule: rev_induct)
  case Nil
  then show ?case using assms by (simp add: b'_def)
next
  case (snoc ok outs)
  have step: "b' (outs @ [ok]) = one_call ok (b' outs)" by (simp add: b'_def)
  show ?case
  proof (cases "sublist (replicate n False) outs")
    case True
    then have "sublist (replicate n False) (outs @ [ok])" by (metis sublist_order.order.trans sublist_append_rightI)
    with True snoc step open_call [of "b' outs" ok] show ?thesis by simp
  next
    case False
    note trail = trailing_failures [OF False] sublist_snoc_failure [OF False assms(2), of ok]
    from False snoc have c: "cb_state (b' outs) = Closed"
      and k: "consecutive (cb_shared (b' outs)) = length (takeWhile Not (rev outs))"
      and f: "cb_config (b' outs) = cb_config b" "now_ms (b' outs) = now_ms b" by auto
    show ?thesis
      using c k f trail assms(1-3,6) step closed_call [OF c, of ok]
      by (auto simp: apply_outcome_def cb_state_def tripped_def record_outcome_def cb_open_def
          transition_def sat_add32_def Let_def)
  qed
qed

text \<open>The consecutive rule trips exactly at its count.  For calls made one after the
  other within one millisecond tick, a breaker built with \<open>Consecutive n\<close> is open
  afterwards if and only if somewhere in the sequence \<open>n\<close> (at least one) failures stand
  next to each other; otherwise it is still closed.\<close>

theorem trips_on_consecutive_failures:
  assumes "n \<le> U32_MAX" and "0 < millis_u64 cool"
  shows "cb_state (fold one_call outs (cb_builder_build
       (cb_builder_cooldown (cb_builder_trip c (Consecutive n)) cool) i clk)) =
     (if sublist (replicate (max n 1) False) outs then Open else Closed)"
proof -
  define b where
    "b = cb_builder_build (cb_builder_cooldown (cb_builder_trip c (Consecutive n)) cool) i clk"
  have "cfg_trip (cb_config b) = Consecutive (max n 1)" "cb_state b = Closed"
    "consecutive (cb_shared b) = 0" "now_ms b = 0" "cooldown (cb_config b) = cool"
    by (simp_all add: b_def cb_builder_build_def cb_builder_cooldown_def cb_builder_trip_def
        breaker_new_def shared_new_def cb_state_def now_ms_def millis_u64_def to_u64_def)
  with consecutive_run [of b "max n 1" outs] assms(1,2) show ?thesis
    unfolding b_def [symmetric]
    by (auto simp: sat_add64_def U32_MAX_def U64_MAX_def)
qed

theorem trips_on_consecutive_failures_witness:
  "cb_state (fold one_call [False, False, True, False, False, False]
     (cb_builder_build (cb_builder_cooldown (cb_builder_trip cb_builder_new (Consecutive 3))
        (from_secs 30)) (sw_new 5 1000 0) 0)) = Open"
proof -
  have "sublist (replicate 3 False) ([False, False, True] @ replicate 3 False @ [])"
    by (rule sublist_appendI)
  then have "sublist (replicate 3 False) [False, False, True, False, False, False]"
    by (simp add: numeral_3_eq_3)
  then show ?thesis
    using trips_on_consecutive_failures [of 3 "from_secs 30" "[False, False, True, False, False, False]"
        cb_builder_new "sw_new 5 1000 0" 0]
    by (simp add: machine_arith from_secs_def U32_MAX_def U64_MAX_def)
qed

lemma now_later:
  assumes "cb_epoch b \<le> cb_clock b" "now_ms b < until" "until \<le> U64_MAX"
  shows "until \<le> now_ms (b\<lparr>cb_clock := cb_clock b + from_millis (until - now_ms b)\<rparr>)"
proof -
  let ?e = "cb_clock b - cb_epoch b"
  have now: "now_ms b = ?e div 1000000"
    using assms(2,3) by (auto simp: now_ms_def machine_arith min_def split: if_splits)
  have "cb_clock b + from_millis (until - now_ms b) - cb_epoch b = ?e + (until - now_ms b) * 1000000"
    using assms(1) by (simp add: from_millis_def)
  then have "now_ms (b\<lparr>cb_clock := cb_clock b + from_millis (until - now_ms b)\<rparr>) =
      min (?e div 1000000 + (until - now_ms b)) U64_MAX"
    by (simp add: now_ms_def machine_arith add.commute)
  then show ?thesis using now assms(2,3) by simp
qed

text \<open>An open breaker sheds without touching what it guards, and its wait is honest.
  While the cooldown runs, every way of asking (a permit, the trait's acquire, reserve,
  peek and available) is refused with the time left and leaves breaker and limiter
  exactly as they were; once exactly that wait has passed the next admission is a probe
  and the breaker is half-open.\<close>

theorem open_sheds_until_cooldown:
  assumes "cb_state b = Open" and "now_ms b < open_until_ms (cb_shared b)"
    and "open_until_ms (cb_shared b) \<le> U64_MAX" and "cb_epoch b \<le> cb_clock b"
  shows "let left = from_millis (open_until_ms (cb_shared b) - now_ms b);
             (r, b') = admit (b\<lparr>cb_clock := cb_clock b + left\<rparr>) in
     cb_try_acquire L b = (Inl (CircuitOpen left), b) \<and>
     cb_acquire_cost L cost b = (Retry left, b) \<and>
     cb_reserve L cost max_wait b = (None, b) \<and>
     cb_peek L cost b = (Retry left, b) \<and>
     cb_available L b = (0, b) \<and>
     cb_state b' = HalfOpen \<and> half_open_inflight (cb_shared b') = 1 \<and>
     (\<exists>t. r = Inr t \<and> t_probe t \<and> still_admits t b' = Inr ())"
proof -
  have "admit_as v b = (Inl (from_millis (open_until_ms (cb_shared b) - now_ms b)), b)" for v
    using assms(1,2) by (simp add: admit_as_def admit_locked_def cb_state_def)
  moreover have "admit_locked (cb_config b) (cb_shared b) n =
      (Inr \<lparr>t_generation = generation (cb_shared b) + 1, t_probe = True\<rparr>,
       (transition (cb_shared b) HalfOpen)
         \<lparr>half_open_inflight := 1, trait_probes := 0, half_open_successes := 0\<rparr>)"
    if "open_until_ms (cb_shared b) \<le> n" for n
    using that assms(1) by (simp add: admit_locked_def cb_state_def transition_def Let_def)
  ultimately show ?thesis
    using now_later [OF assms(4,2,3)] assms(1,2)
    by (simp add: cb_try_acquire_def try_admit_def admit_or_shed_def admit_def cb_acquire_cost_def
        cb_reserve_def cb_peek_def cb_available_def cb_state_def Let_def admit_as_def
        transition_def still_admits_def)
qed

theorem open_sheds_until_cooldown_witness:
  "let b = (breaker_new (sw_new 5 1000 0) \<lparr>cfg_trip = Consecutive 1, cooldown = from_secs 1,
        half_open_trials = 1, half_open_required = 1\<rparr> 0)
           \<lparr>cb_shared := shared_new\<lparr>state := Open, open_until_ms := 1000\<rparr>\<rparr>
   in cb_acquire_cost sliding_limiter 1 b = (Retry (from_millis 1000), b)"
  using open_sheds_until_cooldown
    [of "(breaker_new (sw_new 5 1000 0) \<lparr>cfg_trip = Consecutive 1, cooldown = from_secs 1,
        half_open_trials = 1, half_open_required = 1\<rparr> 0)
           \<lparr>cb_shared := shared_new\<lparr>state := Open, open_until_ms := 1000\<rparr>\<rparr>" sliding_limiter 1 0]
  by (simp add: Let_def breaker_new_def shared_new_def cb_state_def now_ms_def machine_arith
      U64_MAX_def split: prod.splits)

lemma half_open_call:
  assumes "cb_state b = HalfOpen" "half_open_inflight (cb_shared b) < half_open_trials (cb_config b)"
  shows "one_call ok b = b\<lparr>cb_shared :=
     apply_outcome (cb_config b)
       ((cb_shared b)\<lparr>half_open_inflight := half_open_inflight (cb_shared b) + 1\<rparr>) ok (now_ms b) True\<rparr>"
  using assms
  by (simp add: one_call_def admit_def admit_as_def admit_locked_def cb_state_def settle_def Let_def)

lemma half_open_successes_run:
  assumes "cb_state b = HalfOpen" "half_open_inflight (cb_shared b) = 0"
    "half_open_successes (cb_shared b) = 0" "0 < half_open_trials (cb_config b)"
    and "k < half_open_required (cb_config b)"
  defines "b' \<equiv> (one_call True ^^ k) b"
  shows "cb_state b' = HalfOpen \<and> half_open_inflight (cb_shared b') = 0 \<and>
    half_open_successes (cb_shared b') = k \<and> cb_config b' = cb_config b \<and> now_ms b' = now_ms b"
  using assms(5) unfolding b'_def
proof (induction k)
  case (Suc k)
  let ?b = "(one_call True ^^ k) b"
  have IH: "cb_state ?b = HalfOpen" "half_open_inflight (cb_shared ?b) = 0"
    "half_open_successes (cb_shared ?b) = k" "cb_config ?b = cb_config b" "now_ms ?b = now_ms b"
    using Suc by simp_all
  then show ?case
    using half_open_call [of ?b True] Suc.prems assms(4)
    by (simp add: apply_outcome_def cb_state_def Let_def)
qed (use assms in simp_all)

text \<open>How a half-open breaker decides.  With no probe outstanding, exactly
  \<open>required\<close> successful probes in a row close it with every counter cleared, and a
  failure after fewer than that re-opens it for one full cooldown from now.\<close>

theorem half_open_decides:
  assumes "cb_state b = HalfOpen" and "half_open_inflight (cb_shared b) = 0"
    and "half_open_successes (cb_shared b) = 0" and "0 < half_open_trials (cb_config b)"
    and "k < half_open_required (cb_config b)"
  shows "let closed = (one_call True ^^ half_open_required (cb_config b)) b;
             reopened = one_call False ((one_call True ^^ k) b) in
     cb_state closed = Closed \<and> consecutive (cb_shared closed) = 0 \<and>
     outcomes (cb_shared closed) = [] \<and> failure_times (cb_shared closed) = [] \<and>
     half_open_inflight (cb_shared closed) = 0 \<and>
     cb_state reopened = Open \<and> half_open_inflight (cb_shared reopened) = 0 \<and>
     open_until_ms (cb_shared reopened) =
       sat_add64 (now_ms b) (millis_u64 (cooldown (cb_config b)))"
proof -
  let ?r = "half_open_required (cb_config b)"
  let ?l = "(one_call True ^^ (?r - 1)) b" and ?k = "(one_call True ^^ k) b"
  have r: "?r = Suc (?r - 1)" using assms(5) by simp
  have "(one_call True ^^ ?r) b = one_call True ?l" by (subst r) simp
  then show ?thesis
    using half_open_successes_run [OF assms(1-4), of "?r - 1"] half_open_successes_run [OF assms]
      half_open_call [of ?l True] half_open_call [of ?k False] r assms(4,5)
    by (simp add: apply_outcome_def cb_state_def cb_open_def transition_def reset_counters_def Let_def)
qed

theorem half_open_decides_witness:
  "let b = (breaker_new (sw_new 5 1000 0) \<lparr>cfg_trip = Consecutive 1, cooldown = from_secs 1,
        half_open_trials = 2, half_open_required = 2\<rparr> 0)\<lparr>cb_shared := shared_new\<lparr>state := HalfOpen\<rparr>\<rparr>
   in cb_state ((one_call True ^^ 2) b) = Closed \<and>
      cb_state (one_call False ((one_call True ^^ 1) b)) = Open"
  using half_open_decides
    [of "(breaker_new (sw_new 5 1000 0) \<lparr>cfg_trip = Consecutive 1, cooldown = from_secs 1,
        half_open_trials = 2, half_open_required = 2\<rparr> 0)
           \<lparr>cb_shared := shared_new\<lparr>state := HalfOpen\<rparr>\<rparr>" 1]
  by (simp add: Let_def breaker_new_def shared_new_def cb_state_def)

subsection \<open>The breaker keeps the contract of the limiter it guards\<close>

lemma inner_frame:
  "admit_as v b = (r, b') \<Longrightarrow> cb_inner b' = cb_inner b"
  "cb_inner (abort_as v t b) = cb_inner b"
  "cb_inner (release_trait_probe b) = cb_inner b"
  by (auto simp: breaker_lock_defs split: sum.splits prod.splits)

context limiter_obj
begin

text \<open>The books of a guarded limiter are those of the limiter inside.\<close>

lemma breaker_contract:
  "limiter_obj (breaker_limiter L) (\<lambda>b. spent (cb_inner b)) (\<lambda>b. ready (cb_inner b))
     (\<lambda>b. good (cb_inner b))"
proof (unfold_locales, goal_cases)
  case (1 b c d b')
  then show ?case using obj_peek [of "cb_inner b" c]
    by (auto simp: breaker_limiter_def cb_peek_def Let_def split: if_splits prod.splits)
next
  case (2 b c d b')
  then show ?case using obj_acquire_refused [of "cb_inner b" c]
    by (auto simp: breaker_limiter_def cb_acquire_cost_def inner_frame is_acquired_iff
        split: sum.splits prod.splits if_splits)
next
  case (3 b c b')
  then show ?case using obj_acquire [of "cb_inner b" c]
    by (auto simp: breaker_limiter_def cb_acquire_cost_def inner_frame is_acquired_iff
        split: sum.splits prod.splits if_splits)
next
  case (4 b c m b')
  then show ?case using obj_reserve_refused [of "cb_inner b" c m]
    by (auto simp: breaker_limiter_def cb_reserve_def inner_frame
        split: sum.splits prod.splits if_splits)
next
  case (5 b c m t b')
  then show ?case using obj_reserve [of "cb_inner b" c m]
    by (auto simp: breaker_limiter_def cb_reserve_def inner_frame
        split: sum.splits prod.splits if_splits)
next
  case (6 b c)
  then show ?case using obj_refund [of "cb_inner b" c]
    by (auto simp: breaker_limiter_def cb_refund_def inner_frame)
qed

end

interpretation guarded: limiter_obj "breaker_limiter sliding_limiter" "\<lambda>b. sw_spent (cb_inner b)"
  "\<lambda>b. sw_ready (cb_inner b)" "\<lambda>b. sw_good (cb_inner b)"
  by (rule sliding.breaker_contract)

end
