(* ===== verification/Breaker_Wait.thy ===== *)
theory Breaker_Wait
  imports Circuit_Breaker
begin

text \<open>
  Waiting through the circuit breaker (\<open>src/circuit.rs\<close>): the waiting acquire with the guard of
  its probe slot, the permits it returns, and calls.  The world is the breaker and the rest of
  the program, \<open>'x\<close>; other tasks use the breaker during every await.  Shown here: however a wait
  or a call ends, no probe slot leaks, the unit of the wrapped limiter is kept exactly when
  the request went out, and no permit is handed out by an open breaker.
\<close>

record slot_guard =
  sg_ticket :: "ticket option"

definition slot_disarm :: "slot_guard \<Rightarrow> ticket" where
  "slot_disarm g = (case sg_ticket g of Some t \<Rightarrow> t | None \<Rightarrow> \<lparr>t_generation = - 1, t_probe = False\<rparr>)"

definition slot_drop :: "slot_guard \<Rightarrow> 'i breaker \<Rightarrow> 'i breaker" where
  "slot_drop g b = (case sg_ticket g of Some t \<Rightarrow> abort t b | None \<Rightarrow> b)"

text \<open>The result is \<open>None\<close> for a future dropped at one of its awaits.\<close>

definition admit_waiting ::
  "'i limiter \<Rightarrow> ('i breaker \<times> 'x) runtime \<Rightarrow> duration option \<Rightarrow> 'i breaker \<times> 'x \<Rightarrow>
   ((throttle_error + ticket) option \<times> 'i breaker \<times> 'x) option" where
  "admit_waiting L rt timeout w =
     (case admit_or_shed (fst w) of
        (Inl e, b1) \<Rightarrow> Some (Some (Inl e), b1, snd w)
      | (Inr t, b1) \<Rightarrow>
          (let slot = \<lparr>sg_ticket = Some t\<rparr> in
           case wait_for rt
                  (\<lambda>budget (b, x). case cb_wait_step L budget b of (s, b') \<Rightarrow> (s, b', x))
                  (\<lambda>(b, x). (b\<lparr>cb_inner := l_refund L 1 (cb_inner b)\<rparr>, x))
                  (\<lambda>(b, x). l_paused_for L (cb_inner b)) timeout (b1, snd w) of
             None \<Rightarrow> None
           | Some (r, b2, x) \<Rightarrow>
               Some (case r of
                       Wait_Ok \<Rightarrow>
                         (case cb_wait_done L (slot_disarm slot) b2 of (res, b3) \<Rightarrow> (Some res, b3, x))
                     | Wait_Err Refusal_Never \<Rightarrow>
                         (Some (Inl (CostExceedsCapacity 1 (l_capacity L (cb_inner b2)))), slot_drop slot b2, x)
                     | Wait_Err Refusal_TimedOut \<Rightarrow> (Some (Inl DeadlineExceeded), slot_drop slot b2, x)
                     | Wait_Dropped \<Rightarrow> (None, slot_drop slot b2, x))))"

definition acquire_with ::
  "'i limiter \<Rightarrow> ('i breaker \<times> 'x) runtime \<Rightarrow> duration option \<Rightarrow> 'i breaker \<times> 'x \<Rightarrow>
   ((throttle_error + permit) option \<times> 'i breaker \<times> 'x) option" where
  "acquire_with L rt timeout w =
     (case admit_waiting L rt timeout w of
        None \<Rightarrow> None
      | Some (r, w') \<Rightarrow> Some (map_option (map_sum id permit_new) r, w'))"

definition cb_acquire ::
  "'i limiter \<Rightarrow> ('i breaker \<times> 'x) runtime \<Rightarrow> 'i breaker \<times> 'x \<Rightarrow>
   ((throttle_error + permit) option \<times> 'i breaker \<times> 'x) option" where
  "cb_acquire L rt w = acquire_with L rt None w"

definition cb_acquire_timeout ::
  "'i limiter \<Rightarrow> ('i breaker \<times> 'x) runtime \<Rightarrow> duration \<Rightarrow> 'i breaker \<times> 'x \<Rightarrow>
   ((throttle_error + permit) option \<times> 'i breaker \<times> 'x) option" where
  "cb_acquire_timeout L rt timeout w = acquire_with L rt (Some timeout) w"

text \<open>\<open>acquire_owned\<close> and \<open>acquire_owned_timeout\<close>: an \<open>OwnedPermit\<close> holds the same ticket.\<close>

definition cb_acquire_owned ::
  "'i limiter \<Rightarrow> ('i breaker \<times> 'x) runtime \<Rightarrow> 'i breaker \<times> 'x \<Rightarrow>
   ((throttle_error + permit) option \<times> 'i breaker \<times> 'x) option" where
  "cb_acquire_owned L rt w = acquire_with L rt None w"

definition cb_acquire_owned_timeout ::
  "'i limiter \<Rightarrow> ('i breaker \<times> 'x) runtime \<Rightarrow> duration \<Rightarrow> 'i breaker \<times> 'x \<Rightarrow>
   ((throttle_error + permit) option \<times> 'i breaker \<times> 'x) option" where
  "cb_acquire_owned_timeout L rt timeout w = acquire_with L rt (Some timeout) w"

text \<open>A call: \<open>operation\<close> runs the caller's future to its result, or to where it is dropped.\<close>

definition call_after ::
  "('i breaker \<times> 'x \<Rightarrow> ((throttle_error + permit) option \<times> 'i breaker \<times> 'x) option) \<Rightarrow>
   ('i breaker \<times> 'x \<Rightarrow> (('e + 'r) option \<times> 'i breaker \<times> 'x) option) \<Rightarrow> 'i breaker \<times> 'x \<Rightarrow>
   (('e call_error + 'r) option \<times> 'i breaker \<times> 'x) option" where
  "call_after acq operation w =
     (case acq w of
        None \<Rightarrow> None
      | Some (None, w1) \<Rightarrow> Some (None, w1)
      | Some (Some (Inl e), w1) \<Rightarrow> Some (Some (Inl (Rejected e)), w1)
      | Some (Some (Inr p), w1) \<Rightarrow>
          (case operation w1 of
             None \<Rightarrow> None
           | Some (None, b2, x) \<Rightarrow> Some (None, permit_drop p b2, x)
           | Some (Some res, b2, x) \<Rightarrow> (case settle_call p res b2 of (r, b3) \<Rightarrow> Some (Some r, b3, x))))"

definition cb_call ::
  "'i limiter \<Rightarrow> ('i breaker \<times> 'x) runtime \<Rightarrow> ('i breaker \<times> 'x \<Rightarrow> (('e + 'r) option \<times> 'i breaker \<times> 'x) option) \<Rightarrow>
   'i breaker \<times> 'x \<Rightarrow> (('e call_error + 'r) option \<times> 'i breaker \<times> 'x) option" where
  "cb_call L rt operation w = call_after (cb_acquire L rt) operation w"

definition cb_call_timeout ::
  "'i limiter \<Rightarrow> ('i breaker \<times> 'x) runtime \<Rightarrow> duration \<Rightarrow>
   ('i breaker \<times> 'x \<Rightarrow> (('e + 'r) option \<times> 'i breaker \<times> 'x) option) \<Rightarrow>
   'i breaker \<times> 'x \<Rightarrow> (('e call_error + 'r) option \<times> 'i breaker \<times> 'x) option" where
  "cb_call_timeout L rt timeout operation w = call_after (cb_acquire_timeout L rt timeout) operation w"

subsection \<open>What other tasks do\<close>

text \<open>The tickets of other tasks are the second part of the world.  A step of another task is an
  operation on the breaker or on the wrapped limiter; the generation counter has not come round.\<close>

inductive others_step :: "'i limiter \<Rightarrow> 'i breaker \<times> ticket list \<Rightarrow> 'i breaker \<times> ticket list \<Rightarrow> bool" for L where
  on_breaker: "generation (cb_shared b) \<noteq> - 1 \<Longrightarrow> cb_exec L x (b, ts) = (b', ts') \<Longrightarrow> others_step L (b, ts) (b', ts')"
| on_inner: "others_step L (b, ts) (b\<lparr>cb_inner := i\<rparr>, ts)"

definition breaker_inv :: "config \<Rightarrow> 'i breaker \<Rightarrow> ticket list \<Rightarrow> bool" where
  "breaker_inv cfg b ts \<longleftrightarrow> config_ok cfg \<and> cb_config b = cfg \<and> slots_ok cfg (cb_shared b) ts \<and>
     (\<forall>t\<in>set ts. t_generation t = generation (cb_shared b) \<longrightarrow> cb_state b \<noteq> Open)"

lemma inv_inner [simp]: "breaker_inv cfg (b\<lparr>cb_inner := i\<rparr>) ts \<longleftrightarrow> breaker_inv cfg b ts"
  by (simp add: breaker_inv_def cb_state_def)

lemma admit_not_open: "admit_locked cfg s now = (Inr t, s') \<Longrightarrow> state s' \<noteq> Open"
  by (auto simp: admit_locked_def transition_def Let_def split: breaker_state.splits if_splits)

lemma exec_tickets:
  assumes "cb_exec L x (b, ts) = (b', ts')" and "t \<in> set ts'"
  shows "t \<in> set ts \<or> cb_state b' \<noteq> Open"
  using assms set_omit [of _ ts]
  by (cases x) (auto simp: admit_def admit_as_def cb_state_def split: prod.splits sum.splits if_splits
      dest: admit_not_open)

lemma exec_inv:
  assumes "breaker_inv cfg b ts" and "generation (cb_shared b) \<noteq> - 1" and x: "cb_exec L x (b, ts) = (b', ts')"
  shows "breaker_inv cfg b' ts'"
proof -
  have inv: "config_ok (cb_config b)" "slots_ok (cb_config b) (cb_shared b) ts" "cb_config b = cfg"
    using assms(1) by (auto simp: breaker_inv_def)
  note ok = slots_exec [OF inv(1,2) assms(2) x]
  note ev = evolves_unat [OF evolves_exec [OF x] assms(2)]
  have "cb_state b' \<noteq> Open" if t: "t \<in> set ts'" "t_generation t = generation (cb_shared b')" for t
  proof (cases "t \<in> set ts")
    case True
    then have "unat (t_generation t) \<le> unat (generation (cb_shared b))" using inv(2) by (simp add: slots_ok_def)
    with ev t(2) have "generation (cb_shared b') = generation (cb_shared b)" "cb_state b' = cb_state b"
      by (auto simp: cb_state_def split: if_splits)
    with assms(1) True t(2) show ?thesis by (auto simp: breaker_inv_def)
  qed (use exec_tickets [OF x t(1)] in blast)
  with ok inv show ?thesis by (auto simp: breaker_inv_def)
qed

text \<open>Tickets the other tasks cannot reach stay out.\<close>

lemma exec_frame:
  assumes "cb_exec L x (b, ts) = (b', ts')"
  shows "\<exists>x'. cb_exec L x' (b, ts @ mine) = (b', ts' @ mine)"
proof -
  have "cb_exec L (Tick 0) (b, ts @ mine) = (b, ts @ mine)" by simp
  moreover have "omit n (ts @ mine) = omit n ts @ mine" if "n < length ts" for n
    using that by (simp add: omit_def)
  ultimately show ?thesis
    using assms by (cases x) (auto simp: nth_append split: if_splits sum.splits prod.splits
      intro: exI [of _ x] exI [of _ "Tick 0"])
qed

lemma others_inv:
  "(others_step L)\<^sup>*\<^sup>* (b, ts) (b', ts') \<Longrightarrow> breaker_inv cfg b (ts @ mine) \<Longrightarrow> breaker_inv cfg b' (ts' @ mine)"
proof (induction "(b', ts')" arbitrary: b' ts' rule: rtranclp_induct)
  case (step y)
  obtain b1 ts1 where y: "y = (b1, ts1)" by fastforce
  have inv: "breaker_inv cfg b1 (ts1 @ mine)" using step y by simp
  from step.hyps(2) [unfolded y] show ?case
  proof cases
    case (on_breaker x)
    then show ?thesis using exec_frame [of L x b1 ts1 b' ts' mine] exec_inv [OF inv] by blast
  next
    case (on_inner i)
    with inv show ?thesis by simp
  qed
qed simp

lemma inv_move: "breaker_inv cfg b (t # ts) \<longleftrightarrow> breaker_inv cfg b (ts @ [t])"
  by (auto simp: breaker_inv_def slots_ok_def live_probes_def)

lemma inv_abort:
  assumes "breaker_inv cfg b (ts @ [t])"
  shows "breaker_inv cfg (abort t b) ts"
proof -
  have "slots_ok (cb_config b) (cb_shared b) (ts @ [t])" using assms by (simp add: breaker_inv_def)
  from slots_abort [OF this, of "length ts"] have "slots_ok (cb_config b) (cb_shared (abort t b)) ts"
    by (simp add: omit_def abort_def)
  then show ?thesis
    using assms by (auto simp: breaker_inv_def abort_def) (auto simp: abort_as_def cb_state_def Let_def split: if_splits)
qed

lemma abort_inner [simp]: "cb_inner (abort t b) = cb_inner b"
  by (simp add: abort_def abort_as_def Let_def)

lemma inv_admit:
  assumes "breaker_inv cfg b ts" and "generation (cb_shared b) \<noteq> - 1" and "admit_or_shed b = (r, b')"
  shows "breaker_inv cfg b' (ts @ (case r of Inl _ \<Rightarrow> [] | Inr t \<Rightarrow> [t]))" and "cb_inner b' = cb_inner b"
proof -
  have "cb_exec undefined Take (b, ts) = (b', (case r of Inl _ \<Rightarrow> [] | Inr t \<Rightarrow> [t]) @ ts)"
    using assms(3) by (auto simp: admit_or_shed_def split: prod.splits sum.splits)
  from exec_inv [OF assms(1,2) this] show "breaker_inv cfg b' (ts @ (case r of Inl _ \<Rightarrow> [] | Inr t \<Rightarrow> [t]))"
    by (auto simp: inv_move split: sum.splits)
  show "cb_inner b' = cb_inner b"
    using assms(3) by (auto simp: admit_or_shed_def admit_def admit_as_def split: prod.splits sum.splits)
qed

text \<open>An await: other tasks use the breaker, and \<open>n\<close> counts the units of the wrapped limiter that are
  theirs, so what they take and return moves \<open>n\<close> along.\<close>

definition await_ok ::
  "'i limiter \<Rightarrow> ('i \<Rightarrow> nat) \<Rightarrow> ('i \<Rightarrow> bool) \<Rightarrow> ('i \<Rightarrow> bool) \<Rightarrow>
   'i breaker \<times> ticket list \<times> nat \<Rightarrow> 'i breaker \<times> ticket list \<times> nat \<Rightarrow> bool" where
  "await_ok L spent ready good w w' \<longleftrightarrow>
     (case (w, w') of ((b, ts, n), (b', ts', n')) \<Rightarrow>
        (others_step L)\<^sup>*\<^sup>* (b, ts) (b', ts') \<and>
        (good (cb_inner b) \<longrightarrow> good (cb_inner b') \<and>
           spent (cb_inner b') + n = spent (cb_inner b) + n' \<and> (ready (cb_inner b) \<longrightarrow> ready (cb_inner b'))))"

definition awaits_ok ::
  "'i limiter \<Rightarrow> ('i \<Rightarrow> nat) \<Rightarrow> ('i \<Rightarrow> bool) \<Rightarrow> ('i \<Rightarrow> bool) \<Rightarrow> ('i breaker \<times> ticket list \<times> nat) runtime \<Rightarrow> bool" where
  "awaits_ok L spent ready good rt \<longleftrightarrow>
     (\<forall>d w. await_ok L spent ready good w (snd (rt_sleep rt d w)) \<and> await_ok L spent ready good w (snd (rt_race rt d w))) \<and>
     (\<forall>w. await_ok L spent ready good w (snd (rt_yield rt w)))"

text \<open>The books while \<open>mine\<close> are this task's tickets and \<open>k\<close> its units.\<close>

definition books_at ::
  "('i \<Rightarrow> nat) \<Rightarrow> ('i \<Rightarrow> bool) \<Rightarrow> ('i \<Rightarrow> bool) \<Rightarrow> config \<Rightarrow> ticket list \<Rightarrow> nat \<Rightarrow> 'i breaker \<times> ticket list \<times> nat \<Rightarrow> bool" where
  "books_at spent ready good cfg mine k w \<longleftrightarrow>
     (case w of (b, ts, n) \<Rightarrow> breaker_inv cfg b (ts @ mine) \<and> good (cb_inner b) \<and>
        spent (cb_inner b) = n + k \<and> (0 < k \<longrightarrow> ready (cb_inner b)))"

lemma books_await:
  "await_ok L spent ready good w w' \<Longrightarrow> books_at spent ready good cfg mine k w \<Longrightarrow> books_at spent ready good cfg mine k w'"
  using others_inv [of L _ _ _ _ cfg mine] by (fastforce simp: await_ok_def books_at_def split: prod.splits)

context limiter_obj
begin

abbreviation breaker_books where
  "breaker_books \<equiv> books_at spent ready good"

lemma wait_step_books:
  assumes "breaker_books cfg mine 0 (b, ts, n)" and "cb_wait_step L budget b = (s, b')"
  shows "breaker_books cfg mine (case s of Granted _ \<Rightarrow> 1 | _ \<Rightarrow> 0) (b', ts, n) \<and> (\<forall>d. s \<noteq> Holding d)"
proof -
  have good: "good (cb_inner b)" using assms(1) by (simp add: books_at_def)
  obtain r i where r: "l_reserve L 1 budget (cb_inner b) = (r, i)" by fastforce
  show ?thesis
  proof (cases r)
    case (Some d)
    with obj_reserve [OF good r [unfolded Some]] assms r show ?thesis by (auto simp: cb_wait_step_def books_at_def)
  next
    case None
    obtain d i' where p: "l_peek L 1 i = (d, i')" by fastforce
    from obj_reserve_refused [OF good r [unfolded None]] obj_peek [OF _ p]
    have "good i' \<and> spent i' = spent (cb_inner b)" by auto
    with assms r p None show ?thesis by (cases d) (auto simp: cb_wait_step_def books_at_def)
  qed
qed

lemma refund_books:
  assumes "breaker_books cfg mine 1 (b, ts, n)"
  shows "breaker_books cfg mine 0 (b\<lparr>cb_inner := l_refund L 1 (cb_inner b)\<rparr>, ts, n)"
  using assms obj_refund [of "cb_inner b" 1] by (auto simp: books_at_def)

lemma breaker_waiter:
  assumes "awaits_ok L spent ready good rt"
  shows "waiting rt
    (\<lambda>_ budget w. case (case w of (b, x) \<Rightarrow> case cb_wait_step L budget b of (s, b') \<Rightarrow> (s, b', x)) of (s, w') \<Rightarrow> (s, (), w'))
    (\<lambda>_ w. ((), case w of (b, x) \<Rightarrow> (b\<lparr>cb_inner := l_refund L 1 (cb_inner b)\<rparr>, x)))
    (\<lambda>_. breaker_books cfg mine 1) (\<lambda>_ _. False) (\<lambda>_. breaker_books cfg mine 0) (\<lambda>_. breaker_books cfg mine 0)"
proof -
  have keeps: "await_ok L spent ready good w w' \<Longrightarrow>
     (breaker_books cfg mine 1 w \<longrightarrow> breaker_books cfg mine 1 w') \<and> (False \<longrightarrow> False) \<and>
     (breaker_books cfg mine 0 w \<longrightarrow> breaker_books cfg mine 0 w')" for w w'
    using books_await by blast
  show ?thesis
  proof (unfold_locales, goal_cases)
    case (1 t w budget s t' w')
    obtain b ts n where w: "w = (b, ts, n)" by (metis prod_cases3)
    obtain b' where b': "cb_wait_step L budget b = (s, b')" "w' = (b', ts, n)"
      using 1(2) w by (auto split: prod.splits)
    have "breaker_books cfg mine 0 (b, ts, n)" using 1(1) w by simp
    from wait_step_books [OF this b'(1)] show ?case unfolding b'(2) by (cases s) auto
  next
    case (2 t w t' w')
    then show ?case using refund_books [of cfg mine] by (auto split: prod.splits)
  next
    case (3 d w alive w' t)
    then show ?case using assms keeps unfolding awaits_ok_def by (metis snd_conv)
  next
    case (4 d w alive w' t)
    then show ?case using assms keeps unfolding awaits_ok_def by (metis snd_conv)
  next
    case (5 w alive w' t)
    then show ?case using assms keeps unfolding awaits_ok_def by (metis snd_conv)
  qed
qed

lemma wait_done_books:
  assumes "breaker_books cfg [t] 1 (b, ts, n)" and "cb_wait_done L t b = (r, b')"
  shows "case r of Inr t' \<Rightarrow> t' = t \<and> breaker_books cfg [t] 1 (b', ts, n) \<and> cb_state b' \<noteq> Open
    | Inl _ \<Rightarrow> breaker_books cfg [] 0 (b', ts, n)"
proof (cases "still_admits t b")
  case (Inl d)
  then have r: "r = Inl (CircuitOpen d)" "b' = abort t (b\<lparr>cb_inner := l_refund L 1 (cb_inner b)\<rparr>)"
    using assms(2) by (auto simp: cb_wait_done_def)
  from refund_books [OF assms(1)] show ?thesis
    unfolding r using inv_abort [of cfg "b\<lparr>cb_inner := l_refund L 1 (cb_inner b)\<rparr>" ts t] by (simp add: books_at_def)
next
  case (Inr u)
  then have "generation (cb_shared b) = t_generation t \<or> cb_state b = Closed"
    by (auto simp: still_admits_def cb_state_def Let_def split: if_splits)
  then have "cb_state b \<noteq> Open" using assms(1) by (auto simp: books_at_def breaker_inv_def)
  moreover have "cb_wait_done L t b = (Inr t, b)" unfolding cb_wait_done_def Inr by simp
  then have "r = Inr t" "b' = b" using assms(2) by simp_all
  ultimately show ?thesis using assms(1) by simp
qed

lemma drop_books:
  assumes "breaker_books cfg [t] 0 (b, ts, n)"
  shows "breaker_books cfg [] 0 (slot_drop \<lparr>sg_ticket = Some t\<rparr> b, ts, n)"
  using assms inv_abort [of cfg b ts t] by (simp add: books_at_def slot_drop_def)

lemma admit_waiting_books:
  assumes "awaits_ok L spent ready good rt" and "breaker_books cfg [] 0 (b, ts, n)" and "generation (cb_shared b) \<noteq> - 1"
    and run: "admit_waiting L rt timeout (b, ts, n) = Some (r, w')"
  shows "case r of Some (Inr t) \<Rightarrow> breaker_books cfg [t] 1 w' \<and> cb_state (fst w') \<noteq> Open | _ \<Rightarrow> breaker_books cfg [] 0 w'"
proof -
  obtain r0 b1 where a: "admit_or_shed b = (r0, b1)" by fastforce
  have inv: "breaker_inv cfg b ts" "good (cb_inner b)" "spent (cb_inner b) = n" using assms(2) by (auto simp: books_at_def)
  note b1 = inv_admit [OF inv(1) assms(3) a]
  show ?thesis
  proof (cases r0)
    case (Inl e)
    then show ?thesis using run a b1 inv by (auto simp: admit_waiting_def books_at_def)
  next
    case (Inr t)
    let ?stp = "\<lambda>_ budget w. case (case w of (b, x) \<Rightarrow> case cb_wait_step L budget b of (s, b') \<Rightarrow> (s, b', x)) of (s, w') \<Rightarrow> (s, (), w')"
    let ?gb = "\<lambda>_ w. ((), case w of (b, x) \<Rightarrow> (b\<lparr>cb_inner := l_refund L 1 (cb_inner b)\<rparr>, x))"
    obtain e b2 ts2 n2 where q: "wait_with rt () ?stp ?gb (\<lambda>(b, x). l_paused_for L (cb_inner b)) timeout (b1, ts, n) = Some (e, (), b2, ts2, n2)"
      and r: "(case e of
         Wait_Ok \<Rightarrow> (case cb_wait_done L (slot_disarm \<lparr>sg_ticket = Some t\<rparr>) b2 of (res, b3) \<Rightarrow> (Some res, b3, ts2, n2))
       | Wait_Err Refusal_Never \<Rightarrow> (Some (Inl (CostExceedsCapacity 1 (l_capacity L (cb_inner b2)))), slot_drop \<lparr>sg_ticket = Some t\<rparr> b2, ts2, n2)
       | Wait_Err Refusal_TimedOut \<Rightarrow> (Some (Inl DeadlineExceeded), slot_drop \<lparr>sg_ticket = Some t\<rparr> b2, ts2, n2)
       | Wait_Dropped \<Rightarrow> (None, slot_drop \<lparr>sg_ticket = Some t\<rparr> b2, ts2, n2)) = (r, w')"
      using run a Inr by (auto simp: admit_waiting_def wait_for_def Let_def split: option.splits)
    have "breaker_books cfg [t] 0 (b1, ts, n)" using b1 inv Inr by (simp add: books_at_def)
    from waiting.wait_all_or_nothing [OF breaker_waiter [OF assms(1)] this q]
    have end_books: "if e = Wait_Ok then breaker_books cfg [t] 1 (b2, ts2, n2) else breaker_books cfg [t] 0 (b2, ts2, n2)"
      by (cases "e = Wait_Ok") simp_all
    show ?thesis
    proof (cases "e = Wait_Ok")
      case True
      obtain res b3 where d: "cb_wait_done L t b2 = (res, b3)" by fastforce
      show ?thesis using wait_done_books [OF _ d] end_books True r d by (auto simp: slot_disarm_def split: sum.splits)
    next
      case False
      then show ?thesis using drop_books end_books r by (auto split: wait_end.splits refusal.splits)
    qed
  qed
qed

text \<open>The operation of a call is an await that ends with its result, or is dropped.\<close>

lemma settle_books:
  assumes "breaker_books cfg [t] k (b, ts, n)" and "generation (cb_shared b) \<noteq> - 1"
  shows "breaker_books cfg [] k (settle t ok b, ts, n)"
proof -
  have "cb_exec L (Settle (length ts) ok) (b, ts @ [t]) = (settle t ok b, ts)" by (simp add: omit_def)
  from exec_inv [OF _ assms(2) this, of cfg] assms(1) show ?thesis
    by (auto simp: books_at_def settle_def Let_def split: if_splits)
qed

lemma call_books:
  fixes operation :: "'s breaker \<times> ticket list \<times> nat \<Rightarrow> (('e + 'r) option \<times> 's breaker \<times> ticket list \<times> nat) option"
  assumes awaits: "awaits_ok L spent ready good rt"
    and oper: "\<forall>w res w'. operation w = Some (res, w') \<longrightarrow>
      await_ok L spent ready good w w' \<and> generation (cb_shared (fst w')) \<noteq> - 1"
    and start: "breaker_books cfg [] 0 (b, ts, n)" "generation (cb_shared b) \<noteq> - 1"
    and run: "call_after (acquire_with L rt timeout) operation (b, ts, n) = Some (r, w')"
  defines "started \<equiv> call_after (acquire_with L rt timeout) (\<lambda>_. None :: (('e + 'r) option \<times> _) option) (b, ts, n) = None"
  shows "breaker_books cfg [] (if started then 1 else 0) w' \<and>
    (case r of None \<Rightarrow> True | Some (Inl (Rejected _)) \<Rightarrow> \<not> started | Some _ \<Rightarrow> started)"
proof -
  obtain a w1 where a: "admit_waiting L rt timeout (b, ts, n) = Some (a, w1)"
    using run by (auto simp: call_after_def acquire_with_def split: option.splits)
  note books = admit_waiting_books [OF awaits start a]
  show ?thesis
  proof (cases "\<exists>t. a = Some (Inr t)")
    case False
    then consider "a = None" | e where "a = Some (Inl e)" by (cases a) (auto elim: sum.exhaust_sel, metis sum.exhaust)
    then show ?thesis
      using run a books by cases (auto simp: call_after_def acquire_with_def started_def)
  next
    case True
    then obtain t where t: "a = Some (Inr t)" by blast
    obtain res b2 ts2 n2 where o: "operation w1 = Some (res, b2, ts2, n2)"
      using run a t by (auto simp: call_after_def acquire_with_def split: option.splits)
    have "breaker_books cfg [t] 1 (b2, ts2, n2)" "generation (cb_shared b2) \<noteq> - 1"
      using books t oper o books_await [of L spent ready good w1 _ cfg "[t]" 1] by fastforce+
    note settled = settle_books [OF this]
    have started using a t by (simp add: started_def call_after_def acquire_with_def)
    then show ?thesis
      using run a t o settled
      by (auto simp: call_after_def acquire_with_def permit_new_def permit_drop_def settle_call_def permit_success_def
          permit_failure_def split: option.splits sum.splits)
  qed
qed

end

subsection \<open>Properties\<close>

text \<open>Where a run of a built breaker leaves the books.\<close>

lemma fold_inv:
  assumes "breaker_inv cfg b ts" and "unat (generation (cb_shared b)) + length ops < 2 ^ 64 - 1"
    and "fold (cb_exec L) ops (b, ts) = (b', ts')"
  shows "breaker_inv cfg b' ts' \<and> unat (generation (cb_shared b')) < 2 ^ 64 - 1"
  using assms
proof (induction ops arbitrary: b ts)
  case (Cons x ops)
  obtain b1 ts1 where x: "cb_exec L x (b, ts) = (b1, ts1)" using cb_exec_pair by blast
  have nowrap: "generation (cb_shared b) \<noteq> - 1" using Cons.prems(2) by (intro below_wrap) simp
  have "unat (generation (cb_shared b1)) + length ops < 2 ^ 64 - 1"
    using evolves_unat [OF evolves_exec [OF x] nowrap] Cons.prems(2) by (auto split: if_splits)
  with Cons.IH [OF exec_inv [OF Cons.prems(1) nowrap x]] Cons.prems(3) x show ?case by simp
qed auto

lemma run_inv:
  assumes "trials \<le> U32_MAX" and "length ops < 2 ^ 64 - 1"
    and "cb_run L ops (cb_builder_build (cb_builder_half_open c trials required) i clk) = (b, ts)"
  shows "breaker_inv (cb_config b) b ts" and "generation (cb_shared b) \<noteq> - 1"
proof -
  let ?b = "cb_builder_build (cb_builder_half_open c trials required) i clk"
  have "breaker_inv (cb_config ?b) ?b []" and "generation (cb_shared ?b) = 0"
    using built [OF assms(1), of c required i clk] by (simp_all add: breaker_inv_def)
  with fold_inv [OF _ _ assms(3) [unfolded cb_run_def], of "cb_config ?b"] assms(2)
  have "breaker_inv (cb_config ?b) b ts" and "unat (generation (cb_shared b)) < 2 ^ 64 - 1" by simp_all
  then show "breaker_inv (cb_config b) b ts" and "generation (cb_shared b) \<noteq> - 1"
    using below_wrap [of "generation (cb_shared b)"] by (simp_all add: breaker_inv_def)
qed

text \<open>C8: A waiting acquire through the breaker accounts for everything it takes.  After any run of a built
  breaker, while other tasks use the breaker and the wrapped limiter at every await: when the
  wait ends with a permit, its probe slot (if it is one) and one unit of the wrapped limiter are
  its own, and the breaker is not open, however long the wait was; when it is shed, fails,
  times out or its future is dropped at any await, no slot and no unit stays behind.\<close>

theorem breaker_wait_accounts:
  assumes "limiter_obj L spent ready good" and "awaits_ok L spent ready good rt"
    and "trials \<le> U32_MAX" and "length ops < 2 ^ 64 - 1"
    and "cb_run L ops (cb_builder_build (cb_builder_half_open c trials required) i clk) = (b, ts)"
    and "good (cb_inner b)" and "spent (cb_inner b) = n"
    and "admit_waiting L rt timeout (b, ts, n) = Some (r, b', ts', n')"
  shows "let s = cb_shared b'; mine = (case r of Some (Inr t) \<Rightarrow> [t] | _ \<Rightarrow> []) in
    half_open_inflight s = (if state s = HalfOpen then trait_probes s + live_probes (generation s) (ts' @ mine) else 0) \<and>
    spent (cb_inner b') = n' + length mine \<and> (mine \<noteq> [] \<longrightarrow> state s \<noteq> Open)"
proof -
  note inv = run_inv [OF assms(3-5)]
  have "books_at spent ready good (cb_config b) [] 0 (b, ts, n)" using inv(1) assms(6,7) by (simp add: books_at_def)
  from limiter_obj.admit_waiting_books [OF assms(1,2) this inv(2) assms(8)]
  have "books_at spent ready good (cb_config b) (case r of Some (Inr t) \<Rightarrow> [t] | _ \<Rightarrow> []) (case r of Some (Inr t) \<Rightarrow> 1 | _ \<Rightarrow> 0) (b', ts', n')"
    and "\<exists>t. r = Some (Inr t) \<Longrightarrow> cb_state b' \<noteq> Open"
    by (auto split: option.splits sum.splits)
  then show ?thesis
    by (auto simp: books_at_def breaker_inv_def slots_ok_def cb_state_def Let_def split: option.splits sum.splits if_splits)
qed

text \<open>\<open>call\<close> and \<open>call_timeout\<close> as one function of the timeout.\<close>

definition call_with ::
  "'i limiter \<Rightarrow> ('i breaker \<times> 'x) runtime \<Rightarrow> duration option \<Rightarrow>
   ('i breaker \<times> 'x \<Rightarrow> (('e + 'r) option \<times> 'i breaker \<times> 'x) option) \<Rightarrow>
   'i breaker \<times> 'x \<Rightarrow> (('e call_error + 'r) option \<times> 'i breaker \<times> 'x) option" where
  "call_with L rt timeout operation w =
     (case timeout of None \<Rightarrow> cb_call L rt operation w | Some d \<Rightarrow> cb_call_timeout L rt d operation w)"

lemma call_with_after: "call_with L rt timeout operation w = call_after (acquire_with L rt timeout) operation w"
  by (auto simp: call_with_def cb_call_def cb_call_timeout_def cb_acquire_def [abs_def] cb_acquire_timeout_def [abs_def]
      split: option.splits)

text \<open>C7: A call through the breaker, with or without a timeout, settles its permit however it ends: answered,
  failed, rejected, or dropped while it waits or while its operation runs.  No probe slot stays
  behind, and the unit of the wrapped limiter is spent exactly when the operation was started,
  that is, when the same call with an operation that never ends would not have ended:
  always when it answered or failed, never when the call was rejected, and for a dropped call
  according to whether it was dropped in its operation or in its wait.\<close>

theorem breaker_call_accounts:
  fixes operation :: "'i breaker \<times> ticket list \<times> nat \<Rightarrow> (('e + 'r) option \<times> 'i breaker \<times> ticket list \<times> nat) option"
  assumes "limiter_obj L spent ready good" and "awaits_ok L spent ready good rt"
    and "\<forall>w res w'. operation w = Some (res, w') \<longrightarrow>
      await_ok L spent ready good w w' \<and> generation (cb_shared (fst w')) \<noteq> - 1"
    and "trials \<le> U32_MAX" and "length ops < 2 ^ 64 - 1"
    and "cb_run L ops (cb_builder_build (cb_builder_half_open c trials required) i clk) = (b, ts)"
    and "good (cb_inner b)" and "spent (cb_inner b) = n"
    and "call_with L rt timeout operation (b, ts, n) = Some (r, b', ts', n')"
  shows "let s = cb_shared b';
             started = (call_with L rt timeout (\<lambda>_. None :: (('e + 'r) option \<times> _) option) (b, ts, n) = None) in
    half_open_inflight s = (if state s = HalfOpen then trait_probes s + live_probes (generation s) ts' else 0) \<and>
    spent (cb_inner b') = n' + (if started then 1 else 0) \<and>
    (case r of None \<Rightarrow> True | Some (Inl (Rejected _)) \<Rightarrow> \<not> started | Some _ \<Rightarrow> started)"
proof -
  note inv = run_inv [OF assms(4-6)]
  have start: "books_at spent ready good (cb_config b) [] 0 (b, ts, n)" using inv(1) assms(7,8) by (simp add: books_at_def)
  from limiter_obj.call_books [OF assms(1,2,3) start inv(2) assms(9) [unfolded call_with_after]]
  show ?thesis
    unfolding call_with_after
    by (auto simp: books_at_def breaker_inv_def slots_ok_def Let_def split: if_splits)
qed

text \<open>A breaker that trips on the first failure over an adaptive limiter of one slot, in use by another
  task.  That task fails and gives its slot back while the new request sleeps.\<close>

definition other_fails ::
  "unit adaptive breaker \<times> ticket list \<times> nat \<Rightarrow> unit adaptive breaker \<times> ticket list \<times> nat" where
  "other_fails w =
     (case w of (b, ts, n) \<Rightarrow>
        if generation (cb_shared b) \<noteq> - 1 \<and> 0 < n \<and> 0 < ad_in_flight (cb_inner b)
        then (case cb_exec adaptive_limiter (Settle 0 False) (b, ts) of
                (b', ts') \<Rightarrow> (b'\<lparr>cb_inner := ad_refund (cb_inner b) 1\<rparr>, ts', n - 1))
        else w)"

definition busy_rt :: "(unit adaptive breaker \<times> ticket list \<times> nat) runtime" where
  "busy_rt = \<lparr>rt_now = (\<lambda>_. 0), rt_checked_add = (\<lambda>a d. Some (a + d)), rt_epoch = (\<lambda>_. 0),
     rt_sleep = (\<lambda>d w. (True, other_fails w)), rt_race = (\<lambda>d w. (True, other_fails w)), rt_yield = (\<lambda>w. (True, w))\<rparr>"

definition shaky_breaker :: "unit adaptive \<Rightarrow> unit adaptive breaker" where
  "shaky_breaker i = cb_builder_build (cb_builder_half_open (cb_builder_trip cb_builder_new (Consecutive 1)) 1 1) i 0"

lemma await_refl: "await_ok L spent ready good w w"
  by (cases w) (simp add: await_ok_def)

lemma busy_awaits: "awaits_ok adaptive_limiter ad_in_flight (\<lambda>_. True) ad_good busy_rt"
proof -
  have "await_ok adaptive_limiter ad_in_flight (\<lambda>_. True) ad_good w (other_fails w)" for w
  proof -
    obtain b ts n where w: "w = (b, ts, n)" by (metis prod_cases3)
    show ?thesis
    proof (cases "generation (cb_shared b) \<noteq> - 1 \<and> 0 < n \<and> 0 < ad_in_flight (cb_inner b)")
      case True
      obtain b1 ts1 where x: "cb_exec adaptive_limiter (Settle 0 False) (b, ts) = (b1, ts1)" by (metis surj_pair)
      have "others_step adaptive_limiter (b, ts) (b1, ts1)" using True x by (blast intro: others_step.intros)
      moreover have "others_step adaptive_limiter (b1, ts1) (b1\<lparr>cb_inner := ad_refund (cb_inner b) 1\<rparr>, ts1)"
        by (rule others_step.on_inner)
      moreover have "ad_good (cb_inner b) \<Longrightarrow> ad_good (ad_refund (cb_inner b) 1)" by (rule ad_refund_good)
      moreover have "ad_in_flight (ad_refund (cb_inner b) 1) + n = ad_in_flight (cb_inner b) + (n - 1)"
        using True by (simp add: ad_refund_def sync_saturating_sub_def)
      ultimately show ?thesis
        using True x w by (auto simp: await_ok_def other_fails_def simp del: cb_exec.simps)
    next
      case False
      then have "other_fails w = w" by (auto simp: w other_fails_def simp del: cb_exec.simps)
      then show ?thesis by (simp add: await_refl)
    qed
  qed
  then show ?thesis by (simp add: awaits_ok_def busy_rt_def await_refl)
qed

lemmas breaker_wait_eval = admit_waiting_def admit_or_shed_def wait_for_def wait_with_def wait_loop.simps wait_round_def
  pause_loop.simps nap_after_def deadline_after_def deadline_remaining_def guard_fire_def sleep_unless_resumed_def
  busy_rt_def other_fails_def cb_wait_step_def cb_wait_done_def still_admits_def slot_disarm_def slot_drop_def
  adaptive_limiter_def default_reserve_def default_paused_for_def ad_acquire_cost_def ad_peek_def ad_new_def try_reserve_def
  ad_refund_def sync_saturating_sub_def shaky_breaker_def breaker_eval DURATION_MAX_def

theorem breaker_wait_accounts_witness:
  "let i = (ad_new () 1 1 1 0)\<lparr>ad_in_flight := 1\<rparr>; (b, ts) = cb_run adaptive_limiter [Take] (shaky_breaker i) in
   \<exists>d b'. admit_waiting adaptive_limiter busy_rt None (b, ts, 1) = Some (Some (Inl (CircuitOpen d)), b', [], 0) \<and>
     cb_state b' = Open \<and> half_open_inflight (cb_shared b') = 0 \<and> ad_in_flight (cb_inner b') = 0"
proof -
  define i where "i = (ad_new () 1 1 1 0)\<lparr>ad_in_flight := 1\<rparr>"
  obtain b ts where run: "cb_run adaptive_limiter [Take] (shaky_breaker i) = (b, ts)" by fastforce
  have "\<exists>d b'. admit_waiting adaptive_limiter busy_rt None (b, ts, 1) = Some (Some (Inl (CircuitOpen d)), b', [], 0) \<and> cb_state b' = Open"
    using run unfolding i_def
    by (clarsimp simp: shaky_breaker_def breaker_eval ad_new_def) (simp add: breaker_wait_eval)
  then obtain d b' where w: "admit_waiting adaptive_limiter busy_rt None (b, ts, 1) = Some (Some (Inl (CircuitOpen d)), b', [], 0)"
    and o: "cb_state b' = Open" by blast
  have b: "ad_good (cb_inner b)" "ad_in_flight (cb_inner b) = 1"
    using run unfolding i_def by (auto simp: breaker_wait_eval ad_good_def)
  from breaker_wait_accounts [OF adaptive.limiter_obj_axioms busy_awaits _ _ run [unfolded shaky_breaker_def] b w] o w
  show ?thesis unfolding i_def [symmetric] by (simp add: run cb_state_def Let_def U32_MAX_def)
qed

text \<open>An operation that fails at once.\<close>

definition failing :: "'i breaker \<times> 'x \<Rightarrow> ((string + unit) option \<times> 'i breaker \<times> 'x) option" where
  "failing w = (if generation (cb_shared (fst w)) = - 1 then None else Some (Some (Inl ''down''), w))"

text \<open>A runtime that drops every future at its first await.\<close>

definition dropping_rt :: "(unit adaptive breaker \<times> ticket list \<times> nat) runtime" where
  "dropping_rt = busy_rt\<lparr>rt_sleep := (\<lambda>d w. (False, w)), rt_race := (\<lambda>d w. (False, w)), rt_yield := (\<lambda>w. (False, w))\<rparr>"

lemma dropping_awaits: "awaits_ok adaptive_limiter ad_in_flight (\<lambda>_. True) ad_good dropping_rt"
  by (simp add: awaits_ok_def dropping_rt_def await_refl)

lemma failing_awaits:
  "\<forall>w res w'. failing w = Some (res, w') \<longrightarrow>
     await_ok adaptive_limiter ad_in_flight (\<lambda>_. True) ad_good w w' \<and> generation (cb_shared (fst w')) \<noteq> - 1"
  by (auto simp: failing_def await_refl split: if_splits)

lemmas breaker_call_eval = breaker_wait_eval call_with_def cb_call_def call_after_def cb_acquire_def acquire_with_def
  settle_call_def permit_failure_def permit_new_def dropping_rt_def

theorem breaker_call_accounts_witness:
  "(let (b, ts) = cb_run adaptive_limiter [] (shaky_breaker (ad_new () 1 2 2 0)) in
    \<exists>b'. call_with adaptive_limiter busy_rt None failing (b, ts, 0) = Some (Some (Inl (Failed ''down'')), b', [], 0) \<and>
      half_open_inflight (cb_shared b') = 0 \<and> ad_in_flight (cb_inner b') = 1) \<and>
   (let (b, ts) = cb_run adaptive_limiter [] (shaky_breaker ((ad_new () 1 1 1 0)\<lparr>ad_in_flight := 1\<rparr>)) in
    \<exists>b'. call_with adaptive_limiter dropping_rt None failing (b, ts, 1) = Some (None, b', [], 1) \<and> ad_in_flight (cb_inner b') = 1)"
proof -
  define i where "i = ad_new () 1 2 2 0"
  define j where "j = (ad_new () 1 1 1 0)\<lparr>ad_in_flight := 1\<rparr>"
  obtain b ts where run: "cb_run adaptive_limiter [] (shaky_breaker i) = (b, ts)" by fastforce
  obtain c us where run': "cb_run adaptive_limiter [] (shaky_breaker j) = (c, us)" by fastforce
  have "\<exists>b'. call_with adaptive_limiter busy_rt None failing (b, ts, 0) = Some (Some (Inl (Failed ''down'')), b', [], 0) \<and> cb_state b' = Open"
    using run unfolding i_def
    by (clarsimp simp: shaky_breaker_def breaker_eval ad_new_def) (simp add: breaker_call_eval failing_def)
  then obtain b' where w: "call_with adaptive_limiter busy_rt None failing (b, ts, 0) = Some (Some (Inl (Failed ''down'')), b', [], 0)"
    and o: "cb_state b' = Open" by blast
  have "\<exists>b'. \<forall>f :: _ \<Rightarrow> ((string + unit) option \<times> _) option.
      call_with adaptive_limiter dropping_rt None f (c, us, 1) = Some (None, b', [], 1)"
    using run' unfolding j_def
    by (clarsimp simp: shaky_breaker_def breaker_eval ad_new_def) (simp add: breaker_call_eval)
  then obtain c' where w': "\<And>f :: _ \<Rightarrow> ((string + unit) option \<times> _) option.
      call_with adaptive_limiter dropping_rt None f (c, us, 1) = Some (None, c', [], 1)" by blast
  have b: "ad_good (cb_inner b)" "ad_in_flight (cb_inner b) = 0" "ad_good (cb_inner c)" "ad_in_flight (cb_inner c) = 1"
    using run run' unfolding i_def j_def by (auto simp: breaker_wait_eval ad_good_def)
  have "half_open_inflight (cb_shared b') = 0 \<and> ad_in_flight (cb_inner b') = 1"
    using breaker_call_accounts [OF adaptive.limiter_obj_axioms busy_awaits failing_awaits _ _ run [unfolded shaky_breaker_def] b(1,2) w] o
    by (simp add: cb_state_def Let_def U32_MAX_def)
  moreover have "ad_in_flight (cb_inner c') = 1"
    using breaker_call_accounts [OF adaptive.limiter_obj_axioms dropping_awaits failing_awaits _ _ run' [unfolded shaky_breaker_def] b(3,4) w']
    using w' [of "\<lambda>_. None"] by (simp add: Let_def U32_MAX_def)
  ultimately show ?thesis using w w' unfolding i_def [symmetric] j_def [symmetric] by (simp add: run run')
qed

end
