(* ===== verification/Queue.thy ===== *)
theory Queue
  imports Limiter "HOL-Library.Product_Lexorder"
begin

text \<open>
  The waiting queue (\<open>src/queue.rs\<close>): a bounded, deadline-aware priority queue in front of a
  limiter, fair across keys.  Ordered and hashed maps are finite maps, ordered sets are
  sets whose first and last elements are minimum and maximum, a \<open>VecDeque\<close> is a list.  A
  waiter's signal is shared with its task; the signals are kept in the state by sequence
  number, as the set of evicted waiters and the set of waiters with a pending wake-up.
  Sequence numbers, stamps and ids count operations and stay below \<open>2^64\<close>.

  Dropping expired waiters is a loop that ends only if every deadline belongs to a
  waiter, so it is a \<open>partial_function (option)\<close>; that it ends is proved.
\<close>

definition RECHECK :: duration where
  "RECHECK = from_secs 60"

datatype overflow = Reject | DropOldest | DropLowestPriority

record waiter =
  w_priority :: u32
  w_deadline_ms :: "u64 option"
  w_key_id :: u64

record key_state =
  ks_id :: u64
  ks_recency :: u64
  ks_waiting :: usize

record level =
  lv_order :: "(u64 \<times> u64) set"
  lv_by_key :: "u64 \<rightharpoonup> u64 list"
  lv_seqs :: "u64 set"

record 'k qstate =
  q_waiters :: "u64 \<rightharpoonup> waiter"
  q_levels :: "u32 \<rightharpoonup> level"
  q_deadlines :: "(u64 \<times> u64) set"
  q_keys :: "'k \<rightharpoonup> key_state"
  q_key_of :: "u64 \<rightharpoonup> 'k"
  q_recency_floor :: u64
  q_service_seq :: u64
  q_next_seq :: u64
  q_next_key_id :: u64
  q_prune_at :: usize
  q_evicted :: "u64 set"
  q_woken :: "u64 set"

definition qs_new :: "usize \<Rightarrow> 'k qstate" where
  "qs_new capacity = \<lparr>q_waiters = Map.empty, q_levels = Map.empty, q_deadlines = {},
     q_keys = Map.empty, q_key_of = Map.empty, q_recency_floor = 0, q_service_seq = 0,
     q_next_seq = 0, q_next_key_id = 0, q_prune_at = sat_add64 (sat_mul64 capacity 2) 16,
     q_evicted = {}, q_woken = {}\<rparr>"

definition qs_len :: "'k qstate \<Rightarrow> usize" where
  "qs_len s = card (dom (q_waiters s))"

definition level_default :: level where
  "level_default = \<lparr>lv_order = {}, lv_by_key = Map.empty, lv_seqs = {}\<rparr>"

definition level_of :: "(u32 \<rightharpoonup> level) \<Rightarrow> u32 \<Rightarrow> level" where
  "level_of levels priority = (case levels priority of Some l \<Rightarrow> l | None \<Rightarrow> level_default)"

text \<open>The key's id and recency at an arrival, with its state created or its count raised.\<close>

definition qs_admit_key :: "'k qstate \<Rightarrow> 'k \<Rightarrow> (u64 \<times> u64) \<times> 'k qstate" where
  "qs_admit_key s key =
     (case q_keys s key of
        Some state \<Rightarrow>
          ((ks_id state, ks_recency state),
           s\<lparr>q_keys := (q_keys s)(key \<mapsto> state\<lparr>ks_waiting := ks_waiting state + 1\<rparr>)\<rparr>)
      | None \<Rightarrow>
          (let id = q_next_key_id s in
           ((id, q_recency_floor s),
            s\<lparr>q_next_key_id := id + 1,
              q_keys := (q_keys s)(key \<mapsto> \<lparr>ks_id = id, ks_recency = q_recency_floor s, ks_waiting = 1\<rparr>),
              q_key_of := (q_key_of s)(id \<mapsto> key)\<rparr>)))"

definition level_insert :: "u64 \<Rightarrow> u64 \<Rightarrow> u64 \<Rightarrow> level \<Rightarrow> level" where
  "level_insert recency key_id seq l =
     (let queue = (case lv_by_key l key_id of Some q \<Rightarrow> q | None \<Rightarrow> []) in
      l\<lparr>lv_order := (if queue = [] then insert (recency, key_id) (lv_order l) else lv_order l),
        lv_by_key := (lv_by_key l)(key_id \<mapsto> queue @ [seq]),
        lv_seqs := insert seq (lv_seqs l)\<rparr>)"

definition qs_insert :: "'k qstate \<Rightarrow> u32 \<Rightarrow> u64 option \<Rightarrow> 'k \<Rightarrow> u64 \<times> 'k qstate" where
  "qs_insert s0 priority deadline_ms key =
     (let seq = q_next_seq s0 in
      case qs_admit_key (s0\<lparr>q_next_seq := seq + 1\<rparr>) key of ((key_id, recency), s) \<Rightarrow>
        (seq,
         s\<lparr>q_levels := (q_levels s)(priority \<mapsto> level_insert recency key_id seq (level_of (q_levels s) priority)),
           q_deadlines := (case deadline_ms of
               Some deadline \<Rightarrow> insert (deadline, seq) (q_deadlines s) | None \<Rightarrow> q_deadlines s),
           q_waiters := (q_waiters s)(seq \<mapsto>
               \<lparr>w_priority = priority, w_deadline_ms = deadline_ms, w_key_id = key_id\<rparr>)\<rparr>))"

definition keys_recency :: "'k qstate \<Rightarrow> u64 \<Rightarrow> u64" where
  "keys_recency s key_id =
     (case q_key_of s key_id of
        None \<Rightarrow> q_recency_floor s
      | Some key \<Rightarrow> (case q_keys s key of None \<Rightarrow> q_recency_floor s | Some state \<Rightarrow> ks_recency state))"

text \<open>\<open>retain\<close> visits the keys in an unspecified order; the floor it computes is their maximum.\<close>

definition maybe_prune_keys :: "'k qstate \<Rightarrow> 'k qstate" where
  "maybe_prune_keys s =
     (if card (dom (q_keys s)) \<le> q_prune_at s then s
      else
        (let idle = {k. \<exists>state. q_keys s k = Some state \<and> ks_waiting state = 0};
             states = (\<lambda>k. the (q_keys s k)) ` idle
         in s\<lparr>q_keys := (q_keys s) |` (- idle),
              q_key_of := (q_key_of s) |` (- ks_id ` states),
              q_recency_floor := Max (insert (q_recency_floor s) (ks_recency ` states))\<rparr>))"

definition level_remove :: "u64 \<Rightarrow> u64 \<Rightarrow> u64 \<Rightarrow> level \<Rightarrow> level" where
  "level_remove recency key_id seq l =
     (let l1 = (case lv_by_key l key_id of
                  None \<Rightarrow> l
                | Some queue \<Rightarrow>
                    (let rest = remove1 seq queue in
                     if rest = []
                     then l\<lparr>lv_by_key := (lv_by_key l)(key_id := None),
                            lv_order := lv_order l - {(recency, key_id)}\<rparr>
                     else l\<lparr>lv_by_key := (lv_by_key l)(key_id \<mapsto> rest)\<rparr>))
      in l1\<lparr>lv_seqs := lv_seqs l1 - {seq}\<rparr>)"

definition qs_remove :: "'k qstate \<Rightarrow> u64 \<Rightarrow> waiter option \<times> 'k qstate" where
  "qs_remove s seq =
     (case q_waiters s seq of
        None \<Rightarrow> (None, s)
      | Some w \<Rightarrow>
          (let s1 = s\<lparr>q_waiters := (q_waiters s)(seq := None)\<rparr>;
               recency = keys_recency s1 (w_key_id w);
               s2 = (case q_levels s1 (w_priority w) of
                       None \<Rightarrow> s1
                     | Some l \<Rightarrow>
                         (let l' = level_remove recency (w_key_id w) seq l in
                          s1\<lparr>q_levels := (q_levels s1)(w_priority w := (if lv_seqs l' = {} then None else Some l'))\<rparr>));
               s3 = (case w_deadline_ms w of
                       None \<Rightarrow> s2
                     | Some deadline \<Rightarrow> s2\<lparr>q_deadlines := q_deadlines s2 - {(deadline, seq)}\<rparr>);
               s4 = (case q_key_of s3 (w_key_id w) of
                       None \<Rightarrow> s3
                     | Some key \<Rightarrow>
                         (case q_keys s3 key of
                            None \<Rightarrow> s3
                          | Some state \<Rightarrow>
                              s3\<lparr>q_keys := (q_keys s3)(key \<mapsto> state\<lparr>ks_waiting := ks_waiting state - 1\<rparr>)\<rparr>))
           in (Some w, maybe_prune_keys s4)))"

partial_function (option) prune_expired :: "u64 \<Rightarrow> 'k qstate \<Rightarrow> 'k qstate option" where
  "prune_expired now_ms s =
     (if q_deadlines s = {} then Some s
      else
        (case Min (q_deadlines s) of (deadline, seq) \<Rightarrow>
           if deadline > now_ms then Some s
           else prune_expired now_ms (snd (qs_remove s seq))))"

text \<open>The first waiter of the least recently served key of the highest level.\<close>

definition front_waiter :: "'k qstate \<Rightarrow> u64 option" where
  "front_waiter s =
     (if dom (q_levels s) = {} then None
      else
        (let l = the (q_levels s (Max (dom (q_levels s)))) in
         if lv_order l = {} then None
         else
           (case Min (lv_order l) of (_, key_id) \<Rightarrow>
              case lv_by_key l key_id of
                None \<Rightarrow> None
              | Some queue \<Rightarrow> (case queue of [] \<Rightarrow> None | seq # _ \<Rightarrow> Some seq))))"

definition winner :: "'k qstate \<Rightarrow> u64 \<Rightarrow> (u64 option \<times> 'k qstate) option" where
  "winner s now_ms = (case prune_expired now_ms s of None \<Rightarrow> None | Some s' \<Rightarrow> Some (front_waiter s', s'))"

definition restamp :: "u64 \<Rightarrow> u64 \<Rightarrow> u64 \<Rightarrow> level \<Rightarrow> level" where
  "restamp old stamp key_id l =
     (if (old, key_id) \<in> lv_order l
      then l\<lparr>lv_order := insert (stamp, key_id) (lv_order l - {(old, key_id)})\<rparr> else l)"

definition serve :: "'k qstate \<Rightarrow> u64 \<Rightarrow> 'k qstate" where
  "serve s seq =
     (case q_waiters s seq of
        None \<Rightarrow> s
      | Some w \<Rightarrow>
          (let key_id = w_key_id w;
               stamp = q_service_seq s + 1;
               s1 = s\<lparr>q_service_seq := stamp\<rparr>;
               s2 = (case q_key_of s1 key_id of
                       None \<Rightarrow> s1
                     | Some key \<Rightarrow>
                         (case q_keys s1 key of
                            None \<Rightarrow> s1
                          | Some state \<Rightarrow>
                              s1\<lparr>q_keys := (q_keys s1)(key \<mapsto> state\<lparr>ks_recency := stamp\<rparr>),
                                 q_levels := (\<lambda>p. map_option (restamp (ks_recency state) stamp key_id) (q_levels s1 p))\<rparr>))
           in snd (qs_remove s2 seq)))"

definition oldest :: "'k qstate \<Rightarrow> u64 option" where
  "oldest s = (if dom (q_waiters s) = {} then None else Some (Min (dom (q_waiters s))))"

definition weakest :: "'k qstate \<Rightarrow> (u64 \<times> u32) option" where
  "weakest s =
     (if dom (q_levels s) = {} then None
      else
        (let priority = Min (dom (q_levels s)); l = the (q_levels s priority) in
         if lv_seqs l = {} then None else Some (Max (lv_seqs l), priority)))"

definition signal_wake :: "u64 \<Rightarrow> 'k qstate \<Rightarrow> 'k qstate" where
  "signal_wake seq s = s\<lparr>q_woken := insert seq (q_woken s)\<rparr>"

definition evict :: "'k qstate \<Rightarrow> u64 \<Rightarrow> 'k qstate" where
  "evict s seq =
     (case qs_remove s seq of
        (None, s') \<Rightarrow> s'
      | (Some _, s') \<Rightarrow> signal_wake seq (s'\<lparr>q_evicted := insert seq (q_evicted s')\<rparr>))"

definition wake_winner :: "'k qstate \<Rightarrow> u64 \<Rightarrow> 'k qstate option" where
  "wake_winner s now_ms =
     (case winner s now_ms of
        None \<Rightarrow> None
      | Some (None, s') \<Rightarrow> Some s'
      | Some (Some seq, s') \<Rightarrow>
          Some (case q_waiters s' seq of None \<Rightarrow> s' | Some _ \<Rightarrow> signal_wake seq s'))"

subsection \<open>The queue\<close>

record 'k queue =
  qu_state :: "'k qstate"
  qu_capacity :: usize
  qu_overflow :: overflow
  qu_clock :: nat
  qu_epoch :: nat

definition queue_new :: "usize \<Rightarrow> overflow \<Rightarrow> nat \<Rightarrow> 'k queue" where
  "queue_new capacity ovf clock =
     (let capacity = max capacity 1 in
      \<lparr>qu_state = qs_new capacity, qu_capacity = capacity, qu_overflow = ovf, qu_clock = clock, qu_epoch = clock\<rparr>)"

definition queue_with_clock :: "'k queue \<Rightarrow> nat \<Rightarrow> 'k queue" where
  "queue_with_clock q clock = queue_new (qu_capacity q) (qu_overflow q) clock"

definition queue_len :: "'k queue \<Rightarrow> usize" where
  "queue_len q = qs_len (qu_state q)"

definition queue_is_empty :: "'k queue \<Rightarrow> bool" where
  "queue_is_empty q \<longleftrightarrow> q_waiters (qu_state q) = Map.empty"

definition queue_now_ms :: "'k queue \<Rightarrow> u64" where
  "queue_now_ms q = millis_u64 (qu_clock q - qu_epoch q)"

definition overflow_victim :: "overflow \<Rightarrow> u32 \<Rightarrow> 'k qstate \<Rightarrow> u64 option" where
  "overflow_victim ovf priority s =
     (case ovf of
        Reject \<Rightarrow> None
      | DropOldest \<Rightarrow> oldest s
      | DropLowestPriority \<Rightarrow>
          (case weakest s of
             None \<Rightarrow> None
           | Some (seq, w) \<Rightarrow> if priority > w then Some seq else None))"

text \<open>The state after the critical section of \<open>register\<close>, with the waiter's sequence number or
  the refusal.\<close>

definition register ::
  "'k queue \<Rightarrow> u64 \<Rightarrow> u32 \<Rightarrow> u64 option \<Rightarrow> 'k \<Rightarrow> ((throttle_error + u64) \<times> 'k queue) option" where
  "register q now priority deadline_ms key =
     (case prune_expired now (qu_state q) of
        None \<Rightarrow> None
      | Some s \<Rightarrow>
          (let full = qs_len s \<ge> qu_capacity q; victim = overflow_victim (qu_overflow q) priority s in
           if full \<and> victim = None then Some (Inl QueueFull, q\<lparr>qu_state := s\<rparr>)
           else
             (let s1 = (if full then evict s (the victim) else s) in
              case qs_insert s1 priority deadline_ms key of (seq, s2) \<Rightarrow>
                (case wake_winner s2 now of
                   None \<Rightarrow> None
                 | Some s3 \<Rightarrow> Some (Inr seq, q\<lparr>qu_state := s3\<rparr>)))))"

definition cap_to_deadline :: "duration \<Rightarrow> u64 \<Rightarrow> u64 option \<Rightarrow> duration" where
  "cap_to_deadline wait now deadline_ms =
     (case deadline_ms of Some d \<Rightarrow> min wait (from_millis (d - now)) | None \<Rightarrow> wait)"

definition wait_deadline :: "u64 \<Rightarrow> duration option \<Rightarrow> u64 option" where
  "wait_deadline start_ms deadline = map_option (\<lambda>d. sat_add64 start_ms (millis_u64 d)) deadline"

text \<open>The listener of a round is registered at its start, so only wake-ups from there on end its
  sleep.\<close>

definition signal_listen :: "u64 \<Rightarrow> 'k qstate \<Rightarrow> 'k qstate" where
  "signal_listen seq s = s\<lparr>q_woken := q_woken s - {seq}\<rparr>"

text \<open>One round of the loop of \<open>wait\<close>, up to its await: an answer, or how long to sleep unless
  woken.  \<open>w\<close> is the wrapped limiter's world.\<close>

datatype turn_poll =
    Ready "throttle_error + unit"
  | Sleep duration

definition wait_turn ::
  "'w limiter \<Rightarrow> 'k queue \<Rightarrow> u64 \<Rightarrow> u64 option \<Rightarrow> u32 \<Rightarrow> 'w \<Rightarrow> (turn_poll \<times> 'k queue \<times> 'w) option" where
  "wait_turn L q0 seq deadline_ms cost w =
     (let q = q0\<lparr>qu_state := signal_listen seq (qu_state q0)\<rparr> in
      if seq \<in> q_evicted (qu_state q) then Some (Ready (Inl QueueFull), q, w)
      else
        (let now = queue_now_ms q in
         if (case deadline_ms of None \<Rightarrow> False | Some d \<Rightarrow> now \<ge> d)
         then Some (Ready (Inl DeadlineExceeded), q, w)
         else
           (case winner (qu_state q) now of
              None \<Rightarrow> None
            | Some (turn, s) \<Rightarrow>
                if turn = Some seq
                then (case l_acquire_cost L cost w of
                        (Acquired, w') \<Rightarrow>
                          (case wake_winner (serve s seq) now of
                             None \<Rightarrow> None
                           | Some s' \<Rightarrow> Some (Ready (Inr ()), q\<lparr>qu_state := s'\<rparr>, w'))
                      | (Retry after_, w') \<Rightarrow>
                          Some (Sleep (cap_to_deadline after_ now deadline_ms), q\<lparr>qu_state := s\<rparr>, w')
                      | (Impossible, w') \<Rightarrow>
                          Some (Ready (Inl (CostExceedsCapacity cost (l_capacity L w'))), q\<lparr>qu_state := s\<rparr>, w'))
                else Some (Sleep (cap_to_deadline RECHECK now deadline_ms), q\<lparr>qu_state := s\<rparr>, w))))"

text \<open>\<open>LeaveGuard::drop\<close>, on every way out of \<open>wait\<close>.\<close>

definition leave :: "'k queue \<Rightarrow> u64 \<Rightarrow> 'k queue option" where
  "leave q seq =
     (case qs_remove (qu_state q) seq of
        (None, s) \<Rightarrow> Some (q\<lparr>qu_state := s\<rparr>)
      | (Some _, s) \<Rightarrow> map_option (\<lambda>s'. q\<lparr>qu_state := s'\<rparr>) (wake_winner s (queue_now_ms q)))"

subsection \<open>Builder\<close>

record queue_builder =
  qb_capacity :: usize
  qb_overflow :: overflow

definition queue_builder_new :: queue_builder where
  "queue_builder_new = \<lparr>qb_capacity = 1024, qb_overflow = Reject\<rparr>"

definition qb_set_capacity :: "queue_builder \<Rightarrow> usize \<Rightarrow> queue_builder" where
  "qb_set_capacity b capacity = b\<lparr>qb_capacity := max capacity 1\<rparr>"

definition qb_set_overflow :: "queue_builder \<Rightarrow> overflow \<Rightarrow> queue_builder" where
  "qb_set_overflow b ovf = b\<lparr>qb_overflow := ovf\<rparr>"

definition qb_build :: "queue_builder \<Rightarrow> nat \<Rightarrow> 'k queue" where
  "qb_build b clock = queue_new (qb_capacity b) (qb_overflow b) clock"

end
