(* ===== verification/Queue_Laws.thy ===== *)
theory Queue_Laws
  imports Queue
begin

text \<open>
  The indexes of the waiting queue are functions of its waiters and of the recency of their
  keys: each operation updates them to what they would be if rebuilt.  From this follow the
  order of service, the capacity and that expired waiters are dropped.
\<close>

subsection \<open>The indexes, rebuilt from the waiters\<close>

definition at_level :: "(u64 \<rightharpoonup> waiter) \<Rightarrow> u32 \<Rightarrow> u64 set" where
  "at_level W p = {q. \<exists>w. W q = Some w \<and> w_priority w = p}"

definition of_key :: "(u64 \<rightharpoonup> waiter) \<Rightarrow> u32 \<Rightarrow> u64 \<Rightarrow> u64 set" where
  "of_key W p kid = {q. \<exists>w. W q = Some w \<and> w_priority w = p \<and> w_key_id w = kid}"

definition keys_at :: "(u64 \<rightharpoonup> waiter) \<Rightarrow> u32 \<Rightarrow> u64 set" where
  "keys_at W p = {kid. \<exists>q w. W q = Some w \<and> w_priority w = p \<and> w_key_id w = kid}"

definition level_spec :: "(u64 \<rightharpoonup> waiter) \<Rightarrow> (u64 \<Rightarrow> u64) \<Rightarrow> u32 \<Rightarrow> level" where
  "level_spec W rec p = \<lparr>
     lv_order = (\<lambda>kid. (rec kid, kid)) ` keys_at W p,
     lv_by_key = (\<lambda>kid. if of_key W p kid = {} then None else Some (sorted_list_of_set (of_key W p kid))),
     lv_seqs = at_level W p\<rparr>"

definition levels_spec :: "(u64 \<rightharpoonup> waiter) \<Rightarrow> (u64 \<Rightarrow> u64) \<Rightarrow> u32 \<rightharpoonup> level" where
  "levels_spec W rec = (\<lambda>p. if at_level W p = {} then None else Some (level_spec W rec p))"

definition deadlines_spec :: "(u64 \<rightharpoonup> waiter) \<Rightarrow> (u64 \<times> u64) set" where
  "deadlines_spec W = {(d, q). \<exists>w. W q = Some w \<and> w_deadline_ms w = Some d}"

definition key_waiters :: "(u64 \<rightharpoonup> waiter) \<Rightarrow> u64 \<Rightarrow> u64 set" where
  "key_waiters W kid = {q. \<exists>w. W q = Some w \<and> w_key_id w = kid}"

definition keys_ok :: "'k qstate \<Rightarrow> bool" where
  "keys_ok s \<longleftrightarrow>
     (\<forall>kid k. q_key_of s kid = Some k \<longleftrightarrow> (\<exists>st. q_keys s k = Some st \<and> ks_id st = kid)) \<and>
     (\<forall>k st. q_keys s k = Some st \<longrightarrow> ks_id st < q_next_key_id s \<and> ks_recency st \<le> q_service_seq s \<and>
        ks_waiting st = card (key_waiters (q_waiters s) (ks_id st))) \<and>
     (\<forall>q w. q_waiters s q = Some w \<longrightarrow> q_key_of s (w_key_id w) \<noteq> None) \<and>
     q_recency_floor s \<le> q_service_seq s \<and> finite (dom (q_keys s))"

definition index_ok :: "'k qstate \<Rightarrow> bool" where
  "index_ok s \<longleftrightarrow>
     q_levels s = levels_spec (q_waiters s) (keys_recency s) \<and> q_deadlines s = deadlines_spec (q_waiters s)"

definition queue_ok :: "'k qstate \<Rightarrow> bool" where
  "queue_ok s \<longleftrightarrow> finite (dom (q_waiters s)) \<and> (\<forall>q \<in> dom (q_waiters s). q < q_next_seq s) \<and> index_ok s \<and> keys_ok s"

lemma queue_okD:
  assumes "queue_ok s"
  shows "finite (dom (q_waiters s))" and "q \<in> dom (q_waiters s) \<Longrightarrow> q < q_next_seq s"
    and "q_levels s = levels_spec (q_waiters s) (keys_recency s)" and "q_deadlines s = deadlines_spec (q_waiters s)"
    and "keys_ok s"
  using assms by (auto simp: queue_ok_def index_ok_def)

lemma keys_ok_transfer:
  assumes "keys_ok s" and "q_keys t = q_keys s" and "q_key_of t = q_key_of s" and "q_next_key_id t = q_next_key_id s"
    and "q_service_seq t = q_service_seq s" and "q_waiters t = q_waiters s" and "q_recency_floor t = q_recency_floor s"
  shows "keys_ok t"
  using assms(1) unfolding keys_ok_def assms(2-) .

lemma keys_okD:
  assumes "keys_ok s"
  shows "q_key_of s kid = Some k \<longleftrightarrow> (\<exists>st. q_keys s k = Some st \<and> ks_id st = kid)"
    and "q_keys s k = Some st \<Longrightarrow> ks_id st < q_next_key_id s"
    and "q_keys s k = Some st \<Longrightarrow> ks_recency st \<le> q_service_seq s"
    and "q_keys s k = Some st \<Longrightarrow> ks_waiting st = card (key_waiters (q_waiters s) (ks_id st))"
    and "q_waiters s q = Some w \<Longrightarrow> q_key_of s (w_key_id w) \<noteq> None"
    and "q_recency_floor s \<le> q_service_seq s" and "finite (dom (q_keys s))"
  using assms unfolding keys_ok_def by blast+

lemma finite_at_level: "finite (dom W) \<Longrightarrow> finite (at_level W p)"
  by (rule finite_subset [of _ "dom W"]) (auto simp: at_level_def)

lemma finite_of_key: "finite (dom W) \<Longrightarrow> finite (of_key W p kid)"
  by (rule finite_subset [of _ "dom W"]) (auto simp: of_key_def)

lemma finite_key_waiters: "finite (dom W) \<Longrightarrow> finite (key_waiters W kid)"
  by (rule finite_subset [of _ "dom W"]) (auto simp: key_waiters_def)

lemma of_key_at_level: "at_level W p = {} \<longleftrightarrow> (\<forall>kid. of_key W p kid = {})"
  by (auto simp: at_level_def of_key_def)

text \<open>Only the recency of keys with waiters matters.\<close>

lemma level_spec_cong:
  assumes "\<And>q w. W q = Some w \<Longrightarrow> rec (w_key_id w) = rec' (w_key_id w)"
  shows "level_spec W rec p = level_spec W rec' p"
proof -
  have "(\<lambda>kid. (rec kid, kid)) ` keys_at W p = (\<lambda>kid. (rec' kid, kid)) ` keys_at W p"
    using assms by (intro image_cong refl) (auto simp: keys_at_def)
  then show ?thesis by (simp add: level_spec_def)
qed

lemma levels_spec_cong:
  assumes "\<And>q w. W q = Some w \<Longrightarrow> rec (w_key_id w) = rec' (w_key_id w)"
  shows "levels_spec W rec = levels_spec W rec'"
  using level_spec_cong [of W rec rec'] assms by (auto simp: levels_spec_def fun_eq_iff)

lemma keys_at_of_key: "kid \<in> keys_at W p \<longleftrightarrow> of_key W p kid \<noteq> {}"
  by (auto simp: keys_at_def of_key_def)

subsection \<open>Arrival\<close>

lemma at_level_upd: "q \<notin> dom W \<Longrightarrow>
    at_level (W(q \<mapsto> w)) p = (if p = w_priority w then insert q (at_level W p) else at_level W p)"
  by (auto simp: at_level_def split: if_splits)

lemma keys_at_upd: "q \<notin> dom W \<Longrightarrow>
    keys_at (W(q \<mapsto> w)) p = (if p = w_priority w then insert (w_key_id w) (keys_at W p) else keys_at W p)"
  by (auto simp: keys_at_def split: if_splits)

lemma of_key_upd: "q \<notin> dom W \<Longrightarrow>
    of_key (W(q \<mapsto> w)) p kid = (if p = w_priority w \<and> kid = w_key_id w then insert q (of_key W p kid) else of_key W p kid)"
  by (auto simp: of_key_def split: if_splits)

lemma slos_append:
  fixes q :: nat
  assumes "finite S" and "\<And>x. x \<in> S \<Longrightarrow> x < q"
  shows "sorted_list_of_set (insert q S) = sorted_list_of_set S @ [q]"
proof -
  let ?xs = "sorted_list_of_set S @ [q]"
  have "sorted ?xs" "distinct ?xs" "set ?xs = insert q S"
    using assms by (auto simp: sorted_append less_imp_le)
  then show ?thesis by (metis sorted_list_of_set.idem_if_sorted_distinct)
qed

lemma level_of_spec: "level_of (levels_spec W rec) p = level_spec W rec p"
proof (cases "at_level W p = {}")
  case True
  then have "keys_at W p = {}" "of_key W p kid = {}" for kid by (auto simp: at_level_def keys_at_def of_key_def)
  then show ?thesis using True by (simp add: level_of_def levels_spec_def level_spec_def level_default_def)
qed (simp add: level_of_def levels_spec_def)

lemmas level_upd_simps = of_key_upd at_level_upd keys_at_upd

lemma level_insert_spec:
  assumes "finite (dom W)" and "\<And>x. x \<in> dom W \<Longrightarrow> x < q"
  shows "level_insert (rec (w_key_id w)) (w_key_id w) q (level_spec W rec (w_priority w)) =
    level_spec (W(q \<mapsto> w)) rec (w_priority w)"
proof -
  let ?p = "w_priority w" and ?kid = "w_key_id w"
  have new: "q \<notin> dom W" using assms(2) by blast
  have lt: "x \<in> of_key W ?p ?kid \<Longrightarrow> x < q" for x using assms(2) by (auto simp: of_key_def)
  note app = slos_append [OF finite_of_key [OF assms(1), of ?p ?kid] lt]
  have nil: "sorted_list_of_set (of_key W ?p ?kid) = [] \<longleftrightarrow> of_key W ?p ?kid = {}"
    using finite_of_key [OF assms(1)] by simp
  have order: "(if of_key W ?p ?kid = {} then insert (rec ?kid, ?kid) ((\<lambda>k. (rec k, k)) ` keys_at W ?p)
      else (\<lambda>k. (rec k, k)) ` keys_at W ?p) = insert (rec ?kid, ?kid) ((\<lambda>k. (rec k, k)) ` keys_at W ?p)"
    using keys_at_of_key [of ?kid W ?p] by (auto simp: insert_absorb)
  show ?thesis
  proof (cases "of_key W ?p ?kid = {}")
    case True
    then show ?thesis
      by (simp add: level_insert_def level_spec_def Let_def level_upd_simps [OF new] fun_eq_iff)
  next
    case False
    then show ?thesis using app nil order
      by (simp add: level_insert_def level_spec_def Let_def level_upd_simps [OF new] fun_eq_iff)
  qed
qed

lemma levels_spec_insert:
  assumes "finite (dom W)" and "\<And>x. x \<in> dom W \<Longrightarrow> x < q"
  shows "(levels_spec W rec)(w_priority w \<mapsto>
      level_insert (rec (w_key_id w)) (w_key_id w) q (level_of (levels_spec W rec) (w_priority w))) =
    levels_spec (W(q \<mapsto> w)) rec"
proof
  fix p
  have new: "q \<notin> dom W" using assms(2) by blast
  show "((levels_spec W rec)(w_priority w \<mapsto>
      level_insert (rec (w_key_id w)) (w_key_id w) q (level_of (levels_spec W rec) (w_priority w)))) p =
    levels_spec (W(q \<mapsto> w)) rec p"
  proof (cases "p = w_priority w")
    case True
    then show ?thesis
      using level_insert_spec [OF assms, of rec w] by (simp add: level_of_spec) (simp add: levels_spec_def at_level_upd [OF new])
  next
    case False
    then show ?thesis by (auto simp: levels_spec_def level_spec_def level_upd_simps [OF new])
  qed
qed

lemma deadlines_spec_insert:
  "q \<notin> dom W \<Longrightarrow> deadlines_spec (W(q \<mapsto> w)) =
    (case w_deadline_ms w of Some d \<Rightarrow> insert (d, q) (deadlines_spec W) | None \<Rightarrow> deadlines_spec W)"
  by (auto simp: deadlines_spec_def split: option.splits if_splits)

subsection \<open>Departure\<close>

lemma at_level_del: "at_level (W(q := None)) p = at_level W p - {q}"
  by (auto simp: at_level_def)

lemma of_key_del: "of_key (W(q := None)) p kid = of_key W p kid - {q}"
  by (auto simp: of_key_def)

lemma key_waiters_del: "key_waiters (W(q := None)) kid = key_waiters W kid - {q}"
  by (auto simp: key_waiters_def)

lemma of_key_other: "W q = Some w \<Longrightarrow> q \<in> of_key W p kid \<longleftrightarrow> p = w_priority w \<and> kid = w_key_id w"
  by (auto simp: of_key_def)

lemma keys_at_del:
  assumes "W q = Some w"
  shows "keys_at (W(q := None)) p =
    (if of_key W p (w_key_id w) - {q} = {} then keys_at W p - {w_key_id w} else keys_at W p)"
proof (rule set_eqI)
  fix kid
  let ?R = "if of_key W p (w_key_id w) - {q} = {} then keys_at W p - {w_key_id w} else keys_at W p"
  have del: "kid \<in> keys_at (W(q := None)) p \<longleftrightarrow> of_key W p kid - {q} \<noteq> {}"
    unfolding keys_at_of_key of_key_del by (rule refl)
  show "kid \<in> keys_at (W(q := None)) p \<longleftrightarrow> kid \<in> ?R"
  proof (cases "kid = w_key_id w")
    case True
    then show ?thesis unfolding del by (auto simp: keys_at_of_key)
  next
    case False
    then have "of_key W p kid - {q} = of_key W p kid" using of_key_other [of W q w, OF assms] by auto
    then show ?thesis unfolding del using False by (simp add: keys_at_of_key)
  qed
qed

lemma level_remove_spec:
  assumes fin: "finite (dom W)" and w: "W q = Some w"
  shows "level_remove (rec (w_key_id w)) (w_key_id w) q (level_spec W rec (w_priority w)) =
    level_spec (W(q := None)) rec (w_priority w)"
proof -
  let ?p = "w_priority w" and ?kid = "w_key_id w"
  have mem: "q \<in> of_key W ?p ?kid" using of_key_other [of W q w, OF w] by simp
  have others: "of_key W ?p k - {q} = of_key W ?p k" if "k \<noteq> ?kid" for k
    using of_key_other [of W q w, OF w] that by auto
  have rm: "remove1 q (sorted_list_of_set (of_key W ?p ?kid)) = sorted_list_of_set (of_key W ?p ?kid - {q})"
    by (rule sorted_list_of_set_remove [symmetric]) (rule finite_of_key [OF fin])
  have nil: "sorted_list_of_set (of_key W ?p ?kid - {q}) = [] \<longleftrightarrow> of_key W ?p ?kid - {q} = {}"
    using finite_of_key [OF fin] by simp
  have img: "(\<lambda>k. (rec k, k)) ` (keys_at W ?p - {?kid}) = (\<lambda>k. (rec k, k)) ` keys_at W ?p - {(rec ?kid, ?kid)}"
    by auto
  have nonempty: "of_key W ?p ?kid \<noteq> {}" using mem by blast
  have by_key: "(\<lambda>k. if of_key (W(q := None)) ?p k = {} then None else Some (sorted_list_of_set (of_key (W(q := None)) ?p k))) =
     (\<lambda>k. if of_key W ?p k = {} then None else Some (sorted_list_of_set (of_key W ?p k)))
       (?kid := if of_key W ?p ?kid - {q} = {} then None else Some (sorted_list_of_set (of_key W ?p ?kid - {q})))"
    using others by (auto simp: fun_eq_iff of_key_del)
  show ?thesis
  proof (cases "of_key W ?p ?kid - {q} = {}")
    case True
    have "level_remove (rec ?kid) ?kid q (level_spec W rec ?p) = (level_spec W rec ?p)
        \<lparr>lv_by_key := (lv_by_key (level_spec W rec ?p))(?kid := None),
         lv_order := lv_order (level_spec W rec ?p) - {(rec ?kid, ?kid)}, lv_seqs := at_level W ?p - {q}\<rparr>"
      using nonempty rm nil True by (simp add: level_remove_def level_spec_def Let_def)
    then show ?thesis unfolding level_spec_def by_key keys_at_del [of W q w, OF w] at_level_del using True img by simp
  next
    case False
    have "level_remove (rec ?kid) ?kid q (level_spec W rec ?p) = (level_spec W rec ?p)
        \<lparr>lv_by_key := (lv_by_key (level_spec W rec ?p))(?kid \<mapsto> sorted_list_of_set (of_key W ?p ?kid - {q})),
         lv_seqs := at_level W ?p - {q}\<rparr>"
      using nonempty rm nil False by (simp add: level_remove_def level_spec_def Let_def)
    then show ?thesis unfolding level_spec_def by_key keys_at_del [of W q w, OF w] at_level_del using False by simp
  qed
qed

lemma levels_spec_remove:
  assumes "finite (dom W)" and w: "W q = Some w"
  shows "(levels_spec W rec)(w_priority w :=
      (let l = level_spec (W(q := None)) rec (w_priority w) in if lv_seqs l = {} then None else Some l)) =
    levels_spec (W(q := None)) rec"
proof
  fix p
  have other: "at_level (W(q := None)) p = at_level W p \<and> level_spec (W(q := None)) rec p = level_spec W rec p"
    if p: "p \<noteq> w_priority w"
  proof -
    have same: "of_key (W(q := None)) p = of_key W p" using of_key_other [of W q w, OF w] p by (auto simp: of_key_del)
    moreover have "at_level (W(q := None)) p = at_level W p" using w p by (auto simp: at_level_def)
    moreover have "keys_at (W(q := None)) p = keys_at W p" by (intro set_eqI) (simp only: keys_at_of_key same)
    ultimately show ?thesis by (simp add: level_spec_def cong: if_cong)
  qed
  have seqs: "lv_seqs (level_spec W' rec p) = at_level W' p" for W' by (simp add: level_spec_def)
  show "((levels_spec W rec)(w_priority w :=
      (let l = level_spec (W(q := None)) rec (w_priority w) in if lv_seqs l = {} then None else Some l))) p =
    levels_spec (W(q := None)) rec p"
    using other seqs by (cases "p = w_priority w") (simp_all add: levels_spec_def Let_def)
qed

lemma deadlines_spec_remove:
  "W q = Some w \<Longrightarrow> deadlines_spec (W(q := None)) =
    (case w_deadline_ms w of Some d \<Rightarrow> deadlines_spec W - {(d, q)} | None \<Rightarrow> deadlines_spec W)"
  by (auto simp: deadlines_spec_def split: option.splits if_splits)

subsection \<open>Keys\<close>

text \<open>A key id belongs to one key, so a key's recency is its own.\<close>

lemma keys_recency_of:
  assumes "keys_ok s" and "q_keys s k = Some st"
  shows "keys_recency s (ks_id st) = ks_recency st" and "q_key_of s (ks_id st) = Some k"
proof -
  show of_id: "q_key_of s (ks_id st) = Some k" using keys_okD(1) [OF assms(1)] assms(2) by blast
  show "keys_recency s (ks_id st) = ks_recency st" using of_id assms(2) by (simp add: keys_recency_def)
qed

lemma key_of_waiter:
  assumes "keys_ok s" and "q_waiters s q = Some w"
  obtains k st where "q_key_of s (w_key_id w) = Some k" and "q_keys s k = Some st" and "ks_id st = w_key_id w"
  using keys_okD(5) [OF assms] keys_okD(1) [OF assms(1)] that by (metis option.exhaust)

lemma key_waiters_upd: "q \<notin> dom W \<Longrightarrow>
    key_waiters (W(q \<mapsto> w)) kid = (if kid = w_key_id w then insert q (key_waiters W kid) else key_waiters W kid)"
  by (auto simp: key_waiters_def split: if_splits)

lemma key_waiters_none: "key_waiters W kid = {} \<longleftrightarrow> (\<forall>q w. W q = Some w \<longrightarrow> w_key_id w \<noteq> kid)"
  by (auto simp: key_waiters_def)

lemma admit_known:
  assumes ok: "keys_ok s" and fin: "finite (dom (q_waiters s))" and new: "q \<notin> dom (q_waiters s)"
    and k: "q_keys s key = Some st"
  shows "keys_ok (s\<lparr>q_keys := (q_keys s)(key \<mapsto> st\<lparr>ks_waiting := ks_waiting st + 1\<rparr>),
      q_waiters := (q_waiters s)(q \<mapsto> \<lparr>w_priority = p, w_deadline_ms = d, w_key_id = ks_id st\<rparr>)\<rparr>)"
    (is "keys_ok ?t")
proof -
  have q: "q \<notin> key_waiters (q_waiters s) kid" for kid using new by (auto simp: key_waiters_def)
  have one: "\<And>k' st'. q_keys s k' = Some st' \<Longrightarrow> ks_id st' = ks_id st \<Longrightarrow> k' = key"
    using keys_recency_of(2) [OF ok] k by (metis option.inject)
  show ?thesis
    unfolding keys_ok_def
  proof (intro conjI allI impI)
    show "q_key_of ?t kid = Some k' \<longleftrightarrow> (\<exists>st. q_keys ?t k' = Some st \<and> ks_id st = kid)" for kid k'
      using keys_okD(1) [OF ok, of kid k'] k by auto
    show "ks_waiting st' = card (key_waiters (q_waiters ?t) (ks_id st'))" if "q_keys ?t k' = Some st'" for k' st'
    proof (cases "k' = key")
      case True
      then have "st' = st\<lparr>ks_waiting := ks_waiting st + 1\<rparr>" using that by simp
      then show ?thesis using keys_okD(4) [OF ok k] finite_key_waiters [OF fin] q by (simp add: key_waiters_upd [OF new])
    next
      case False
      then show ?thesis using that keys_okD(4) [OF ok, of k' st'] one [of k' st'] by (auto simp: key_waiters_upd [OF new])
    qed
    show "q_key_of ?t (w_key_id w) \<noteq> None" if "q_waiters ?t q' = Some w" for q' w
      using that keys_okD(5) [OF ok, of q' w] keys_recency_of(2) [OF ok k] by (auto split: if_splits)
  qed (use keys_okD [OF ok] k in \<open>auto split: if_splits\<close>)
qed

lemma admit_fresh:
  assumes ok: "keys_ok s" and fin: "finite (dom (q_waiters s))" and new: "q \<notin> dom (q_waiters s)"
    and k: "q_keys s key = None"
  shows "keys_ok (s\<lparr>q_next_key_id := q_next_key_id s + 1,
      q_keys := (q_keys s)(key \<mapsto> \<lparr>ks_id = q_next_key_id s, ks_recency = q_recency_floor s, ks_waiting = 1\<rparr>),
      q_key_of := (q_key_of s)(q_next_key_id s \<mapsto> key),
      q_waiters := (q_waiters s)(q \<mapsto> \<lparr>w_priority = p, w_deadline_ms = d, w_key_id = q_next_key_id s\<rparr>)\<rparr>)"
    (is "keys_ok ?t")
proof -
  have lt: "q_keys s k' = Some st' \<Longrightarrow> ks_id st' < q_next_key_id s" for k' st' using keys_okD(2) [OF ok] .
  have none: "key_waiters (q_waiters s) (q_next_key_id s) = {}"
    using key_of_waiter [OF ok] lt unfolding key_waiters_none by (metis less_irrefl)
  show ?thesis
    unfolding keys_ok_def
  proof (intro conjI allI impI)
    show "q_key_of ?t kid = Some k' \<longleftrightarrow> (\<exists>st. q_keys ?t k' = Some st \<and> ks_id st = kid)" for kid k'
      using keys_okD(1) [OF ok, of kid k'] k lt [of k'] by auto
    show "ks_waiting st' = card (key_waiters (q_waiters ?t) (ks_id st'))" if "q_keys ?t k' = Some st'" for k' st'
      using that keys_okD(4) [OF ok, of k' st'] lt [of k' st'] none
      by (auto simp: key_waiters_upd [OF new] split: if_splits)
    show "q_key_of ?t (w_key_id w) \<noteq> None" if "q_waiters ?t q' = Some w" for q' w
      using that keys_okD(5) [OF ok, of q' w] by (auto split: if_splits)
    show "ks_id st' < q_next_key_id ?t" if "q_keys ?t k' = Some st'" for k' st'
      using that lt [of k' st'] by (auto split: if_splits)
  qed (use keys_okD [OF ok] k in \<open>auto split: if_splits\<close>)
qed

text \<open>An arrival: the waiter is added with the next sequence number, and every index follows.\<close>

lemma queue_okI:
  assumes "finite (dom (q_waiters s))" and "\<And>q. q \<in> dom (q_waiters s) \<Longrightarrow> q < q_next_seq s"
    and "q_levels s = levels_spec (q_waiters s) (keys_recency s)" and "q_deadlines s = deadlines_spec (q_waiters s)"
    and "keys_ok s"
  shows "queue_ok s"
  using assms by (simp add: queue_ok_def index_ok_def)

lemma qs_insert_ok:
  assumes ok: "queue_ok s" and ins: "qs_insert s p d key = (seq, s')"
  obtains kid where "queue_ok s'" and "seq = q_next_seq s" and "q_key_of s' kid = Some key"
    and "q_waiters s' = (q_waiters s)(seq \<mapsto> \<lparr>w_priority = p, w_deadline_ms = d, w_key_id = kid\<rparr>)"
    and "q_evicted s' = q_evicted s" and "q_woken s' = q_woken s"
proof -
  note qok = queue_okD [OF ok]
  let ?W = "q_waiters s" and ?q = "q_next_seq s"
  have new: "?q \<notin> dom ?W" using qok(2) by blast
  have dl: "(case d of None \<Rightarrow> q_deadlines s | Some dd \<Rightarrow> insert (dd, ?q) (q_deadlines s)) =
    deadlines_spec (?W(?q \<mapsto> \<lparr>w_priority = p, w_deadline_ms = d, w_key_id = kid\<rparr>))" for kid
    by (cases d) (simp_all add: deadlines_spec_insert [OF new] qok(4))
  have lv: "(q_levels s)(p \<mapsto> level_insert (rec kid) kid ?q (level_of (q_levels s) p)) =
      levels_spec (?W(?q \<mapsto> \<lparr>w_priority = p, w_deadline_ms = d, w_key_id = kid\<rparr>)) rec"
    if "\<And>q w. ?W q = Some w \<Longrightarrow> keys_recency s (w_key_id w) = rec (w_key_id w)" for kid rec
    using levels_spec_insert [OF qok(1,2), of rec "\<lparr>w_priority = p, w_deadline_ms = d, w_key_id = kid\<rparr>"]
      levels_spec_cong [of ?W "keys_recency s" rec] that by (simp add: qok(3))
  show ?thesis
  proof (cases "q_keys s key")
    case (Some st)
    let ?s' = "s\<lparr>q_next_seq := ?q + 1, q_keys := (q_keys s)(key \<mapsto> st\<lparr>ks_waiting := ks_waiting st + 1\<rparr>),
        q_levels := (q_levels s)(p \<mapsto> level_insert (ks_recency st) (ks_id st) ?q (level_of (q_levels s) p)),
        q_deadlines := (case d of None \<Rightarrow> q_deadlines s | Some dd \<Rightarrow> insert (dd, ?q) (q_deadlines s)),
        q_waiters := ?W(?q \<mapsto> \<lparr>w_priority = p, w_deadline_ms = d, w_key_id = ks_id st\<rparr>)\<rparr>"
    have s': "seq = ?q" "s' = ?s'" using ins Some by (cases d; simp add: qs_insert_def qs_admit_key_def Let_def)+
    have rec: "keys_recency ?s' = keys_recency s"
      using Some by (auto simp: keys_recency_def fun_eq_iff split: option.splits)
    have "queue_ok ?s'"
    proof (rule queue_okI)
      show "keys_ok ?s'" by (rule keys_ok_transfer [OF admit_known [OF qok(5,1) new Some, of p d]]) simp_all
      show "q_levels ?s' = levels_spec (q_waiters ?s') (keys_recency ?s')"
        unfolding rec using lv [of "keys_recency s" "ks_id st"] keys_recency_of(1) [OF qok(5) Some] by simp
    qed (use qok dl in \<open>auto intro: less_SucI\<close>)
    moreover have "q_key_of s (ks_id st) = Some key" by (rule keys_recency_of(2) [OF qok(5) Some])
    ultimately show ?thesis using that [of "ks_id st"] s' by simp
  next
    case None
    let ?n = "q_next_key_id s"
    let ?s' = "s\<lparr>q_next_seq := ?q + 1, q_next_key_id := ?n + 1,
        q_keys := (q_keys s)(key \<mapsto> \<lparr>ks_id = ?n, ks_recency = q_recency_floor s, ks_waiting = 1\<rparr>),
        q_key_of := (q_key_of s)(?n \<mapsto> key),
        q_levels := (q_levels s)(p \<mapsto> level_insert (q_recency_floor s) ?n ?q (level_of (q_levels s) p)),
        q_deadlines := (case d of None \<Rightarrow> q_deadlines s | Some dd \<Rightarrow> insert (dd, ?q) (q_deadlines s)),
        q_waiters := ?W(?q \<mapsto> \<lparr>w_priority = p, w_deadline_ms = d, w_key_id = ?n\<rparr>)\<rparr>"
    have s': "seq = ?q" "s' = ?s'" using ins None by (cases d; simp add: qs_insert_def qs_admit_key_def Let_def)+
    have rec: "keys_recency s (w_key_id w) = keys_recency ?s' (w_key_id w)" if w: "?W q = Some w" for q w
    proof -
      obtain k st where k: "q_key_of s (w_key_id w) = Some k" "q_keys s k = Some st" "ks_id st = w_key_id w"
        using key_of_waiter [OF qok(5) w] .
      have "w_key_id w \<noteq> ?n" using keys_okD(2) [OF qok(5) k(2)] k(3) by simp
      then show ?thesis using k None by (auto simp: keys_recency_def)
    qed
    have nrec: "keys_recency ?s' ?n = q_recency_floor s" by (simp add: keys_recency_def)
    have "queue_ok ?s'"
    proof (rule queue_okI)
      show "keys_ok ?s'" by (rule keys_ok_transfer [OF admit_fresh [OF qok(5,1) new None, of p d]]) simp_all
      show "q_levels ?s' = levels_spec (q_waiters ?s') (keys_recency ?s')"
        using lv [of "keys_recency ?s'" ?n, OF rec] nrec by simp
    qed (use qok dl in \<open>auto intro: less_SucI\<close>)
    then show ?thesis using that [of ?n] s' by simp
  qed
qed

text \<open>Pruning drops keys without waiters only, so no index changes.\<close>

lemma maybe_prune_keys_same:
  "q_waiters (maybe_prune_keys s) = q_waiters s" "q_levels (maybe_prune_keys s) = q_levels s"
  "q_deadlines (maybe_prune_keys s) = q_deadlines s" "q_next_seq (maybe_prune_keys s) = q_next_seq s"
  "q_service_seq (maybe_prune_keys s) = q_service_seq s" "q_next_key_id (maybe_prune_keys s) = q_next_key_id s"
  "q_evicted (maybe_prune_keys s) = q_evicted s" "q_woken (maybe_prune_keys s) = q_woken s"
  by (simp_all add: maybe_prune_keys_def Let_def)

lemma maybe_prune_keys_ok:
  assumes ok: "keys_ok s" and fin: "finite (dom (q_waiters s))"
  shows "keys_ok (maybe_prune_keys s)"
    and "q_waiters s q = Some w \<Longrightarrow> keys_recency (maybe_prune_keys s) (w_key_id w) = keys_recency s (w_key_id w)"
proof -
  let ?idle = "{k. \<exists>st. q_keys s k = Some st \<and> ks_waiting st = 0}"
  let ?states = "(\<lambda>k. the (q_keys s k)) ` ?idle"
  let ?t = "s\<lparr>q_keys := (q_keys s) |` (- ?idle), q_key_of := (q_key_of s) |` (- ks_id ` ?states),
      q_recency_floor := Max (insert (q_recency_floor s) (ks_recency ` ?states))\<rparr>"
  have fin_idle: "finite ?idle" by (rule finite_subset [OF _ keys_okD(7) [OF ok]]) auto
  have ids: "kid \<in> ks_id ` ?states \<longleftrightarrow> k \<in> ?idle" if kid: "q_key_of s kid = Some k" for kid k
  proof
    assume "kid \<in> ks_id ` ?states"
    then obtain k' st where k': "k' \<in> ?idle" "q_keys s k' = Some st" "kid = ks_id st" by auto
    then show "k \<in> ?idle" using keys_recency_of(2) [OF ok k'(2)] kid by simp
  next
    assume idle: "k \<in> ?idle"
    obtain st where "q_keys s k = Some st" "ks_id st = kid" using keys_okD(1) [OF ok, of kid k] kid by blast
    then show "kid \<in> ks_id ` ?states" using idle by force
  qed
  have live: "q_key_of ?t (w_key_id w) = q_key_of s (w_key_id w) \<and> q_keys ?t k = q_keys s k"
    if w: "q_waiters s q = Some w" and k: "q_key_of s (w_key_id w) = Some k" for q w k
  proof -
    obtain st where st: "q_keys s k = Some st" "ks_id st = w_key_id w" using keys_okD(1) [OF ok] k by blast
    have "q \<in> key_waiters (q_waiters s) (ks_id st)" using w st by (simp add: key_waiters_def)
    then have "ks_waiting st \<noteq> 0" using keys_okD(4) [OF ok st(1)] finite_key_waiters [OF fin] by auto
    then show ?thesis using ids [OF k] st(1) by (simp add: restrict_map_def)
  qed
  have "keys_ok ?t"
    unfolding keys_ok_def
  proof (intro conjI allI impI)
    show "q_key_of ?t kid = Some k \<longleftrightarrow> (\<exists>st. q_keys ?t k = Some st \<and> ks_id st = kid)" for kid k
    proof -
      have "q_key_of ?t kid = Some k \<longleftrightarrow> q_key_of s kid = Some k \<and> k \<notin> ?idle"
        using ids [of kid k] by (auto simp: restrict_map_def)
      also have "\<dots> \<longleftrightarrow> (\<exists>st. q_keys ?t k = Some st \<and> ks_id st = kid)"
        using keys_okD(1) [OF ok, of kid k] by (auto simp: restrict_map_def)
      finally show ?thesis .
    qed
    show "q_key_of ?t (w_key_id w) \<noteq> None" if w: "q_waiters ?t q = Some w" for q w
      using live [of q w] keys_okD(5) [OF ok, of q w] w by auto
    show "q_recency_floor ?t \<le> q_service_seq ?t"
      using keys_okD(3,6) [OF ok] fin_idle by auto
    show "finite (dom (q_keys ?t))" using keys_okD(7) [OF ok] by simp
  qed (use keys_okD [OF ok] in \<open>auto simp: restrict_map_def split: if_splits\<close>)
  then show "keys_ok (maybe_prune_keys s)" using ok by (simp add: maybe_prune_keys_def Let_def)
  show "keys_recency (maybe_prune_keys s) (w_key_id w) = keys_recency s (w_key_id w)" if w: "q_waiters s q = Some w"
  proof -
    obtain k st where k: "q_key_of s (w_key_id w) = Some k" "q_keys s k = Some st" using key_of_waiter [OF ok w] by metis
    have "keys_recency ?t (w_key_id w) = keys_recency s (w_key_id w)"
      using live [OF w k(1)] k by (simp add: keys_recency_def)
    then show ?thesis by (simp add: maybe_prune_keys_def Let_def)
  qed
qed

text \<open>A departure: the waiter is taken out, every index follows.\<close>

lemma qs_remove_none: "q_waiters s seq = None \<Longrightarrow> qs_remove s seq = (None, s)"
  by (simp add: qs_remove_def)

lemma leave_keys_ok:
  assumes ok: "keys_ok s" and fin: "finite (dom (q_waiters s))" and w: "q_waiters s q = Some w"
    and k: "q_key_of s (w_key_id w) = Some key" "q_keys s key = Some st"
  shows "keys_ok (s\<lparr>q_waiters := (q_waiters s)(q := None),
      q_keys := (q_keys s)(key \<mapsto> st\<lparr>ks_waiting := ks_waiting st - 1\<rparr>)\<rparr>)" (is "keys_ok ?t")
proof -
  have kid: "ks_id st = w_key_id w" using keys_okD(1) [OF ok, of "w_key_id w" key] k by auto
  have mem: "q \<in> key_waiters (q_waiters s) (ks_id st)" using w kid by (simp add: key_waiters_def)
  have other: "q \<notin> key_waiters (q_waiters s) (ks_id st')" if "q_keys s k' = Some st'" "k' \<noteq> key" for k' st'
    using keys_recency_of(2) [OF ok that(1)] k(1) that(2) w by (auto simp: key_waiters_def)
  show ?thesis
    unfolding keys_ok_def
  proof (intro conjI allI impI)
    show "q_key_of ?t kid = Some k' \<longleftrightarrow> (\<exists>st. q_keys ?t k' = Some st \<and> ks_id st = kid)" for kid k'
      using keys_okD(1) [OF ok, of kid k'] k by auto
    show "ks_waiting st' = card (key_waiters (q_waiters ?t) (ks_id st'))" if "q_keys ?t k' = Some st'" for k' st'
    proof (cases "k' = key")
      case True
      then have "st' = st\<lparr>ks_waiting := ks_waiting st - 1\<rparr>" using that by simp
      then show ?thesis using keys_okD(4) [OF ok k(2)] mem by (simp add: key_waiters_del)
    next
      case False
      then show ?thesis using that keys_okD(4) [OF ok, of k' st'] other [of k' st'] by (simp add: key_waiters_del)
    qed
    show "q_key_of ?t (w_key_id w') \<noteq> None" if "q_waiters ?t q' = Some w'" for q' w'
      using that keys_okD(5) [OF ok, of q' w'] by (auto split: if_splits)
  qed (use keys_okD(2,3,6,7) [OF ok] k(2) in \<open>auto split: if_splits\<close>)
qed

lemma qs_remove_eq:
  assumes ok: "queue_ok s" and w: "q_waiters s q = Some w"
    and k: "q_key_of s (w_key_id w) = Some key" "q_keys s key = Some st"
  shows "qs_remove s q = (Some w, maybe_prune_keys (s\<lparr>q_waiters := (q_waiters s)(q := None),
      q_levels := levels_spec ((q_waiters s)(q := None)) (keys_recency s),
      q_deadlines := deadlines_spec ((q_waiters s)(q := None)),
      q_keys := (q_keys s)(key \<mapsto> st\<lparr>ks_waiting := ks_waiting st - 1\<rparr>)\<rparr>))"
proof -
  note qok = queue_okD [OF ok]
  let ?W = "q_waiters s" and ?p = "w_priority w" and ?rec = "keys_recency s"
  have lv: "q_levels s ?p = Some (level_spec ?W ?rec ?p)"
    using w by (auto simp: qok(3) levels_spec_def at_level_def)
  note lv_rm = level_remove_spec [OF qok(1) w, of ?rec]
  have lvs: "(q_levels s)(?p := (if lv_seqs (level_spec (?W(q := None)) ?rec ?p) = {} then None
      else Some (level_spec (?W(q := None)) ?rec ?p))) = levels_spec (?W(q := None)) ?rec"
    using levels_spec_remove [OF qok(1) w, of ?rec] by (simp add: qok(3) Let_def)
  have rec: "keys_recency (s\<lparr>q_waiters := ?W(q := None)\<rparr>) = ?rec" by (simp add: keys_recency_def fun_eq_iff split: option.split)
  have dl: "(case w_deadline_ms w of None \<Rightarrow> q_deadlines s | Some d \<Rightarrow> q_deadlines s - {(d, q)}) =
      deadlines_spec (?W(q := None))"
    using deadlines_spec_remove [of ?W q w, OF w] by (cases "w_deadline_ms w") (simp_all add: qok(4))
  have "qs_remove s q = (Some w, maybe_prune_keys (s\<lparr>q_waiters := ?W(q := None),
      q_levels := (q_levels s)(?p := (if lv_seqs (level_spec (?W(q := None)) ?rec ?p) = {} then None
        else Some (level_spec (?W(q := None)) ?rec ?p))),
      q_deadlines := (case w_deadline_ms w of None \<Rightarrow> q_deadlines s | Some d \<Rightarrow> q_deadlines s - {(d, q)}),
      q_keys := (q_keys s)(key \<mapsto> st\<lparr>ks_waiting := ks_waiting st - 1\<rparr>)\<rparr>))"
    by (cases "w_deadline_ms w") (simp_all add: qs_remove_def w Let_def rec lv lv_rm k del: fun_upd_apply)
  then show ?thesis unfolding lvs dl .
qed

lemma qs_remove_ok:
  assumes ok: "queue_ok s" and w: "q_waiters s q = Some w"
  obtains s' where "qs_remove s q = (Some w, s')" and "queue_ok s'" and "q_waiters s' = (q_waiters s)(q := None)"
    and "\<And>q' w'. q_waiters s' q' = Some w' \<Longrightarrow> keys_recency s' (w_key_id w') = keys_recency s (w_key_id w')"
    and "q_evicted s' = q_evicted s" and "q_woken s' = q_woken s" and "q_next_seq s' = q_next_seq s"
    and "q_service_seq s' = q_service_seq s"
proof -
  note qok = queue_okD [OF ok]
  obtain key st where k: "q_key_of s (w_key_id w) = Some key" "q_keys s key = Some st" "ks_id st = w_key_id w"
    using key_of_waiter [OF qok(5) w] .
  let ?W = "(q_waiters s)(q := None)"
  let ?t = "s\<lparr>q_waiters := ?W, q_levels := levels_spec ?W (keys_recency s), q_deadlines := deadlines_spec ?W,
      q_keys := (q_keys s)(key \<mapsto> st\<lparr>ks_waiting := ks_waiting st - 1\<rparr>)\<rparr>"
  have fin: "finite (dom ?W)" using qok(1) by simp
  have tok: "keys_ok ?t" by (rule keys_ok_transfer [OF leave_keys_ok [OF qok(5,1) w k(1,2)]]) simp_all
  have trec: "keys_recency ?t = keys_recency s"
    using k(2) by (auto simp: keys_recency_def fun_eq_iff split: option.splits)
  have fin_t: "finite (dom (q_waiters ?t))" using fin by simp
  note prune = maybe_prune_keys_ok [OF tok fin_t]
  let ?s' = "maybe_prune_keys ?t"
  have rec: "keys_recency ?s' (w_key_id w') = keys_recency s (w_key_id w')" if "?W q' = Some w'" for q' w'
    using prune(2) [of q' w'] that unfolding trec by simp
  have "queue_ok ?s'"
  proof (rule queue_okI)
    show "q_levels ?s' = levels_spec (q_waiters ?s') (keys_recency ?s')"
      using levels_spec_cong [of ?W "keys_recency s" "keys_recency ?s'"] rec by (simp add: maybe_prune_keys_same)
    show "q' < q_next_seq ?s'" if "q' \<in> dom (q_waiters ?s')" for q'
      using that qok(2) [of q'] by (auto simp: maybe_prune_keys_same split: if_splits)
  qed (use prune(1) fin in \<open>simp_all add: maybe_prune_keys_same\<close>)
  then show ?thesis
    using that [OF qs_remove_eq [OF ok w k(1,2)]] rec by (simp add: maybe_prune_keys_same)
qed

subsection \<open>Service and eviction\<close>

lemma restamp_spec:
  "restamp (rec kid) stamp kid (level_spec W rec p) = level_spec W (rec(kid := stamp)) p"
proof (cases "kid \<in> keys_at W p")
  case True
  then have "(\<lambda>k. ((rec(kid := stamp)) k, k)) ` keys_at W p =
      insert (stamp, kid) ((\<lambda>k. (rec k, k)) ` keys_at W p - {(rec kid, kid)})"
    by (auto simp: image_iff)
  then show ?thesis using True by (simp add: restamp_def level_spec_def image_iff)
next
  case False
  then have "(\<lambda>k. ((rec(kid := stamp)) k, k)) ` keys_at W p = (\<lambda>k. (rec k, k)) ` keys_at W p"
    by (intro image_cong) auto
  then show ?thesis using False by (auto simp: restamp_def level_spec_def image_iff)
qed

lemma serve_ok:
  assumes ok: "queue_ok s" and w: "q_waiters s q = Some w"
  obtains "queue_ok (serve s q)" and "q_waiters (serve s q) = (q_waiters s)(q := None)"
    and "\<And>q' w'. q_waiters (serve s q) q' = Some w' \<Longrightarrow> keys_recency (serve s q) (w_key_id w') =
      (if w_key_id w' = w_key_id w then q_service_seq s + 1 else keys_recency s (w_key_id w'))"
    and "q_evicted (serve s q) = q_evicted s" and "q_woken (serve s q) = q_woken s"
    and "q_next_seq (serve s q) = q_next_seq s"
    and "\<exists>t. serve s q = snd (qs_remove t q) \<and> queue_ok t \<and> q_waiters t = q_waiters s \<and>
      dom (q_keys t) = dom (q_keys s) \<and> q_prune_at t = q_prune_at s"
proof -
  note qok = queue_okD [OF ok]
  let ?kid = "w_key_id w" and ?stamp = "q_service_seq s + 1"
  obtain key st where k: "q_key_of s ?kid = Some key" "q_keys s key = Some st" "ks_id st = ?kid"
    using key_of_waiter [OF qok(5) w] .
  let ?t = "s\<lparr>q_service_seq := ?stamp, q_keys := (q_keys s)(key \<mapsto> st\<lparr>ks_recency := ?stamp\<rparr>),
      q_levels := (\<lambda>p. map_option (restamp (ks_recency st) ?stamp ?kid) (q_levels s p))\<rparr>"
  have serve: "serve s q = snd (qs_remove ?t q)" using w k by (simp add: serve_def Let_def)
  have key_rec: "keys_recency s ?kid = ks_recency st" using k by (simp add: keys_recency_def)
  have rec: "keys_recency ?t = (keys_recency s)(?kid := ?stamp)"
  proof
    fix kid
    show "keys_recency ?t kid = ((keys_recency s)(?kid := ?stamp)) kid"
    proof (cases "q_key_of s kid = Some key")
      case True
      then have "kid = ?kid" using keys_okD(1) [OF qok(5), of kid key] k by auto
      then show ?thesis using k by (simp add: keys_recency_def)
    next
      case False
      then have "kid \<noteq> ?kid" using k(1) by auto
      then show ?thesis using False by (auto simp: keys_recency_def split: option.split)
    qed
  qed
  have "keys_ok ?t"
    unfolding keys_ok_def
  proof (intro conjI allI impI)
    show "q_key_of ?t kid = Some k' \<longleftrightarrow> (\<exists>st. q_keys ?t k' = Some st \<and> ks_id st = kid)" for kid k'
      using keys_okD(1) [OF qok(5), of kid k'] k by auto
    show "ks_waiting st' = card (key_waiters (q_waiters ?t) (ks_id st'))" if "q_keys ?t k' = Some st'" for k' st'
      using that keys_okD(4) [OF qok(5), of k' st'] keys_okD(4) [OF qok(5) k(2)] by (auto split: if_splits)
    show "ks_recency st' \<le> q_service_seq ?t" if "q_keys ?t k' = Some st'" for k' st'
      using that keys_okD(3) [OF qok(5), of k' st'] by (auto split: if_splits)
    show "q_key_of ?t (w_key_id w') \<noteq> None" if "q_waiters ?t q' = Some w'" for q' w'
      using that keys_okD(5) [OF qok(5), of q' w'] by simp
  qed (use keys_okD(2,6,7) [OF qok(5)] k(2) in \<open>auto split: if_splits\<close>)
  moreover have "q_levels ?t = levels_spec (q_waiters ?t) (keys_recency ?t)"
    unfolding rec using restamp_spec [of "keys_recency s" ?kid ?stamp "q_waiters s"]
    by (simp add: qok(3) levels_spec_def fun_eq_iff key_rec)
  ultimately have tok: "queue_ok ?t"
    using qok(1,2,4) by (intro queue_okI) simp_all
  have tw: "q_waiters ?t q = Some w" using w by simp
  obtain s' where s': "qs_remove ?t q = (Some w, s')" "queue_ok s'" "q_waiters s' = (q_waiters ?t)(q := None)"
    "\<And>q' w'. q_waiters s' q' = Some w' \<Longrightarrow> keys_recency s' (w_key_id w') = keys_recency ?t (w_key_id w')"
    "q_evicted s' = q_evicted ?t" "q_woken s' = q_woken ?t" "q_next_seq s' = q_next_seq ?t"
    using qs_remove_ok [OF tok tw] by metis
  have "serve s q = snd (qs_remove ?t q) \<and> queue_ok ?t \<and> q_waiters ?t = q_waiters s \<and>
      dom (q_keys ?t) = dom (q_keys s) \<and> q_prune_at ?t = q_prune_at s"
    using serve tok k(2) by auto
  then have split: "\<exists>t. serve s q = snd (qs_remove t q) \<and> queue_ok t \<and> q_waiters t = q_waiters s \<and>
      dom (q_keys t) = dom (q_keys s) \<and> q_prune_at t = q_prune_at s" by (rule exI [of _ ?t])
  have serve': "serve s q = s'" unfolding serve s'(1) by simp
  show ?thesis using that [OF _ _ _ _ _ _ split] s'(2,3,5-7) s'(4) [unfolded rec fun_upd_apply] serve' by simp
qed

subsection \<open>The number of keys\<close>

definition keys_within :: "usize \<Rightarrow> 'k qstate \<Rightarrow> bool" where
  "keys_within n s \<longleftrightarrow> q_prune_at s = n \<and> card (dom (q_keys s)) \<le> n + card (dom (q_waiters s))"

lemma busy_keys:
  assumes ok: "keys_ok s" and fin: "finite (dom (q_waiters s))"
    and busy: "\<And>k st. q_keys s k = Some st \<Longrightarrow> ks_waiting st \<noteq> 0"
  shows "card (dom (q_keys s)) \<le> card (dom (q_waiters s))"
proof -
  let ?owner = "\<lambda>q. the (q_key_of s (w_key_id (the (q_waiters s q))))"
  have "dom (q_keys s) \<subseteq> ?owner ` dom (q_waiters s)"
  proof
    fix k assume "k \<in> dom (q_keys s)"
    then obtain st where k: "q_keys s k = Some st" by blast
    have "key_waiters (q_waiters s) (ks_id st) \<noteq> {}" using busy [OF k] keys_okD(4) [OF ok k] by auto
    then obtain q w where "q_waiters s q = Some w" "w_key_id w = ks_id st" by (auto simp: key_waiters_def)
    then show "k \<in> ?owner ` dom (q_waiters s)" using keys_recency_of(2) [OF ok k] by force
  qed
  then show ?thesis using fin by (meson card_image_le card_mono finite_imageI le_trans)
qed

lemma qs_remove_within:
  assumes ok: "queue_ok s" and within: "keys_within n s"
  shows "keys_within n (snd (qs_remove s q))"
proof (cases "q_waiters s q")
  case None
  then show ?thesis using within by (simp add: qs_remove_none)
next
  case (Some w)
  obtain r where r: "qs_remove s q = (Some w, r)" "queue_ok r" using qs_remove_ok [OF ok Some] by metis
  obtain key st where k: "q_key_of s (w_key_id w) = Some key" "q_keys s key = Some st"
    using key_of_waiter [OF queue_okD(5) [OF ok] Some] by metis
  obtain t where t: "r = maybe_prune_keys t" "q_prune_at t = q_prune_at s"
    using qs_remove_eq [OF ok Some k] r(1) by (metis (no_types, lifting) prod.inject qstate.select_convs(10)
      qstate.surjective qstate.update_convs(1,2,3,4))
  show ?thesis
  proof (cases "card (dom (q_keys t)) \<le> q_prune_at t")
    case True
    then show ?thesis using t within r(1) by (simp add: keys_within_def maybe_prune_keys_def)
  next
    case False
    then have "q_keys r k = Some st \<Longrightarrow> ks_waiting st \<noteq> 0" for k st
      unfolding t(1) by (auto simp: maybe_prune_keys_def Let_def restrict_map_def split: if_splits)
    then have "card (dom (q_keys r)) \<le> card (dom (q_waiters r))"
      by (intro busy_keys queue_okD(5,1) [OF r(2)])
    moreover have "q_prune_at r = n" using t within by (simp add: keys_within_def maybe_prune_keys_def Let_def)
    ultimately show ?thesis using r(1) by (simp add: keys_within_def)
  qed
qed

lemma qs_insert_within:
  assumes ok: "queue_ok s" and within: "keys_within n s" and ins: "qs_insert s p d key = (seq, s')"
  shows "keys_within n s'"
proof -
  have new: "q_next_seq s \<notin> dom (q_waiters s)" using queue_okD(2) [OF ok] by blast
  have fin: "finite (dom (q_waiters s))" "finite (dom (q_keys s))"
    using queue_okD(1) [OF ok] keys_okD(7) [OF queue_okD(5) [OF ok]] by auto
  obtain kid where "q_waiters s' = (q_waiters s)(q_next_seq s \<mapsto> \<lparr>w_priority = p, w_deadline_ms = d, w_key_id = kid\<rparr>)"
    using qs_insert_ok [OF ok ins] by metis
  then have "card (dom (q_waiters s')) = card (dom (q_waiters s)) + 1" using fin(1) new by simp
  moreover have "dom (q_keys s') = insert key (dom (q_keys s))" "q_prune_at s' = q_prune_at s"
    using ins by (auto simp: qs_insert_def qs_admit_key_def Let_def split: option.splits)
  moreover have "card (insert key (dom (q_keys s))) \<le> card (dom (q_keys s)) + 1"
    using fin(2) by (simp add: card_insert_if)
  ultimately show ?thesis using within by (simp add: keys_within_def)
qed

end
