(* ===== verification/Queue_Service.thy ===== *)
theory Queue_Service
  imports Queue_Laws
begin

text \<open>
  What the waiting queue promises: expired waiters are dropped and nothing else is, the
  turn goes to the waiter a plain scan would pick, keys of equal priority take turns, the
  number of waiters never exceeds the capacity, and no critical section loops.
\<close>

subsection \<open>Expired waiters\<close>

definition waiter_expired :: "u64 \<Rightarrow> waiter \<Rightarrow> bool" where
  "waiter_expired now w \<longleftrightarrow> (case w_deadline_ms w of None \<Rightarrow> False | Some d \<Rightarrow> d \<le> now)"

definition unexpired :: "u64 \<Rightarrow> (u64 \<rightharpoonup> waiter) \<Rightarrow> u64 \<rightharpoonup> waiter" where
  "unexpired now W = (\<lambda>q. case W q of None \<Rightarrow> None | Some w \<Rightarrow> if waiter_expired now w then None else Some w)"

lemma unexpired_Some: "unexpired now W q = Some w \<longleftrightarrow> W q = Some w \<and> \<not> waiter_expired now w"
  by (auto simp: unexpired_def split: option.splits)

lemma unexpired_del: "W q = Some w \<Longrightarrow> waiter_expired now w \<Longrightarrow> unexpired now (W(q := None)) = unexpired now W"
  by (auto simp: unexpired_def fun_eq_iff)

lemma dom_unexpired: "dom (unexpired now W) \<subseteq> dom W"
  by (auto simp: unexpired_Some dom_def)

lemma finite_deadlines_spec: "finite (dom W) \<Longrightarrow> finite (deadlines_spec W)"
proof -
  assume "finite (dom W)"
  moreover have "deadlines_spec W \<subseteq> (\<lambda>q. (the (w_deadline_ms (the (W q))), q)) ` dom W"
    by (force simp: deadlines_spec_def)
  ultimately show ?thesis by (meson finite_imageI finite_subset)
qed

lemma no_deadline_due:
  assumes "finite (dom W)" and "deadlines_spec W = {} \<or> now < fst (Min (deadlines_spec W))"
  shows "unexpired now W = W"
proof -
  have "\<not> waiter_expired now w" if w: "W q = Some w" for q w
  proof
    assume "waiter_expired now w"
    then obtain d where d: "w_deadline_ms w = Some d" "d \<le> now" by (auto simp: waiter_expired_def split: option.splits)
    then have mem: "(d, q) \<in> deadlines_spec W" using w by (simp add: deadlines_spec_def)
    then have "Min (deadlines_spec W) \<le> (d, q)" using finite_deadlines_spec [OF assms(1)] by simp
    then have "fst (Min (deadlines_spec W)) \<le> d" by (auto simp: less_eq_prod_def)
    then show False using assms(2) mem d(2) by auto
  qed
  then show ?thesis by (auto simp: unexpired_def fun_eq_iff split: option.split)
qed

text \<open>Pruning ends, and leaves exactly the waiters whose deadline lies ahead.\<close>

lemma prune_expired_ok:
  assumes "queue_ok s"
  obtains s' where "prune_expired now s = Some s'" and "queue_ok s'" and "q_waiters s' = unexpired now (q_waiters s)"
    and "\<And>q w. q_waiters s' q = Some w \<Longrightarrow> keys_recency s' (w_key_id w) = keys_recency s (w_key_id w)"
    and "q_evicted s' = q_evicted s" and "q_woken s' = q_woken s" and "q_next_seq s' = q_next_seq s"
  using assms
proof (induction "card (dom (q_waiters s))" arbitrary: s thesis rule: less_induct)
  case less
  note qok = queue_okD [OF less.prems(2)]
  note fin = finite_deadlines_spec [OF qok(1)]
  show ?case
  proof (cases "q_deadlines s \<noteq> {} \<and> fst (Min (q_deadlines s)) \<le> now")
    case False
    then have "prune_expired now s = Some s" by (subst prune_expired.simps) (auto split: prod.split)
    moreover have "q_waiters s = unexpired now (q_waiters s)"
      using no_deadline_due [OF qok(1), of now] False unfolding qok(4) by force
    ultimately show ?thesis using less.prems by blast
  next
    case True
    obtain d q where m: "Min (q_deadlines s) = (d, q)" by fastforce
    then have "(d, q) \<in> deadlines_spec (q_waiters s)" using Min_in [of "q_deadlines s"] True fin by (simp add: qok(4))
    then obtain w where w: "q_waiters s q = Some w" "w_deadline_ms w = Some d" by (auto simp: deadlines_spec_def)
    have late: "waiter_expired now w" using w(2) True m by (simp add: waiter_expired_def)
    obtain t where t: "qs_remove s q = (Some w, t)" "queue_ok t" "q_waiters t = (q_waiters s)(q := None)"
      "\<And>q' w'. q_waiters t q' = Some w' \<Longrightarrow> keys_recency t (w_key_id w') = keys_recency s (w_key_id w')"
      "q_evicted t = q_evicted s" "q_woken t = q_woken s" "q_next_seq t = q_next_seq s"
      using qs_remove_ok [OF less.prems(2) w(1)] by metis
    have "card (dom (q_waiters t)) < card (dom (q_waiters s))"
      using w(1) qok(1) unfolding t(3) dom_fun_upd by (auto intro: card_Diff1_less)
    then obtain s' where s': "prune_expired now t = Some s'" "queue_ok s'" "q_waiters s' = unexpired now (q_waiters t)"
      "\<And>q w. q_waiters s' q = Some w \<Longrightarrow> keys_recency s' (w_key_id w) = keys_recency t (w_key_id w)"
      "q_evicted s' = q_evicted t" "q_woken s' = q_woken t" "q_next_seq s' = q_next_seq t"
      using less.hyps [OF _ _ t(2)] by metis
    have "prune_expired now s = Some s'" using True m t(1) s'(1) by (subst prune_expired.simps) simp
    moreover have "q_waiters s' = unexpired now (q_waiters s)"
      using s'(3) unexpired_del [of "q_waiters s" q w, OF w(1) late] t(3) by simp
    moreover have "keys_recency s' (w_key_id w') = keys_recency s (w_key_id w')" if "q_waiters s' q' = Some w'" for q' w'
      using s'(3,4) t(4) that by (metis unexpired_Some)
    ultimately show ?thesis using less.prems(1) s'(2,5-7) t(5-7) by simp
  qed
qed

subsection \<open>The turn\<close>

text \<open>
  The reference: scan all waiters for the highest priority, then the least recently served
  key (ties by key id), then the earliest arrival.
\<close>

definition rank :: "(u64 \<Rightarrow> u64) \<Rightarrow> (u64 \<rightharpoonup> waiter) \<Rightarrow> u64 \<Rightarrow> int \<times> u64 \<times> u64 \<times> u64" where
  "rank rec W q = (let w = the (W q) in (- int (w_priority w), rec (w_key_id w), w_key_id w, q))"

definition scan_turn :: "(u64 \<Rightarrow> u64) \<Rightarrow> (u64 \<rightharpoonup> waiter) \<Rightarrow> u64 option" where
  "scan_turn rec W = (if dom W = {} then None else Some (snd (snd (snd (Min (rank rec W ` dom W))))))"

lemma dom_levels_spec: "dom (levels_spec W rec) = w_priority ` ran W"
  by (force simp: levels_spec_def at_level_def ran_def dom_def split: if_splits)

lemma finite_levels: "finite (dom W) \<Longrightarrow> finite (dom (levels_spec W rec))"
  by (simp add: dom_levels_spec finite_ran)

lemma front_waiter_scan:
  assumes ok: "queue_ok s"
  shows "front_waiter s = scan_turn (keys_recency s) (q_waiters s)"
proof (cases "dom (q_waiters s) = {}")
  case True
  then have "q_waiters s = Map.empty" by simp
  then have "q_levels s = Map.empty" using queue_okD(3) [OF ok] by (simp add: levels_spec_def at_level_def)
  then show ?thesis using True by (simp add: front_waiter_def scan_turn_def)
next
  case False
  note qok = queue_okD [OF ok]
  let ?W = "q_waiters s" and ?rec = "keys_recency s"
  let ?D = "dom (q_levels s)"
  have D: "finite ?D" "?D \<noteq> {}"
    using finite_ran [OF qok(1)] False unfolding qok(3) dom_levels_spec by (auto simp: ran_def dom_def)
  define p where "p = Max ?D"
  have p: "p \<in> ?D" "\<And>p'. p' \<in> ?D \<Longrightarrow> p' \<le> p" using D by (simp_all add: p_def)
  have lv: "q_levels s p = Some (level_spec ?W ?rec p)" "at_level ?W p \<noteq> {}"
    using p(1) by (auto simp: qok(3) levels_spec_def dom_def split: if_splits)
  let ?O = "(\<lambda>k. (?rec k, k)) ` keys_at ?W p"
  have "keys_at ?W p \<subseteq> (\<lambda>q. w_key_id (the (?W q))) ` dom ?W" by (force simp: keys_at_def)
  then have O: "finite ?O" "?O \<noteq> {}"
    using lv(2) finite_subset [OF _ finite_imageI [OF qok(1)]] by (auto simp: at_level_def keys_at_def)
  obtain r kid where m: "Min ?O = (r, kid)" by fastforce
  then have kid: "kid \<in> keys_at ?W p" "r = ?rec kid" using Min_in [OF O] by auto
  then have Q: "of_key ?W p kid \<noteq> {}" "finite (of_key ?W p kid)"
    using finite_of_key [OF qok(1)] by (simp_all add: keys_at_of_key)
  define q where "q = Min (of_key ?W p kid)"
  have "sorted_list_of_set (of_key ?W p kid) \<noteq> []" using Q by simp
  then have front: "front_waiter s = Some q"
    using D(2) O(2) lv m Q by (auto simp: front_waiter_def p_def [symmetric] level_spec_def q_def
      sorted_list_of_set_nonempty split: list.split)
  have "q \<in> of_key ?W p kid" unfolding q_def using Q by (intro Min_in)
  then obtain w where w: "?W q = Some w" "w_priority w = p" "w_key_id w = kid" by (auto simp: of_key_def)
  have "Min (rank ?rec ?W ` dom ?W) = rank ?rec ?W q"
  proof (rule Min_eqI)
    fix y assume "y \<in> rank ?rec ?W ` dom ?W"
    then obtain q' w' where q': "?W q' = Some w'" "y = rank ?rec ?W q'" by auto
    have "w_priority w' \<in> ?D" using q'(1) by (auto simp: qok(3) dom_levels_spec ran_def)
    then have le: "w_priority w' \<le> p" by (rule p(2))
    moreover have "(?rec kid, kid) \<le> (?rec (w_key_id w'), w_key_id w')" if "w_priority w' = p"
    proof -
      have "(?rec (w_key_id w'), w_key_id w') \<in> ?O" using q'(1) that by (force simp: keys_at_def)
      then show ?thesis using Min_le [OF O(1)] m kid(2) by metis
    qed
    moreover have "q \<le> q'" if "w_priority w' = p" "w_key_id w' = kid"
      unfolding q_def using Q q'(1) that by (intro Min_le) (auto simp: of_key_def)
    ultimately show "rank ?rec ?W q \<le> y"
      using w q' by (cases "w_priority w' = p") (auto simp: rank_def Let_def less_eq_prod_def)
  qed (use qok(1) w in auto)
  then show ?thesis using False front by (simp add: scan_turn_def rank_def Let_def)
qed

lemma scan_turn_cong:
  assumes "\<And>q w. W q = Some w \<Longrightarrow> rec (w_key_id w) = rec' (w_key_id w)"
  shows "scan_turn rec W = scan_turn rec' W"
proof -
  have "rank rec W ` dom W = rank rec' W ` dom W"
    using assms by (intro image_cong refl) (auto simp: rank_def Let_def)
  then show ?thesis by (simp add: scan_turn_def)
qed

subsection \<open>The critical sections\<close>

lemma keys_recency_signals [simp]:
  "keys_recency (s\<lparr>q_woken := x\<rparr>) = keys_recency s" "keys_recency (s\<lparr>q_evicted := y\<rparr>) = keys_recency s"
  by (simp_all add: keys_recency_def fun_eq_iff split: option.split)

lemma queue_ok_signals [simp]:
  "queue_ok (s\<lparr>q_woken := x\<rparr>) = queue_ok s" "queue_ok (s\<lparr>q_evicted := y\<rparr>) = queue_ok s"
proof -
  have "keys_ok (s\<lparr>q_woken := x\<rparr>) = keys_ok s" "keys_ok (s\<lparr>q_evicted := y\<rparr>) = keys_ok s"
    by (auto elim: keys_ok_transfer)
  then show "queue_ok (s\<lparr>q_woken := x\<rparr>) = queue_ok s" "queue_ok (s\<lparr>q_evicted := y\<rparr>) = queue_ok s"
    by (simp_all add: queue_ok_def index_ok_def)
qed

lemma winner_ok:
  assumes "queue_ok s"
  obtains s' where "winner s now = Some (scan_turn (keys_recency s) (unexpired now (q_waiters s)), s')"
    and "prune_expired now s = Some s'" and "queue_ok s'" and "q_waiters s' = unexpired now (q_waiters s)"
    and "\<And>q w. q_waiters s' q = Some w \<Longrightarrow> keys_recency s' (w_key_id w) = keys_recency s (w_key_id w)"
    and "q_evicted s' = q_evicted s" and "q_woken s' = q_woken s" and "q_next_seq s' = q_next_seq s"
proof -
  obtain s' where s': "prune_expired now s = Some s'" "queue_ok s'" "q_waiters s' = unexpired now (q_waiters s)"
    "\<And>q w. q_waiters s' q = Some w \<Longrightarrow> keys_recency s' (w_key_id w) = keys_recency s (w_key_id w)"
    "q_evicted s' = q_evicted s" "q_woken s' = q_woken s" "q_next_seq s' = q_next_seq s"
    using prune_expired_ok [OF assms, of now] by metis
  have "front_waiter s' = scan_turn (keys_recency s) (unexpired now (q_waiters s))"
    using front_waiter_scan [OF s'(2)] scan_turn_cong [of "q_waiters s'" "keys_recency s'" "keys_recency s"] s'(3,4) by simp
  then show ?thesis using that s' by (simp add: winner_def)
qed

lemma scan_turn_best:
  assumes "finite (dom W)" and "scan_turn rec W = Some q"
  shows "q \<in> dom W" and "q' \<in> dom W \<Longrightarrow> rank rec W q \<le> rank rec W q'"
proof -
  let ?R = "rank rec W ` dom W"
  have ne: "dom W \<noteq> {}" and q: "q = snd (snd (snd (Min ?R)))"
    using assms(2) by (auto simp: scan_turn_def split: if_splits)
  have "Min ?R \<in> ?R" using assms(1) ne by (intro Min_in) simp_all
  then obtain x where x: "x \<in> dom W" "Min ?R = rank rec W x" by blast
  then have "q = x" unfolding q by (simp add: rank_def Let_def)
  then show "q \<in> dom W" "q' \<in> dom W \<Longrightarrow> rank rec W q \<le> rank rec W q'"
    using x assms(1) Min_le [of ?R] by auto
qed

lemma scan_turn_none: "scan_turn rec W = None \<longleftrightarrow> W = Map.empty"
  by (auto simp: scan_turn_def)

lemma wake_winner_ok:
  assumes "queue_ok s"
  obtains s' where "wake_winner s now = Some s'" and "queue_ok s'" and "q_waiters s' = unexpired now (q_waiters s)"
    and "\<And>q w. q_waiters s' q = Some w \<Longrightarrow> keys_recency s' (w_key_id w) = keys_recency s (w_key_id w)"
    and "q_woken s' = q_woken s \<union> set_option (scan_turn (keys_recency s) (unexpired now (q_waiters s)))"
    and "q_evicted s' = q_evicted s" and "q_next_seq s' = q_next_seq s"
proof -
  obtain s' where s': "winner s now = Some (scan_turn (keys_recency s) (unexpired now (q_waiters s)), s')" "queue_ok s'"
    "q_waiters s' = unexpired now (q_waiters s)"
    "\<And>q w. q_waiters s' q = Some w \<Longrightarrow> keys_recency s' (w_key_id w) = keys_recency s (w_key_id w)"
    "q_evicted s' = q_evicted s" "q_woken s' = q_woken s" "q_next_seq s' = q_next_seq s"
    using winner_ok [OF assms, of now] by metis
  show ?thesis
  proof (cases "scan_turn (keys_recency s) (unexpired now (q_waiters s))")
    case None
    then show ?thesis using that [of s'] s' by (simp add: wake_winner_def)
  next
    case (Some q)
    then have "q \<in> dom (q_waiters s')"
      using scan_turn_best(1) queue_okD(1) [OF s'(2)] unfolding s'(3) by blast
    then show ?thesis using that [of "signal_wake q s'"] s' Some by (auto simp: wake_winner_def signal_wake_def)
  qed
qed

lemma evict_ok:
  assumes "queue_ok s" and "q \<in> dom (q_waiters s)"
  shows "queue_ok (evict s q)" and "q_waiters (evict s q) = (q_waiters s)(q := None)"
    and "q_evicted (evict s q) = insert q (q_evicted s)" and "q_woken (evict s q) = insert q (q_woken s)"
    and "q_next_seq (evict s q) = q_next_seq s"
proof -
  obtain w where w: "q_waiters s q = Some w" using assms(2) by blast
  obtain s' where s': "qs_remove s q = (Some w, s')" "queue_ok s'" "q_waiters s' = (q_waiters s)(q := None)"
      "q_evicted s' = q_evicted s" "q_woken s' = q_woken s" "q_next_seq s' = q_next_seq s"
    using qs_remove_ok [OF assms(1) w] by metis
  have e: "evict s q = s'\<lparr>q_evicted := insert q (q_evicted s'), q_woken := insert q (q_woken s')\<rparr>"
    using s'(1) by (simp add: evict_def signal_wake_def)
  show "queue_ok (evict s q)" "q_waiters (evict s q) = (q_waiters s)(q := None)"
      "q_evicted (evict s q) = insert q (q_evicted s)" "q_woken (evict s q) = insert q (q_woken s)"
      "q_next_seq (evict s q) = q_next_seq s"
    using s'(2-6) unfolding e by simp_all
qed

lemma level_seqs: "queue_ok s \<Longrightarrow> q_levels s p = Some l \<Longrightarrow> lv_seqs l = at_level (q_waiters s) p"
  using queue_okD(3) [of s] by (auto simp: levels_spec_def level_spec_def split: if_splits)

text \<open>What a full queue gives up is a queued waiter.\<close>

lemma overflow_victim_in:
  assumes ok: "queue_ok s" and v: "overflow_victim ovf priority s = Some q"
  shows "q \<in> dom (q_waiters s)"
proof (cases ovf)
  case Reject
  then show ?thesis using v by (simp add: overflow_victim_def)
next
  case DropOldest
  then have "dom (q_waiters s) \<noteq> {}" "q = Min (dom (q_waiters s))"
    using v by (auto simp: overflow_victim_def oldest_def split: if_splits)
  then show ?thesis using Min_in [OF queue_okD(1) [OF ok]] by blast
next
  case DropLowestPriority
  let ?D = "dom (q_levels s)"
  from v DropLowestPriority have ne: "?D \<noteq> {}" and q: "lv_seqs (the (q_levels s (Min ?D))) \<noteq> {}"
    "q = Max (lv_seqs (the (q_levels s (Min ?D))))"
    by (auto simp: overflow_victim_def weakest_def Let_def split: if_splits)
  have "finite ?D" using finite_levels [OF queue_okD(1) [OF ok]] queue_okD(3) [OF ok] by simp
  then have "Min ?D \<in> ?D" using ne by (rule Min_in)
  then obtain l where "q_levels s (Min ?D) = Some l" by blast
  then have l: "q_levels s (Min ?D) = Some l" "lv_seqs l \<noteq> {}" "q = Max (lv_seqs l)" using q by simp_all
  have "lv_seqs l = at_level (q_waiters s) (Min ?D)" by (rule level_seqs [OF ok l(1)])
  then have "q \<in> at_level (q_waiters s) (Min ?D)"
    using l(2,3) Max_in [of "lv_seqs l"] finite_at_level [OF queue_okD(1) [OF ok]] by simp
  then show ?thesis by (auto simp: at_level_def)
qed

definition queue_inv :: "'k queue \<Rightarrow> bool" where
  "queue_inv q \<longleftrightarrow> queue_ok (qu_state q) \<and> queue_len q \<le> qu_capacity q \<and> 0 < qu_capacity q \<and>
     (\<forall>e \<in> q_evicted (qu_state q). e < q_next_seq (qu_state q) \<and> e \<notin> dom (q_waiters (qu_state q)))"

lemma queue_invD:
  assumes "queue_inv q"
  shows "queue_ok (qu_state q)" and "qs_len (qu_state q) \<le> qu_capacity q" and "0 < qu_capacity q"
    and "e \<in> q_evicted (qu_state q) \<Longrightarrow> e < q_next_seq (qu_state q)"
    and "e \<in> q_evicted (qu_state q) \<Longrightarrow> e \<notin> dom (q_waiters (qu_state q))"
  using assms by (auto simp: queue_inv_def queue_len_def)

lemma qs_len_unexpired: "finite (dom W) \<Longrightarrow> card (dom (unexpired now W)) \<le> card (dom W)"
  by (rule card_mono [OF _ dom_unexpired])

lemma queue_new_inv: "queue_inv (queue_new capacity ovf clock)"
  by (simp add: queue_inv_def queue_new_def Let_def queue_len_def qs_len_def qs_new_def queue_ok_def index_ok_def
      levels_spec_def at_level_def deadlines_spec_def keys_ok_def)

text \<open>Registration, case by case.\<close>

lemma register_cases:
  assumes inv: "queue_inv q"
  obtains (rejected) s where "prune_expired now (qu_state q) = Some s" and "queue_ok s"
      and "q_waiters s = unexpired now (q_waiters (qu_state q))"
      and "q_evicted s = q_evicted (qu_state q)" and "q_next_seq s = q_next_seq (qu_state q)"
      and "qu_capacity q \<le> qs_len s" and "overflow_victim (qu_overflow q) p s = None"
      and "register q now p d key = Some (Inl QueueFull, q\<lparr>qu_state := s\<rparr>)"
    | (admitted) s s1 s2 s3 seq where "prune_expired now (qu_state q) = Some s" and "queue_ok s"
      and "q_waiters s = unexpired now (q_waiters (qu_state q))"
      and "q_evicted s = q_evicted (qu_state q)" and "q_next_seq s = q_next_seq (qu_state q)"
      and "s1 = (if qu_capacity q \<le> qs_len s then evict s (the (overflow_victim (qu_overflow q) p s)) else s)"
      and "qu_capacity q \<le> qs_len s \<Longrightarrow> \<exists>v. overflow_victim (qu_overflow q) p s = Some v \<and> v \<in> dom (q_waiters s)"
      and "queue_ok s1" and "qs_insert s1 p d key = (seq, s2)" and "queue_ok s2" and "wake_winner s2 now = Some s3"
      and "register q now p d key = Some (Inr seq, q\<lparr>qu_state := s3\<rparr>)"
proof -
  obtain s where s: "prune_expired now (qu_state q) = Some s" "queue_ok s"
      "q_waiters s = unexpired now (q_waiters (qu_state q))"
      "q_evicted s = q_evicted (qu_state q)" "q_next_seq s = q_next_seq (qu_state q)"
    using prune_expired_ok [OF queue_invD(1) [OF inv]] by metis
  let ?full = "qu_capacity q \<le> qs_len s" and ?v = "overflow_victim (qu_overflow q) p s"
  let ?s1 = "if ?full then evict s (the ?v) else s"
  obtain seq s2 where i: "qs_insert ?s1 p d key = (seq, s2)" by fastforce
  show ?thesis
  proof (cases "?full \<and> ?v = None")
    case True
    then show ?thesis using rejected [OF s] s(1) by (simp add: register_def)
  next
    case False
    have v: "\<exists>v. ?v = Some v \<and> v \<in> dom (q_waiters s)" if ?full
      using False that overflow_victim_in [OF s(2)] by (metis option.exhaust)
    then have ok1: "queue_ok ?s1" using s(2) evict_ok(1) [OF s(2)] by (metis option.sel)
    then have ok2: "queue_ok s2" using qs_insert_ok [OF _ i] by blast
    obtain s3 where s3: "wake_winner s2 now = Some s3" using wake_winner_ok [OF ok2, of now] by metis
    have reg: "register q now p d key = Some (Inr seq, q\<lparr>qu_state := s3\<rparr>)"
      using s(1) False i s3 by (cases ?full) (auto simp: register_def Let_def)
    show ?thesis by (rule admitted [OF s refl _ ok1 i ok2 s3 reg]) (rule v)
  qed
qed

lemma signal_listen_ok:
  "queue_ok (signal_listen seq s) = queue_ok s" "q_waiters (signal_listen seq s) = q_waiters s"
  "q_evicted (signal_listen seq s) = q_evicted s" "q_next_seq (signal_listen seq s) = q_next_seq s"
  "keys_recency (signal_listen seq s) = keys_recency s" "q_woken (signal_listen seq s) = q_woken s - {seq}"
  by (simp_all add: signal_listen_def)

text \<open>The waiter that holds the turn.\<close>

definition turn_of :: "'k queue \<Rightarrow> u64 option" where
  "turn_of q = scan_turn (keys_recency (qu_state q)) (unexpired (queue_now_ms q) (q_waiters (qu_state q)))"

lemma turn_of_in:
  assumes "queue_ok (qu_state q)" and "turn_of q = Some seq"
  shows "\<exists>w. q_waiters (qu_state q) seq = Some w \<and> \<not> waiter_expired (queue_now_ms q) w"
proof -
  have "finite (dom (unexpired (queue_now_ms q) (q_waiters (qu_state q))))"
    by (rule finite_subset [OF dom_unexpired]) (rule queue_okD(1) [OF assms(1)])
  then show ?thesis using scan_turn_best(1) assms(2) unfolding turn_of_def by (fastforce simp: unexpired_Some)
qed

lemma wait_turn_cases:
  assumes ok: "queue_ok (qu_state q)"
  obtains (evicted) "seq \<in> q_evicted (qu_state q)"
      and "wait_turn L q seq d cost w =
        Some (Ready (Inl QueueFull), q\<lparr>qu_state := signal_listen seq (qu_state q)\<rparr>, w)"
    | (late) d' where "d = Some d'" and "d' \<le> queue_now_ms q" and "seq \<notin> q_evicted (qu_state q)"
      and "wait_turn L q seq d cost w =
        Some (Ready (Inl DeadlineExceeded), q\<lparr>qu_state := signal_listen seq (qu_state q)\<rparr>, w)"
    | (polled) s where "seq \<notin> q_evicted (qu_state q)" and "case d of None \<Rightarrow> True | Some d' \<Rightarrow> queue_now_ms q < d'"
      and "queue_ok s"
      and "q_waiters s = unexpired (queue_now_ms q) (q_waiters (qu_state q))"
      and "\<And>x w. q_waiters s x = Some w \<Longrightarrow> keys_recency s (w_key_id w) = keys_recency (qu_state q) (w_key_id w)"
      and "q_evicted s = q_evicted (qu_state q)" and "q_next_seq s = q_next_seq (qu_state q)"
      and "q_woken s = q_woken (qu_state q) - {seq}"
      and "prune_expired (queue_now_ms q) (signal_listen seq (qu_state q)) = Some s"
      and "wait_turn L q seq d cost w =
        (if turn_of q = Some seq
         then (case l_acquire_cost L cost w of
                 (Acquired, w') \<Rightarrow>
                   (case wake_winner (serve s seq) (queue_now_ms q) of
                      None \<Rightarrow> None
                    | Some s' \<Rightarrow> Some (Ready (Inr ()), q\<lparr>qu_state := s'\<rparr>, w'))
               | (Retry a, w') \<Rightarrow> Some (Sleep (cap_to_deadline a (queue_now_ms q) d), q\<lparr>qu_state := s\<rparr>, w')
               | (Impossible, w') \<Rightarrow> Some (Ready (Inl (CostExceedsCapacity cost (l_capacity L w'))), q\<lparr>qu_state := s\<rparr>, w'))
         else Some (Sleep (cap_to_deadline RECHECK (queue_now_ms q) d), q\<lparr>qu_state := s\<rparr>, w))"
proof -
  let ?s0 = "signal_listen seq (qu_state q)"
  have now: "queue_now_ms (q\<lparr>qu_state := ?s0\<rparr>) = queue_now_ms q" by (simp add: queue_now_ms_def)
  obtain s where s: "winner ?s0 (queue_now_ms q) = Some (turn_of q, s)" "prune_expired (queue_now_ms q) ?s0 = Some s" "queue_ok s"
    "q_waiters s = unexpired (queue_now_ms q) (q_waiters (qu_state q))"
    "\<And>x w. q_waiters s x = Some w \<Longrightarrow> keys_recency s (w_key_id w) = keys_recency (qu_state q) (w_key_id w)"
    "q_evicted s = q_evicted (qu_state q)" "q_next_seq s = q_next_seq (qu_state q)"
    "q_woken s = q_woken (qu_state q) - {seq}"
    using winner_ok [of ?s0 "queue_now_ms q"] ok unfolding signal_listen_ok turn_of_def by metis
  show ?thesis
  proof (cases "seq \<in> q_evicted (qu_state q)")
    case True
    then show ?thesis using evicted by (simp add: wait_turn_def Let_def signal_listen_ok)
  next
    case False
    show ?thesis
    proof (cases "case d of None \<Rightarrow> True | Some d' \<Rightarrow> queue_now_ms q < d'")
      case True
      then have "\<not> (case d of None \<Rightarrow> False | Some d' \<Rightarrow> d' \<le> queue_now_ms q)" by (cases d) simp_all
      then show ?thesis using False s(1)
        by (intro polled [OF False True s(3-8) s(2)])
          (simp_all add: wait_turn_def Let_def signal_listen_ok now split: prod.split decision.split option.split)
    next
      case late': False
      then obtain d' where "d = Some d'" "d' \<le> queue_now_ms q" by (cases d) auto
      then show ?thesis using late False by (simp add: wait_turn_def Let_def signal_listen_ok now)
    qed
  qed
qed

lemma leave_cases:
  assumes ok: "queue_ok (qu_state q)"
  obtains (gone) "q_waiters (qu_state q) seq = None" and "leave q seq = Some q"
    | (left) s s' where "seq \<in> dom (q_waiters (qu_state q))" and "queue_ok s"
      and "qs_remove (qu_state q) seq = (q_waiters (qu_state q) seq, s)"
      and "q_waiters s = (q_waiters (qu_state q))(seq := None)"
      and "q_evicted s = q_evicted (qu_state q)" and "q_next_seq s = q_next_seq (qu_state q)"
      and "wake_winner s (queue_now_ms q) = Some s'" and "leave q seq = Some (q\<lparr>qu_state := s'\<rparr>)"
proof (cases "q_waiters (qu_state q) seq")
  case None
  then show ?thesis using gone by (simp add: leave_def qs_remove_none)
next
  case (Some w)
  obtain s where s: "qs_remove (qu_state q) seq = (Some w, s)" "queue_ok s"
      "q_waiters s = (q_waiters (qu_state q))(seq := None)"
      "q_evicted s = q_evicted (qu_state q)" "q_next_seq s = q_next_seq (qu_state q)"
    using qs_remove_ok [OF ok Some] by metis
  obtain s' where s': "wake_winner s (queue_now_ms q) = Some s'" using wake_winner_ok [OF s(2), of "queue_now_ms q"] by metis
  have "leave q seq = Some (q\<lparr>qu_state := s'\<rparr>)" using s(1) s' by (simp add: leave_def)
  then show ?thesis using left [OF _ s(2) _ s(3-5) s'] s(1) Some by auto
qed

subsection \<open>Runs\<close>

text \<open>
  Tasks enter the critical sections in any order, the clock moves forward in between, and
  the limiter may be shared, so its world may change too.
\<close>

inductive queue_step :: "'w limiter \<Rightarrow> 'k queue \<times> 'w \<Rightarrow> 'k queue \<times> 'w \<Rightarrow> bool" for L where
  registers: "register q now p d key = Some (r, q') \<Longrightarrow> queue_step L (q, w) (q', w)"
| polls: "wait_turn L q seq d cost w = Some (r, q', w') \<Longrightarrow> queue_step L (q, w) (q', w')"
| leaves: "leave q seq = Some q' \<Longrightarrow> queue_step L (q, w) (q', w)"
| ticks: "qu_clock q \<le> c \<Longrightarrow> queue_step L (q, w) (q\<lparr>qu_clock := c\<rparr>, w)"
| shared: "queue_step L (q, w) (q, w')"

inductive_cases queue_stepE: "queue_step L (q, w) (q', w')"

lemma queue_invI:
  assumes "queue_ok s" and "card (dom (q_waiters s)) \<le> qu_capacity q" and "0 < qu_capacity q"
    and "\<And>e. e \<in> q_evicted s \<Longrightarrow> e < q_next_seq s \<and> e \<notin> dom (q_waiters s)"
  shows "queue_inv (q\<lparr>qu_state := s\<rparr>)"
  using assms by (simp add: queue_inv_def queue_len_def qs_len_def)

lemma wake_winner_inv:
  assumes ok: "queue_ok s" and wk: "wake_winner s now = Some s'"
    and len: "card (dom (q_waiters s)) \<le> qu_capacity q" "0 < qu_capacity q"
    and ev: "\<And>e. e \<in> q_evicted s \<Longrightarrow> e < q_next_seq s \<and> e \<notin> dom (q_waiters s)"
  shows "queue_inv (q\<lparr>qu_state := s'\<rparr>)"
proof -
  have s': "queue_ok s'" "q_waiters s' = unexpired now (q_waiters s)" "q_evicted s' = q_evicted s"
      "q_next_seq s' = q_next_seq s"
    using wake_winner_ok [OF ok, of now] wk by (metis option.inject)+
  show ?thesis
  proof (rule queue_invI)
    show "card (dom (q_waiters s')) \<le> qu_capacity q"
      using qs_len_unexpired [OF queue_okD(1) [OF ok], of now] len(1) unfolding s'(2) by linarith
    show "e < q_next_seq s' \<and> e \<notin> dom (q_waiters s')" if "e \<in> q_evicted s'" for e
      using ev [of e] that dom_unexpired [of now "q_waiters s"] unfolding s'(2-4) by blast
  qed (use s'(1) len(2) in auto)
qed

lemma pruned_inv:
  assumes inv: "queue_inv q" and "queue_ok s" and "q_waiters s = unexpired now (q_waiters (qu_state q))"
    and "q_evicted s = q_evicted (qu_state q)" and "q_next_seq s = q_next_seq (qu_state q)"
  shows "queue_inv (q\<lparr>qu_state := s\<rparr>)" and "card (dom (q_waiters s)) \<le> qu_capacity q"
proof -
  note q = queue_invD [OF inv]
  show len: "card (dom (q_waiters s)) \<le> qu_capacity q"
    using qs_len_unexpired [OF queue_okD(1) [OF q(1)], of now] q(2) unfolding assms(3) qs_len_def by linarith
  show "queue_inv (q\<lparr>qu_state := s\<rparr>)"
  proof (rule queue_invI [OF assms(2) len q(3)])
    show "e < q_next_seq s \<and> e \<notin> dom (q_waiters s)" if "e \<in> q_evicted s" for e
      using q(4,5) [of e] that dom_unexpired [of now "q_waiters (qu_state q)"] unfolding assms(3-5) by blast
  qed
qed

lemma register_inv:
  assumes inv: "queue_inv q" and reg: "register q now p d key = Some (r, q')"
  shows "queue_inv q'"
  using inv
proof (cases rule: register_cases [of q now p d key, consumes 1, case_names rejected admitted])
  case (rejected s)
  then show ?thesis using pruned_inv(1) [OF inv rejected(2-5)] reg by simp
next
  case (admitted s s1 s2 s3 seq)
  note q = queue_invD [OF inv]
  have len: "card (dom (q_waiters s)) \<le> qu_capacity q" by (rule pruned_inv(2) [OF inv admitted(2-5)])
  have sub: "e < q_next_seq s" "q_waiters s e = None" if "e \<in> q_evicted s" for e
    using that q(4,5) [of e] dom_unexpired [of now "q_waiters (qu_state q)"] unfolding admitted(3-5) by blast+
  have s1: "card (dom (q_waiters s1)) < qu_capacity q \<and> q_next_seq s1 = q_next_seq s \<and>
      (\<forall>e \<in> q_evicted s1. e < q_next_seq s \<and> e \<notin> dom (q_waiters s1))"
  proof (cases "qu_capacity q \<le> qs_len s")
    case True
    then obtain v where v: "overflow_victim (qu_overflow q) p s = Some v" "v \<in> dom (q_waiters s)"
      using admitted(7) by blast
    note e = evict_ok [OF admitted(2) v(2)]
    have "card (dom (q_waiters s) - {v}) < qu_capacity q"
      using card_Diff1_less [OF queue_okD(1) [OF admitted(2)] v(2)] len by linarith
    then show ?thesis using v(1) e(2,3,5) True queue_okD(2) [OF admitted(2) v(2)] sub
      by (auto simp: admitted(6))
  next
    case False
    then show ?thesis using sub by (auto simp: admitted(6) qs_len_def)
  qed
  obtain kid where s2: "seq = q_next_seq s1"
      "q_waiters s2 = (q_waiters s1)(seq \<mapsto> \<lparr>w_priority = p, w_deadline_ms = d, w_key_id = kid\<rparr>)"
      "q_evicted s2 = q_evicted s1" "q_next_seq s2 = q_next_seq s1 + 1"
    using qs_insert_ok [OF admitted(8,9)] admitted(9)
    by (auto simp: qs_insert_def qs_admit_key_def Let_def split: option.splits)
  have "card (dom (q_waiters s2)) \<le> qu_capacity q"
    using s1 queue_okD(1) [OF admitted(8)] unfolding s2(2) by (simp add: card_insert_if)
  then have "queue_inv (q\<lparr>qu_state := s3\<rparr>)"
    using s1 s2 by (intro wake_winner_inv [OF admitted(10,11) _ q(3)]) force+
  then show ?thesis using admitted(12) reg by simp
qed

lemma listen_inv: "queue_inv q \<Longrightarrow> queue_inv (q\<lparr>qu_state := signal_listen seq (qu_state q)\<rparr>)"
  unfolding queue_inv_def queue_len_def qs_len_def by (simp add: signal_listen_ok)

lemma wait_turn_inv:
  assumes inv: "queue_inv q" and turn: "wait_turn L q seq d cost w = Some (r, q', w')"
  shows "queue_inv q'"
  using queue_invD(1) [OF inv]
proof (cases rule: wait_turn_cases [of q seq L d cost w, consumes 1, case_names evicted late polled])
  case evicted
  then show ?thesis using turn listen_inv [OF inv, of seq] by auto
next
  case (late d')
  then show ?thesis using turn listen_inv [OF inv, of seq] by auto
next
  case (polled s)
  note pruned = pruned_inv [OF inv polled(3,4,6,7)]
  have "queue_inv (q\<lparr>qu_state := s'\<rparr>)"
    if t: "turn_of q = Some seq" and s': "wake_winner (serve s seq) (queue_now_ms q) = Some s'" for s'
  proof -
    obtain u where "q_waiters s seq = Some u"
      using turn_of_in [OF queue_invD(1) [OF inv] t] unfolding polled(4) by (auto simp: unexpired_Some)
    then have sv: "queue_ok (serve s seq)" "q_waiters (serve s seq) = (q_waiters s)(seq := None)"
        "q_evicted (serve s seq) = q_evicted s" "q_next_seq (serve s seq) = q_next_seq s"
      using serve_ok [OF polled(3)] by metis+
    have "card (dom (q_waiters s) - {seq}) \<le> card (dom (q_waiters s))" by (simp add: card_Diff1_le)
    then show ?thesis using pruned queue_invD(4,5) [OF pruned(1)] sv
      by (intro wake_winner_inv [OF sv(1) s' _ queue_invD(3) [OF inv]]) auto
  qed
  then show ?thesis using turn pruned(1) unfolding polled(10) by (auto split: if_splits prod.splits decision.splits option.splits)
qed

lemma leave_inv:
  assumes inv: "queue_inv q" and lv: "leave q seq = Some q'"
  shows "queue_inv q'"
  using queue_invD(1) [OF inv]
proof (cases rule: leave_cases [of q seq, consumes 1, case_names gone left])
  case gone
  then show ?thesis using inv lv by simp
next
  case (left s s')
  have "card (dom (q_waiters (qu_state q)) - {seq}) \<le> card (dom (q_waiters (qu_state q)))" by (simp add: card_Diff1_le)
  then have "queue_inv (q\<lparr>qu_state := s'\<rparr>)"
    using queue_invD [OF inv] left(4-6) by (intro wake_winner_inv [OF left(2,7)]) (auto simp: qs_len_def)
  then show ?thesis using left(8) lv by simp
qed

lemma qs_remove_queue_ok:
  assumes ok: "queue_ok s"
  shows "queue_ok (snd (qs_remove s q))"
proof (cases "q_waiters s q")
  case (Some w)
  then show ?thesis using qs_remove_ok [OF ok Some] by (metis snd_conv)
qed (simp add: qs_remove_none ok)

lemma prune_expired_within:
  "prune_expired now s = Some s' \<Longrightarrow> queue_ok s \<Longrightarrow> keys_within n s \<Longrightarrow> keys_within n s'"
proof (induction now s s' rule: prune_expired.raw_induct [rotated, consumes 1])
  case (1 f now s s')
  from 1(2) show ?case
    using 1(1,3,4) qs_remove_queue_ok [OF 1(3)] qs_remove_within [OF 1(3,4)] by (auto split: if_splits prod.splits)
qed

lemma wake_winner_within:
  assumes "wake_winner s now = Some s'" and "queue_ok s" and "keys_within n s"
  shows "keys_within n s'"
proof -
  obtain s1 where s1: "prune_expired now s = Some s1" using winner_ok [OF assms(2), of now] by metis
  then have "keys_within n s1" using prune_expired_within assms(2,3) by blast
  then show ?thesis using assms(1) s1
    by (auto simp: wake_winner_def winner_def keys_within_def signal_wake_def split: option.splits)
qed

lemma serve_within:
  assumes "queue_ok s" and "q_waiters s q = Some w" and "keys_within n s"
  shows "keys_within n (serve s q)"
proof -
  obtain t where "serve s q = snd (qs_remove t q)" "queue_ok t" "q_waiters t = q_waiters s"
      "dom (q_keys t) = dom (q_keys s)" "q_prune_at t = q_prune_at s"
    using serve_ok [OF assms(1,2)] by metis
  then show ?thesis using qs_remove_within [of t n q] assms(3) by (simp add: keys_within_def)
qed

lemma evict_within: "queue_ok s \<Longrightarrow> keys_within n s \<Longrightarrow> keys_within n (evict s q)"
  using qs_remove_within [of s n q] by (auto simp: evict_def keys_within_def signal_wake_def split: prod.splits option.splits)

lemma listen_within: "keys_within n (signal_listen seq s) = keys_within n s"
  by (simp add: keys_within_def signal_listen_def)

lemma register_within:
  assumes inv: "queue_inv q" and reg: "register q now p d key = Some (r, q')" and within: "keys_within n (qu_state q)"
  shows "keys_within n (qu_state q')"
  using inv
proof (cases rule: register_cases [of q now p d key, consumes 1, case_names rejected admitted])
  case (rejected s)
  then show ?thesis using prune_expired_within [OF rejected(1) queue_invD(1) [OF inv] within] reg by simp
next
  case (admitted s s1 s2 s3 seq)
  have "keys_within n s" by (rule prune_expired_within [OF admitted(1) queue_invD(1) [OF inv] within])
  then have "keys_within n s1" using evict_within [OF admitted(2)] by (simp add: admitted(6))
  then have "keys_within n s2" by (rule qs_insert_within [OF admitted(8) _ admitted(9)])
  then show ?thesis using wake_winner_within [OF admitted(11,10)] admitted(12) reg by simp
qed

lemma wait_turn_within:
  assumes inv: "queue_inv q" and turn: "wait_turn L q seq d cost w = Some (r, q', w')"
    and within: "keys_within n (qu_state q)"
  shows "keys_within n (qu_state q')"
  using queue_invD(1) [OF inv]
proof (cases rule: wait_turn_cases [of q seq L d cost w, consumes 1, case_names evicted late polled])
  case evicted
  then show ?thesis using turn within listen_within [of n seq "qu_state q"] by auto
next
  case (late d')
  then show ?thesis using turn within listen_within [of n seq "qu_state q"] by auto
next
  case (polled s)
  have s: "keys_within n s"
    using prune_expired_within [OF polled(9), of n] within queue_invD(1) [OF inv]
    by (simp add: listen_within signal_listen_ok)
  moreover have "keys_within n s'"
    if t: "turn_of q = Some seq" and s': "wake_winner (serve s seq) (queue_now_ms q) = Some s'" for s'
  proof -
    obtain u where u: "q_waiters s seq = Some u"
      using turn_of_in [OF queue_invD(1) [OF inv] t] unfolding polled(4) by (auto simp: unexpired_Some)
    show ?thesis
      using wake_winner_within [OF s' _ serve_within [OF polled(3) u s]] serve_ok [OF polled(3) u] by metis
  qed
  ultimately show ?thesis using turn unfolding polled(10) by (auto split: if_splits prod.splits decision.splits option.splits)
qed

lemma leave_within:
  assumes inv: "queue_inv q" and lv: "leave q seq = Some q'" and within: "keys_within n (qu_state q)"
  shows "keys_within n (qu_state q')"
  using queue_invD(1) [OF inv]
proof (cases rule: leave_cases [of q seq, consumes 1, case_names gone left])
  case (left s s')
  have "keys_within n s" using qs_remove_within [OF queue_invD(1) [OF inv] within, of seq] left(3) by simp
  then show ?thesis using wake_winner_within [OF left(7,2)] left(8) lv by simp
qed (use within lv in simp)

text \<open>A queue built for \<open>capacity\<close> waiters, after any run.\<close>

definition queue_good :: "usize \<Rightarrow> overflow \<Rightarrow> 'k queue \<Rightarrow> bool" where
  "queue_good capacity ovf q \<longleftrightarrow> queue_inv q \<and> qu_capacity q = max capacity 1 \<and> qu_overflow q = ovf \<and>
     keys_within (sat_add64 (sat_mul64 (max capacity 1) 2) 16) (qu_state q)"

lemma section_config:
  "register q now p d key = Some (r, q') \<Longrightarrow> qu_capacity q' = qu_capacity q \<and> qu_overflow q' = qu_overflow q"
  "wait_turn L q seq d cost w = Some (r', q', w') \<Longrightarrow> qu_capacity q' = qu_capacity q \<and> qu_overflow q' = qu_overflow q"
  "leave q seq = Some q' \<Longrightarrow> qu_capacity q' = qu_capacity q \<and> qu_overflow q' = qu_overflow q"
  by (auto simp: register_def wait_turn_def leave_def Let_def
      split: option.splits if_splits prod.splits decision.splits)

lemma section_good:
  assumes "queue_good capacity ovf q"
  shows "register q now p d key = Some (r, q') \<Longrightarrow> queue_good capacity ovf q'"
    and "wait_turn L q seq d cost w = Some (r', q', w') \<Longrightarrow> queue_good capacity ovf q'"
    and "leave q seq = Some q' \<Longrightarrow> queue_good capacity ovf q'"
  using assms section_config(1) [of q now p d key r q'] register_inv [of q now p d key r q']
    register_within [of q now p d key r q'] section_config(2) [of L q seq d cost w r' q' w']
    wait_turn_inv [of q L seq d cost w r' q' w'] wait_turn_within [of q L seq d cost w r' q' w']
    section_config(3) [of q seq q'] leave_inv [of q seq q'] leave_within [of q seq q']
  by (simp_all add: queue_good_def)

lemma queue_step_good:
  assumes "queue_step L (q, w) (q', w')" and "queue_good capacity ovf q"
  shows "queue_good capacity ovf q'"
  using assms(1)
proof (rule queue_stepE)
  show "queue_good capacity ovf q'" if "q' = q\<lparr>qu_clock := c\<rparr>" for c
    using assms(2) that by (simp add: queue_good_def queue_inv_def queue_len_def)
qed (use assms(2) section_good [OF assms(2)] in auto)

lemma queue_run_good:
  assumes "(queue_step L)\<^sup>*\<^sup>* (queue_new capacity ovf clk, w) (q, w')"
  shows "queue_good capacity ovf q"
proof -
  have "queue_good capacity ovf (queue_new capacity ovf clk :: 'a queue)"
    using queue_new_inv [of capacity ovf clk]
    by (simp add: queue_good_def keys_within_def) (simp add: queue_new_def Let_def qs_new_def)
  with assms show ?thesis by (induction rule: rtranclp_induct2) (auto intro: queue_step_good)
qed

end
