(* ===== verification/Queue_Safety.thy ===== *)
theory Queue_Safety
  imports Queue_Service
begin

text \<open>
  The promises of the waiting queue, over every run: any number of tasks enter its critical
  sections in any order.  \<open>turn_of\<close> is the reference scheduler, a scan over all waiters.
\<close>

lemma run_ok:
  assumes "(queue_step L)\<^sup>*\<^sup>* (queue_new capacity ovf clk, w0) (q, w)"
  shows "queue_inv q" and "queue_ok (qu_state q)" and "qu_capacity q = max capacity 1" and "qu_overflow q = ovf"
    and "keys_within (sat_add64 (sat_mul64 (max capacity 1) 2) 16) (qu_state q)"
  using queue_run_good [OF assms] queue_invD(1) [of q] by (simp_all add: queue_good_def)

text \<open>C17: In every reachable queue the turn goes to the waiter a scan of all unexpired waiters
  would pick: highest priority, then least recently served key, then first arrival; and
  looking for it drops exactly the expired waiters.\<close>

theorem queue_turn_is_scan:
  assumes "(queue_step L)\<^sup>*\<^sup>* (queue_new capacity ovf clk, w0) (q, w)"
  shows "\<exists>s. winner (qu_state q) (queue_now_ms q) = Some (turn_of q, s) \<and>
    q_waiters s = unexpired (queue_now_ms q) (q_waiters (qu_state q))"
  using winner_ok [OF run_ok(2) [OF assms], of "queue_now_ms q"] unfolding turn_of_def by metis

text \<open>A queue never holds more waiters than its capacity, nor fairness state for more than
  three times as many keys and sixteen, however many keys pass through.\<close>

theorem queue_stays_bounded:
  assumes "(queue_step L)\<^sup>*\<^sup>* (queue_new capacity ovf clk, w0) (q, w)"
  shows "queue_len q \<le> max capacity 1 \<and> finite (dom (q_keys (qu_state q))) \<and>
    card (dom (q_keys (qu_state q))) \<le> 3 * max capacity 1 + 16"
proof -
  note r = run_ok [OF assms]
  have len: "card (dom (q_waiters (qu_state q))) \<le> max capacity 1"
    using queue_invD(2) [OF r(1)] r(3) by (simp add: qs_len_def)
  moreover have "sat_add64 (sat_mul64 (max capacity 1) 2) 16 \<le> max capacity 1 * 2 + 16"
    by (simp add: sat_add64_def sat_mul64_def)
  ultimately show ?thesis
    using r(5) keys_okD(7) [OF queue_okD(5) [OF r(2)]] by (simp add: queue_len_def qs_len_def keys_within_def)
qed

text \<open>No critical section of a reachable queue loops: registering, polling and leaving
  always finish, whatever they are called with.\<close>

theorem queue_sections_end:
  assumes "(queue_step L)\<^sup>*\<^sup>* (queue_new capacity ovf clk, w0) (q, w)"
  shows "(\<exists>r q'. register q now p d key = Some (r, q')) \<and> (\<exists>r q' w'. wait_turn L q seq d cost w1 = Some (r, q', w')) \<and>
    (\<exists>q'. leave q seq = Some q')"
proof (intro conjI)
  note r = run_ok [OF assms]
  show "\<exists>r q'. register q now p d key = Some (r, q')"
    by (rule register_cases [OF r(1), of now p d key]) auto
  show "\<exists>q'. leave q seq = Some q'" using leave_cases [OF r(2), of seq] by metis
  show "\<exists>r q' w'. wait_turn L q seq d cost w1 = Some (r, q', w')"
    using r(2)
  proof (cases rule: wait_turn_cases [of q seq L d cost w1, consumes 1, case_names evicted late polled])
    case (polled s)
    have "\<exists>s'. wake_winner (serve s seq) (queue_now_ms q) = Some s'" if t: "turn_of q = Some seq"
    proof -
      obtain u where "q_waiters s seq = Some u"
        using turn_of_in [OF r(2) t] unfolding polled(4) by (auto simp: unexpired_Some)
      then have "queue_ok (serve s seq)" using serve_ok [OF polled(3)] by metis
      then show ?thesis using wake_winner_ok by metis
    qed
    then show ?thesis unfolding polled(10) by (auto split: prod.split decision.split option.split)
  qed auto
qed

subsection \<open>Only the turn holder draws\<close>

lemma rank_priority:
  assumes "rank rec W q \<le> rank rec W q'" and "W q = Some w" and "W q' = Some w'"
  shows "w_priority w' \<le> w_priority w"
    and "w_priority w' = w_priority w \<Longrightarrow> (rec (w_key_id w), w_key_id w) \<le> (rec (w_key_id w'), w_key_id w')"
  using assms by (auto simp: rank_def Let_def less_eq_prod_def)

lemma turn_of_best:
  assumes ok: "queue_ok (qu_state q)" and t: "turn_of q = Some seq"
    and w: "q_waiters (qu_state q) seq = Some w" and w': "q_waiters (qu_state q) x = Some w'" "\<not> waiter_expired (queue_now_ms q) w'"
  shows "rank (keys_recency (qu_state q)) (unexpired (queue_now_ms q) (q_waiters (qu_state q))) seq \<le>
    rank (keys_recency (qu_state q)) (unexpired (queue_now_ms q) (q_waiters (qu_state q))) x"
    and "w_priority w' \<le> w_priority w"
    and "w_priority w' = w_priority w \<Longrightarrow> (keys_recency (qu_state q) (w_key_id w), w_key_id w) \<le>
      (keys_recency (qu_state q) (w_key_id w'), w_key_id w')"
proof -
  let ?U = "unexpired (queue_now_ms q) (q_waiters (qu_state q))"
  have fin: "finite (dom ?U)" by (rule finite_subset [OF dom_unexpired]) (rule queue_okD(1) [OF ok])
  have U: "?U seq = Some w" "?U x = Some w'"
    using turn_of_in [OF ok t] w w' by (auto simp: unexpired_Some)
  show r: "rank (keys_recency (qu_state q)) ?U seq \<le> rank (keys_recency (qu_state q)) ?U x"
    using scan_turn_best(2) [OF fin, of _ seq x] t U(2) unfolding turn_of_def by blast
  show "w_priority w' \<le> w_priority w" "w_priority w' = w_priority w \<Longrightarrow>
      (keys_recency (qu_state q) (w_key_id w), w_key_id w) \<le> (keys_recency (qu_state q) (w_key_id w'), w_key_id w')"
    using rank_priority [of "keys_recency (qu_state q)" ?U seq x w w', OF r U] by auto
qed

text \<open>C18: A poll reaches the wrapped limiter, and a request is granted, only while its waiter
  holds the turn: it is queued, not evicted, not past its deadline, and no unexpired waiter
  has a higher priority.\<close>

theorem only_turn_holder_draws:
  assumes "(queue_step L)\<^sup>*\<^sup>* (queue_new capacity ovf clk, w0) (q, w)"
    and "wait_turn L q seq d cost w = Some (r, q', w')" and "w' \<noteq> w \<or> r = Ready (Inr ())"
  shows "turn_of q = Some seq \<and> seq \<notin> q_evicted (qu_state q) \<and> (\<forall>d'. d = Some d' \<longrightarrow> queue_now_ms q < d') \<and>
    l_acquire_cost L cost w = (fst (l_acquire_cost L cost w), w') \<and>
    (\<exists>u. q_waiters (qu_state q) seq = Some u \<and> \<not> waiter_expired (queue_now_ms q) u \<and>
       (\<forall>x v. q_waiters (qu_state q) x = Some v \<and> \<not> waiter_expired (queue_now_ms q) v \<longrightarrow> w_priority v \<le> w_priority u))"
  using run_ok(2) [OF assms(1)]
proof (cases rule: wait_turn_cases [of q seq L d cost w, consumes 1, case_names evicted late polled])
  case (polled s)
  have t: "turn_of q = Some seq" using polled(10) assms(2,3) by (auto split: if_splits)
  moreover have "l_acquire_cost L cost w = (fst (l_acquire_cost L cost w), w')"
    using polled(10) assms(2) t by (auto split: prod.splits decision.splits option.splits)
  moreover obtain u where u: "q_waiters (qu_state q) seq = Some u" "\<not> waiter_expired (queue_now_ms q) u"
    using turn_of_in [OF run_ok(2) [OF assms(1)] t] by blast
  moreover have "\<forall>d'. d = Some d' \<longrightarrow> queue_now_ms q < d'" using polled(2) by (auto split: option.splits)
  ultimately show ?thesis using polled(1) turn_of_best(2) [OF run_ok(2) [OF assms(1)] t u(1)] by blast
qed (use assms(2,3) in auto)

subsection \<open>Fairness\<close>

lemma wait_turn_granted:
  assumes ok: "queue_ok (qu_state q)" and turn: "wait_turn L q seq d cost w = Some (Ready (Inr ()), q', w')"
  obtains s s' u where "q' = q\<lparr>qu_state := s'\<rparr>" and "queue_ok s"
    and "q_waiters s = unexpired (queue_now_ms q) (q_waiters (qu_state q))" and "turn_of q = Some seq"
    and "q_waiters s seq = Some u" and "wake_winner (serve s seq) (queue_now_ms q) = Some s'"
  using ok
proof (cases rule: wait_turn_cases [of q seq L d cost w, consumes 1, case_names evicted late polled])
  case (polled s)
  have t: "turn_of q = Some seq" using polled(10) turn by (auto split: if_splits)
  obtain u where u: "q_waiters s seq = Some u"
    using turn_of_in [OF ok t] unfolding polled(4) by (auto simp: unexpired_Some)
  obtain s' where "wake_winner (serve s seq) (queue_now_ms q) = Some s'" "q' = q\<lparr>qu_state := s'\<rparr>"
    using polled(10) turn t by (auto split: prod.splits decision.splits option.splits)
  then show ?thesis using that [OF _ polled(3,4) t u] by blast
qed (use turn in auto)

lemma unexpired_idem: "unexpired now (unexpired now W) = unexpired now W"
  by (auto simp: unexpired_def fun_eq_iff split: option.splits)

text \<open>C19: Equal priorities share the turn across keys: right after a key was served, it does
  not hold the turn again while an unexpired waiter of another key has the same priority.\<close>

theorem served_key_yields:
  assumes "(queue_step L)\<^sup>*\<^sup>* (queue_new capacity ovf clk, w0) (q, w)"
    and "wait_turn L q seq d cost w = Some (Ready (Inr ()), q', w')" and "q_waiters (qu_state q) seq = Some u"
    and "turn_of q' = Some seq'" and "q_waiters (qu_state q') seq' = Some u'"
    and "q_waiters (qu_state q') x = Some v" and "\<not> waiter_expired (queue_now_ms q') v" and "w_priority v = w_priority u'"
    and "w_key_id v \<noteq> w_key_id u"
  shows "w_key_id u' \<noteq> w_key_id u"
proof
  assume same: "w_key_id u' = w_key_id u"
  note ok = run_ok(2) [OF assms(1)]
  obtain s s' u1 where g: "q' = q\<lparr>qu_state := s'\<rparr>" "queue_ok s"
      "q_waiters s = unexpired (queue_now_ms q) (q_waiters (qu_state q))" "q_waiters s seq = Some u1"
      "wake_winner (serve s seq) (queue_now_ms q) = Some s'"
    using wait_turn_granted [OF ok assms(2)] by metis
  have u1: "u1 = u" using g(3,4) assms(3) by (simp add: unexpired_Some)
  have sv: "queue_ok (serve s seq)" "q_waiters (serve s seq) = (q_waiters s)(seq := None)"
      "\<And>x v. q_waiters (serve s seq) x = Some v \<Longrightarrow> keys_recency (serve s seq) (w_key_id v) =
        (if w_key_id v = w_key_id u then q_service_seq s + 1 else keys_recency s (w_key_id v))"
    using serve_ok [OF g(2,4)] unfolding u1 by metis+
  have wk: "queue_ok s'" "q_waiters s' = unexpired (queue_now_ms q) (q_waiters (serve s seq))"
      "\<And>x v. q_waiters s' x = Some v \<Longrightarrow> keys_recency s' (w_key_id v) = keys_recency (serve s seq) (w_key_id v)"
    using wake_winner_ok [OF sv(1), of "queue_now_ms q"] g(5) by (metis option.inject)+
  have rec: "keys_recency s' (w_key_id y) = (if w_key_id y = w_key_id u then q_service_seq s + 1 else keys_recency s (w_key_id y))"
    if "q_waiters s' z = Some y" for z y
    using wk(3) [OF that] sv(3) [of z y] that wk(2) by (simp add: unexpired_Some)
  have v: "q_waiters s x = Some v" using assms(6) wk(2) sv(2) by (auto simp: g(1) unexpired_Some split: if_splits)
  obtain k st where st: "q_keys s k = Some st" "ks_id st = w_key_id v"
    using key_of_waiter [OF queue_okD(5) [OF g(2)] v] by metis
  have "keys_recency s (w_key_id v) \<le> q_service_seq s"
    using keys_recency_of(1) [OF queue_okD(5) [OF g(2)] st(1)] keys_okD(3) [OF queue_okD(5) [OF g(2)] st(1)] st(2) by simp
  moreover have "(keys_recency s' (w_key_id u'), w_key_id u') \<le> (keys_recency s' (w_key_id v), w_key_id v)"
    using turn_of_best(3) [of q' seq' u' x v] assms(4-8) wk(1) by (simp add: g(1))
  ultimately show False
    using rec [of seq' u'] rec [of x v] assms(5,6,9) same by (simp add: g(1) less_eq_prod_def)
qed

subsection \<open>Passing the turn on\<close>

lemma wake_winner_wakes:
  assumes ok: "queue_ok s" and wk: "wake_winner s (queue_now_ms q) = Some s'" and t: "turn_of (q\<lparr>qu_state := s'\<rparr>) = Some t"
  shows "t \<in> q_woken s'"
proof -
  have w: "q_waiters s' = unexpired (queue_now_ms q) (q_waiters s)"
      "\<And>x v. q_waiters s' x = Some v \<Longrightarrow> keys_recency s' (w_key_id v) = keys_recency s (w_key_id v)"
      "q_woken s' = q_woken s \<union> set_option (scan_turn (keys_recency s) (unexpired (queue_now_ms q) (q_waiters s)))"
    using wake_winner_ok [OF ok, of "queue_now_ms q"] wk by (metis option.inject)+
  have "queue_now_ms (q\<lparr>qu_state := s'\<rparr>) = queue_now_ms q" by (simp add: queue_now_ms_def)
  then have "turn_of (q\<lparr>qu_state := s'\<rparr>) = scan_turn (keys_recency s') (q_waiters s')"
    by (simp add: turn_of_def w(1) unexpired_idem)
  also have "\<dots> = scan_turn (keys_recency s) (q_waiters s')" by (rule scan_turn_cong) (rule w(2))
  finally show ?thesis using t w(1,3) by simp
qed

text \<open>C35: After an arrival, a grant or the departure of a queued waiter, the waiter that then
  holds the turn has been woken.\<close>

theorem turn_is_passed_on:
  assumes "(queue_step L)\<^sup>*\<^sup>* (queue_new capacity ovf clk, w0) (q, w)"
    and "(\<exists>p d key seq. register q (queue_now_ms q) p d key = Some (Inr seq, q')) \<or>
      (\<exists>seq d cost w'. wait_turn L q seq d cost w = Some (Ready (Inr ()), q', w')) \<or>
      (\<exists>seq \<in> dom (q_waiters (qu_state q)). leave q seq = Some q')"
    and "turn_of q' = Some t"
  shows "t \<in> q_woken (qu_state q')"
proof -
  note inv = run_ok(1) [OF assms(1)] and ok = run_ok(2) [OF assms(1)]
  have "\<exists>s s'. queue_ok s \<and> wake_winner s (queue_now_ms q) = Some s' \<and> q' = q\<lparr>qu_state := s'\<rparr>"
    using assms(2)
  proof (elim disjE exE bexE)
    fix p d key seq assume reg: "register q (queue_now_ms q) p d key = Some (Inr seq, q')"
    show ?thesis by (rule register_cases [OF inv, of "queue_now_ms q" p d key]) (use reg in auto)
  next
    fix seq d cost w' assume "wait_turn L q seq d cost w = Some (Ready (Inr ()), q', w')"
    then obtain s s' u where "queue_ok s" "q_waiters s seq = Some u" "q' = q\<lparr>qu_state := s'\<rparr>"
        "wake_winner (serve s seq) (queue_now_ms q) = Some s'"
      using wait_turn_granted [OF ok] by metis
    then show ?thesis using serve_ok by metis
  next
    fix seq assume lv: "seq \<in> dom (q_waiters (qu_state q))" "leave q seq = Some q'"
    show ?thesis by (rule leave_cases [OF ok, of seq]) (use lv in auto)
  qed
  then show ?thesis using wake_winner_wakes assms(3) by fastforce
qed

subsection \<open>A full queue\<close>

text \<open>Whom each policy gives up, by a scan.\<close>

definition scan_victim :: "overflow \<Rightarrow> u32 \<Rightarrow> (u64 \<rightharpoonup> waiter) \<Rightarrow> u64 option" where
  "scan_victim ovf p W =
     (case ovf of
        Reject \<Rightarrow> None
      | DropOldest \<Rightarrow> Some (Min (dom W))
      | DropLowestPriority \<Rightarrow>
          (let low = Min (w_priority ` ran W) in if low < p then Some (Max (at_level W low)) else None))"

lemma overflow_victim_scan:
  assumes ok: "queue_ok s" and ne: "dom (q_waiters s) \<noteq> {}"
  shows "overflow_victim ovf p s = scan_victim ovf p (q_waiters s)"
proof (cases ovf)
  case DropLowestPriority
  let ?W = "q_waiters s" and ?D = "dom (q_levels s)"
  have D: "?D = w_priority ` ran ?W" using queue_okD(3) [OF ok] by (simp add: dom_levels_spec)
  have nonempty: "?D \<noteq> {}" using ne unfolding D by (auto simp: ran_def dom_def)
  have "finite ?D" using finite_levels [OF queue_okD(1) [OF ok]] queue_okD(3) [OF ok] by simp
  then have "Min ?D \<in> ?D" using nonempty by (rule Min_in)
  then obtain l where l: "q_levels s (Min ?D) = Some l" by blast
  have seqs: "lv_seqs l = at_level ?W (Min ?D)" by (rule level_seqs [OF ok l])
  have "at_level ?W (Min ?D) \<noteq> {}" using l queue_okD(3) [OF ok] by (metis levels_spec_def option.distinct(1))
  then have "weakest s = Some (Max (at_level ?W (Min ?D)), Min ?D)"
    using nonempty l seqs by (simp add: weakest_def Let_def)
  then show ?thesis using DropLowestPriority by (simp add: overflow_victim_def scan_victim_def Let_def D)
qed (use ne in \<open>simp_all add: overflow_victim_def scan_victim_def oldest_def\<close>)

text \<open>On a full queue the policy decides who is turned away: with nobody to give up the
  newcomer gets \<open>QueueFull\<close> and no waiter changes; otherwise it is admitted, exactly the
  waiter the policy names is evicted, is gone from the queue, is woken, and its next poll
  reports \<open>QueueFull\<close>.\<close>

theorem full_queue_overflow:
  fixes now p
  assumes "(queue_step L)\<^sup>*\<^sup>* (queue_new capacity ovf clk, w0) (q, w)"
    and "W = unexpired now (q_waiters (qu_state q))" and "card (dom W) = max capacity 1"
  shows "case scan_victim ovf p W of
      None \<Rightarrow> \<exists>q'. register q now p d key = Some (Inl QueueFull, q') \<and> q_waiters (qu_state q') = W \<and>
        q_evicted (qu_state q') = q_evicted (qu_state q)
    | Some v \<Rightarrow> \<exists>seq q'. register q now p d key = Some (Inr seq, q') \<and> v \<in> dom W \<and>
        q_evicted (qu_state q') = insert v (q_evicted (qu_state q)) \<and>
        dom (q_waiters (qu_state q')) \<subseteq> insert seq (dom W - {v}) \<and> dom W - {v} \<subseteq> dom (q_waiters (qu_state q')) \<and>
        v \<in> q_woken (qu_state q') \<and> fst (the (wait_turn L q' v d' cost w1)) = Ready (Inl QueueFull)"
  using run_ok(1) [OF assms(1)]
proof (cases rule: register_cases [of q now p d key, consumes 1, case_names rejected admitted])
  case (rejected s)
  have ne: "dom (q_waiters s) \<noteq> {}" using assms(2,3) rejected(3) by auto
  show ?thesis
    using overflow_victim_scan [OF rejected(2) ne, of ovf p] rejected run_ok(4) [OF assms(1)] assms(2) by simp
next
  case (admitted s s1 s2 s3 seq)
  have ne: "dom (q_waiters s) \<noteq> {}" using assms(2,3) admitted(3) by auto
  have full: "qu_capacity q \<le> qs_len s" using admitted(3) assms(2,3) run_ok(3) [OF assms(1)] by (simp add: qs_len_def)
  then obtain v where v: "overflow_victim (qu_overflow q) p s = Some v" "v \<in> dom (q_waiters s)" using admitted(7) by blast
  have s1: "s1 = evict s v" using admitted(6) full v(1) by simp
  note e = evict_ok [OF admitted(2) v(2)]
  obtain kid where s2: "q_waiters s2 = (q_waiters s1)(seq \<mapsto> \<lparr>w_priority = p, w_deadline_ms = d, w_key_id = kid\<rparr>)"
      "q_evicted s2 = q_evicted s1" "q_woken s2 = q_woken s1" "seq = q_next_seq s1"
    using qs_insert_ok [OF admitted(8,9)] by metis
  have s3: "q_waiters s3 = unexpired now (q_waiters s2)" "q_evicted s3 = q_evicted s2" "q_woken s2 \<subseteq> q_woken s3"
    using wake_winner_ok [OF admitted(10), of now] admitted(11) by (metis option.inject Un_upper1)+
  have W: "W = q_waiters s" using assms(2) admitted(3) by simp
  have keep: "unexpired now (q_waiters s2) x = W x" if "x \<noteq> seq" "x \<noteq> v" for x
    using that assms(2) unexpired_idem [of now "q_waiters (qu_state q)"]
    by (simp add: s2(1) s1 e(2) W unexpired_def fun_upd_def admitted(3) split: option.splits)
  have "v < seq" using queue_okD(2) [OF admitted(2) v(2)] s2(4) e(5) by (simp add: s1)
  then have none: "unexpired now (q_waiters s2) v = None" by (simp add: s2(1) s1 e(2) unexpired_def)
  have "x \<in> insert seq (dom W - {v})" if "x \<in> dom (q_waiters s3)" for x
    using that keep [of x] none unfolding s3(1) by (cases "x = v"; cases "x = seq") (auto simp: dom_def)
  moreover have "x \<in> insert seq (dom (q_waiters s3))" if "x \<in> dom W - {v}" for x
    using that keep [of x] unfolding s3(1) by (cases "x = seq") (auto simp: dom_def)
  ultimately have dom: "dom (q_waiters s3) \<subseteq> insert seq (dom W - {v})" "dom W - {v} \<subseteq> insert seq (dom (q_waiters s3))"
    by blast+
  have "seq \<notin> dom W" using queue_okD(2) [OF admitted(2), of seq] s2(4) e(5) W s1 by auto
  then have "dom W - {v} \<subseteq> dom (q_waiters s3)" using dom(2) by blast
  moreover have "q_evicted s3 = insert v (q_evicted (qu_state q))" "v \<in> q_woken s3"
    using s2(2,3) s3(2,3) e(3,4) s1 admitted(4) by auto
  moreover have "scan_victim ovf p W = Some v"
    using overflow_victim_scan [OF admitted(2) ne, of ovf p] v(1) run_ok(4) [OF assms(1)] W by simp
  ultimately show ?thesis using dom(1) admitted(12) v(2) W
    by (simp add: wait_turn_def Let_def signal_listen_ok)
qed

subsection \<open>Witnesses\<close>

text \<open>The operations, evaluated on concrete queues.\<close>

lemma prune_expired_rounds:
  "q_deadlines s = {} \<Longrightarrow> prune_expired now s = Some s"
  "q_deadlines s \<noteq> {} \<Longrightarrow> now < fst (Min (q_deadlines s)) \<Longrightarrow> prune_expired now s = Some s"
  "q_deadlines s \<noteq> {} \<Longrightarrow> fst (Min (q_deadlines s)) \<le> now \<Longrightarrow>
    prune_expired now s = prune_expired now (snd (qs_remove s (snd (Min (q_deadlines s)))))"
  by (subst prune_expired.simps; simp add: case_prod_beta)+

lemma restamp_maps:
  "(\<lambda>p. map_option f (if p = x then Some l else None)) = [x \<mapsto> f l]"
  "(\<lambda>p. map_option f (if p = x then Some l else if p = y then Some l' else None)) = [y \<mapsto> f l', x \<mapsto> f l]"
  by (auto simp: fun_eq_iff)

lemma min_pair: "min (a, b) (c, d) = (if (a :: nat) < c \<or> a = c \<and> (b :: nat) \<le> d then (a, b) else (c, d))"
  by (auto simp: min_def less_eq_prod_def)

lemmas queue_eval = restamp_maps min_pair insert_Diff_if prune_expired_rounds register_def queue_new_def qs_new_def qs_len_def qs_insert_def
  qs_admit_key_def Let_def level_insert_def level_of_def level_default_def wake_winner_def winner_def
  front_waiter_def signal_wake_def signal_listen_def wait_turn_def leave_def qs_remove_def keys_recency_def
  level_remove_def maybe_prune_keys_def serve_def restamp_def evict_def overflow_victim_def oldest_def
  queue_now_ms_def cap_to_deadline_def machine_arith

lemma turn_of_winner:
  assumes "queue_ok (qu_state q)" and "winner (qu_state q) (queue_now_ms q) = Some (t, s)"
  shows "turn_of q = t"
  using winner_ok [OF assms(1), of "queue_now_ms q"] assms(2) unfolding turn_of_def by (metis option.inject prod.inject)

text \<open>A limiter with one answer, counting the requests it saw.\<close>

definition fixed_limiter :: "decision \<Rightarrow> nat limiter" where
  "fixed_limiter a = \<lparr>l_peek = \<lambda>_ n. (a, n), l_acquire_cost = \<lambda>_ n. (a, n + 1), l_available = \<lambda>n. (0, n),
     l_capacity = \<lambda>_. 1, l_refund = \<lambda>_ n. n, l_reserve = \<lambda>_ _ n. (None, n), l_pause_for = \<lambda>_ n. n, l_paused_for = \<lambda>_. 0,
     l_resume = \<lambda>n. n, l_charge = \<lambda>_ n. (0, n)\<rparr>"

text \<open>Three waiters of two keys at priority five.\<close>

definition after_register :: "'k queue \<Rightarrow> u32 \<Rightarrow> u64 option \<Rightarrow> 'k \<Rightarrow> 'k queue" where
  "after_register q p d key = snd (the (register q (queue_now_ms q) p d key))"

definition trio :: "nat queue" where
  "trio = after_register (after_register (after_register (queue_new 3 DropOldest 0) 5 None 7) 5 None 8) 5 None 7"

lemma register_run:
  assumes "(queue_step L)\<^sup>*\<^sup>* (queue_new capacity ovf clk, w0) (q, w)"
  shows "(queue_step L)\<^sup>*\<^sup>* (queue_new capacity ovf clk, w0) (after_register q p d key, w)"
proof -
  obtain r q' where r: "register q (queue_now_ms q) p d key = Some (r, q')"
    by (rule register_cases [OF run_ok(1) [OF assms], of "queue_now_ms q" p d key]) (metis that)+
  then have "queue_step L (q, w) (q', w)" by (rule queue_step.registers)
  then show ?thesis using assms r by (simp add: after_register_def)
qed

lemma trio_run: "(queue_step L)\<^sup>*\<^sup>* (queue_new 3 DropOldest 0, w) (trio, w)"
  unfolding trio_def by (intro register_run rtranclp.rtrancl_refl)

lemma trio_eq: "trio = \<lparr>qu_state = \<lparr>
    q_waiters = [0 \<mapsto> \<lparr>w_priority = 5, w_deadline_ms = None, w_key_id = 0\<rparr>,
      1 \<mapsto> \<lparr>w_priority = 5, w_deadline_ms = None, w_key_id = 1\<rparr>,
      2 \<mapsto> \<lparr>w_priority = 5, w_deadline_ms = None, w_key_id = 0\<rparr>],
    q_levels = [5 \<mapsto> \<lparr>lv_order = {(0, 1), (0, 0)}, lv_by_key = [1 \<mapsto> [1], 0 \<mapsto> [0, 2]], lv_seqs = {2, 1, 0}\<rparr>],
    q_deadlines = {},
    q_keys = [8 \<mapsto> \<lparr>ks_id = 1, ks_recency = 0, ks_waiting = 1\<rparr>, 7 \<mapsto> \<lparr>ks_id = 0, ks_recency = 0, ks_waiting = 2\<rparr>],
    q_key_of = [0 \<mapsto> 7, 1 \<mapsto> 8], q_recency_floor = 0, q_service_seq = 0, q_next_seq = 3, q_next_key_id = 2,
    q_prune_at = 22, q_evicted = {}, q_woken = {0}\<rparr>,
    qu_capacity = 3, qu_overflow = DropOldest, qu_clock = 0, qu_epoch = 0\<rparr>"
  by (simp add: trio_def after_register_def queue_eval U64_MAX_def numeral_2_eq_2 numeral_3_eq_3)

text \<open>The first waiter is served: its key is restamped, the turn passes to the other key.\<close>

definition trio_served :: "nat queue" where
  "trio_served = \<lparr>qu_state = \<lparr>
    q_waiters = [1 \<mapsto> \<lparr>w_priority = 5, w_deadline_ms = None, w_key_id = 1\<rparr>,
      2 \<mapsto> \<lparr>w_priority = 5, w_deadline_ms = None, w_key_id = 0\<rparr>],
    q_levels = [5 \<mapsto> \<lparr>lv_order = {(1, 0), (0, 1)}, lv_by_key = [1 \<mapsto> [1], 0 \<mapsto> [2]], lv_seqs = {2, 1}\<rparr>],
    q_deadlines = {},
    q_keys = [8 \<mapsto> \<lparr>ks_id = 1, ks_recency = 0, ks_waiting = 1\<rparr>, 7 \<mapsto> \<lparr>ks_id = 0, ks_recency = 1, ks_waiting = 1\<rparr>],
    q_key_of = [0 \<mapsto> 7, 1 \<mapsto> 8], q_recency_floor = 0, q_service_seq = 1, q_next_seq = 3, q_next_key_id = 2,
    q_prune_at = 22, q_evicted = {}, q_woken = {1}\<rparr>,
    qu_capacity = 3, qu_overflow = DropOldest, qu_clock = 0, qu_epoch = 0\<rparr>"

lemma trio_grant: "wait_turn (fixed_limiter Acquired) trio 0 None 1 0 = Some (Ready (Inr ()), trio_served, 1)"
  by (simp add: trio_eq trio_served_def queue_eval fixed_limiter_def)

lemma trio_served_run: "(queue_step (fixed_limiter Acquired))\<^sup>*\<^sup>* (queue_new 3 DropOldest 0, 0) (trio_served, 1)"
  by (rule rtranclp.rtrancl_into_rtrancl [OF trio_run queue_step.polls [OF trio_grant]])

lemma trio_turns: "turn_of trio = Some 0" "turn_of trio_served = Some 1"
  by (rule turn_of_winner [OF run_ok(2) [OF trio_run]], simp add: trio_eq queue_eval)
    (rule turn_of_winner [OF run_ok(2) [OF trio_served_run]], simp add: trio_served_def queue_eval)

theorem queue_turn_is_scan_witness:
  "\<exists>s. winner (qu_state trio) (queue_now_ms trio) = Some (Some 0, s) \<and> 0 \<in> dom (q_waiters s)"
  using queue_turn_is_scan [OF trio_run [of "fixed_limiter Acquired" 0]] trio_turns(1)
  by (auto simp: trio_eq unexpired_def waiter_expired_def)

theorem queue_stays_bounded_witness: "queue_len trio \<le> 3 \<and> card (dom (q_keys (qu_state trio))) \<le> 25"
  using queue_stays_bounded [OF trio_run [of "fixed_limiter Acquired" 0]] by simp

theorem queue_sections_end_witness:
  "(\<exists>r q'. register trio 0 9 (Some 4) 2 = Some (r, q')) \<and> (\<exists>q'. leave trio 1 = Some q')"
  using queue_sections_end [OF trio_run [of "fixed_limiter Acquired" 0], of 0 9 "Some 4" 2 1] by blast

theorem only_turn_holder_draws_witness:
  "turn_of trio = Some 0 \<and> 0 \<notin> q_evicted (qu_state trio) \<and> (\<exists>u. q_waiters (qu_state trio) 0 = Some u \<and> w_priority u = 5)"
  using only_turn_holder_draws [OF trio_run trio_grant] by (simp add: trio_eq)

theorem served_key_yields_witness:
  "turn_of trio_served = Some 1 \<and> w_key_id (the (q_waiters (qu_state trio_served) 1)) \<noteq>
     w_key_id (the (q_waiters (qu_state trio) 0))"
  using served_key_yields [OF trio_run trio_grant _ trio_turns(2), of
      "\<lparr>w_priority = 5, w_deadline_ms = None, w_key_id = 0\<rparr>" "\<lparr>w_priority = 5, w_deadline_ms = None, w_key_id = 1\<rparr>" 1
      "\<lparr>w_priority = 5, w_deadline_ms = None, w_key_id = 1\<rparr>"] trio_turns(2)
  by (simp add: trio_eq trio_served_def waiter_expired_def)

theorem turn_is_passed_on_witness: "turn_of trio_served = Some 1 \<and> 1 \<in> q_woken (qu_state trio_served)"
  using turn_is_passed_on [OF trio_run [of "fixed_limiter Acquired" 0], of trio_served 1] trio_grant trio_turns(2) by blast

theorem full_queue_overflow_witness:
  "\<exists>seq q'. register trio 0 1 None 9 = Some (Inr seq, q') \<and> q_evicted (qu_state q') = {0} \<and>
     0 \<notin> dom (q_waiters (qu_state q')) \<and> fst (the (wait_turn (fixed_limiter Acquired) q' 0 None 1 0)) = Ready (Inl QueueFull)"
proof -
  let ?W = "unexpired 0 (q_waiters (qu_state trio))"
  have W: "dom ?W = {0, 1, 2}" by (auto simp: trio_eq unexpired_def waiter_expired_def split: if_splits)
  then have v: "scan_victim DropOldest 1 ?W = Some 0" by (simp add: scan_victim_def)
  have "card (dom ?W) = max 3 1" unfolding W by simp
  note * = full_queue_overflow [OF trio_run [of "fixed_limiter Acquired" 0] refl this, of 1 None 9 None 1 0]
  have "q_evicted (qu_state trio) = {}" by (simp add: trio_eq)
  moreover from * [unfolded v option.case] obtain seq q' where q': "register trio 0 1 None 9 = Some (Inr seq, q')"
      "q_evicted (qu_state q') = insert 0 (q_evicted (qu_state trio))" "dom (q_waiters (qu_state q')) \<subseteq> insert seq (dom ?W - {0})"
      "fst (the (wait_turn (fixed_limiter Acquired) q' 0 None 1 0)) = Ready (Inl QueueFull)"
    by (elim exE conjE)
  moreover have "seq = 3" using q'(1) by (simp add: trio_eq queue_eval)
  ultimately show ?thesis by (intro exI [of _ seq] exI [of _ q']) auto
qed

subsection \<open>A turn change that wakes nobody\<close>

text \<open>
  Three waiters: the first (priority 0) polls and sleeps on the limiter's answer, the second
  (priority 2) has a deadline at 50 ms, the third (priority 1) polls without the turn and
  sleeps the full backstop.  At 60 ms the first polls, which drops the expired second; the
  second then reports its deadline and leaves, but is no longer queued.
\<close>

definition slow :: "nat limiter" where
  "slow = fixed_limiter (Retry (from_millis 60))"

definition after_poll :: "'k queue \<Rightarrow> u64 \<Rightarrow> u64 option \<Rightarrow> nat \<Rightarrow> 'k queue" where
  "after_poll q seq d n = fst (snd (the (wait_turn slow q seq d 1 n)))"

definition queued3 :: "nat queue" where
  "queued3 = after_register (after_register (after_poll (after_register (queue_new 4 Reject 0) 0 None 1) 0 None 0) 2 (Some 50) 2) 1 None 3"

definition stale :: "nat queue" where
  "stale = the (leave (after_poll (after_poll ((after_poll queued3 2 None 1)\<lparr>qu_clock := from_millis 60\<rparr>) 0 None 1) 1 (Some 50) 1) 1)"

lemmas stale_eval = queue_eval U64_MAX_def from_millis_def slow_def fixed_limiter_def after_poll_def after_register_def

lemma queued3_eq: "queued3 = \<lparr>qu_state = \<lparr>
    q_waiters = [0 \<mapsto> \<lparr>w_priority = 0, w_deadline_ms = None, w_key_id = 0\<rparr>,
      1 \<mapsto> \<lparr>w_priority = 2, w_deadline_ms = Some 50, w_key_id = 1\<rparr>,
      2 \<mapsto> \<lparr>w_priority = 1, w_deadline_ms = None, w_key_id = 2\<rparr>],
    q_levels = [0 \<mapsto> \<lparr>lv_order = {(0, 0)}, lv_by_key = [0 \<mapsto> [0]], lv_seqs = {0}\<rparr>,
      2 \<mapsto> \<lparr>lv_order = {(0, 1)}, lv_by_key = [1 \<mapsto> [1]], lv_seqs = {1}\<rparr>,
      1 \<mapsto> \<lparr>lv_order = {(0, 2)}, lv_by_key = [2 \<mapsto> [2]], lv_seqs = {2}\<rparr>],
    q_deadlines = {(50, 1)},
    q_keys = [1 \<mapsto> \<lparr>ks_id = 0, ks_recency = 0, ks_waiting = 1\<rparr>, 2 \<mapsto> \<lparr>ks_id = 1, ks_recency = 0, ks_waiting = 1\<rparr>,
      3 \<mapsto> \<lparr>ks_id = 2, ks_recency = 0, ks_waiting = 1\<rparr>],
    q_key_of = [0 \<mapsto> 1, 1 \<mapsto> 2, 2 \<mapsto> 3], q_recency_floor = 0, q_service_seq = 0, q_next_seq = 3, q_next_key_id = 3,
    q_prune_at = 24, q_evicted = {}, q_woken = {1}\<rparr>,
    qu_capacity = 4, qu_overflow = Reject, qu_clock = 0, qu_epoch = 0\<rparr>"
  by (simp add: queued3_def stale_eval numeral_2_eq_2 numeral_3_eq_3)

lemma stale_sleeps: "fst (the (wait_turn slow queued3 2 None 1 1)) = Sleep RECHECK"
  by (simp add: queued3_eq stale_eval)

lemma stale_run: "(queue_step slow)\<^sup>*\<^sup>* (queue_new 4 Reject 0, 0) (stale, 0)"
proof -
  let ?run = "\<lambda>q. (queue_step slow)\<^sup>*\<^sup>* (queue_new 4 Reject 0, 0 :: nat) (q :: nat queue, 0)"
  have shared: "?run q" if "(queue_step slow)\<^sup>*\<^sup>* (queue_new 4 Reject 0, 0) (q :: nat queue, w)" for q w
    using that queue_step.shared by (rule rtranclp.rtrancl_into_rtrancl)
  have poll: "?run (after_poll q seq d n)" if "?run q" and "wait_turn slow q seq d 1 n \<noteq> None" for q seq d n
  proof -
    from that(2) obtain r w' where "wait_turn slow q seq d 1 n = Some (r, after_poll q seq d n, w')"
      by (auto simp: after_poll_def)
    then have "queue_step slow (q, n) (after_poll q seq d n, w')" by (rule queue_step.polls)
    then show ?thesis
      by (intro shared rtranclp.rtrancl_into_rtrancl [OF rtranclp.rtrancl_into_rtrancl [OF that(1) queue_step.shared]])
  qed
  have tick: "?run (q\<lparr>qu_clock := c\<rparr>)" if "?run q" and "qu_clock q \<le> c" for q c
    using that queue_step.ticks by (metis rtranclp.rtrancl_into_rtrancl)
  have left: "?run (the (leave q seq))" if "?run q" and "leave q seq \<noteq> None" for q seq
    using that queue_step.leaves [of q seq] by (metis option.exhaust_sel rtranclp.rtrancl_into_rtrancl)
  have "?run queued3"
    unfolding queued3_def by (intro register_run poll rtranclp.rtrancl_refl) (simp add: stale_eval)
  then show ?thesis
    unfolding stale_def by (intro left poll tick) (simp_all add: queued3_eq stale_eval)
qed

text \<open>In a reachable queue the turn has changed, its holder sleeps the backstop, and neither it
  nor anyone else has been woken.\<close>

theorem turn_change_wakes_nobody:
  "(queue_step slow)\<^sup>*\<^sup>* (queue_new 4 Reject 0, 0) (stale, 0) \<and>
   fst (the (wait_turn slow queued3 2 None 1 1)) = Sleep RECHECK \<and>
   (\<exists>s. winner (qu_state stale) (queue_now_ms stale) = Some (Some 2, s)) \<and> q_woken (qu_state stale) = {}"
  using stale_run by (simp add: stale_sleeps) (simp add: stale_def queued3_eq stale_eval)

text \<open>On a full queue, a request whose deadline is already due still evicts a live waiter, and is
  dropped itself.\<close>

theorem due_request_evicts:
  "\<exists>q'. register (after_register (queue_new 1 DropOldest 0 :: nat queue) 5 None 7) 0 0 (Some 0) 8 = Some (Inr 1, q') \<and>
     q_evicted (qu_state q') = {0} \<and> q_waiters (qu_state q') = Map.empty"
  by (simp add: stale_eval)

end
