(* ===== verification/Queue_Wait.thy ===== *)
theory Queue_Wait
  imports Queue_Safety Adaptive
begin

text \<open>
  A whole wait in the queue (\<open>Queue::wait\<close> and the acquires of \<open>src/queue.rs\<close>): registering, the loop
  of polls and sleeps, and leaving on every way out.  The world is the queue, the wrapped limiter
  and the rest of the program.  A sleep is a parameter: other tasks use the queue meanwhile, and
  it says whether the future is still alive afterwards.
\<close>

type_synonym ('k, 'w, 'x) queue_world = "'k queue \<times> 'w \<times> 'x"

partial_function (option) queue_loop ::
  "'w limiter \<Rightarrow> (duration \<Rightarrow> ('k, 'w, 'x) queue_world \<Rightarrow> bool \<times> ('k, 'w, 'x) queue_world) \<Rightarrow> u64 \<Rightarrow> u64 option \<Rightarrow>
   u32 \<Rightarrow> ('k, 'w, 'x) queue_world \<Rightarrow> ((throttle_error + unit) option \<times> ('k, 'w, 'x) queue_world) option" where
  "queue_loop L nap seq deadline_ms cost v =
     (case v of (q, w, x) \<Rightarrow>
        (case wait_turn L q seq deadline_ms cost w of
           None \<Rightarrow> None
         | Some (p, q1, w1) \<Rightarrow>
             (case p of
                Ready r \<Rightarrow> Some (Some r, q1, w1, x)
              | Sleep sleep_for \<Rightarrow>
                  (case nap sleep_for (q1, w1, x) of (alive, v') \<Rightarrow>
                     if alive then queue_loop L nap seq deadline_ms cost v' else Some (None, v')))))"

definition queue_wait ::
  "'w limiter \<Rightarrow> (duration \<Rightarrow> ('k, 'w, 'x) queue_world \<Rightarrow> bool \<times> ('k, 'w, 'x) queue_world) \<Rightarrow> 'k \<Rightarrow> u32 \<Rightarrow>
   duration option \<Rightarrow> u32 \<Rightarrow> ('k, 'w, 'x) queue_world \<Rightarrow>
   ((throttle_error + unit) option \<times> ('k, 'w, 'x) queue_world) option" where
  "queue_wait L nap key priority deadline cost v =
     (case v of (q, w, x) \<Rightarrow>
        (let start_ms = queue_now_ms q; deadline_ms = wait_deadline start_ms deadline in
         case register q start_ms priority deadline_ms key of
           None \<Rightarrow> None
         | Some (Inl e, q1) \<Rightarrow> Some (Some (Inl e), q1, w, x)
         | Some (Inr seq, q1) \<Rightarrow>
             (case queue_loop L nap seq deadline_ms cost (q1, w, x) of
                None \<Rightarrow> None
              | Some (r, q2, w2, x2) \<Rightarrow> map_option (\<lambda>q3. (r, q3, w2, x2)) (leave q2 seq))))"

definition queue_acquire_with_cost ::
  "'w limiter \<Rightarrow> (duration \<Rightarrow> ('k, 'w, 'x) queue_world \<Rightarrow> bool \<times> ('k, 'w, 'x) queue_world) \<Rightarrow> 'k \<Rightarrow> u32 \<Rightarrow>
   duration option \<Rightarrow> u32 \<Rightarrow> ('k, 'w, 'x) queue_world \<Rightarrow>
   ((throttle_error + unit) option \<times> ('k, 'w, 'x) queue_world) option" where
  "queue_acquire_with_cost L nap key priority deadline cost v = queue_wait L nap key priority deadline cost v"

definition queue_acquire ::
  "'w limiter \<Rightarrow> (duration \<Rightarrow> ('k, 'w, 'x) queue_world \<Rightarrow> bool \<times> ('k, 'w, 'x) queue_world) \<Rightarrow> 'k \<Rightarrow> u32 \<Rightarrow>
   duration option \<Rightarrow> ('k, 'w, 'x) queue_world \<Rightarrow>
   ((throttle_error + unit) option \<times> ('k, 'w, 'x) queue_world) option" where
  "queue_acquire L nap key priority deadline v = queue_acquire_with_cost L nap key priority deadline 1 v"

subsection \<open>What a wait leaves behind\<close>

text \<open>During a sleep other tasks run; \<open>n\<close> counts the units of the limiter that are theirs.\<close>

definition nap_ok ::
  "'w limiter \<Rightarrow> ('w \<Rightarrow> nat) \<Rightarrow> ('w \<Rightarrow> bool) \<Rightarrow>
   (duration \<Rightarrow> ('k, 'w, nat) queue_world \<Rightarrow> bool \<times> ('k, 'w, nat) queue_world) \<Rightarrow> bool" where
  "nap_ok L spent good nap \<longleftrightarrow>
     (\<forall>d q w n alive q' w' n'. nap d (q, w, n) = (alive, q', w', n') \<longrightarrow>
        (queue_step L)\<^sup>*\<^sup>* (q, w) (q', w') \<and> (good w \<longrightarrow> good w' \<and> spent w' + n = spent w + n'))"

context limiter_obj
begin

lemma poll_books:
  assumes "good w" and "wait_turn L q seq d cost w = Some (p, q', w')"
  shows "good w' \<and> spent w' = spent w + (if p = Ready (Inr ()) then cost else 0)"
  using assms obj_acquire [OF assms(1), of cost] obj_acquire_refused [OF assms(1), of cost]
  by (auto simp: wait_turn_def Let_def split: option.splits if_splits prod.splits decision.splits)

lemma queue_loop_books:
  "queue_loop L' nap seq d cost (q, w, n) = Some (r, q', w', n') \<Longrightarrow> L' = L \<Longrightarrow> nap_ok L spent good nap \<Longrightarrow>
   good w \<Longrightarrow> spent w = n \<Longrightarrow>
   (queue_step L)\<^sup>*\<^sup>* (q, w) (q', w') \<and> good w' \<and> spent w' = n' + (if r = Some (Inr ()) then cost else 0)"
proof (induction L' nap seq d cost "(q, w, n)" "(r, q', w', n')" arbitrary: q w n r q' w' n'
    rule: queue_loop.raw_induct [rotated, consumes 1])
  case (1 f L' nap seq d cost q w n)
  obtain p q1 w1 where p: "wait_turn L q seq d cost w = Some (p, q1, w1)"
    using 1(2,3) by (auto split: option.splits)
  note books = poll_books [OF 1(5) p]
  have step: "queue_step L (q, w) (q1, w1)" using p by (rule queue_step.polls)
  show ?case
  proof (cases p)
    case (Ready x)
    then show ?thesis using 1(2,3,6) p books step by auto
  next
    case (Sleep s)
    obtain alive q2 w2 n2 where nap: "nap s (q1, w1, n) = (alive, q2, w2, n2)" by (metis prod_cases4)
    have nap': "(queue_step L)\<^sup>*\<^sup>* (q1, w1) (q2, w2)" "good w2" "spent w2 = n2"
      using 1(4,6) nap books Sleep unfolding nap_ok_def by fastforce+
    show ?thesis
    proof (cases alive)
      case True
      then have "f L' nap seq d cost (q2, w2, n2) = Some (r, q', w', n')" using 1(2,3) p Sleep nap by simp
      from 1(1) [OF this 1(3,4) nap'(2,3)] nap'(1) step show ?thesis
        by (meson converse_rtranclp_into_rtranclp rtranclp_trans)
    next
      case False
      then show ?thesis using 1(2,3) p Sleep nap nap' step by (auto intro: converse_rtranclp_into_rtranclp)
    qed
  qed
qed

end

lemma leave_removes:
  assumes "queue_ok (qu_state q)" and "leave q seq = Some q'"
  shows "q_waiters (qu_state q') seq = None"
proof (cases rule: leave_cases [OF assms(1), of seq])
  case (2 s s')
  obtain s'' where "wake_winner s (queue_now_ms q) = Some s''" "q_waiters s'' = unexpired (queue_now_ms q) (q_waiters s)"
    using wake_winner_ok [OF 2(2), of "queue_now_ms q"] by metis
  then show ?thesis using 2 assms(2) by (auto simp: unexpired_def)
qed (use assms(2) in auto)

text \<open>C20: A queued request takes its cost or nothing, and always leaves.  In every reachable queue, with
  other tasks at the queue and the limiter during every sleep: a wait that returns \<open>Ok\<close> has taken
  exactly its cost; one that is turned away, evicted, late, impossible or dropped at any await has
  taken nothing; and whichever way it ends, its waiter is no longer in the queue.\<close>

theorem queue_wait_all_or_nothing:
  assumes "limiter_obj L spent ready good" and "nap_ok L spent good nap"
    and "(queue_step L)\<^sup>*\<^sup>* (queue_new capacity ovf clk, w0) (q, w)" and "good w" and "spent w = n"
    and "queue_wait L nap key priority deadline cost (q, w, n) = Some (r, q', w', n')"
  shows "spent w' = n' + (if r = Some (Inr ()) then cost else 0) \<and>
    (\<forall>seq q1. register q (queue_now_ms q) priority (wait_deadline (queue_now_ms q) deadline) key = Some (Inr seq, q1) \<longrightarrow>
      seq \<notin> dom (q_waiters (qu_state q')))"
proof -
  let ?dl = "wait_deadline (queue_now_ms q) deadline"
  obtain a q1 where a: "register q (queue_now_ms q) priority ?dl key = Some (a, q1)"
    using assms(6) by (auto simp: queue_wait_def Let_def split: option.splits)
  have q1: "(queue_step L)\<^sup>*\<^sup>* (queue_new capacity ovf clk, w0) (q1, w)"
    using assms(3) queue_step.registers [OF a] by (rule rtranclp.rtrancl_into_rtrancl)
  show ?thesis
  proof (cases a)
    case (Inl e)
    then show ?thesis using assms(5,6) a by (auto simp: queue_wait_def Let_def)
  next
    case (Inr seq)
    obtain q2 where l: "queue_loop L nap seq ?dl cost (q1, w, n) = Some (r, q2, w', n')" and q': "leave q2 seq = Some q'"
      using assms(6) a Inr by (auto simp: queue_wait_def Let_def split: option.splits)
    note books = limiter_obj.queue_loop_books [OF assms(1) l refl assms(2,4,5)]
    have "queue_ok (qu_state q2)" using run_ok(2) rtranclp_trans [OF q1 conjunct1 [OF books]] by metis
    with leave_removes [OF this q'] books a Inr show ?thesis by auto
  qed
qed

subsection \<open>A wait with a deadline returns\<close>

text \<open>Time passes in every sleep, and a sleep ends at most \<open>eps\<close> late.\<close>

definition nap_timely ::
  "nat \<Rightarrow> 'w limiter \<Rightarrow> (duration \<Rightarrow> ('k, 'w, 'x) queue_world \<Rightarrow> bool \<times> ('k, 'w, 'x) queue_world) \<Rightarrow> bool" where
  "nap_timely eps L nap \<longleftrightarrow>
     (\<forall>d q w x alive q' w' x'. nap d (q, w, x) = (alive, q', w', x') \<longrightarrow>
        (queue_step L)\<^sup>*\<^sup>* (q, w) (q', w') \<and> qu_clock q < qu_clock q' \<and> qu_clock q' \<le> qu_clock q + d + eps)"

lemma section_clock:
  "register q now p d key = Some (r, q') \<Longrightarrow> qu_clock q' = qu_clock q \<and> qu_epoch q' = qu_epoch q"
  "wait_turn L q seq d cost w = Some (r', q', w') \<Longrightarrow> qu_clock q' = qu_clock q \<and> qu_epoch q' = qu_epoch q"
  "leave q seq = Some q' \<Longrightarrow> qu_clock q' = qu_clock q \<and> qu_epoch q' = qu_epoch q"
  by (auto simp: register_def wait_turn_def leave_def Let_def
      split: option.splits if_splits prod.splits decision.splits)

lemma run_epoch: "(queue_step L)\<^sup>*\<^sup>* (q, w) (q', w') \<Longrightarrow> qu_epoch q' = qu_epoch q \<and> qu_clock q \<le> qu_clock q'"
  by (induction rule: rtranclp_induct2) (auto elim!: queue_stepE dest: section_clock)

text \<open>The last instant of a deadline's millisecond.\<close>

definition due_at :: "'k queue \<Rightarrow> u64 \<Rightarrow> nat" where
  "due_at q dl = qu_epoch q + from_millis (dl + 1)"

lemma now_bounds:
  assumes "queue_now_ms q < U64_MAX" and "qu_epoch q \<le> qu_clock q"
  shows "qu_epoch q + from_millis (queue_now_ms q) \<le> qu_clock q" and "qu_clock q < due_at q (queue_now_ms q)"
proof -
  let ?t = "qu_clock q - qu_epoch q"
  have "queue_now_ms q = ?t div 1000000"
    using assms(1) by (auto simp: queue_now_ms_def millis_u64_def to_u64_def min_def split: if_splits)
  then have "1000000 * queue_now_ms q \<le> ?t" "?t < 1000000 * (queue_now_ms q + 1)" by simp_all
  with assms(2) show "qu_epoch q + from_millis (queue_now_ms q) \<le> qu_clock q" "qu_clock q < due_at q (queue_now_ms q)"
    by (simp_all add: due_at_def from_millis_def)
qed

lemma sleep_not_late:
  assumes "wait_turn L q seq (Some dl) cost w = Some (Sleep d, q', w')" and "qu_epoch q \<le> qu_clock q" and "dl \<le> U64_MAX"
  shows "qu_clock q + d \<le> due_at q dl" and "qu_clock q < due_at q dl"
proof -
  have now: "queue_now_ms (q\<lparr>qu_state := s\<rparr>) = queue_now_ms q" for s by (simp add: queue_now_ms_def)
  have lt: "queue_now_ms q < dl" and d: "d \<le> from_millis (dl - queue_now_ms q)"
    using assms(1) by (auto simp: wait_turn_def Let_def now cap_to_deadline_def
        split: option.splits if_splits prod.splits decision.splits)
  then show "qu_clock q + d \<le> due_at q dl" "qu_clock q < due_at q dl"
    using now_bounds(2) [OF _ assms(2)] assms(3) by (simp_all add: due_at_def from_millis_def)
qed

lemma queue_loop_returns:
  assumes "nap_timely eps L nap" and "dl \<le> U64_MAX"
  shows "(queue_step L)\<^sup>*\<^sup>* (queue_new capacity ovf clk, w0) (q, w) \<Longrightarrow> qu_clock q \<le> due_at q dl + eps \<Longrightarrow>
    \<exists>r q' w' x'. queue_loop L nap seq (Some dl) cost (q, w, x) = Some (r, q', w', x') \<and>
      (queue_step L)\<^sup>*\<^sup>* (queue_new capacity ovf clk, w0) (q', w') \<and> qu_clock q' \<le> due_at q dl + eps"
proof (induction "due_at q dl - qu_clock q" arbitrary: q w x rule: less_induct)
  case less
  obtain p q1 w1 where p: "wait_turn L q seq (Some dl) cost w = Some (p, q1, w1)"
    using queue_sections_end [OF less.prems(1)] by metis
  have run1: "(queue_step L)\<^sup>*\<^sup>* (queue_new capacity ovf clk, w0) (q1, w1)"
    using less.prems(1) queue_step.polls [OF p] by (rule rtranclp.rtrancl_into_rtrancl)
  have clock: "qu_clock q1 = qu_clock q" "due_at q1 dl = due_at q dl" using section_clock(2) [OF p] by (simp_all add: due_at_def)
  have epoch: "qu_epoch q \<le> qu_clock q" using run_epoch [OF less.prems(1)] by (simp add: queue_new_def Let_def)
  note loop = queue_loop.simps [of L nap seq "Some dl" cost "(q, w, x)"]
  show ?case
  proof (cases p)
    case (Ready r)
    then show ?thesis using p run1 clock less.prems(2) by (simp add: loop)
  next
    case (Sleep d)
    note late = sleep_not_late [OF p [unfolded Sleep] epoch assms(2)]
    obtain alive q2 w2 x2 where nap: "nap d (q1, w1, x) = (alive, q2, w2, x2)" by (metis prod_cases4)
    have q2: "(queue_step L)\<^sup>*\<^sup>* (q1, w1) (q2, w2)" "qu_clock q < qu_clock q2" "qu_clock q2 \<le> qu_clock q + d + eps"
      using assms(1) nap clock unfolding nap_timely_def by fastforce+
    have due: "due_at q2 dl = due_at q dl" using run_epoch [OF q2(1)] clock by (simp add: due_at_def)
    have run2: "(queue_step L)\<^sup>*\<^sup>* (queue_new capacity ovf clk, w0) (q2, w2)" by (rule rtranclp_trans [OF run1 q2(1)])
    have "qu_clock q2 \<le> due_at q2 dl + eps" using q2(3) late(1) due by simp
    moreover have "due_at q2 dl - qu_clock q2 < due_at q dl - qu_clock q" using q2(2) late(2) due by simp
    ultimately show ?thesis
      using less.hyps [of q2 w2 x2, OF _ run2] p Sleep nap run2 due by (cases alive) (auto simp: loop)
  qed
qed

text \<open>C21: A queued request with a deadline always returns, and in time.  In every reachable queue, whatever
  the other tasks do and however often they wake it, a wait with the budget \<open>d\<close> ends, at most
  a millisecond and the latency of one sleep after \<open>d\<close> has passed.\<close>

theorem queue_wait_returns:
  assumes "nap_timely eps L nap" and "(queue_step L)\<^sup>*\<^sup>* (queue_new capacity ovf clk, w0) (q, w)"
    and "queue_now_ms q < U64_MAX"
  shows "\<exists>r q' w' x'. queue_wait L nap key priority (Some d) cost (q, w, x) = Some (r, q', w', x') \<and>
    qu_clock q' \<le> qu_clock q + d + from_millis 1 + eps"
proof -
  let ?now = "queue_now_ms q" let ?dl = "sat_add64 ?now (millis_u64 d)"
  have epoch: "qu_epoch q \<le> qu_clock q" using run_epoch [OF assms(2)] by (simp add: queue_new_def Let_def)
  note now = now_bounds [OF assms(3) epoch]
  have "?now \<le> ?dl" using assms(3) by (simp add: le_sat_add64)
  then have in_time: "qu_clock q \<le> due_at q ?dl + eps" using now(2) by (simp add: due_at_def from_millis_def)
  have "?dl \<le> ?now + d div 1000000" by (simp add: sat_add64_def millis_u64_def to_u64_def)
  then have "from_millis ?dl \<le> from_millis ?now + d"
    using div_times_less_eq_dividend [of d 1000000] by (simp add: from_millis_def)
  then have bound: "due_at q ?dl \<le> qu_clock q + d + from_millis 1" using now(1) by (simp add: due_at_def from_millis_def)
  obtain a q1 where a: "register q ?now priority (Some ?dl) key = Some (a, q1)"
    using queue_sections_end [OF assms(2)] by metis
  have run1: "(queue_step L)\<^sup>*\<^sup>* (queue_new capacity ovf clk, w0) (q1, w)"
    using assms(2) queue_step.registers [OF a] by (rule rtranclp.rtrancl_into_rtrancl)
  have q1: "qu_clock q1 = qu_clock q" "due_at q1 ?dl = due_at q ?dl" using section_clock(1) [OF a] by (simp_all add: due_at_def)
  show ?thesis
  proof (cases a)
    case (Inl e)
    then show ?thesis using a q1 by (simp add: queue_wait_def wait_deadline_def Let_def)
  next
    case (Inr seq)
    obtain r q2 w2 x2 where l: "queue_loop L nap seq (Some ?dl) cost (q1, w, x) = Some (r, q2, w2, x2)"
        "(queue_step L)\<^sup>*\<^sup>* (queue_new capacity ovf clk, w0) (q2, w2)" "qu_clock q2 \<le> due_at q ?dl + eps"
      using queue_loop_returns [OF assms(1) _ run1, of ?dl seq cost x] in_time q1 by auto
    obtain q3 where q3: "leave q2 seq = Some q3" using queue_sections_end [OF l(2)] by metis
    then show ?thesis
      using a Inr l(1,3) bound section_clock(3) [OF q3] by (simp add: queue_wait_def wait_deadline_def Let_def)
  qed
qed

text \<open>A sleep that ends one nanosecond late, with nobody else at the queue.\<close>

definition tick_nap :: "duration \<Rightarrow> ('k, 'w, 'x) queue_world \<Rightarrow> bool \<times> ('k, 'w, 'x) queue_world" where
  "tick_nap d v = (case v of (q, w, x) \<Rightarrow> (True, q\<lparr>qu_clock := qu_clock q + d + 1\<rparr>, w, x))"

lemma tick_nap_steps: "tick_nap d (q, w, x) = (a, q', w', x') \<Longrightarrow> (queue_step L)\<^sup>*\<^sup>* (q, w) (q', w')"
  by (auto simp: tick_nap_def intro!: r_into_rtranclp queue_step.ticks)

lemma tick_nap_ok: "nap_ok L spent good tick_nap"
  unfolding nap_ok_def
proof (intro allI impI, goal_cases)
  case (1 d q w n a q' w' n')
  from tick_nap_steps [OF this] this show ?case by (simp add: tick_nap_def)
qed

lemma tick_nap_timely: "nap_timely 1 L tick_nap"
  unfolding nap_timely_def
proof (intro allI impI, goal_cases)
  case (1 d q w n a q' w' n')
  from tick_nap_steps [OF this] this show ?case by (auto simp: tick_nap_def)
qed

theorem queue_wait_all_or_nothing_witness:
  "\<exists>q' w' n'. queue_wait adaptive_limiter tick_nap (7 :: nat) 1 (Some (from_millis 1)) 1
      (queue_new 3 Reject 0, (ad_new () 1 1 1 0)\<lparr>ad_in_flight := 1\<rparr>, 1) = Some (Some (Inl DeadlineExceeded), q', w', n') \<and>
    ad_in_flight w' = n' \<and> 0 \<notin> dom (q_waiters (qu_state q'))"
proof -
  let ?q = "queue_new 3 Reject 0 :: nat queue" and ?w = "(ad_new () 1 1 1 0)\<lparr>ad_in_flight := 1\<rparr>"
  have "\<exists>q' w' n'. queue_wait adaptive_limiter tick_nap 7 1 (Some (from_millis 1)) 1 (?q, ?w, 1 :: nat) = Some (Some (Inl DeadlineExceeded), q', w', n')"
    by (simp add: queue_wait_def queue_loop.simps wait_deadline_def leave_def tick_nap_def adaptive_limiter_def ad_new_def ad_acquire_cost_def try_reserve_def
        queue_eval U64_MAX_def U32_MAX_def)
  then obtain q' w' n' where r: "queue_wait adaptive_limiter tick_nap 7 1 (Some (from_millis 1)) 1 (?q, ?w, 1 :: nat) = Some (Some (Inl DeadlineExceeded), q', w', n')"
    by blast
  have "ad_good ?w" "ad_in_flight ?w = 1" by (simp_all add: ad_good_def ad_new_def machine_arith U32_MAX_def)
  from queue_wait_all_or_nothing [OF adaptive.limiter_obj_axioms tick_nap_ok rtranclp.rtrancl_refl this r]
  have "ad_in_flight w' = n'" "\<And>seq q1. register ?q (queue_now_ms ?q) 1 (wait_deadline (queue_now_ms ?q) (Some (from_millis 1))) 7 = Some (Inr seq, q1) \<Longrightarrow>
      seq \<notin> dom (q_waiters (qu_state q'))" by auto
  moreover have "\<exists>q1. register ?q (queue_now_ms ?q) 1 (wait_deadline (queue_now_ms ?q) (Some (from_millis 1))) 7 = Some (Inr 0, q1)"
    by (simp add: wait_deadline_def queue_eval U64_MAX_def)
  ultimately show ?thesis using r by blast
qed

theorem queue_wait_returns_witness:
  "\<exists>r q' w' x'. queue_wait adaptive_limiter tick_nap (7 :: nat) 1 (Some (from_secs 2)) 1
      (queue_new 3 Reject 0, (ad_new () 1 1 1 0)\<lparr>ad_in_flight := 1\<rparr>, ()) = Some (r, q', w', x') \<and>
    qu_clock q' \<le> 0 + from_secs 2 + from_millis 1 + 1"
proof -
  let ?q = "queue_new 3 Reject 0 :: nat queue" and ?w = "(ad_new () 1 1 1 0)\<lparr>ad_in_flight := 1\<rparr>"
  have now: "queue_now_ms ?q < U64_MAX" and clock: "qu_clock ?q = 0"
    by (simp_all add: queue_new_def queue_now_ms_def machine_arith U64_MAX_def Let_def)
  have "\<exists>r q' w' x'. queue_wait adaptive_limiter tick_nap 7 1 (Some (from_secs 2)) 1 (?q, ?w, ()) = Some (r, q', w', x') \<and>
      qu_clock q' \<le> qu_clock ?q + from_secs 2 + from_millis 1 + 1"
    by (rule queue_wait_returns [OF tick_nap_timely rtranclp.rtrancl_refl now])
  then show ?thesis unfolding clock .
qed

end
