(* ===== verification/Bulkhead.thy ===== *)
theory Bulkhead
  imports Decision Adaptive
begin

text \<open>
  The bulkhead (\<open>src/bulkhead.rs\<close>): a fixed cap on concurrent calls.  Besides the
  operations as atomic steps, the two compare-and-swap loops (\<open>try_take\<close>, and
  \<open>saturating_sub\<close> of \<open>src/sync.rs\<close>, which gives a slot back) are modelled
  instruction by instruction for any number of threads: every load and every
  compare-and-swap, successful, failed or spuriously failed, is one step of an
  interleaving.
\<close>

record bulkhead =
  bh_limit :: u32
  bh_in_use :: u32
  bh_woken :: nat

definition bh_new :: "u32 \<Rightarrow> bulkhead" where
  "bh_new limit = \<lparr>bh_limit = limit, bh_in_use = 0, bh_woken = 0\<rparr>"

definition bh_available :: "bulkhead \<Rightarrow> u32" where
  "bh_available b = bh_limit b - bh_in_use b"

definition bh_try_take :: "bulkhead \<Rightarrow> bool \<times> bulkhead" where
  "bh_try_take b =
     (if bh_in_use b \<ge> bh_limit b then (False, b)
      else (True, b\<lparr>bh_in_use := bh_in_use b + 1\<rparr>))"

definition bh_release :: "bulkhead \<Rightarrow> bulkhead" where
  "bh_release b =
     b\<lparr>bh_in_use := snd (sync_saturating_sub (bh_in_use b) 1), bh_woken := bh_woken b + 1\<rparr>"

text \<open>A permit is the right to run \<open>release\<close> once, when it is dropped.\<close>

datatype bh_permit = Bulkhead_Permit

definition bh_try_acquire :: "bulkhead \<Rightarrow> bh_permit option \<times> bulkhead" where
  "bh_try_acquire b =
     (case bh_try_take b of (taken, b') \<Rightarrow> (if taken then Some Bulkhead_Permit else None, b'))"

definition bh_permit_drop :: "bh_permit \<Rightarrow> bulkhead \<Rightarrow> bulkhead" where
  "bh_permit_drop p b = bh_release b"

text \<open>\<open>try_call\<close>: the operation runs while the slot is held; the slot is released
  whatever it returns.\<close>

definition bh_try_call ::
  "(bulkhead \<Rightarrow> 'r \<times> bulkhead) \<Rightarrow> bulkhead \<Rightarrow> (throttle_error + 'r) \<times> bulkhead" where
  "bh_try_call operation b =
     (case bh_try_acquire b of
        (None, b1) \<Rightarrow> (Inl BulkheadFull, b1)
      | (Some p, b1) \<Rightarrow>
          (case operation b1 of (r, b2) \<Rightarrow> (Inr r, bh_permit_drop p b2)))"

text \<open>The check before a waiting acquire, and one round of its loop: \<open>Some\<close> ends
  the wait.\<close>

definition bh_wait_round :: "bulkhead \<Rightarrow> (throttle_error + unit) option \<times> bulkhead" where
  "bh_wait_round b =
     (if bh_limit b = 0 then (Some (Inl (CostExceedsCapacity 1 0)), b)
      else
        (case bh_try_take b of
           (True, b1) \<Rightarrow> (Some (Inr ()), b1)
         | (False, b1) \<Rightarrow>
             (case bh_try_take b1 of
                (True, b2) \<Rightarrow> (Some (Inr ()), b2)
              | (False, b2) \<Rightarrow> (None, b2))))"

subsection \<open>Interleaved compare-and-swap loops\<close>

datatype bh_pc =
    Idle
  | Trying u32
  | Owning
  | Releasing u32

record bh_sys =
  cell :: u32
  pcs :: "nat \<Rightarrow> bh_pc"

definition bh_init :: bh_sys where
  "bh_init = \<lparr>cell = 0, pcs = (\<lambda>_. Idle)\<rparr>"

inductive bh_step :: "u32 \<Rightarrow> bh_sys \<Rightarrow> bh_sys \<Rightarrow> bool" for limit where
  take_load: "pcs s i = Idle \<Longrightarrow> bh_step limit s (s\<lparr>pcs := (pcs s)(i := Trying (cell s))\<rparr>)"
| take_full: "pcs s i = Trying v \<Longrightarrow> limit \<le> v \<Longrightarrow>
    bh_step limit s (s\<lparr>pcs := (pcs s)(i := Idle)\<rparr>)"
| take_cas: "pcs s i = Trying v \<Longrightarrow> v < limit \<Longrightarrow> cell s = v \<Longrightarrow>
    bh_step limit s (s\<lparr>cell := v + 1, pcs := (pcs s)(i := Owning)\<rparr>)"
| take_retry: "pcs s i = Trying v \<Longrightarrow> v < limit \<Longrightarrow>
    bh_step limit s (s\<lparr>pcs := (pcs s)(i := Trying (cell s))\<rparr>)"
| free_load: "pcs s i = Owning \<Longrightarrow>
    bh_step limit s (s\<lparr>pcs := (pcs s)(i := Releasing (cell s))\<rparr>)"
| free_cas: "pcs s i = Releasing v \<Longrightarrow> cell s = v \<Longrightarrow>
    bh_step limit s (s\<lparr>cell := v - 1, pcs := (pcs s)(i := Idle)\<rparr>)"
| free_retry: "pcs s i = Releasing v \<Longrightarrow>
    bh_step limit s (s\<lparr>pcs := (pcs s)(i := Releasing (cell s))\<rparr>)"

inductive bh_reachable :: "u32 \<Rightarrow> bh_sys \<Rightarrow> bool" for limit where
  start: "bh_reachable limit bh_init"
| move: "bh_reachable limit s \<Longrightarrow> bh_step limit s t \<Longrightarrow> bh_reachable limit t"

text \<open>The threads that own a permit, up to the instruction that gives it back.\<close>

fun owns :: "bh_pc \<Rightarrow> bool" where
  "owns Owning = True"
| "owns (Releasing _) = True"
| "owns _ = False"

definition owners :: "bh_sys \<Rightarrow> nat set" where
  "owners s = {i. owns (pcs s i)}"

definition bh_inv :: "u32 \<Rightarrow> bh_sys \<Rightarrow> bool" where
  "bh_inv limit s \<longleftrightarrow> finite (owners s) \<and> card (owners s) = cell s \<and> cell s \<le> limit"

lemma owners_upd:
  "owners (s\<lparr>pcs := (pcs s)(i := p)\<rparr>) = (if owns p then insert i (owners s) else owners s - {i})"
  by (auto simp: owners_def)

lemma owners_upd_cell:
  "owners (s\<lparr>cell := v, pcs := (pcs s)(i := p)\<rparr>) =
     (if owns p then insert i (owners s) else owners s - {i})"
  by (auto simp: owners_def)

lemma in_owners: "i \<in> owners s \<longleftrightarrow> owns (pcs s i)"
  by (simp add: owners_def)

lemma bh_step_inv: "bh_step limit s t \<Longrightarrow> bh_inv limit s \<Longrightarrow> bh_inv limit t"
proof (induction rule: bh_step.induct)
  case (take_cas s i v)
  then have "i \<notin> owners s" by (simp add: in_owners)
  with take_cas show ?case by (simp add: bh_inv_def owners_upd_cell)
next
  case (free_cas s i v)
  then have "i \<in> owners s" by (simp add: in_owners)
  with free_cas show ?case
    by (auto simp: bh_inv_def owners_upd_cell card_Diff_singleton)
qed (auto simp: bh_inv_def owners_upd in_owners insert_absorb)

lemma bh_reachable_inv: "bh_reachable limit s \<Longrightarrow> bh_inv limit s"
proof (induction rule: bh_reachable.induct)
  case start
  show ?case by (simp add: bh_inv_def bh_init_def owners_def)
next
  case (move s t)
  then show ?case by (blast intro: bh_step_inv)
qed

text \<open>C9: the bulkhead never over-admits.  In every interleaving of any number of threads
  running the take and release loops, the cell counts exactly the permits that are out
  and never passes the limit, so at most \<open>limit\<close> threads hold a permit at once.\<close>

theorem bulkhead_never_over_limit:
  assumes "bh_reachable limit s"
  shows "finite (owners s) \<and> card (owners s) = cell s \<and> card (owners s) \<le> limit"
  using bh_reachable_inv [OF assms] by (simp add: bh_inv_def)

theorem bulkhead_never_over_limit_witness:
  "let s1 = bh_init\<lparr>pcs := (pcs bh_init)(0 := Trying 0)\<rparr>;
       s2 = s1\<lparr>cell := 0 + 1, pcs := (pcs s1)(0 := Owning)\<rparr>
   in bh_reachable 1 s2 \<and> card (owners s2) = 1"
proof -
  let ?s1 = "bh_init\<lparr>pcs := (pcs bh_init)(0 := Trying 0)\<rparr>"
  let ?s2 = "?s1\<lparr>cell := 0 + 1, pcs := (pcs ?s1)(0 := Owning)\<rparr>"
  have "bh_step 1 bh_init (bh_init\<lparr>pcs := (pcs bh_init)(0 := Trying (cell bh_init))\<rparr>)"
    by (rule bh_step.take_load) (simp add: bh_init_def)
  then have "bh_reachable 1 ?s1"
    by (auto simp: bh_init_def intro: bh_reachable.move [OF bh_reachable.start [unfolded bh_init_def]])
  moreover have "bh_step 1 ?s1 ?s2"
    by (rule bh_step.take_cas [of _ 0 0]) (simp_all add: bh_init_def)
  ultimately have r: "bh_reachable 1 ?s2" by (rule bh_reachable.move)
  from bulkhead_never_over_limit [OF r] r show ?thesis by (simp add: Let_def)
qed

text \<open>No thread is ever stuck in a release.  From every reachable state a releasing
  thread can take its next step, its compare-and-swap never underflows the cell, and the
  cell is positive while anyone owns a permit.\<close>

theorem bulkhead_release_progress:
  assumes "bh_reachable limit s" and "pcs s i = Releasing v"
  shows "0 < cell s \<and>
    (\<exists>t. bh_step limit s t \<and> pcs t i = Releasing (cell s) \<and> cell t = cell s \<and>
      (\<exists>u. bh_step limit t u \<and> pcs u i = Idle \<and> cell u + 1 = cell s))"
proof -
  have "i \<in> owners s" using assms(2) by (simp add: in_owners)
  with bh_reachable_inv [OF assms(1)] have pos: "0 < cell s"
    by (metis bh_inv_def card_gt_0_iff empty_iff)
  let ?t = "s\<lparr>pcs := (pcs s)(i := Releasing (cell s))\<rparr>"
  let ?u = "?t\<lparr>cell := cell s - 1, pcs := (pcs ?t)(i := Idle)\<rparr>"
  have "bh_step limit s ?t" using assms(2) by (rule bh_step.free_retry)
  moreover have "bh_step limit ?t ?u" by (rule bh_step.free_cas) simp_all
  ultimately show ?thesis using pos by (intro conjI exI [of _ ?t] exI [of _ ?u]) simp_all
qed

theorem bulkhead_release_progress_witness:
  "\<exists>s. bh_reachable 1 s \<and> pcs s 0 = Releasing 1 \<and> 0 < cell s"
proof -
  define s1 where "s1 = bh_init\<lparr>pcs := (pcs bh_init)(0 := Trying (cell bh_init))\<rparr>"
  define s2 where "s2 = s1\<lparr>cell := 0 + 1, pcs := (pcs s1)(0 := Owning)\<rparr>"
  define s3 where "s3 = s2\<lparr>pcs := (pcs s2)(0 := Releasing (cell s2))\<rparr>"
  have "bh_step 1 bh_init s1" unfolding s1_def by (rule bh_step.take_load) (simp add: bh_init_def)
  moreover have "bh_step 1 s1 s2" unfolding s2_def
    by (rule bh_step.take_cas) (simp_all add: s1_def bh_init_def)
  moreover have "bh_step 1 s2 s3" unfolding s3_def by (rule bh_step.free_load) (simp add: s2_def)
  ultimately have r: "bh_reachable 1 s3" by (blast intro: bh_reachable.intros)
  have p: "pcs s3 0 = Releasing 1" by (simp add: s3_def s2_def)
  from bulkhead_release_progress [OF r p] r p show ?thesis by blast
qed

end
