(* ===== verification/Obs.thy ===== *)
theory Obs
  imports Decision
begin

text \<open>
  Observability (\<open>src/obs.rs\<close>): instance names and the hooks the limiters call.  Each use of a macro of
  the \<open>metrics\<close> and \<open>tracing\<close> crates is one emission, appended to a log; which of them are compiled in
  is a pair of features.  A value given in seconds is kept as its duration.
\<close>

record features =
  ft_metrics :: bool
  ft_tracing :: bool

datatype label_value = Static string | Shared string

record label =
  lb_value :: "label_value option"

definition label_none :: label where
  "label_none = \<lparr>lb_value = None\<rparr>"

text \<open>\<open>Cow::Borrowed\<close> is stored as it is, \<open>Cow::Owned\<close> moved into a shared allocation.\<close>

datatype cow = Borrowed string | Owned string

fun label_new :: "cow \<Rightarrow> label" where
  "label_new (Borrowed name) = \<lparr>lb_value = Some (Static name)\<rparr>"
| "label_new (Owned name) = \<lparr>lb_value = Some (Shared name)\<rparr>"

definition label_get :: "label \<Rightarrow> string option" where
  "label_get l = (case lb_value l of None \<Rightarrow> None | Some (Static name) \<Rightarrow> Some name | Some (Shared name) \<Rightarrow> Some name)"

definition DEFAULT_NAME :: string where
  "DEFAULT_NAME = ''default''"

definition label_as_str :: "label \<Rightarrow> string" where
  "label_as_str l = (case label_get l of Some name \<Rightarrow> name | None \<Rightarrow> DEFAULT_NAME)"

definition label_shared :: "label \<Rightarrow> string" where
  "label_shared l =
     (case lb_value l of None \<Rightarrow> DEFAULT_NAME | Some (Static name) \<Rightarrow> name | Some (Shared name) \<Rightarrow> name)"

subsection \<open>Emissions\<close>

datatype trace_level = Level_Trace | Level_Debug | Level_Info | Level_Warn

datatype trace_field = Str string | Num nat | Secs duration

datatype emission =
    Counter string "(string \<times> string) list"
  | Gauge string "(string \<times> string) list" nat
  | Histogram string "(string \<times> string) list" duration
  | Trace_Event trace_level string "(string \<times> trace_field) list"

definition emits :: "bool \<Rightarrow> emission \<Rightarrow> emission list" where
  "emits on e = (if on then [e] else [])"

definition by_kind :: "string \<Rightarrow> label \<Rightarrow> (string \<times> string) list" where
  "by_kind kind l = [(''limiter'', kind), (''name'', label_shared l)]"

definition by_name :: "label \<Rightarrow> (string \<times> string) list" where
  "by_name l = [(''name'', label_shared l)]"

definition traced :: "string \<Rightarrow> label \<Rightarrow> (string \<times> trace_field) list" where
  "traced kind l = [(''limiter'', Str kind), (''name'', Str (label_as_str l))]"

definition obs_granted :: "features \<Rightarrow> string \<Rightarrow> label \<Rightarrow> u32 \<Rightarrow> emission list" where
  "obs_granted ft kind l cost =
     emits (ft_metrics ft) (Counter ''throttle_acquired_total'' (by_kind kind l)) @
     emits (ft_tracing ft) (Trace_Event Level_Trace ''granted'' (traced kind l @ [(''cost'', Num cost)]))"

definition obs_denied :: "features \<Rightarrow> string \<Rightarrow> label \<Rightarrow> emission list" where
  "obs_denied ft kind l =
     emits (ft_metrics ft) (Counter ''throttle_denied_total'' (by_kind kind l)) @
     emits (ft_tracing ft) (Trace_Event Level_Trace ''denied'' (traced kind l))"

definition obs_attempt :: "features \<Rightarrow> string \<Rightarrow> label \<Rightarrow> u32 \<Rightarrow> bool \<Rightarrow> emission list" where
  "obs_attempt ft kind l cost ok = (if ok then obs_granted ft kind l cost else obs_denied ft kind l)"

datatype waited_end = Waited_Granted | Waited_TimedOut | Waited_Refused

fun waited_as_str :: "waited_end \<Rightarrow> string" where
  "waited_as_str Waited_Granted = ''granted''"
| "waited_as_str Waited_TimedOut = ''timed_out''"
| "waited_as_str Waited_Refused = ''refused''"

definition waited_of :: "throttle_error + 'a \<Rightarrow> waited_end" where
  "waited_of result =
     (case result of
        Inr _ \<Rightarrow> Waited_Granted
      | Inl DeadlineExceeded \<Rightarrow> Waited_TimedOut
      | Inl _ \<Rightarrow> Waited_Refused)"

definition obs_waited :: "features \<Rightarrow> string \<Rightarrow> label \<Rightarrow> duration \<Rightarrow> u32 \<Rightarrow> waited_end \<Rightarrow> emission list" where
  "obs_waited ft kind l elapsed cost outcome =
     (if ft_metrics ft
      then Histogram ''throttle_wait_duration'' (by_kind kind l) elapsed #
           (case outcome of
              Waited_Granted \<Rightarrow> [Counter ''throttle_acquired_total'' (by_kind kind l)]
            | Waited_TimedOut \<Rightarrow> [Counter ''throttle_timeouts_total'' (by_kind kind l)]
            | Waited_Refused \<Rightarrow> [])
      else []) @
     emits (ft_tracing ft)
       (Trace_Event Level_Debug ''acquire''
          (traced kind l @ [(''cost'', Num cost), (''outcome'', Str (waited_as_str outcome)), (''wait_secs'', Secs elapsed)]))"

definition obs_shed :: "features \<Rightarrow> string \<Rightarrow> label \<Rightarrow> emission list" where
  "obs_shed ft kind l =
     emits (ft_metrics ft) (Counter ''throttle_shed_total'' (by_kind kind l)) @
     emits (ft_tracing ft) (Trace_Event Level_Debug ''shed'' (traced kind l))"

text \<open>A state is recorded at construction, without an event, and on every transition, with one.\<close>

definition obs_circuit_state :: "features \<Rightarrow> label \<Rightarrow> string option \<Rightarrow> string \<Rightarrow> nat \<Rightarrow> emission list" where
  "obs_circuit_state ft l from to code =
     emits (ft_metrics ft) (Gauge ''throttle_circuit_state'' (by_name l) code) @
     (case from of
        None \<Rightarrow> []
      | Some from \<Rightarrow>
          emits (ft_tracing ft) (Trace_Event Level_Info ''circuit breaker transition''
            [(''name'', Str (label_as_str l)), (''from'', Str from), (''to'', Str to)]))"

definition obs_queue_depth :: "features \<Rightarrow> label \<Rightarrow> usize \<Rightarrow> emission list" where
  "obs_queue_depth ft l depth = emits (ft_metrics ft) (Gauge ''throttle_queue_depth'' (by_name l) depth)"

definition obs_queue_rejected :: "features \<Rightarrow> label \<Rightarrow> string \<Rightarrow> emission list" where
  "obs_queue_rejected ft l policy =
     emits (ft_metrics ft) (Counter ''throttle_queue_rejected_total'' (by_name l @ [(''policy'', policy)])) @
     emits (ft_tracing ft) (Trace_Event Level_Warn ''queue overflow''
       [(''name'', Str (label_as_str l)), (''policy'', Str policy)])"

definition obs_adaptive_limit :: "features \<Rightarrow> label \<Rightarrow> u32 \<Rightarrow> u32 \<Rightarrow> emission list" where
  "obs_adaptive_limit ft l old new =
     emits (ft_metrics ft) (Gauge ''throttle_rate_current'' (by_name l) new) @
     (if old \<noteq> new
      then emits (ft_tracing ft) (Trace_Event Level_Debug ''adaptive limit changed''
             [(''name'', Str (label_as_str l)), (''old'', Num old), (''new'', Num new)])
      else [])"

definition obs_retried :: "features \<Rightarrow> label \<Rightarrow> u32 \<Rightarrow> duration \<Rightarrow> emission list" where
  "obs_retried ft l attempt delay =
     emits (ft_metrics ft) (Counter ''throttle_retries_total'' (by_name l)) @
     emits (ft_tracing ft) (Trace_Event Level_Debug ''retrying''
       [(''name'', Str (label_as_str l)), (''attempt'', Num attempt), (''delay_secs'', Secs delay)])"

definition obs_retry_budget_exhausted :: "features \<Rightarrow> label \<Rightarrow> emission list" where
  "obs_retry_budget_exhausted ft l =
     emits (ft_metrics ft) (Counter ''throttle_retry_budget_exhausted_total'' (by_name l)) @
     emits (ft_tracing ft) (Trace_Event Level_Warn ''retry budget exhausted'' [(''name'', Str (label_as_str l))])"

subsection \<open>Reading the log\<close>

text \<open>How often a counter was incremented, and the last value of a gauge.\<close>

definition counter_of :: "string \<Rightarrow> emission list \<Rightarrow> nat" where
  "counter_of name es = length (filter (\<lambda>e. case e of Counter n _ \<Rightarrow> n = name | _ \<Rightarrow> False) es)"

fun gauge_of :: "string \<Rightarrow> emission list \<Rightarrow> nat option" where
  "gauge_of name [] = None"
| "gauge_of name (e # es) =
     (case gauge_of name es of
        Some v \<Rightarrow> Some v
      | None \<Rightarrow> (case e of Gauge n _ v \<Rightarrow> if n = name then Some v else None | _ \<Rightarrow> None))"

lemma counter_simps [simp]:
  "counter_of n [] = 0" "counter_of n (es @ fs) = counter_of n es + counter_of n fs"
  "counter_of n (e # es) = (case e of Counter m _ \<Rightarrow> of_bool (m = n) | _ \<Rightarrow> 0) + counter_of n es"
  by (simp_all add: counter_of_def split: emission.splits)

lemma gauge_append [simp]:
  "gauge_of n (es @ fs) = (case gauge_of n fs of Some v \<Rightarrow> Some v | None \<Rightarrow> gauge_of n es)"
  by (induction es) (auto split: option.splits)

end
