(* ===== verification/Bulkhead_Wait.thy ===== *)
theory Bulkhead_Wait
  imports Bulkhead Obs
begin

text \<open>
  Waiting for a slot of the bulkhead and calling through it (\<open>src/bulkhead.rs\<close>), with what is
  reported.  The world is the bulkhead, the log of emissions and the rest of the program.  The
  await of a listener, raced against the timer when there is a timeout, is a parameter: other
  tasks use the bulkhead meanwhile.
\<close>

datatype listened = Woken | Out_Of_Time | Gone

type_synonym 'x bh_world = "bulkhead \<times> emission list \<times> 'x"

definition BULKHEAD_KIND :: string where
  "BULKHEAD_KIND = ''bulkhead''"

definition bh_report :: "features \<Rightarrow> label \<Rightarrow> bool \<Rightarrow> emission list" where
  "bh_report ft l taken = (if taken then obs_granted ft BULKHEAD_KIND l 1 else obs_shed ft BULKHEAD_KIND l)"

definition bh_try_acquire_owned :: "features \<Rightarrow> label \<Rightarrow> 'x bh_world \<Rightarrow> bh_permit option \<times> 'x bh_world" where
  "bh_try_acquire_owned ft l v =
     (case v of (b, es, x) \<Rightarrow>
        (case bh_try_take b of (taken, b') \<Rightarrow>
           (if taken then Some Bulkhead_Permit else None, b', es @ bh_report ft l taken, x)))"

text \<open>The loop of \<open>wait\<close>.  The result is \<open>None\<close> for a future dropped at its await.\<close>

partial_function (option) bh_wait_loop ::
  "('x bh_world \<Rightarrow> listened \<times> 'x bh_world) \<Rightarrow> 'x bh_world \<Rightarrow> ((throttle_error + unit) option \<times> 'x bh_world) option" where
  "bh_wait_loop listen v =
     (case v of (b, es, x) \<Rightarrow>
        (case bh_try_take b of (taken, b1) \<Rightarrow>
           if taken then Some (Some (Inr ()), b1, es, x)
           else
             (case bh_try_take b1 of (taken, b2) \<Rightarrow>
                if taken then Some (Some (Inr ()), b2, es, x)
                else
                  (case listen (b2, es, x) of (how, v') \<Rightarrow>
                     (case how of
                        Woken \<Rightarrow> bh_wait_loop listen v'
                      | Out_Of_Time \<Rightarrow> Some (Some (Inl BulkheadFull), v')
                      | Gone \<Rightarrow> Some (None, v'))))))"

text \<open>\<open>timer\<close> reads how long the wait took.\<close>

definition bh_wait ::
  "features \<Rightarrow> label \<Rightarrow> ('x bh_world \<Rightarrow> duration) \<Rightarrow> ('x bh_world \<Rightarrow> listened \<times> 'x bh_world) \<Rightarrow> 'x bh_world \<Rightarrow>
   ((throttle_error + unit) option \<times> 'x bh_world) option" where
  "bh_wait ft l timer listen v =
     (if bh_limit (fst v) = 0 then Some (Some (Inl (CostExceedsCapacity 1 0)), v)
      else
        (case bh_wait_loop listen v of
           None \<Rightarrow> None
         | Some (None, v') \<Rightarrow> Some (None, v')
         | Some (Some result, b, es, x) \<Rightarrow>
             Some (Some result, b, es @ obs_waited ft BULKHEAD_KIND l (timer (b, es, x)) 1 (waited_of result), x)))"

definition bh_acquire ::
  "features \<Rightarrow> label \<Rightarrow> ('x bh_world \<Rightarrow> duration) \<Rightarrow> ('x bh_world \<Rightarrow> listened \<times> 'x bh_world) \<Rightarrow> 'x bh_world \<Rightarrow>
   ((throttle_error + bh_permit) option \<times> 'x bh_world) option" where
  "bh_acquire ft l timer listen v =
     map_option (\<lambda>(r, v'). (map_option (map_sum id (\<lambda>_. Bulkhead_Permit)) r, v')) (bh_wait ft l timer listen v)"

text \<open>\<open>call\<close> and \<open>call_timeout\<close>: the permit is dropped when the operation ends or the future is dropped.\<close>

definition bh_call ::
  "features \<Rightarrow> label \<Rightarrow> ('x bh_world \<Rightarrow> duration) \<Rightarrow> ('x bh_world \<Rightarrow> listened \<times> 'x bh_world) \<Rightarrow>
   ('x bh_world \<Rightarrow> 'r option \<times> 'x bh_world) \<Rightarrow> 'x bh_world \<Rightarrow> ((throttle_error + 'r) option \<times> 'x bh_world) option" where
  "bh_call ft l timer listen operation v =
     (case bh_acquire ft l timer listen v of
        None \<Rightarrow> None
      | Some (None, v1) \<Rightarrow> Some (None, v1)
      | Some (Some (Inl e), v1) \<Rightarrow> Some (Some (Inl e), v1)
      | Some (Some (Inr p), v1) \<Rightarrow>
          (case operation v1 of (r, b2, x) \<Rightarrow> Some (map_option Inr r, bh_permit_drop p b2, x)))"

subsection \<open>What a call takes and returns\<close>

text \<open>Other tasks take and return slots; \<open>n\<close> counts theirs.\<close>

definition bh_books :: "u32 \<Rightarrow> nat \<Rightarrow> nat bh_world \<Rightarrow> bool" where
  "bh_books limit k v \<longleftrightarrow> (case v of (b, es, n) \<Rightarrow> bh_limit b = limit \<and> bh_in_use b = n + k \<and> bh_in_use b \<le> limit)"

definition keeps_books :: "u32 \<Rightarrow> (nat bh_world \<Rightarrow> 'a \<times> nat bh_world) \<Rightarrow> bool" where
  "keeps_books limit f \<longleftrightarrow> (\<forall>k v. bh_books limit k v \<longrightarrow> bh_books limit k (snd (f v)))"

lemma take_books:
  assumes "bh_books limit 0 (b, es, n)" and "bh_try_take b = (taken, b')"
  shows "bh_books limit (of_bool taken) (b', es, n)"
  using assms by (auto simp: bh_books_def bh_try_take_def split: if_splits)

lemma wait_loop_books:
  "bh_wait_loop listen v = Some (r, v') \<Longrightarrow> keeps_books limit listen \<Longrightarrow> bh_books limit 0 v \<Longrightarrow>
   bh_books limit (of_bool (r = Some (Inr ()))) v'"
proof (induction listen v "(r, v')" arbitrary: r v' rule: bh_wait_loop.raw_induct [rotated, consumes 1])
  case (1 f listen v)
  obtain b es n where v: "v = (b, es, n)" by (metis prod_cases3)
  obtain t1 b1 where t1: "bh_try_take b = (t1, b1)" by fastforce
  obtain t2 b2 where t2: "bh_try_take b1 = (t2, b2)" by fastforce
  obtain how v1 where h: "listen (b2, es, n) = (how, v1)" by (metis surj_pair)
  have k1: "bh_books limit (of_bool t1) (b1, es, n)" by (rule take_books [OF 1(4) [unfolded v] t1])
  show ?case
  proof (cases "t1 \<or> t2")
    case True
    then show ?thesis using 1(2) v t1 t2 k1 take_books [OF _ t2] by (auto split: if_splits)
  next
    case False
    then have "bh_books limit 0 (b2, es, n)" using k1 take_books [OF _ t2, of limit es n] by simp
    then have k: "bh_books limit 0 v1" using 1(3) h unfolding keeps_books_def by (metis snd_conv)
    show ?thesis using 1(2) v t1 t2 h False k 1(1) [OF _ 1(3) k] by (cases how) auto
  qed
qed

lemma acquire_books:
  assumes "bh_acquire ft l timer listen v = Some (r, v')" and "keeps_books limit listen" and "bh_books limit 0 v"
  shows "bh_books limit (case r of Some (Inr _) \<Rightarrow> 1 | _ \<Rightarrow> 0) v'"
proof (cases "bh_limit (fst v) = 0")
  case True
  then show ?thesis using assms by (auto simp: bh_acquire_def bh_wait_def)
next
  case False
  obtain r0 b es x where l: "bh_wait_loop listen v = Some (r0, b, es, x)"
    using assms(1) False by (auto simp: bh_acquire_def bh_wait_def split: option.splits)
  have logged: "bh_books limit k (b, es', x) \<longleftrightarrow> bh_books limit k (b, es, x)" for k es' by (simp add: bh_books_def)
  note books = wait_loop_books [OF l assms(2,3)]
  have "r = map_option (map_sum id (\<lambda>_. Bulkhead_Permit)) r0" "\<exists>es'. v' = (b, es', x)"
    using assms(1) False l by (auto simp: bh_acquire_def bh_wait_def split: option.splits)
  then show ?thesis using books logged by (cases r0; cases "the r0") auto
qed

subsection \<open>Properties\<close>

text \<open>C10: A call through the bulkhead runs in a slot of its own and returns it.  With other tasks taking and
  returning slots at every await, an operation starts only once a slot was taken for it, within
  the limit; and however the call ends (answered, full, impossible, dropped while it waits or
  while its operation runs) exactly the slots of the other tasks are in use afterwards.\<close>

theorem bulkhead_call_accounts:
  assumes "keeps_books limit listen" and "\<forall>v. bh_books limit 1 v \<longrightarrow> bh_books limit 1 (snd (operation v))"
    and "bh_limit b = limit" and "bh_in_use b = n" and "n \<le> limit"
    and "bh_call ft l timer listen operation (b, es, n) = Some (r, b', es', n')"
  shows "bh_in_use b' = n' \<and> n' \<le> limit \<and> (limit = 0 \<longrightarrow> r = Some (Inl (CostExceedsCapacity 1 0)))"
proof -
  obtain a v1 where a: "bh_acquire ft l timer listen (b, es, n) = Some (a, v1)"
    using assms(6) by (auto simp: bh_call_def split: option.splits)
  have "bh_books limit 0 (b, es, n)" using assms(3-5) by (simp add: bh_books_def)
  note books = acquire_books [OF a assms(1) this]
  have zero: "limit = 0 \<Longrightarrow> a = Some (Inl (CostExceedsCapacity 1 0))"
    using a assms(3) by (simp add: bh_acquire_def bh_wait_def)
  show ?thesis
  proof (cases "\<exists>p. a = Some (Inr p)")
    case False
    then consider "a = None" | e where "a = Some (Inl e)" by (metis option.exhaust sum.exhaust)
    then show ?thesis using assms(6) a books zero by cases (auto simp: bh_call_def bh_books_def)
  next
    case True
    then obtain p where p: "a = Some (Inr p)" by blast
    obtain res b2 es2 n2 where o: "operation v1 = (res, b2, es2, n2)" by (metis prod_cases4)
    have "bh_books limit 1 (b2, es2, n2)" using books p assms(2) o by (metis option.simps(5) sum.simps(6) snd_conv)
    moreover have "b' = bh_release b2" "n' = n2" using assms(6) a p o by (auto simp: bh_call_def bh_permit_drop_def)
    ultimately show ?thesis using zero p by (auto simp: bh_books_def bh_release_def sync_saturating_sub_def)
  qed
qed

text \<open>A wait that gives up at its timeout is not counted as a timeout: the bulkhead reports it as
  \<open>BulkheadFull\<close>, which is classified as refused.\<close>

theorem bulkhead_timeouts_not_counted:
  assumes "bh_limit b \<noteq> 0" and "bh_limit b \<le> bh_in_use b" and "listen (b, es, x) = (Out_Of_Time, b, es, x)"
  shows "\<exists>es'. bh_wait ft l timer listen (b, es, x) = Some (Some (Inl BulkheadFull), b, es', x) \<and>
    counter_of ''throttle_timeouts_total'' es' = counter_of ''throttle_timeouts_total'' es"
  using assms
  by (simp add: bh_wait_def bh_wait_loop.simps bh_try_take_def waited_of_def obs_waited_def emits_def)

theorem bulkhead_call_accounts_witness:
  "let listen = (\<lambda>(b, es, n). (if 0 < n \<and> 0 < bh_in_use b then (Woken, bh_release b, es, n - 1) else (Out_Of_Time, b, es, n)));
       ft = \<lparr>ft_metrics = True, ft_tracing = False\<rparr> in
   \<exists>b' es'. bh_call ft label_none (\<lambda>_. 5) listen (\<lambda>v. (Some ''done'', v)) ((bh_new 1)\<lparr>bh_in_use := 1\<rparr>, [], 1 :: nat) =
      Some (Some (Inr ''done''), b', es', 0) \<and> bh_in_use b' = 0 \<and> counter_of ''throttle_acquired_total'' es' = 1"
proof -
  define listen :: "nat bh_world \<Rightarrow> listened \<times> nat bh_world" where
    "listen = (\<lambda>(b, es, n). (if 0 < n \<and> 0 < bh_in_use b then (Woken, bh_release b, es, n - 1) else (Out_Of_Time, b, es, n)))"
  define ft where "ft = \<lparr>ft_metrics = True, ft_tracing = False\<rparr>"
  let ?b = "(bh_new 1)\<lparr>bh_in_use := 1\<rparr>"
  have "\<exists>b' es'. bh_call ft label_none (\<lambda>_. 5) listen (\<lambda>v. (Some ''done'', v)) (?b, [], 1) =
      Some (Some (Inr ''done''), b', es', 0) \<and> counter_of ''throttle_acquired_total'' es' = 1"
    by (simp add: bh_call_def bh_acquire_def bh_wait_def bh_wait_loop.simps bh_try_take_def bh_new_def listen_def ft_def
        bh_release_def sync_saturating_sub_def obs_waited_def waited_of_def by_kind_def emits_def)
  then obtain b' es' where r: "bh_call ft label_none (\<lambda>_. 5) listen (\<lambda>v. (Some ''done'', v)) (?b, [], 1) =
      Some (Some (Inr ''done''), b', es', 0)" "counter_of ''throttle_acquired_total'' es' = 1" by blast
  have "keeps_books 1 listen"
    by (auto simp: keeps_books_def listen_def bh_books_def bh_release_def sync_saturating_sub_def split: prod.splits)
  from bulkhead_call_accounts [OF this _ _ _ _ r(1)] have "bh_in_use b' = 0" by (simp add: bh_new_def)
  with r show ?thesis unfolding listen_def ft_def Let_def by blast
qed

theorem bulkhead_timeouts_not_counted_witness:
  "\<exists>es'. bh_wait \<lparr>ft_metrics = True, ft_tracing = False\<rparr> label_none (\<lambda>_. 7) (\<lambda>v. (Out_Of_Time, v))
      ((bh_new 1)\<lparr>bh_in_use := 1\<rparr>, [], ()) = Some (Some (Inl BulkheadFull), (bh_new 1)\<lparr>bh_in_use := 1\<rparr>, es', ()) \<and>
    counter_of ''throttle_timeouts_total'' es' = 0"
  using bulkhead_timeouts_not_counted [of "(bh_new 1)\<lparr>bh_in_use := 1\<rparr>" "\<lambda>v. (Out_Of_Time, v)" "[]" "()"]
  by (simp add: bh_new_def)

end
