(* ===== verification/Resilience.thy ===== *)
theory Resilience
  imports Decision "HOL-Library.Monad_Syntax"
begin

text \<open>
  The combinators \<open>timeout\<close>, \<open>fallback\<close> and \<open>hedge\<close> (\<open>src/resilience.rs\<close>) and the two of
  \<open>src/rt.rs\<close> they need.  A future is what its next poll does: it is ready, or it is pending and
  continues as another future.  The world holds whatever polls read and change.  A future that
  was ready is gone, and polling it again is the panic \<open>None\<close>.
\<close>

codatatype ('w, 'a) future = Future (fut_step: "'w \<Rightarrow> (('w, 'a) future + 'a) \<times> 'w")

datatype 'a poll = Poll_Ready 'a | Poll_Pending

type_synonym ('w, 'a) pinned = "('w, 'a) future option"

definition fut_poll :: "('w, 'a) pinned \<Rightarrow> 'w \<Rightarrow> ('a poll \<times> ('w, 'a) pinned \<times> 'w) option" where
  "fut_poll f w =
     (case f of
        None \<Rightarrow> None
      | Some f \<Rightarrow>
          (case fut_step f w of
             (Inr v, w') \<Rightarrow> Some (Poll_Ready v, None, w')
           | (Inl f', w') \<Rightarrow> Some (Poll_Pending, Some f', w')))"

text \<open>At most \<open>n\<close> polls, as long as the answer is pending.  \<open>None\<close> is a panic.\<close>

fun poll_n :: "nat \<Rightarrow> ('s \<Rightarrow> 'w \<Rightarrow> ('a poll \<times> 's \<times> 'w) option) \<Rightarrow> 's \<Rightarrow> 'w \<Rightarrow> ('a poll \<times> 's \<times> 'w) option" where
  "poll_n 0 poll st w = Some (Poll_Pending, st, w)"
| "poll_n (Suc n) poll st w =
     (case poll st w of
        None \<Rightarrow> None
      | Some (Poll_Ready v, st', w') \<Rightarrow> Some (Poll_Ready v, st', w')
      | Some (Poll_Pending, st', w') \<Rightarrow> poll_n n poll st' w')"

subsection \<open>The runtime's combinators\<close>

definition or_poll ::
  "('w, 'a) pinned \<times> ('w, 'a) pinned \<Rightarrow> 'w \<Rightarrow> ('a poll \<times> (('w, 'a) pinned \<times> ('w, 'a) pinned) \<times> 'w) option" where
  "or_poll st w = do {
     let (a, b) = st;
     (r, a, w) \<leftarrow> fut_poll a w;
     case r of
       Poll_Ready v \<Rightarrow> Some (Poll_Ready v, (a, b), w)
     | Poll_Pending \<Rightarrow> do {
         (r, b, w) \<leftarrow> fut_poll b w;
         Some (r, (a, b), w)
       }
   }"

text \<open>\<open>yield_now\<close>: pending once, with a wake-up requested.\<close>

definition yield_poll :: "('w \<Rightarrow> 'w) \<Rightarrow> bool \<Rightarrow> 'w \<Rightarrow> (unit poll \<times> bool \<times> 'w) option" where
  "yield_poll wake yielded w =
     (if yielded then Some (Poll_Ready (), yielded, w) else Some (Poll_Pending, True, wake w))"

subsection \<open>Timeout\<close>

record elapsed =
  el_after :: duration

definition elapsed_into :: "elapsed \<Rightarrow> throttle_error" where
  "elapsed_into e = DeadlineExceeded"

definition timeout_new ::
  "(duration \<Rightarrow> ('w, unit) future) \<Rightarrow> duration \<Rightarrow> ('w, 'a) future \<Rightarrow> ('w, elapsed + 'a) pinned \<times> ('w, elapsed + 'a) pinned" where
  "timeout_new sleep d future =
     (Some (map_future Inr future), Some (map_future (\<lambda>_. Inl \<lparr>el_after = d\<rparr>) (sleep d)))"

subsection \<open>Fallback\<close>

datatype ('w, 't, 'e) falling = On_Primary "('w, 'e + 't) pinned" | On_Fallback "('w, 't) pinned"

fun fallback_poll ::
  "('e \<Rightarrow> ('w, 't) future) \<Rightarrow> ('w, 't, 'e) falling \<Rightarrow> 'w \<Rightarrow> ('t poll \<times> ('w, 't, 'e) falling \<times> 'w) option" where
  "fallback_poll fallback (On_Primary p) w = do {
     (r, p, w) \<leftarrow> fut_poll p w;
     case r of
       Poll_Pending \<Rightarrow> Some (Poll_Pending, On_Primary p, w)
     | Poll_Ready (Inr v) \<Rightarrow> Some (Poll_Ready v, On_Primary p, w)
     | Poll_Ready (Inl e) \<Rightarrow> do {
         (r, g, w) \<leftarrow> fut_poll (Some (fallback e)) w;
         Some (r, On_Fallback g, w)
       }
   }"
| "fallback_poll fallback (On_Fallback g) w = do {
     (r, g, w) \<leftarrow> fut_poll g w;
     Some (r, On_Fallback g, w)
   }"

subsection \<open>Hedge\<close>

record ('w, 't, 'e) hedging =
  hg_primary :: "('w, 'e + 't) pinned"
  hg_timer :: "('w, unit) pinned"
  hg_secondary :: "('w, 'e + 't) pinned option"
  hg_primary_done :: bool
  hg_secondary_done :: bool

definition hedge_new ::
  "(duration \<Rightarrow> ('w, unit) future) \<Rightarrow> ('w \<Rightarrow> ('w, 'e + 't) future \<times> 'w) \<Rightarrow> duration \<Rightarrow> 'w \<Rightarrow> ('w, 't, 'e) hedging \<times> 'w" where
  "hedge_new sleep attempt delay w =
     (case attempt w of (f, w') \<Rightarrow>
        (\<lparr>hg_primary = Some f, hg_timer = Some (sleep delay), hg_secondary = None, hg_primary_done = False,
          hg_secondary_done = False\<rparr>, w'))"

text \<open>The three parts of a poll.  \<open>Inl\<close> is an early return.\<close>

definition hedge_primary ::
  "('w, 't, 'e) hedging \<Rightarrow> 'w \<Rightarrow> ((('e + 't) \<times> ('w, 't, 'e) hedging \<times> 'w) + (('w, 't, 'e) hedging \<times> 'w)) option" where
  "hedge_primary st w =
     (if hg_primary_done st then Some (Inr (st, w))
      else do {
        (r, p, w) \<leftarrow> fut_poll (hg_primary st) w;
        let st = st\<lparr>hg_primary := p\<rparr>;
        case r of
          Poll_Pending \<Rightarrow> Some (Inr (st, w))
        | Poll_Ready (Inr v) \<Rightarrow> Some (Inl (Inr v, st, w))
        | Poll_Ready (Inl e) \<Rightarrow>
            if hg_secondary st = None then Some (Inl (Inl e, st, w))
            else if hg_secondary_done st then Some (Inl (Inl e, st, w))
            else Some (Inr (st\<lparr>hg_primary_done := True\<rparr>, w))
      })"

definition hedge_timer ::
  "('w \<Rightarrow> ('w, 'e + 't) future \<times> 'w) \<Rightarrow> ('w, 't, 'e) hedging \<Rightarrow> 'w \<Rightarrow> (('w, 't, 'e) hedging \<times> 'w) option" where
  "hedge_timer attempt st w =
     (if hg_secondary st \<noteq> None then Some (st, w)
      else do {
        (r, t, w) \<leftarrow> fut_poll (hg_timer st) w;
        let st = st\<lparr>hg_timer := t\<rparr>;
        case r of
          Poll_Pending \<Rightarrow> Some (st, w)
        | Poll_Ready _ \<Rightarrow> (case attempt w of (f, w) \<Rightarrow> Some (st\<lparr>hg_secondary := Some (Some f)\<rparr>, w))
      })"

definition hedge_secondary ::
  "('w, 't, 'e) hedging \<Rightarrow> 'w \<Rightarrow> (('e + 't) poll \<times> ('w, 't, 'e) hedging \<times> 'w) option" where
  "hedge_secondary st w =
     (case hg_secondary st of
        None \<Rightarrow> Some (Poll_Pending, st, w)
      | Some hedged \<Rightarrow>
          if hg_secondary_done st then Some (Poll_Pending, st, w)
          else do {
            (r, h, w) \<leftarrow> fut_poll hedged w;
            let st = st\<lparr>hg_secondary := Some h\<rparr>;
            case r of
              Poll_Pending \<Rightarrow> Some (Poll_Pending, st, w)
            | Poll_Ready (Inr v) \<Rightarrow> Some (Poll_Ready (Inr v), st, w)
            | Poll_Ready (Inl e) \<Rightarrow>
                if hg_primary_done st then Some (Poll_Ready (Inl e), st, w)
                else Some (Poll_Pending, st\<lparr>hg_secondary_done := True\<rparr>, w)
          })"

definition hedge_poll ::
  "('w \<Rightarrow> ('w, 'e + 't) future \<times> 'w) \<Rightarrow> ('w, 't, 'e) hedging \<Rightarrow> 'w \<Rightarrow> (('e + 't) poll \<times> ('w, 't, 'e) hedging \<times> 'w) option" where
  "hedge_poll attempt st w = do {
     first \<leftarrow> hedge_primary st w;
     case first of
       Inl (r, st, w) \<Rightarrow> Some (Poll_Ready r, st, w)
     | Inr (st, w) \<Rightarrow> do {
         (st, w) \<leftarrow> hedge_timer attempt st w;
         hedge_secondary st w
       }
   }"

subsection \<open>No future is polled after it was ready\<close>

definition hedge_inv :: "('w, 't, 'e) hedging \<Rightarrow> bool" where
  "hedge_inv st \<longleftrightarrow>
     (hg_primary st = None \<longleftrightarrow> hg_primary_done st) \<and>
     (hg_timer st = None \<longleftrightarrow> hg_secondary st \<noteq> None) \<and>
     (hg_secondary st = Some None \<longleftrightarrow> hg_secondary_done st) \<and>
     (hg_primary_done st \<longrightarrow> hg_secondary st \<noteq> None) \<and>
     \<not> (hg_primary_done st \<and> hg_secondary_done st)"

lemma fut_poll_cases:
  obtains (pending) f' w' where "fut_poll (Some f) w = Some (Poll_Pending, Some f', w')"
  | (ready) v w' where "fut_poll (Some f) w = Some (Poll_Ready v, None, w')"
proof (cases "fut_step f w")
  case (Pair r w')
  then show ?thesis using that by (cases r) (simp_all add: fut_poll_def)
qed

lemma result_poll_cases:
  obtains (pending) f' w' where "fut_poll (Some f) w = Some (Poll_Pending, Some f', w')"
  | (ok) v w' where "fut_poll (Some f) w = Some (Poll_Ready (Inr v), None, w')"
  | (err) e w' where "fut_poll (Some f) w = Some (Poll_Ready (Inl e), None, w')"
  by (metis fut_poll_cases sum.exhaust)

lemma hedge_new_inv: "hedge_inv (fst (hedge_new sleep attempt delay w))"
  by (simp add: hedge_new_def hedge_inv_def split: prod.splits)

lemma hedge_primary_inv:
  assumes "hedge_inv st"
  shows "case hedge_primary st w of None \<Rightarrow> False | Some (Inl _) \<Rightarrow> True | Some (Inr (st', w')) \<Rightarrow> hedge_inv st'"
proof (cases "hg_primary st")
  case None
  then show ?thesis using assms by (simp add: hedge_primary_def hedge_inv_def)
next
  case (Some f)
  then have live: "\<not> hg_primary_done st" using assms by (simp add: hedge_inv_def)
  show ?thesis
    by (rule result_poll_cases [of f w])
       (use live Some assms in \<open>simp_all add: hedge_primary_def hedge_inv_def Let_def\<close>)
qed

lemma hedge_timer_inv:
  assumes "hedge_inv st"
  shows "case hedge_timer attempt st w of None \<Rightarrow> False | Some (st', w') \<Rightarrow> hedge_inv st'"
proof (cases "hg_timer st")
  case None
  then show ?thesis using assms by (simp add: hedge_timer_def hedge_inv_def)
next
  case (Some f)
  then have live: "hg_secondary st = None" using assms by (simp add: hedge_inv_def)
  show ?thesis
    by (rule fut_poll_cases [of f w])
       (use live Some assms in \<open>simp_all add: hedge_timer_def hedge_inv_def Let_def split: prod.splits\<close>)
qed

lemma hedge_secondary_inv:
  assumes "hedge_inv st"
  shows "case hedge_secondary st w of None \<Rightarrow> False | Some (r, st', w') \<Rightarrow> r = Poll_Pending \<longrightarrow> hedge_inv st'"
proof (cases "hg_secondary st")
  case None
  then show ?thesis using assms by (simp add: hedge_secondary_def)
next
  case (Some h)
  show ?thesis
  proof (cases h)
    case None
    then show ?thesis using Some assms by (auto simp: hedge_secondary_def hedge_inv_def)
  next
    case live: (Some f)
    then have undone: "\<not> hg_secondary_done st" using Some assms by (simp add: hedge_inv_def)
    show ?thesis
      by (rule result_poll_cases [of f w])
         (use undone live Some assms in \<open>simp_all add: hedge_secondary_def hedge_inv_def Let_def\<close>)
  qed
qed

lemma hedge_poll_inv:
  assumes "hedge_inv st"
  shows "case hedge_poll attempt st w of None \<Rightarrow> False | Some (r, st', w') \<Rightarrow> r = Poll_Pending \<longrightarrow> hedge_inv st'"
proof (cases "hedge_primary st w")
  case None
  then show ?thesis using hedge_primary_inv [OF assms, of w] by simp
next
  case (Some x)
  show ?thesis
  proof (cases x)
    case (Inr y)
    obtain st1 w1 where y: "y = (st1, w1)" by (cases y)
    have 1: "hedge_inv st1" using hedge_primary_inv [OF assms, of w] Some Inr y by simp
    obtain st2 w2 where t: "hedge_timer attempt st1 w1 = Some (st2, w2)" "hedge_inv st2"
      using hedge_timer_inv [OF 1, of attempt w1] by (auto split: option.splits)
    then show ?thesis using hedge_secondary_inv [OF t(2), of w2] Some Inr y by (simp add: hedge_poll_def)
  qed (use Some in \<open>auto simp: hedge_poll_def split: prod.splits\<close>)
qed

lemma poll_n_hedge: "hedge_inv st \<Longrightarrow> poll_n n (hedge_poll attempt) st w \<noteq> None"
proof (induction n arbitrary: st w)
  case (Suc n)
  obtain r st' w' where r: "hedge_poll attempt st w = Some (r, st', w')" "r = Poll_Pending \<longrightarrow> hedge_inv st'"
    using hedge_poll_inv [OF Suc.prems, of attempt w] by (auto split: option.splits)
  then show ?case using Suc.IH [of st' w'] by (cases r) simp_all
qed simp

subsection \<open>What the combinators return\<close>

text \<open>A future that is ready at its \<open>n\<close>-th poll after the first.\<close>

primrec script :: "nat \<Rightarrow> 'a \<Rightarrow> ('w, 'a) future" where
  "script 0 r = Future (\<lambda>w. (Inr r, w))"
| "script (Suc n) r = Future (\<lambda>w. (Inl (script n r), w))"

lemma fut_poll_script [simp]:
  "fut_poll (Some (script 0 r)) w = Some (Poll_Ready r, None, w)"
  "fut_poll (Some (script (Suc n) r)) w = Some (Poll_Pending, Some (script n r), w)"
  by (simp_all add: fut_poll_def)

lemma map_script: "map_future f (script n r) = script n (f r)"
  by (induction n) (simp_all add: future.map_sel fun_eq_iff future.expand)

declare script.simps [simp del]

text \<open>Two attempts: the first ready at poll \<open>p\<close> with \<open>rp\<close>, the second at its own poll \<open>s\<close> with \<open>rs\<close>.  The
  world counts the attempts.\<close>

definition two_attempts :: "nat \<Rightarrow> 'a \<Rightarrow> nat \<Rightarrow> 'a \<Rightarrow> nat \<Rightarrow> (nat, 'a) future \<times> nat" where
  "two_attempts p rp s rs calls = (if calls = 0 then script p rp else script s rs, calls + 1)"

definition hedge_outcome :: "nat \<Rightarrow> 'e + 't \<Rightarrow> nat \<Rightarrow> nat \<Rightarrow> 'e + 't \<Rightarrow> ('e + 't) \<times> nat" where
  "hedge_outcome p rp t s rs =
     (if p \<le> t then (rp, 1)
      else if p \<le> t + s then (case rp of Inr v \<Rightarrow> Inr v | Inl _ \<Rightarrow> rs, 2)
      else (case rs of Inr v \<Rightarrow> Inr v | Inl _ \<Rightarrow> rp, 2))"

lemmas hedge_defs = hedge_poll_def hedge_primary_def hedge_timer_def hedge_secondary_def Let_def

lemma primary_alone:
  assumes "a < n" "hg_primary st = Some (script a rp)" "\<not> hg_primary_done st" "hg_secondary st = Some h" "hg_secondary_done st"
  shows "\<exists>st'. poll_n n (hedge_poll attempt) st w = Some (Poll_Ready rp, st', w)"
  using assms
proof (induction a arbitrary: n st)
  case 0
  then show ?case by (cases n; cases rp) (simp_all add: hedge_defs)
next
  case (Suc a)
  then obtain m where "n = Suc m" "a < m" by (cases n) auto
  then show ?case using Suc.IH [of m "st\<lparr>hg_primary := Some (script a rp)\<rparr>"] Suc.prems by (simp add: hedge_defs)
qed

lemma secondary_alone:
  assumes "b < n" "hg_primary_done st" "hg_secondary st = Some (Some (script b rs))" "\<not> hg_secondary_done st"
  shows "\<exists>st'. poll_n n (hedge_poll attempt) st w = Some (Poll_Ready rs, st', w)"
  using assms
proof (induction b arbitrary: n st)
  case 0
  then show ?case by (cases n; cases rs) (simp_all add: hedge_defs)
next
  case (Suc b)
  then obtain m where "n = Suc m" "b < m" by (cases n) auto
  then show ?case using Suc.IH [of m "st\<lparr>hg_secondary := Some (Some (script b rs))\<rparr>"] Suc.prems by (simp add: hedge_defs)
qed

lemma both_running:
  assumes "a < n" "b < n" "hg_primary st = Some (script a rp)" "\<not> hg_primary_done st"
    "hg_secondary st = Some (Some (script b rs))" "\<not> hg_secondary_done st"
  shows "\<exists>st'. poll_n n (hedge_poll attempt) st w =
    Some (Poll_Ready (if a \<le> b then case rp of Inr v \<Rightarrow> Inr v | Inl _ \<Rightarrow> rs else case rs of Inr v \<Rightarrow> Inr v | Inl _ \<Rightarrow> rp), st', w)"
  using assms
proof (induction b arbitrary: a n st)
  case 0
  then obtain m where n: "n = Suc m" by (cases n) auto
  show ?case
  proof (cases a)
    case 0
    then show ?thesis using \<open>0 < n\<close> "0.prems" n by (cases rp; cases rs) (simp_all add: hedge_defs)
  next
    case a: (Suc a')
    let ?st = "st\<lparr>hg_primary := Some (script a' rp), hg_secondary := Some None\<rparr>"
    have "hedge_poll attempt st w = (case rs of Inr v \<Rightarrow> Some (Poll_Ready (Inr v), ?st, w)
        | Inl _ \<Rightarrow> Some (Poll_Pending, ?st\<lparr>hg_secondary_done := True\<rparr>, w))"
      using "0.prems" a by (cases rs) (simp_all add: hedge_defs)
    then show ?thesis
      using "0.prems" n a primary_alone [of a' m "?st\<lparr>hg_secondary_done := True\<rparr>" rp None attempt w] by (cases rs) simp_all
  qed
next
  case (Suc b)
  then obtain m where n: "n = Suc m" "b < m" by (cases n) auto
  show ?case
  proof (cases a)
    case 0
    let ?st = "st\<lparr>hg_primary := None, hg_primary_done := True, hg_secondary := Some (Some (script b rs))\<rparr>"
    have "rp = Inl e \<Longrightarrow> hedge_poll attempt st w = Some (Poll_Pending, ?st, w)"
      "rp = Inr v \<Longrightarrow> hedge_poll attempt st w = Some (Poll_Ready (Inr v), st\<lparr>hg_primary := None\<rparr>, w)" for e v
      using Suc.prems 0 by (simp_all add: hedge_defs)
    then show ?thesis
      using Suc.prems n 0 secondary_alone [of b m ?st rs attempt w] by (cases rp) simp_all
  next
    case a: (Suc a')
    let ?st = "st\<lparr>hg_primary := Some (script a' rp), hg_secondary := Some (Some (script b rs))\<rparr>"
    have "hedge_poll attempt st w = Some (Poll_Pending, ?st, w)" using Suc.prems a by (simp add: hedge_defs)
    then show ?thesis using Suc.IH [of a' m ?st] Suc.prems n a by simp
  qed
qed

lemma hedge_run:
  assumes "p < n" "t + s < n" "hg_primary st = Some (script p rp)" "\<not> hg_primary_done st" "hg_timer st = Some (script t ())"
    "hg_secondary st = None" "\<not> hg_secondary_done st" "attempt 1 = (script s rs, 2)"
  shows "\<exists>st'. poll_n n (hedge_poll attempt) st 1 =
    Some (Poll_Ready (fst (hedge_outcome p rp t s rs)), st', snd (hedge_outcome p rp t s rs))"
  using assms
proof (induction t arbitrary: p n st)
  case 0
  then obtain m where n: "n = Suc m" by (cases n) auto
  show ?case
  proof (cases p)
    case 0
    then show ?thesis using "0.prems" n by (cases rp) (simp_all add: hedge_defs hedge_outcome_def)
  next
    case p: (Suc p')
    let ?st = "st\<lparr>hg_primary := Some (script p' rp), hg_timer := None\<rparr>"
    show ?thesis
    proof (cases s)
      case 0
      let ?st' = "?st\<lparr>hg_secondary := Some None\<rparr>"
      have "hedge_poll attempt st 1 = (case rs of Inr v \<Rightarrow> Some (Poll_Ready (Inr v), ?st', 2)
          | Inl _ \<Rightarrow> Some (Poll_Pending, ?st'\<lparr>hg_secondary_done := True\<rparr>, 2))"
        using "0.prems" p 0 by (cases rs) (simp_all add: hedge_defs)
      then show ?thesis
        using "0.prems" n p 0 primary_alone [of p' m "?st'\<lparr>hg_secondary_done := True\<rparr>" rp None attempt 2]
        by (cases rs) (simp_all add: hedge_outcome_def)
    next
      case (Suc s')
      let ?st' = "?st\<lparr>hg_secondary := Some (Some (script s' rs))\<rparr>"
      have "hedge_poll attempt st 1 = Some (Poll_Pending, ?st', 2)" using "0.prems" p Suc by (simp add: hedge_defs)
      moreover have "hedge_outcome p rp 0 s rs = (if p' \<le> s' then case rp of Inr v \<Rightarrow> Inr v | Inl _ \<Rightarrow> rs
          else case rs of Inr v \<Rightarrow> Inr v | Inl _ \<Rightarrow> rp, 2)" using p Suc by (simp add: hedge_outcome_def)
      moreover have "\<exists>st'. poll_n m (hedge_poll attempt) ?st' 2 = Some (Poll_Ready (if p' \<le> s'
          then case rp of Inr v \<Rightarrow> Inr v | Inl _ \<Rightarrow> rs else case rs of Inr v \<Rightarrow> Inr v | Inl _ \<Rightarrow> rp), st', 2)"
        by (rule both_running) (use "0.prems" n p Suc in auto)
      ultimately show ?thesis using n by simp
    qed
  qed
next
  case (Suc t)
  then obtain m where n: "n = Suc m" by (cases n) auto
  show ?case
  proof (cases p)
    case 0
    then show ?thesis using Suc.prems n by (cases rp) (simp_all add: hedge_defs hedge_outcome_def)
  next
    case p: (Suc p')
    let ?st = "st\<lparr>hg_primary := Some (script p' rp), hg_timer := Some (script t ())\<rparr>"
    have "hedge_poll attempt st 1 = Some (Poll_Pending, ?st, 1)" using Suc.prems p by (simp add: hedge_defs)
    moreover have "hedge_outcome p rp (Suc t) s rs = hedge_outcome p' rp t s rs" using p by (simp add: hedge_outcome_def)
    ultimately show ?thesis using Suc.IH [of p' m ?st] Suc.prems n p by simp
  qed
qed

lemma or_run:
  assumes "min p t < n"
  shows "\<exists>st'. poll_n n or_poll (Some (script p x), Some (script t y)) w = Some (Poll_Ready (if p \<le> t then x else y), st', w)"
  using assms
proof (induction t arbitrary: p n)
  case 0
  then obtain m where "n = Suc m" by (cases n) auto
  then show ?case by (cases p) (simp_all add: or_poll_def)
next
  case (Suc t)
  then obtain m where n: "n = Suc m" by (cases n) auto
  show ?case
  proof (cases p)
    case (Suc p')
    then show ?thesis using Suc.IH [of p' m] Suc.prems n by (simp add: or_poll_def)
  qed (simp add: n or_poll_def)
qed

lemma fallback_run:
  assumes "\<And>e. fb e = script k (g e)" and "p + k < n"
  shows "\<exists>st'. poll_n n (fallback_poll fb) (On_Primary (Some (script p r))) w =
    Some (Poll_Ready (case r of Inr v \<Rightarrow> v | Inl e \<Rightarrow> g e), st', w)"
proof -
  have second: "\<exists>st'. poll_n n (fallback_poll fb) (On_Fallback (Some (script k v))) w = Some (Poll_Ready v, st', w)" if "k < n" for n k v
    using that
  proof (induction k arbitrary: n)
    case 0
    then show ?case by (cases n) simp_all
  next
    case (Suc k)
    then show ?case by (cases n) simp_all
  qed
  show ?thesis
    using assms(2)
  proof (induction p arbitrary: n)
    case 0
    then obtain m where n: "n = Suc m" by (cases n) auto
    show ?case
    proof (cases r)
      case (Inl e)
      then show ?thesis using n "0.prems" second [of "k - 1" m "g e"] by (cases k) (simp_all add: assms(1) [of e])
    qed (simp add: n)
  next
    case (Suc p)
    then show ?case by (cases n) simp_all
  qed
qed

subsection \<open>Properties\<close>

text \<open>\<open>hedge\<close> never polls a finished future.  Whatever the attempts, the timer and the rest of the
  program do, and however often it is polled while pending, the first attempt, the timer and
  the second attempt are each polled only until they are ready: no poll panics.\<close>

theorem hedge_never_panics:
  "poll_n n (hedge_poll attempt) (fst (hedge_new sleep attempt delay w)) (snd (hedge_new sleep attempt delay w)) \<noteq> None"
  by (rule poll_n_hedge) (rule hedge_new_inv)

text \<open>C30: What \<open>hedge\<close> returns.  It finishes with enough polls; an attempt that is ready no later than the
  timer decides alone and no second one is made.  Otherwise there are two attempts, the first
  success wins, and when both fail the later error is returned.\<close>

theorem hedge_returns:
  assumes "p < n" and "t + s < n"
  shows "let attempt = two_attempts p rp s rs; (st, w) = hedge_new (\<lambda>_. script t ()) attempt delay 0 in
    \<exists>st'. poll_n n (hedge_poll attempt) st w =
      Some (Poll_Ready (fst (hedge_outcome p rp t s rs)), st', snd (hedge_outcome p rp t s rs))"
  using hedge_run [OF assms, of "fst (hedge_new (\<lambda>_. script t ()) (two_attempts p rp s rs) delay 0)" rp "two_attempts p rp s rs" rs]
  by (simp add: hedge_new_def two_attempts_def)

text \<open>\<open>timeout\<close> returns the output of work that is ready no later than its timer, and otherwise the
  timeout that elapsed; \<open>fallback\<close> returns the primary's value, and the fallback's on an error.\<close>

theorem timeout_and_fallback_return:
  assumes "min p t < n" and "\<And>e. fb e = script k (g e)" and "p + k < m"
  shows "(\<exists>st'. poll_n n or_poll (timeout_new (\<lambda>_. script t ()) d (script p v)) w =
      Some (Poll_Ready (if p \<le> t then Inr v else Inl \<lparr>el_after = d\<rparr>), st', w)) \<and>
    (\<exists>st'. poll_n m (fallback_poll fb) (On_Primary (Some (script p r))) w =
      Some (Poll_Ready (case r of Inr v \<Rightarrow> v | Inl e \<Rightarrow> g e), st', w))"
  unfolding timeout_new_def map_script
  by (rule conjI [OF or_run [OF assms(1)] fallback_run [of fb k g p m r w, OF assms(2,3)]])

subsection \<open>Witnesses\<close>

theorem hedge_returns_witness:
  "let attempt = two_attempts 9 (Inr ''slow'') 2 (Inr ''hedged'') in
   \<exists>st'. poll_n 10 (hedge_poll attempt) (fst (hedge_new (\<lambda>_. script 3 ()) attempt 50 0)) 1 =
     Some (Poll_Ready (Inr ''hedged'' :: string + string), st', 2)"
  using hedge_returns [of 9 10 3 2 "Inr ''slow'' :: string + string" "Inr ''hedged''" 50]
  by (simp add: Let_def hedge_new_def two_attempts_def hedge_outcome_def)

theorem timeout_and_fallback_return_witness:
  "(\<exists>st'. poll_n 4 or_poll (timeout_new (\<lambda>_. script 3 ()) 20 (script 7 True)) () = Some (Poll_Ready (Inl \<lparr>el_after = 20\<rparr>), st', ())) \<and>
   (\<exists>st'. poll_n 9 (fallback_poll (\<lambda>e. script 1 (e + 1))) (On_Primary (Some (script 7 (Inl 4)))) () =
     Some (Poll_Ready (5 :: nat), st', ()))"
  using timeout_and_fallback_return [of 7 3 4 "\<lambda>e. script 1 (e + 1)" 1 "\<lambda>e. e + (1 :: nat)" 9 20 True "()" "Inl 4"]
  by simp

end
