(* ===== verification/Tower.thy ===== *)
theory Tower
  imports Resilience Adaptive Circuit_Breaker
begin

text \<open>
  The Tower services (\<open>src/tower.rs\<close>): the admission every service keeps between \<open>poll_ready\<close> and
  \<open>call\<close>, the throttled service with its units, and the guarded and adaptive services with their
  permits; and the waiting acquire of the adaptive limiter (\<open>src/adaptive.rs\<close>) as a future.  The
  world is what the limiter keeps and what the wrapped service keeps; the service is a
  parameter that cannot touch the limiter's part.
\<close>

subsection \<open>Admission\<close>

datatype ('w, 'h) admission =
    Adm_Idle
  | Adm_Acquiring "('w, throttle_error + 'h) pinned"
  | Adm_Held 'h

fun adm_rank :: "('w, 'h) admission \<Rightarrow> nat" where
  "adm_rank Adm_Idle = 2"
| "adm_rank (Adm_Acquiring _) = 1"
| "adm_rank (Adm_Held _) = 0"

text \<open>The loop of \<open>poll_acquire\<close>; the closure that starts an acquire is used once.\<close>

function poll_acquire ::
  "('w, 'h) admission \<Rightarrow> ('w, throttle_error + 'h) future option \<Rightarrow> 'w \<Rightarrow>
   ((throttle_error + unit) poll \<times> ('w, 'h) admission \<times> 'w) option" where
  "poll_acquire (Adm_Held h) start w = Some (Poll_Ready (Inr ()), Adm_Held h, w)"
| "poll_acquire Adm_Idle None w = Some (Poll_Ready (Inl NotReady), Adm_Idle, w)"
| "poll_acquire Adm_Idle (Some f) w = poll_acquire (Adm_Acquiring (Some f)) None w"
| "poll_acquire (Adm_Acquiring f) start w =
     (case fut_poll f w of
        None \<Rightarrow> None
      | Some (Poll_Pending, f', w') \<Rightarrow> Some (Poll_Pending, Adm_Acquiring f', w')
      | Some (Poll_Ready (Inr h), f', w') \<Rightarrow> poll_acquire (Adm_Held h) start w'
      | Some (Poll_Ready (Inl e), f', w') \<Rightarrow> Some (Poll_Ready (Inl e), Adm_Idle, w'))"
  by pat_completeness auto
termination
  by (relation "measure (\<lambda>(adm, _, _). adm_rank adm)") auto

fun adm_take :: "('w, 'h) admission \<Rightarrow> 'h option \<times> ('w, 'h) admission" where
  "adm_take (Adm_Held h) = (Some h, Adm_Idle)"
| "adm_take other = (None, other)"

subsection \<open>The wrapped service\<close>

record ('x, 'r, 'e, 'v) service =
  sv_poll_ready :: "'x \<Rightarrow> ('e + unit) poll \<times> 'x"
  sv_call :: "'r \<Rightarrow> 'x \<Rightarrow> ('x, 'e + 'v) future \<times> 'x"

datatype 'e box_error = From_Service 'e | From_Throttle throttle_error

fun box_ready :: "('e + unit) poll \<Rightarrow> ('e box_error + unit) poll" where
  "box_ready Poll_Pending = Poll_Pending"
| "box_ready (Poll_Ready (Inl e)) = Poll_Ready (Inl (From_Service e))"
| "box_ready (Poll_Ready (Inr ())) = Poll_Ready (Inr ())"

text \<open>The common part of the three \<open>poll_ready\<close>s.\<close>

definition ready_with ::
  "('b \<times> 'x, throttle_error + 'h) future \<Rightarrow> ('x, 'r, 'e, 'v) service \<Rightarrow> ('b \<times> 'x, 'h) admission \<Rightarrow> 'b \<times> 'x \<Rightarrow>
   (('e box_error + unit) poll \<times> ('b \<times> 'x, 'h) admission \<times> 'b \<times> 'x) option" where
  "ready_with start inner adm w = do {
     (r, adm, w) \<leftarrow> poll_acquire adm (Some start) w;
     case r of
       Poll_Pending \<Rightarrow> Some (Poll_Pending, adm, w)
     | Poll_Ready (Inl e) \<Rightarrow> Some (Poll_Ready (Inl (From_Throttle e)), adm, w)
     | Poll_Ready (Inr _) \<Rightarrow>
         (case sv_poll_ready inner (snd w) of (r, x) \<Rightarrow> Some (box_ready r, adm, fst w, x))
   }"

subsection \<open>The throttled service\<close>

record admitted_units =
  un_cost :: u32
  un_spent :: bool

definition units_spend :: "admitted_units \<Rightarrow> admitted_units" where
  "units_spend u = u\<lparr>un_spent := True\<rparr>"

definition units_drop :: "'b limiter \<Rightarrow> admitted_units \<Rightarrow> 'b \<Rightarrow> 'b" where
  "units_drop l u b = (if \<not> un_spent u then l_refund l (un_cost u) b else b)"

record 'b throttle_layer =
  tl_limiter :: "'b limiter"
  tl_cost :: u32
  tl_timeout :: "duration option"

definition tl_shared :: "'b limiter \<Rightarrow> 'b throttle_layer" where
  "tl_shared l = \<lparr>tl_limiter = l, tl_cost = 1, tl_timeout = None\<rparr>"

definition tl_with_cost :: "'b throttle_layer \<Rightarrow> u32 \<Rightarrow> 'b throttle_layer" where
  "tl_with_cost ly cost = ly\<lparr>tl_cost := cost\<rparr>"

definition tl_with_timeout :: "'b throttle_layer \<Rightarrow> duration \<Rightarrow> 'b throttle_layer" where
  "tl_with_timeout ly t = ly\<lparr>tl_timeout := Some t\<rparr>"

record ('b, 'x) throttled =
  td_layer :: "'b throttle_layer"
  td_admission :: "('b \<times> 'x, admitted_units) admission"

definition tl_layer :: "'b throttle_layer \<Rightarrow> ('b, 'x) throttled" where
  "tl_layer ly = \<lparr>td_layer = ly, td_admission = Adm_Idle\<rparr>"

definition throttled_clone :: "('b, 'x) throttled \<Rightarrow> ('b, 'x) throttled" where
  "throttled_clone t = \<lparr>td_layer = td_layer t, td_admission = Adm_Idle\<rparr>"

text \<open>\<open>wait\<close> is the future of the waiting acquire over the one limiter.\<close>

definition throttled_ready ::
  "('b limiter \<Rightarrow> u32 \<Rightarrow> duration option \<Rightarrow> ('b \<times> 'x, throttle_error + unit) future) \<Rightarrow> ('x, 'r, 'e, 'v) service \<Rightarrow>
   ('b, 'x) throttled \<Rightarrow> 'b \<times> 'x \<Rightarrow> (('e box_error + unit) poll \<times> ('b, 'x) throttled \<times> 'b \<times> 'x) option" where
  "throttled_ready wait inner t w = do {
     let ly = td_layer t;
     let start = map_future (map_sum id (\<lambda>_. \<lparr>un_cost = tl_cost ly, un_spent = False\<rparr>))
                   (wait (tl_limiter ly) (tl_cost ly) (tl_timeout ly));
     (r, adm, w) \<leftarrow> ready_with start inner (td_admission t) w;
     Some (r, t\<lparr>td_admission := adm\<rparr>, w)
   }"

datatype ('x, 'e, 'v) reply = Reply "('x, 'e + 'v) pinned" | Not_Ready

definition throttled_call ::
  "('x, 'r, 'e, 'v) service \<Rightarrow> 'r \<Rightarrow> ('b, 'x) throttled \<Rightarrow> 'b \<times> 'x \<Rightarrow> ('x, 'e, 'v) reply \<times> ('b, 'x) throttled \<times> 'b \<times> 'x" where
  "throttled_call inner request t w =
     (case adm_take (td_admission t) of
        (None, adm) \<Rightarrow> (Not_Ready, t\<lparr>td_admission := adm\<rparr>, w)
      | (Some u, adm) \<Rightarrow>
          (case sv_call inner request (snd w) of (f, x) \<Rightarrow>
             (Reply (Some f), t\<lparr>td_admission := adm\<rparr>, units_drop (tl_limiter (td_layer t)) (units_spend u) (fst w), x)))"

text \<open>Dropping the service drops what its admission holds; a pending wait releases what it took.\<close>

definition throttled_drop ::
  "(('b \<times> 'x, throttle_error + admitted_units) pinned \<Rightarrow> 'b \<Rightarrow> 'b) \<Rightarrow> ('b, 'x) throttled \<Rightarrow> 'b \<Rightarrow> 'b" where
  "throttled_drop abandon t b =
     (case td_admission t of
        Adm_Idle \<Rightarrow> b
      | Adm_Acquiring f \<Rightarrow> abandon f b
      | Adm_Held u \<Rightarrow> units_drop (tl_limiter (td_layer t)) u b)"

text \<open>The wait itself: the engine over the one limiter.  The outer \<open>None\<close> is a wait that does not
  return, the inner one a dropped future.\<close>

definition tower_wait ::
  "'w runtime \<Rightarrow> 'w limiter \<Rightarrow> u32 \<Rightarrow> duration option \<Rightarrow> 'w \<Rightarrow> ((throttle_error + unit) option \<times> 'w) option" where
  "tower_wait rt l cost timeout w =
     (let item = [(l, cost)] in
      case wait_with rt progress_new (\<lambda>p budget w. step_all rt item budget p w) (release_all item) (paused_all item) timeout w of
        None \<Rightarrow> None
      | Some (r, _, w') \<Rightarrow>
          Some (case r of
                  Wait_Ok \<Rightarrow> Some (Inr ())
                | Wait_Err Refusal_Never \<Rightarrow> Some (Inl (CostExceedsCapacity cost (l_capacity l w')))
                | Wait_Err Refusal_TimedOut \<Rightarrow> Some (Inl DeadlineExceeded)
                | Wait_Dropped \<Rightarrow> None, w'))"

subsection \<open>Services with permits\<close>

text \<open>What the services call on a permit.  The breaker's has no clock to restart.\<close>

record ('b, 'p) permit_api =
  pa_restart :: "'p \<Rightarrow> 'b \<Rightarrow> 'p"
  pa_success :: "'p \<Rightarrow> 'b \<Rightarrow> 'b"
  pa_failure :: "'p \<Rightarrow> 'b \<Rightarrow> 'b"
  pa_cancel :: "'p \<Rightarrow> 'b \<Rightarrow> 'b"
  pa_drop :: "'p \<Rightarrow> 'b \<Rightarrow> 'b"

definition breaker_api :: "'i limiter \<Rightarrow> ('i breaker, permit) permit_api" where
  "breaker_api L = \<lparr>
     pa_restart = (\<lambda>p b. p),
     pa_success = (\<lambda>p b. snd (permit_success p b)),
     pa_failure = (\<lambda>p b. snd (permit_failure p b)),
     pa_cancel = (\<lambda>p b. snd (permit_cancel L p b)),
     pa_drop = permit_drop\<rparr>"

definition ad_owned_restart :: "ad_permit \<Rightarrow> 'st adaptive \<Rightarrow> ad_permit" where
  "ad_owned_restart p s = p\<lparr>pm_started := ad_clock s\<rparr>"

definition adaptive_api :: "'st strategy \<Rightarrow> ('st adaptive, ad_permit) permit_api" where
  "adaptive_api S = \<lparr>
     pa_restart = ad_owned_restart,
     pa_success = (\<lambda>p s. snd (ad_owned_success S s p)),
     pa_failure = (\<lambda>p s. snd (ad_owned_failure S s p)),
     pa_cancel = (\<lambda>p s. snd (ad_owned_cancel s p)),
     pa_drop = (\<lambda>p s. ad_owned_drop S s p)\<rparr>"

text \<open>\<open>HeldPermit\<close> and \<open>HeldSlot\<close>: an option that cancels what is left in it when dropped.\<close>

type_synonym 'p held_permit = "'p option"

definition held_drop :: "('b, 'p) permit_api \<Rightarrow> 'p held_permit \<Rightarrow> 'b \<Rightarrow> 'b" where
  "held_drop api h b = (case h of Some p \<Rightarrow> pa_cancel api p b | None \<Rightarrow> b)"

definition permit_ready ::
  "('b \<times> 'x, throttle_error + 'p) future \<Rightarrow> ('x, 'r, 'e, 'v) service \<Rightarrow> ('b \<times> 'x, 'p held_permit) admission \<Rightarrow> 'b \<times> 'x \<Rightarrow>
   (('e box_error + unit) poll \<times> ('b \<times> 'x, 'p held_permit) admission \<times> 'b \<times> 'x) option" where
  "permit_ready acquire inner adm w = ready_with (map_future (map_sum id Some) acquire) inner adm w"

text \<open>The response of a call: the inner future, then the permit settled by its result.\<close>

datatype ('x, 'e, 'v, 'p) response =
    Running "('x, 'e + 'v) pinned" 'p
  | Refused
  | Over

definition permit_call ::
  "('b, 'p) permit_api \<Rightarrow> ('x, 'r, 'e, 'v) service \<Rightarrow> 'r \<Rightarrow> ('b \<times> 'x, 'p held_permit) admission \<Rightarrow> 'b \<times> 'x \<Rightarrow>
   ('x, 'e, 'v, 'p) response \<times> ('b \<times> 'x, 'p held_permit) admission \<times> 'b \<times> 'x" where
  "permit_call api inner request adm w =
     (case adm_take adm of
        (None, adm) \<Rightarrow> (Refused, adm, w)
      | (Some held, adm) \<Rightarrow>
          (case held of
             None \<Rightarrow> (Refused, adm, held_drop api held (fst w), snd w)
           | Some p \<Rightarrow>
               (let p = pa_restart api p (fst w) in
                case sv_call inner request (snd w) of (f, x) \<Rightarrow> (Running (Some f) p, adm, fst w, x))))"

fun response_poll ::
  "('b, 'p) permit_api \<Rightarrow> ('x, 'e, 'v, 'p) response \<Rightarrow> 'b \<times> 'x \<Rightarrow>
   (('e box_error + 'v) poll \<times> ('x, 'e, 'v, 'p) response \<times> 'b \<times> 'x) option" where
  "response_poll api (Running f p) w =
     (case fut_poll f (snd w) of
        None \<Rightarrow> None
      | Some (Poll_Pending, f', x) \<Rightarrow> Some (Poll_Pending, Running f' p, fst w, x)
      | Some (Poll_Ready (Inr v), f', x) \<Rightarrow> Some (Poll_Ready (Inr v), Over, pa_success api p (fst w), x)
      | Some (Poll_Ready (Inl e), f', x) \<Rightarrow> Some (Poll_Ready (Inl (From_Service e)), Over, pa_failure api p (fst w), x))"
| "response_poll api Refused w = Some (Poll_Ready (Inl (From_Throttle NotReady)), Over, w)"
| "response_poll api Over w = None"

fun response_drop :: "('b, 'p) permit_api \<Rightarrow> ('x, 'e, 'v, 'p) response \<Rightarrow> 'b \<Rightarrow> 'b" where
  "response_drop api (Running f p) b = pa_drop api p b"
| "response_drop api _ b = b"

text \<open>Dropping the service: \<open>abandon\<close> is what dropping a pending acquire gives back.\<close>

definition admission_drop ::
  "('b, 'p) permit_api \<Rightarrow> (('b \<times> 'x, throttle_error + 'p held_permit) pinned \<Rightarrow> 'b \<Rightarrow> 'b) \<Rightarrow>
   ('b \<times> 'x, 'p held_permit) admission \<Rightarrow> 'b \<Rightarrow> 'b" where
  "admission_drop api abandon adm b =
     (case adm of
        Adm_Idle \<Rightarrow> b
      | Adm_Acquiring f \<Rightarrow> abandon f b
      | Adm_Held h \<Rightarrow> held_drop api h b)"

subsection \<open>The waiting acquire of the adaptive limiter\<close>

text \<open>A future from a step function on its states.\<close>

primcorec unfold_future :: "('s \<Rightarrow> 'w \<Rightarrow> ('s + 'a) \<times> 'w) \<Rightarrow> 's \<Rightarrow> ('w, 'a) future" where
  "fut_step (unfold_future step st) = map_prod (map_sum (unfold_future step) id) id \<circ> step st"

text \<open>A poll of \<open>wait_for_slot\<close>.  The state says whether the task awaits its listener; \<open>told\<close> reads
  whether that was notified.\<close>

definition slot_poll :: "('st adaptive \<times> 'x \<Rightarrow> bool) \<Rightarrow> bool \<Rightarrow> 'st adaptive \<times> 'x \<Rightarrow> (bool + unit) \<times> 'st adaptive \<times> 'x" where
  "slot_poll told listening w =
     (if listening \<and> \<not> told w then (Inl True, w)
      else
        (case try_reserve (fst w) 1 of
           (True, s) \<Rightarrow> (Inr (), s, snd w)
         | (False, s) \<Rightarrow>
             (case try_reserve s 1 of
                (True, s) \<Rightarrow> (Inr (), s, snd w)
              | (False, s) \<Rightarrow> (Inl True, s, snd w))))"

definition owned_poll ::
  "('st adaptive \<times> 'x \<Rightarrow> bool) \<Rightarrow> bool \<Rightarrow> 'st adaptive \<times> 'x \<Rightarrow> (bool + (throttle_error + ad_permit)) \<times> 'st adaptive \<times> 'x" where
  "owned_poll told listening w =
     (case slot_poll told listening w of
        (Inl l, w) \<Rightarrow> (Inl l, w)
      | (Inr _, w) \<Rightarrow> (Inr (Inr (ad_owned_new (fst w))), w))"

definition acquire_owned :: "('st adaptive \<times> 'x \<Rightarrow> bool) \<Rightarrow> ('st adaptive \<times> 'x, throttle_error + ad_permit) future" where
  "acquire_owned told = unfold_future (owned_poll told) False"

text \<open>With a timeout the wait is raced against a sleep; the wait is polled first.\<close>

definition owned_timeout_poll ::
  "('st adaptive \<times> 'x \<Rightarrow> bool) \<Rightarrow> duration \<Rightarrow> bool \<times> ('x, unit) future \<Rightarrow> 'st adaptive \<times> 'x \<Rightarrow>
   ((bool \<times> ('x, unit) future) + (throttle_error + ad_permit)) \<times> 'st adaptive \<times> 'x" where
  "owned_timeout_poll told d st w =
     (case slot_poll told (fst st) w of
        (Inr _, w) \<Rightarrow> (Inr (Inr (ad_owned_new (fst w))), w)
      | (Inl l, w) \<Rightarrow>
          (case fut_step (snd st) (snd w) of
             (Inr _, x) \<Rightarrow> (Inr (Inl (elapsed_into \<lparr>el_after = d\<rparr>)), fst w, x)
           | (Inl sleep, x) \<Rightarrow> (Inl (l, sleep), fst w, x)))"

definition acquire_owned_timeout ::
  "('st adaptive \<times> 'x \<Rightarrow> bool) \<Rightarrow> duration \<Rightarrow> ('x, unit) future \<Rightarrow> ('st adaptive \<times> 'x, throttle_error + ad_permit) future" where
  "acquire_owned_timeout told d sleep = unfold_future (owned_timeout_poll told d) (False, sleep)"

text \<open>The borrowed acquires run the same wait; their permits differ only in how they reach the limiter.\<close>

definition ad_acquire :: "('st adaptive \<times> 'x \<Rightarrow> bool) \<Rightarrow> ('st adaptive \<times> 'x, ad_permit) future" where
  "ad_acquire told =
     unfold_future (\<lambda>listening w. case slot_poll told listening w of
                      (Inl l, w) \<Rightarrow> (Inl l, w)
                    | (Inr _, w) \<Rightarrow> (Inr (ad_permit_new (fst w)), w)) False"

definition ad_acquire_timeout ::
  "('st adaptive \<times> 'x \<Rightarrow> bool) \<Rightarrow> duration \<Rightarrow> ('x, unit) future \<Rightarrow> ('st adaptive \<times> 'x, throttle_error + ad_permit) future" where
  "ad_acquire_timeout told d sleep =
     unfold_future (\<lambda>st w. case slot_poll told (fst st) w of
                      (Inr _, w) \<Rightarrow> (Inr (Inr (ad_permit_new (fst w))), w)
                    | (Inl l, w) \<Rightarrow>
                        (case fut_step (snd st) (snd w) of
                           (Inr _, x) \<Rightarrow> (Inr (Inl (elapsed_into \<lparr>el_after = d\<rparr>)), fst w, x)
                         | (Inl sleep, x) \<Rightarrow> (Inl (l, sleep), fst w, x))) (False, sleep)"

definition adaptive_acquire ::
  "('st adaptive \<times> 'x \<Rightarrow> bool) \<Rightarrow> (duration \<Rightarrow> ('x, unit) future) \<Rightarrow> duration option \<Rightarrow>
   ('st adaptive \<times> 'x, throttle_error + ad_permit) future" where
  "adaptive_acquire told sleep timeout =
     (case timeout of None \<Rightarrow> acquire_owned told | Some t \<Rightarrow> acquire_owned_timeout told t (sleep t))"

end
