(* ===== verification/Tower_Safety.thy ===== *)
theory Tower_Safety
  imports Tower
begin

text \<open>
  Runs of a Tower service and its clones: any order of \<open>poll_ready\<close>, \<open>call\<close>, polls and drops of
  responses, and drops of services.  The locale \<open>permit_source\<close> states what the permits promise;
  every permit a service takes is then settled exactly once.  The adaptive limiter keeps that
  contract.
\<close>

record ('b, 'x, 'e, 'v, 'p) tower =
  tw_services :: "('b \<times> 'x, 'p held_permit) admission list"
  tw_responses :: "('x, 'e, 'v, 'p) response list"
  tw_world :: "'b \<times> 'x"

datatype ('x, 'r) tower_event =
    Ev_Clone
  | Ev_Ready nat
  | Ev_Call nat 'r
  | Ev_Poll nat
  | Ev_Drop_Response nat
  | Ev_Drop_Service nat
  | Ev_Elsewhere 'x

text \<open>One event; \<open>None\<close> is a panic.  A finished response is not polled again, and events that name
  no service or response change nothing.\<close>

fun tower_exec ::
  "('b, 'p) permit_api \<Rightarrow> ('b \<times> 'x, throttle_error + 'p) future \<Rightarrow>
   (('b \<times> 'x, throttle_error + 'p held_permit) pinned \<Rightarrow> 'b \<Rightarrow> 'b) \<Rightarrow> ('x, 'r, 'e, 'v) service \<Rightarrow>
   ('x, 'r) tower_event \<Rightarrow> ('b, 'x, 'e, 'v, 'p) tower \<Rightarrow> ('b, 'x, 'e, 'v, 'p) tower option" where
  "tower_exec api acquire abandon inner Ev_Clone t = Some (t\<lparr>tw_services := tw_services t @ [Adm_Idle]\<rparr>)"
| "tower_exec api acquire abandon inner (Ev_Ready i) t =
     (if i < length (tw_services t)
      then (case permit_ready acquire inner (tw_services t ! i) (tw_world t) of
              None \<Rightarrow> None
            | Some (r, adm, w) \<Rightarrow> Some (t\<lparr>tw_services := (tw_services t)[i := adm], tw_world := w\<rparr>))
      else Some t)"
| "tower_exec api acquire abandon inner (Ev_Call i r) t =
     (if i < length (tw_services t)
      then (case permit_call api inner r (tw_services t ! i) (tw_world t) of (resp, adm, w) \<Rightarrow>
              Some (t\<lparr>tw_services := (tw_services t)[i := adm], tw_responses := tw_responses t @ [resp], tw_world := w\<rparr>))
      else Some t)"
| "tower_exec api acquire abandon inner (Ev_Poll k) t =
     (if k < length (tw_responses t) \<and> (case tw_responses t ! k of Over \<Rightarrow> False | _ \<Rightarrow> True)
      then (case response_poll api (tw_responses t ! k) (tw_world t) of
              None \<Rightarrow> None
            | Some (r, resp, w) \<Rightarrow> Some (t\<lparr>tw_responses := (tw_responses t)[k := resp], tw_world := w\<rparr>))
      else Some t)"
| "tower_exec api acquire abandon inner (Ev_Drop_Response k) t =
     (if k < length (tw_responses t)
      then Some (t\<lparr>tw_responses := (tw_responses t)[k := Over],
             tw_world := (response_drop api (tw_responses t ! k) (fst (tw_world t)), snd (tw_world t))\<rparr>)
      else Some t)"
| "tower_exec api acquire abandon inner (Ev_Drop_Service i) t =
     (if i < length (tw_services t)
      then Some (t\<lparr>tw_services := (tw_services t)[i := Adm_Idle],
             tw_world := (admission_drop api abandon (tw_services t ! i) (fst (tw_world t)), snd (tw_world t))\<rparr>)
      else Some t)"
| "tower_exec api acquire abandon inner (Ev_Elsewhere x) t = Some (t\<lparr>tw_world := (fst (tw_world t), x)\<rparr>)"

fun tower_run where
  "tower_run api acquire abandon inner [] t = Some t"
| "tower_run api acquire abandon inner (ev # evs) t =
     (case tower_exec api acquire abandon inner ev t of
        None \<Rightarrow> None
      | Some t' \<Rightarrow> tower_run api acquire abandon inner evs t')"

definition tower_new :: "'b \<times> 'x \<Rightarrow> ('b, 'x, 'e, 'v, 'p) tower" where
  "tower_new w = \<lparr>tw_services = [Adm_Idle], tw_responses = [], tw_world = w\<rparr>"

text \<open>The permits a run has out: held by a service that is ready, or by a call in flight.\<close>

fun held_of :: "('w, 'h) admission \<Rightarrow> nat" where
  "held_of (Adm_Held h) = 1"
| "held_of _ = 0"

fun running_of :: "('x, 'e, 'v, 'p) response \<Rightarrow> nat" where
  "running_of (Running f p) = 1"
| "running_of _ = 0"

definition permits_out :: "('b, 'x, 'e, 'v, 'p) tower \<Rightarrow> nat" where
  "permits_out t = sum_list (map held_of (tw_services t)) + sum_list (map running_of (tw_responses t))"

lemma sum_update: "i < length xs \<Longrightarrow> sum_list (map f (xs[i := y])) + f (xs ! i) = sum_list (map f xs) + (f y :: nat)"
  by (induction xs arbitrary: i) (auto split: nat.splits)

lemma sum_elem: "i < length xs \<Longrightarrow> (f (xs ! i) :: nat) \<le> sum_list (map f xs)"
  by (rule member_le_sum_list) simp_all

lemma update_all: "i < length xs \<Longrightarrow> \<forall>a\<in>set xs. P a \<Longrightarrow> P y \<Longrightarrow> \<forall>a\<in>set (xs[i := y]). P a"
  using set_update_subset_insert [of xs i y] by auto

subsection \<open>What the permits promise\<close>

locale permit_source =
  fixes api :: "('b, 'p) permit_api"
    and acq :: "('b \<times> 'x, throttle_error + 'p) future \<Rightarrow> bool"
    and abandon :: "('b \<times> 'x, throttle_error + 'p held_permit) pinned \<Rightarrow> 'b \<Rightarrow> 'b"
    and live :: "'p \<Rightarrow> bool"
    and out :: "'b \<Rightarrow> nat"
    and ok :: "'b \<Rightarrow> bool"
  assumes acquire_pending:
      "ok b \<Longrightarrow> acq f \<Longrightarrow> fut_step f (b, x) = (Inl f', b', x') \<Longrightarrow> acq f' \<and> ok b' \<and> out b' = out b"
    and acquire_granted:
      "ok b \<Longrightarrow> acq f \<Longrightarrow> fut_step f (b, x) = (Inr (Inr p), b', x') \<Longrightarrow> live p \<and> ok b' \<and> out b' = out b + 1"
    and acquire_refused:
      "ok b \<Longrightarrow> acq f \<Longrightarrow> fut_step f (b, x) = (Inr (Inl e), b', x') \<Longrightarrow> ok b' \<and> out b' = out b"
    and abandon_free:
      "ok b \<Longrightarrow> acq f \<Longrightarrow> ok (abandon (Some (map_future (map_sum id Some) f)) b) \<and>
       out (abandon (Some (map_future (map_sum id Some) f)) b) = out b"
    and restart_live: "live p \<Longrightarrow> live (pa_restart api p b)"
    and success_settles: "ok b \<Longrightarrow> live p \<Longrightarrow> 0 < out b \<Longrightarrow> ok (pa_success api p b) \<and> out (pa_success api p b) + 1 = out b"
    and failure_settles: "ok b \<Longrightarrow> live p \<Longrightarrow> 0 < out b \<Longrightarrow> ok (pa_failure api p b) \<and> out (pa_failure api p b) + 1 = out b"
    and cancel_settles: "ok b \<Longrightarrow> live p \<Longrightarrow> 0 < out b \<Longrightarrow> ok (pa_cancel api p b) \<and> out (pa_cancel api p b) + 1 = out b"
    and drop_settles: "ok b \<Longrightarrow> live p \<Longrightarrow> 0 < out b \<Longrightarrow> ok (pa_drop api p b) \<and> out (pa_drop api p b) + 1 = out b"
begin

fun service_ok :: "('b \<times> 'x, 'p held_permit) admission \<Rightarrow> bool" where
  "service_ok Adm_Idle \<longleftrightarrow> True"
| "service_ok (Adm_Acquiring f) \<longleftrightarrow> (\<exists>g. acq g \<and> f = Some (map_future (map_sum id Some) g))"
| "service_ok (Adm_Held h) \<longleftrightarrow> (\<exists>p. h = Some p \<and> live p)"

fun response_ok :: "('x, 'e, 'v, 'p) response \<Rightarrow> bool" where
  "response_ok (Running f p) \<longleftrightarrow> f \<noteq> None \<and> live p"
| "response_ok _ \<longleftrightarrow> True"

definition tower_inv :: "('b, 'x, 'e, 'v, 'p) tower \<Rightarrow> bool" where
  "tower_inv t \<longleftrightarrow> ok (fst (tw_world t)) \<and> out (fst (tw_world t)) = permits_out t \<and>
     (\<forall>a\<in>set (tw_services t). service_ok a) \<and> (\<forall>r\<in>set (tw_responses t). response_ok r)"

lemma mapped_poll:
  "fut_poll (Some (map_future (map_sum id Some) g)) w =
     (case fut_step g w of
        (Inl g', w') \<Rightarrow> Some (Poll_Pending, Some (map_future (map_sum id Some) g'), w')
      | (Inr r, w') \<Rightarrow> Some (Poll_Ready (map_sum id Some r), None, w'))"
  by (cases "fut_step g w"; cases "fst (fut_step g w)") (auto simp: fut_poll_def future.map_sel)

lemma acquiring_poll:
  assumes "ok b" and "acq g"
  obtains r adm b' x' where "poll_acquire (Adm_Acquiring (Some (map_future (map_sum id Some) g))) start (b, x) = Some (r, adm, b', x')"
    and "service_ok adm" and "ok b'" and "out b' = out b + held_of adm"
proof -
  obtain y b' x' where y: "fut_step g (b, x) = (y, b', x')" by (metis surj_pair)
  show ?thesis
  proof (cases y)
    case (Inl g')
    then show ?thesis
      using y acquire_pending [OF assms, of x g' b' x']
      by (intro that [of Poll_Pending "Adm_Acquiring (Some (map_future (map_sum id Some) g'))" b' x'])
         (auto simp: mapped_poll)
  next
    case r: (Inr r)
    show ?thesis
    proof (cases r)
      case (Inl e)
      then show ?thesis
        using r y acquire_refused [OF assms, of x e b' x']
        by (intro that [of "Poll_Ready (Inl e)" Adm_Idle b' x']) (auto simp: mapped_poll)
    next
      case (Inr p)
      then show ?thesis
        using r y acquire_granted [OF assms, of x p b' x']
        by (intro that [of "Poll_Ready (Inr ())" "Adm_Held (Some p)" b' x']) (auto simp: mapped_poll)
    qed
  qed
qed

lemma poll_acquire_ok:
  assumes "ok b" and "acq acquire" and "service_ok adm"
  obtains r adm' b' x' where "poll_acquire adm (Some (map_future (map_sum id Some) acquire)) (b, x) = Some (r, adm', b', x')"
    and "service_ok adm'" and "ok b'" and "out b' + held_of adm = out b + held_of adm'"
proof (cases adm)
  case Adm_Idle
  obtain r adm' b' x' where
      "poll_acquire (Adm_Acquiring (Some (map_future (map_sum id Some) acquire))) None (b, x) = Some (r, adm', b', x')"
      "service_ok adm'" "ok b'" "out b' = out b + held_of adm'"
    by (rule acquiring_poll [OF assms(1,2)])
  then show ?thesis using that [of r adm' b' x'] by (simp add: Adm_Idle)
next
  case (Adm_Acquiring f)
  then obtain g where g: "acq g" "f = Some (map_future (map_sum id Some) g)" using assms(3) by auto
  obtain r adm' b' x' where
      "poll_acquire (Adm_Acquiring f) (Some (map_future (map_sum id Some) acquire)) (b, x) = Some (r, adm', b', x')"
      "service_ok adm'" "ok b'" "out b' = out b + held_of adm'"
    unfolding g(2) by (rule acquiring_poll [OF assms(1) g(1)])
  then show ?thesis using that [of r adm' b' x'] by (simp add: Adm_Acquiring)
next
  case (Adm_Held h)
  then show ?thesis using assms(1,3) by (intro that [of "Poll_Ready (Inr ())" adm b x]) auto
qed

lemma permit_ready_ok:
  assumes "ok (fst w)" and "acq acquire" and "service_ok adm"
  obtains r adm' w' where "permit_ready acquire inner adm w = Some (r, adm', w')"
    and "service_ok adm'" and "ok (fst w')" and "out (fst w') + held_of adm = out (fst w) + held_of adm'"
proof -
  obtain b x where w: "w = (b, x)" by (cases w)
  obtain r adm' b' x' where p: "poll_acquire adm (Some (map_future (map_sum id Some) acquire)) (b, x) = Some (r, adm', b', x')"
      "service_ok adm'" "ok b'" "out b' + held_of adm = out b + held_of adm'"
    by (rule poll_acquire_ok [OF _ assms(2,3), of b x]) (use assms(1) w in auto)
  obtain r2 x2 where s: "sv_poll_ready inner x' = (r2, x2)" by (cases "sv_poll_ready inner x'")
  have "permit_ready acquire inner adm w =
      (case r of Poll_Pending \<Rightarrow> Some (Poll_Pending, adm', b', x')
       | Poll_Ready (Inl e) \<Rightarrow> Some (Poll_Ready (Inl (From_Throttle e)), adm', b', x')
       | Poll_Ready (Inr _) \<Rightarrow> Some (box_ready r2, adm', b', x2))"
    unfolding permit_ready_def ready_with_def w using p(1) s by (simp split: poll.splits sum.splits)
  then obtain r3 x3 where e: "permit_ready acquire inner adm w = Some (r3, adm', b', x3)"
    by (simp split: poll.splits sum.splits)
  show ?thesis by (rule that [OF e]) (use p w in simp_all)
qed

lemma permit_call_ok:
  assumes "ok (fst w)" and "service_ok adm" and "permit_call api inner r adm w = (resp, adm', w')"
  shows "service_ok adm' \<and> response_ok resp \<and> ok (fst w') \<and> out (fst w') = out (fst w) \<and>
    held_of adm' + running_of resp = held_of adm"
proof (cases adm)
  case (Adm_Held h)
  then obtain p where p: "h = Some p" "live p" using assms(2) by auto
  obtain f x where f: "sv_call inner r (snd w) = (f, x)" by (cases "sv_call inner r (snd w)")
  show ?thesis using assms p f Adm_Held restart_live by (auto simp: permit_call_def Let_def)
qed (use assms in \<open>auto simp: permit_call_def\<close>)

lemma response_poll_ok:
  assumes "ok (fst w)" and "response_ok resp" and "resp \<noteq> Over" and "running_of resp \<le> out (fst w)"
  obtains r resp' w' where "response_poll api resp w = Some (r, resp', w')" and "response_ok resp'" and "ok (fst w')"
    and "out (fst w') + running_of resp = out (fst w) + running_of resp'"
proof (cases resp)
  case (Running f p)
  then obtain g where g: "f = Some g" and p: "live p" using assms(2) by auto
  have pos: "0 < out (fst w)" using assms(4) Running by simp
  consider g' x where "fut_poll f (snd w) = Some (Poll_Pending, Some g', x)"
    | v x where "fut_poll f (snd w) = Some (Poll_Ready (Inr v), None, x)"
    | e x where "fut_poll f (snd w) = Some (Poll_Ready (Inl e), None, x)"
    unfolding g by (rule result_poll_cases [of g "snd w"])
  then show ?thesis
  proof cases
    case (1 g' x)
    then show ?thesis
      using assms(1) p Running by (intro that [of Poll_Pending "Running (Some g') p" "(fst w, x)"]) auto
  next
    case (2 v x)
    then show ?thesis
      using success_settles [OF assms(1) p pos] Running
      by (intro that [of "Poll_Ready (Inr v)" Over "(pa_success api p (fst w), x)"]) auto
  next
    case (3 e x)
    then show ?thesis
      using failure_settles [OF assms(1) p pos] Running
      by (intro that [of "Poll_Ready (Inl (From_Service e))" Over "(pa_failure api p (fst w), x)"]) auto
  qed
next
  case Refused
  then show ?thesis
    using assms(1) by (intro that [of "Poll_Ready (Inl (From_Throttle NotReady))" Over w]) auto
qed (use assms(3) in simp)

lemma response_drop_ok:
  assumes "ok b" and "response_ok resp" and "running_of resp \<le> out b"
  shows "ok (response_drop api resp b) \<and> out (response_drop api resp b) + running_of resp = out b"
  using assms drop_settles by (cases resp) auto

lemma admission_drop_ok:
  assumes "ok b" and "service_ok adm" and "held_of adm \<le> out b"
  shows "ok (admission_drop api abandon adm b) \<and> out (admission_drop api abandon adm b) + held_of adm = out b"
  using assms cancel_settles abandon_free by (cases adm) (auto simp: admission_drop_def held_drop_def)

text \<open>A service or a response changes together with the count of permits.\<close>

lemma replace_service:
  assumes "tower_inv t" and "i < length (tw_services t)" and "service_ok adm" and "ok (fst w)"
    and "out (fst w) + held_of (tw_services t ! i) = out (fst (tw_world t)) + held_of adm"
  shows "tower_inv (t\<lparr>tw_services := (tw_services t)[i := adm], tw_world := w\<rparr>)"
  using assms sum_update [OF assms(2), of held_of adm] update_all [OF assms(2), of service_ok adm]
  by (simp add: tower_inv_def permits_out_def)

lemma replace_response:
  assumes "tower_inv t" and "k < length (tw_responses t)" and "response_ok resp" and "ok (fst w)"
    and "out (fst w) + running_of (tw_responses t ! k) = out (fst (tw_world t)) + running_of resp"
  shows "tower_inv (t\<lparr>tw_responses := (tw_responses t)[k := resp], tw_world := w\<rparr>)"
  using assms sum_update [OF assms(2), of running_of resp] update_all [OF assms(2), of response_ok resp]
  by (simp add: tower_inv_def permits_out_def)

lemma add_response:
  assumes "tower_inv t" and "response_ok resp" and "running_of resp = 0"
  shows "tower_inv (t\<lparr>tw_responses := tw_responses t @ [resp]\<rparr>)"
  using assms by (simp add: tower_inv_def permits_out_def)

lemma tower_inv_parts:
  assumes "tower_inv t"
  shows "ok (fst (tw_world t))"
    and "i < length (tw_services t) \<Longrightarrow> service_ok (tw_services t ! i) \<and> held_of (tw_services t ! i) \<le> out (fst (tw_world t))"
    and "k < length (tw_responses t) \<Longrightarrow> response_ok (tw_responses t ! k) \<and> running_of (tw_responses t ! k) \<le> out (fst (tw_world t))"
  using assms sum_elem [of i "tw_services t" held_of] sum_elem [of k "tw_responses t" running_of]
  by (auto simp: tower_inv_def permits_out_def)

lemma tower_call_inv:
  assumes "tower_inv t" and i: "i < length (tw_services t)"
    and c: "permit_call api inner r (tw_services t ! i) (tw_world t) = (resp, adm, w)"
  shows "tower_inv (t\<lparr>tw_services := (tw_services t)[i := adm], tw_responses := tw_responses t @ [resp], tw_world := w\<rparr>)"
proof -
  note p = tower_inv_parts [OF assms(1)]
  note ok = permit_call_ok [OF p(1) conjunct1 [OF p(2) [OF i]] c]
  then show ?thesis
    using assms(1) sum_update [OF i, of held_of adm] update_all [OF i, of service_ok adm]
    by (simp add: tower_inv_def permits_out_def)
qed

lemma tower_exec_inv:
  assumes "tower_inv t" and "acq acquire"
  obtains t' where "tower_exec api acquire abandon inner ev t = Some t'" and "tower_inv t'"
proof (cases ev)
  case Ev_Clone
  then show ?thesis
    using assms(1) by (intro that [of "t\<lparr>tw_services := tw_services t @ [Adm_Idle]\<rparr>"]) (auto simp: tower_inv_def permits_out_def)
next
  case (Ev_Ready i)
  show ?thesis
  proof (cases "i < length (tw_services t)")
    case True
    note p = tower_inv_parts [OF assms(1)]
    obtain r adm w where w: "permit_ready acquire inner (tw_services t ! i) (tw_world t) = Some (r, adm, w)"
        "service_ok adm" "ok (fst w)" "out (fst w) + held_of (tw_services t ! i) = out (fst (tw_world t)) + held_of adm"
      by (rule permit_ready_ok [OF p(1) assms(2) conjunct1 [OF p(2) [OF True]]])
    show ?thesis by (rule that [OF _ replace_service [OF assms(1) True w(2-4)]]) (simp add: Ev_Ready True w(1))
  qed (use Ev_Ready assms(1) that in simp)
next
  case (Ev_Call i r)
  show ?thesis
  proof (cases "i < length (tw_services t)")
    case True
    obtain resp adm w where c: "permit_call api inner r (tw_services t ! i) (tw_world t) = (resp, adm, w)"
      by (metis surj_pair)
    show ?thesis by (rule that [OF _ tower_call_inv [OF assms(1) True c]]) (simp add: Ev_Call True c)
  qed (use Ev_Call assms(1) that in simp)
next
  case (Ev_Poll k)
  show ?thesis
  proof (cases "k < length (tw_responses t) \<and> tw_responses t ! k \<noteq> Over")
    case True
    note p = tower_inv_parts [OF assms(1)]
    have k: "k < length (tw_responses t)" "tw_responses t ! k \<noteq> Over" using True by auto
    note ok = p(3) [OF k(1)]
    obtain r resp w where w: "response_poll api (tw_responses t ! k) (tw_world t) = Some (r, resp, w)"
        "response_ok resp" "ok (fst w)" "out (fst w) + running_of (tw_responses t ! k) = out (fst (tw_world t)) + running_of resp"
      by (rule response_poll_ok [OF p(1) conjunct1 [OF ok] k(2) conjunct2 [OF ok]])
    show ?thesis
      by (rule that [OF _ replace_response [OF assms(1) k(1) w(2-4)]])
         (use k in \<open>simp add: Ev_Poll w(1) split: response.splits\<close>)
  next
    case False
    then show ?thesis using Ev_Poll assms(1) by (intro that [of t]) (auto split: response.splits)
  qed
next
  case (Ev_Drop_Response k)
  show ?thesis
  proof (cases "k < length (tw_responses t)")
    case True
    note p = tower_inv_parts(3) [OF assms(1) True]
    note d = response_drop_ok [OF tower_inv_parts(1) [OF assms(1)] conjunct1 [OF p] conjunct2 [OF p]]
    show ?thesis
      by (rule that [OF _ replace_response [OF assms(1) True, of Over
            "(response_drop api (tw_responses t ! k) (fst (tw_world t)), snd (tw_world t))"]])
         (use d in \<open>simp_all add: Ev_Drop_Response True\<close>)
  qed (use Ev_Drop_Response assms(1) that in simp)
next
  case (Ev_Drop_Service i)
  show ?thesis
  proof (cases "i < length (tw_services t)")
    case True
    note p = tower_inv_parts(2) [OF assms(1) True]
    note d = admission_drop_ok [OF tower_inv_parts(1) [OF assms(1)] conjunct1 [OF p] conjunct2 [OF p]]
    show ?thesis
      by (rule that [OF _ replace_service [OF assms(1) True, of Adm_Idle
            "(admission_drop api abandon (tw_services t ! i) (fst (tw_world t)), snd (tw_world t))"]])
         (use d in \<open>simp_all add: Ev_Drop_Service True\<close>)
  qed (use Ev_Drop_Service assms(1) that in simp)
next
  case (Ev_Elsewhere x)
  then show ?thesis
    using assms(1) by (intro that [of "t\<lparr>tw_world := (fst (tw_world t), x)\<rparr>"]) (auto simp: tower_inv_def permits_out_def)
qed

lemma tower_run_inv:
  assumes "tower_inv t" and "acq acquire"
  shows "\<exists>t'. tower_run api acquire abandon inner evs t = Some t' \<and> tower_inv t'"
  using assms(1)
proof (induction evs arbitrary: t)
  case (Cons ev evs)
  obtain t1 where "tower_exec api acquire abandon inner ev t = Some t1" "tower_inv t1"
    by (rule tower_exec_inv [OF Cons.prems assms(2)])
  then show ?case using Cons.IH [of t1] by simp
qed simp

lemma tower_permits:
  assumes "ok (fst w)" and "out (fst w) = 0" and "acq acquire"
  shows "\<exists>t. tower_run api acquire abandon inner evs (tower_new w) = Some t \<and> ok (fst (tw_world t)) \<and>
    out (fst (tw_world t)) = permits_out t"
proof -
  have "tower_inv (tower_new w)" using assms by (simp add: tower_inv_def tower_new_def permits_out_def)
  from tower_run_inv [OF this assms(3), of inner evs] show ?thesis by (auto simp: tower_inv_def)
qed

end

subsection \<open>The adaptive limiter keeps the contract\<close>

definition ad_ok :: "u32 \<Rightarrow> 'st adaptive \<Rightarrow> bool" where
  "ad_ok ce s \<longleftrightarrow> ad_good s \<and> ad_ceiling s = ce"

definition ad_acquires :: "('st adaptive \<times> 'x \<Rightarrow> bool) \<Rightarrow> ('st adaptive \<times> 'x, throttle_error + ad_permit) future \<Rightarrow> bool" where
  "ad_acquires told f \<longleftrightarrow> (\<exists>l. f = unfold_future (owned_poll told) l) \<or> (\<exists>d st. f = unfold_future (owned_timeout_poll told d) st)"

lemma ad_acquires_futures:
  "ad_acquires told (unfold_future (owned_poll told) l)" "ad_acquires told (unfold_future (owned_timeout_poll told d) st)"
  unfolding ad_acquires_def by blast+

lemma try_reserve_one:
  "ad_ok ce s \<Longrightarrow> try_reserve s 1 = (r, s') \<Longrightarrow> ad_ok ce s' \<and> ad_in_flight s' = ad_in_flight s + of_bool r"
  by (auto simp: ad_ok_def ad_good_def try_reserve_def Let_def split: if_splits)

lemma slot_poll_counts:
  assumes "ad_ok ce s" and "slot_poll told l (s, x) = (r, s', x')"
  shows "ad_ok ce s' \<and> ad_in_flight s' = ad_in_flight s + (case r of Inl _ \<Rightarrow> 0 | Inr _ \<Rightarrow> 1)"
  using assms try_reserve_one [OF assms(1)]
  by (fastforce simp: slot_poll_def split: if_splits prod.splits bool.splits dest: try_reserve_one)

lemma owned_step:
  assumes "ad_ok ce s" and "ad_acquires told f" and "fut_step f (s, x) = (y, s', x')"
  shows "ad_ok ce s' \<and>
    (case y of
       Inl f' \<Rightarrow> ad_acquires told f' \<and> ad_in_flight s' = ad_in_flight s
     | Inr (Inr p) \<Rightarrow> \<not> pm_settled p \<and> ad_in_flight s' = ad_in_flight s + 1
     | Inr (Inl e) \<Rightarrow> ad_in_flight s' = ad_in_flight s)"
proof -
  from assms(2) consider l where "f = unfold_future (owned_poll told) l"
    | d st where "f = unfold_future (owned_timeout_poll told d) st"
    by (auto simp: ad_acquires_def)
  then show ?thesis
  proof cases
    case (1 l)
    obtain r s1 x1 where r: "slot_poll told l (s, x) = (r, s1, x1)" by (metis surj_pair)
    from slot_poll_counts [OF assms(1) r] show ?thesis
      using assms(3) r 1 by (cases r) (auto simp: owned_poll_def ad_owned_new_def ad_acquires_futures)
  next
    case (2 d st)
    obtain r s1 x1 where r: "slot_poll told (fst st) (s, x) = (r, s1, x1)" by (metis surj_pair)
    obtain z x2 where z: "fut_step (snd st) x1 = (z, x2)" by (cases "fut_step (snd st) x1")
    from slot_poll_counts [OF assms(1) r] show ?thesis
      using assms(3) r z 2 by (cases r; cases z) (auto simp: owned_timeout_poll_def ad_owned_new_def ad_acquires_futures)
  qed
qed

lemma ad_settle_ok:
  "ad_ok ce s \<Longrightarrow> 0 < ad_in_flight s \<Longrightarrow> ad_ok ce (ad_settle S s out e) \<and> Suc (ad_in_flight (ad_settle S s out e)) = ad_in_flight s"
  by (simp add: ad_ok_def ad_settle_good ad_settle_frame)

interpretation adaptive_permits: permit_source "adaptive_api S" "ad_acquires told" "\<lambda>_ s. s" "\<lambda>p. \<not> pm_settled p"
  ad_in_flight "ad_ok ce"
proof (unfold_locales, goal_cases)
  case (1 b f x f' b' x')
  from owned_step [OF this] show ?case by simp
next
  case (2 b f x p b' x')
  from owned_step [OF this] show ?case by simp
next
  case (3 b f x e b' x')
  from owned_step [OF this] show ?case by simp
next
  case (8 b p)
  then show ?case
    by (simp add: adaptive_api_def ad_owned_cancel_def ad_ok_def ad_refund_good)
       (simp add: ad_refund_def sync_saturating_sub_def)
qed (simp_all add: adaptive_api_def ad_owned_restart_def ad_owned_success_def ad_owned_failure_def ad_owned_drop_def
      ad_settle_ok Let_def)

subsection \<open>Properties\<close>

text \<open>Every slot a Tower service takes comes back exactly once.  Whatever the order of readiness polls,
  calls, clones, response polls and drops, with or without a timeout, no poll panics, and the
  slots in flight are exactly the ones held by services that are ready plus those of calls in
  flight, within the ceiling.\<close>

theorem tower_slots_accounted:
  "\<exists>t. tower_run (adaptive_api S) (adaptive_acquire told sleep timeout) (\<lambda>_ s. s) inner evs
      (tower_new (ad_new st fl ce init clock, x)) = Some t \<and>
    ad_in_flight (fst (tw_world t)) = permits_out t \<and> permits_out t \<le> max ce (max fl 1)"
proof -
  let ?s = "ad_new st fl ce init clock"
  have "ad_ok (max ce (max fl 1)) ?s" "ad_in_flight ?s = 0"
    using ad_new_good [of st fl ce init clock] by (simp_all add: ad_ok_def ad_new_def Let_def)
  moreover have "ad_acquires told (adaptive_acquire told sleep timeout)"
    by (simp add: ad_acquires_futures adaptive_acquire_def acquire_owned_def acquire_owned_timeout_def split: option.splits)
  ultimately obtain t where t: "tower_run (adaptive_api S) (adaptive_acquire told sleep timeout) (\<lambda>_ s. s) inner evs
      (tower_new (?s, x)) = Some t" "ad_ok (max ce (max fl 1)) (fst (tw_world t))"
      "ad_in_flight (fst (tw_world t)) = permits_out t"
    using adaptive_permits.tower_permits [of "max ce (max fl 1)" "(?s, x)" told "adaptive_acquire told sleep timeout" S inner evs]
    by auto
  then show ?thesis by (auto simp: ad_ok_def ad_good_def)
qed

text \<open>A call without readiness reaches neither the service nor the limiter, and a throttled call that is
  ready spends its units: they are not refunded.\<close>

lemma call_needs_readiness:
  assumes "\<And>h. td_admission t \<noteq> Adm_Held h"
  shows "throttled_call inner r t w = (Not_Ready, t, w)"
  using assms by (cases "td_admission t") (auto simp: throttled_call_def)

lemma throttled_call_spends:
  assumes "td_admission t = Adm_Held u" and "throttled_call inner r t (b, x) = (reply, t', b', x')"
  shows "b' = b \<and> td_admission t' = Adm_Idle"
  using assms by (auto simp: throttled_call_def units_drop_def units_spend_def split: prod.splits)

end
