(* ===== verification/Tower_Layers.thy ===== *)
theory Tower_Layers
  imports Tower_Safety
begin

text \<open>
  The layers and services of \<open>src/tower.rs\<close> that hold permits: \<open>CircuitBreakerLayer\<close> with \<open>Guarded\<close>,
  \<open>AdaptiveLayer\<close> with \<open>Adaptive\<close>.  The breaker or limiter itself is the shared part of the world.
  A stack of services made from one layer runs exactly as the admissions of \<open>Tower_Safety\<close> do.
\<close>

subsection \<open>The breaker layer\<close>

record circuit_breaker_layer =
  cbl_timeout :: "duration option"

definition cbl_new :: circuit_breaker_layer where
  "cbl_new = \<lparr>cbl_timeout = None\<rparr>"

definition cbl_with_timeout :: "circuit_breaker_layer \<Rightarrow> duration \<Rightarrow> circuit_breaker_layer" where
  "cbl_with_timeout ly t = ly\<lparr>cbl_timeout := Some t\<rparr>"

definition cbl_clone :: "circuit_breaker_layer \<Rightarrow> circuit_breaker_layer" where
  "cbl_clone ly = \<lparr>cbl_timeout = cbl_timeout ly\<rparr>"

record ('i, 'x) guarded =
  gd_timeout :: "duration option"
  gd_admission :: "('i breaker \<times> 'x, permit held_permit) admission"

definition cbl_layer :: "circuit_breaker_layer \<Rightarrow> ('i, 'x) guarded" where
  "cbl_layer ly = \<lparr>gd_timeout = cbl_timeout ly, gd_admission = Adm_Idle\<rparr>"

definition guarded_clone :: "('i, 'x) guarded \<Rightarrow> ('i, 'x) guarded" where
  "guarded_clone g = \<lparr>gd_timeout = gd_timeout g, gd_admission = Adm_Idle\<rparr>"

text \<open>\<open>acquire\<close> and \<open>acquire_timeout\<close> are the futures of the breaker's two owned acquires.\<close>

definition guarded_ready ::
  "('i breaker \<times> 'x, throttle_error + permit) future \<Rightarrow> (duration \<Rightarrow> ('i breaker \<times> 'x, throttle_error + permit) future) \<Rightarrow>
   ('x, 'r, 'e, 'v) service \<Rightarrow> ('i, 'x) guarded \<Rightarrow> 'i breaker \<times> 'x \<Rightarrow>
   (('e box_error + unit) poll \<times> ('i, 'x) guarded \<times> 'i breaker \<times> 'x) option" where
  "guarded_ready acquire acquire_timeout inner g w =
     (let start = (case gd_timeout g of None \<Rightarrow> acquire | Some t \<Rightarrow> acquire_timeout t) in
      case permit_ready start inner (gd_admission g) w of
        None \<Rightarrow> None
      | Some (r, adm, w) \<Rightarrow> Some (r, g\<lparr>gd_admission := adm\<rparr>, w))"

definition guarded_call ::
  "'i limiter \<Rightarrow> ('x, 'r, 'e, 'v) service \<Rightarrow> 'r \<Rightarrow> ('i, 'x) guarded \<Rightarrow> 'i breaker \<times> 'x \<Rightarrow>
   ('x, 'e, 'v, permit) response \<times> ('i, 'x) guarded \<times> 'i breaker \<times> 'x" where
  "guarded_call L inner request g w =
     (case permit_call (breaker_api L) inner request (gd_admission g) w of
        (resp, adm, w) \<Rightarrow> (resp, g\<lparr>gd_admission := adm\<rparr>, w))"

definition guarded_drop ::
  "'i limiter \<Rightarrow> (('i breaker \<times> 'x, throttle_error + permit held_permit) pinned \<Rightarrow> 'i breaker \<Rightarrow> 'i breaker) \<Rightarrow>
   ('i, 'x) guarded \<Rightarrow> 'i breaker \<Rightarrow> 'i breaker" where
  "guarded_drop L abandon g b = admission_drop (breaker_api L) abandon (gd_admission g) b"

subsection \<open>The adaptive layer\<close>

record adaptive_layer =
  al_timeout :: "duration option"

definition al_new :: adaptive_layer where
  "al_new = \<lparr>al_timeout = None\<rparr>"

definition al_with_timeout :: "adaptive_layer \<Rightarrow> duration \<Rightarrow> adaptive_layer" where
  "al_with_timeout ly t = ly\<lparr>al_timeout := Some t\<rparr>"

definition al_clone :: "adaptive_layer \<Rightarrow> adaptive_layer" where
  "al_clone ly = \<lparr>al_timeout = al_timeout ly\<rparr>"

record ('st, 'x) adaptive_service =
  as_timeout :: "duration option"
  as_admission :: "('st adaptive \<times> 'x, ad_owned_permit held_permit) admission"

definition al_layer :: "adaptive_layer \<Rightarrow> ('st, 'x) adaptive_service" where
  "al_layer ly = \<lparr>as_timeout = al_timeout ly, as_admission = Adm_Idle\<rparr>"

definition as_clone :: "('st, 'x) adaptive_service \<Rightarrow> ('st, 'x) adaptive_service" where
  "as_clone a = \<lparr>as_timeout = as_timeout a, as_admission = Adm_Idle\<rparr>"

definition as_ready ::
  "('st adaptive \<times> 'x \<Rightarrow> bool) \<Rightarrow> (duration \<Rightarrow> ('x, unit) future) \<Rightarrow> ('x, 'r, 'e, 'v) service \<Rightarrow>
   ('st, 'x) adaptive_service \<Rightarrow> 'st adaptive \<times> 'x \<Rightarrow>
   (('e box_error + unit) poll \<times> ('st, 'x) adaptive_service \<times> 'st adaptive \<times> 'x) option" where
  "as_ready told sleep inner a w =
     (case permit_ready (adaptive_acquire told sleep (as_timeout a)) inner (as_admission a) w of
        None \<Rightarrow> None
      | Some (r, adm, w) \<Rightarrow> Some (r, a\<lparr>as_admission := adm\<rparr>, w))"

definition as_call ::
  "'st strategy \<Rightarrow> ('x, 'r, 'e, 'v) service \<Rightarrow> 'r \<Rightarrow> ('st, 'x) adaptive_service \<Rightarrow> 'st adaptive \<times> 'x \<Rightarrow>
   ('x, 'e, 'v, ad_owned_permit) response \<times> ('st, 'x) adaptive_service \<times> 'st adaptive \<times> 'x" where
  "as_call S inner request a w =
     (case permit_call (adaptive_api S) inner request (as_admission a) w of
        (resp, adm, w) \<Rightarrow> (resp, a\<lparr>as_admission := adm\<rparr>, w))"

text \<open>A pending acquire holds no slot, so dropping the service drops what it holds and no more.\<close>

definition as_drop :: "'st strategy \<Rightarrow> ('st, 'x) adaptive_service \<Rightarrow> 'st adaptive \<Rightarrow> 'st adaptive" where
  "as_drop S a s = admission_drop (adaptive_api S) (\<lambda>_ s. s) (as_admission a) s"

subsection \<open>A stack of services from one layer\<close>

text \<open>A service in a stack is cloned from any other; a dropped one leaves its place empty.\<close>

record ('st, 'x, 'e, 'v) adaptive_stack =
  ak_services :: "('st, 'x) adaptive_service list"
  ak_responses :: "('x, 'e, 'v, ad_owned_permit) response list"
  ak_world :: "'st adaptive \<times> 'x"

datatype ('x, 'r) stack_event =
    Make
  | Clone nat
  | Ready nat
  | Call nat 'r
  | Poll nat
  | Drop_Response nat
  | Drop_Service nat
  | Elsewhere 'x

fun stack_exec ::
  "adaptive_layer \<Rightarrow> 'st strategy \<Rightarrow> ('st adaptive \<times> 'x \<Rightarrow> bool) \<Rightarrow> (duration \<Rightarrow> ('x, unit) future) \<Rightarrow>
   ('x, 'r, 'e, 'v) service \<Rightarrow> ('x, 'r) stack_event \<Rightarrow> ('st, 'x, 'e, 'v) adaptive_stack \<Rightarrow>
   ('st, 'x, 'e, 'v) adaptive_stack option" where
  "stack_exec ly S told sleep inner Make k = Some (k\<lparr>ak_services := ak_services k @ [al_layer (al_clone ly)]\<rparr>)"
| "stack_exec ly S told sleep inner (Clone i) k =
     (if i < length (ak_services k)
      then Some (k\<lparr>ak_services := ak_services k @ [as_clone (ak_services k ! i)]\<rparr>)
      else Some k)"
| "stack_exec ly S told sleep inner (Ready i) k =
     (if i < length (ak_services k)
      then (case as_ready told sleep inner (ak_services k ! i) (ak_world k) of
              None \<Rightarrow> None
            | Some (r, a, w) \<Rightarrow> Some (k\<lparr>ak_services := (ak_services k)[i := a], ak_world := w\<rparr>))
      else Some k)"
| "stack_exec ly S told sleep inner (Call i r) k =
     (if i < length (ak_services k)
      then (case as_call S inner r (ak_services k ! i) (ak_world k) of (resp, a, w) \<Rightarrow>
              Some (k\<lparr>ak_services := (ak_services k)[i := a], ak_responses := ak_responses k @ [resp], ak_world := w\<rparr>))
      else Some k)"
| "stack_exec ly S told sleep inner (Poll j) k =
     (if j < length (ak_responses k) \<and> (case ak_responses k ! j of Over \<Rightarrow> False | _ \<Rightarrow> True)
      then (case response_poll (adaptive_api S) (ak_responses k ! j) (ak_world k) of
              None \<Rightarrow> None
            | Some (r, resp, w) \<Rightarrow> Some (k\<lparr>ak_responses := (ak_responses k)[j := resp], ak_world := w\<rparr>))
      else Some k)"
| "stack_exec ly S told sleep inner (Drop_Response j) k =
     (if j < length (ak_responses k)
      then Some (k\<lparr>ak_responses := (ak_responses k)[j := Over],
             ak_world := (response_drop (adaptive_api S) (ak_responses k ! j) (fst (ak_world k)), snd (ak_world k))\<rparr>)
      else Some k)"
| "stack_exec ly S told sleep inner (Drop_Service i) k =
     (if i < length (ak_services k)
      then Some (k\<lparr>ak_services := (ak_services k)[i := as_clone (ak_services k ! i)],
             ak_world := (as_drop S (ak_services k ! i) (fst (ak_world k)), snd (ak_world k))\<rparr>)
      else Some k)"
| "stack_exec ly S told sleep inner (Elsewhere x) k = Some (k\<lparr>ak_world := (fst (ak_world k), x)\<rparr>)"

fun stack_run where
  "stack_run ly S told sleep inner [] k = Some k"
| "stack_run ly S told sleep inner (ev # evs) k =
     (case stack_exec ly S told sleep inner ev k of
        None \<Rightarrow> None
      | Some k' \<Rightarrow> stack_run ly S told sleep inner evs k')"

definition stack_new :: "adaptive_layer \<Rightarrow> 'st adaptive \<times> 'x \<Rightarrow> ('st, 'x, 'e, 'v) adaptive_stack" where
  "stack_new ly w = \<lparr>ak_services = [al_layer ly], ak_responses = [], ak_world = w\<rparr>"

text \<open>The slots a stack has out.\<close>

definition slots_out :: "('st, 'x, 'e, 'v) adaptive_stack \<Rightarrow> nat" where
  "slots_out k = sum_list (map (held_of \<circ> as_admission) (ak_services k)) + sum_list (map running_of (ak_responses k))"

subsection \<open>A stack runs as its admissions do\<close>

definition stack_tower :: "('st, 'x, 'e, 'v) adaptive_stack \<Rightarrow> ('st adaptive, 'x, 'e, 'v, ad_owned_permit) tower" where
  "stack_tower k = \<lparr>tw_services = map as_admission (ak_services k), tw_responses = ak_responses k, tw_world = ak_world k\<rparr>"

definition one_timeout :: "duration option \<Rightarrow> ('st, 'x, 'e, 'v) adaptive_stack \<Rightarrow> bool" where
  "one_timeout timeout k \<longleftrightarrow> (\<forall>a\<in>set (ak_services k). as_timeout a = timeout)"

fun event_of :: "nat \<Rightarrow> ('x, 'r) stack_event \<Rightarrow> ('x, 'r) tower_event list" where
  "event_of n Make = [Ev_Clone]"
| "event_of n (Clone i) = (if i < n then [Ev_Clone] else [])"
| "event_of n (Ready i) = [Ev_Ready i]"
| "event_of n (Call i r) = [Ev_Call i r]"
| "event_of n (Poll j) = [Ev_Poll j]"
| "event_of n (Drop_Response j) = [Ev_Drop_Response j]"
| "event_of n (Drop_Service i) = [Ev_Drop_Service i]"
| "event_of n (Elsewhere x) = [Ev_Elsewhere x]"

lemma tower_run_append:
  "tower_run api acquire abandon inner (xs @ ys) t =
     (case tower_run api acquire abandon inner xs t of None \<Rightarrow> None | Some t' \<Rightarrow> tower_run api acquire abandon inner ys t')"
  by (induction xs arbitrary: t) (simp_all split: option.splits)

lemma stack_step:
  assumes "one_timeout (al_timeout ly) k"
  shows "map_option stack_tower (stack_exec ly S told sleep inner ev k) =
      tower_run (adaptive_api S) (adaptive_acquire told sleep (al_timeout ly)) (\<lambda>_ s. s) inner
        (event_of (length (ak_services k)) ev) (stack_tower k)"
    and "stack_exec ly S told sleep inner ev k = Some k' \<Longrightarrow> one_timeout (al_timeout ly) k'"
proof -
  have t: "i < length (ak_services k) \<Longrightarrow> as_timeout (ak_services k ! i) = al_timeout ly" for i
    using assms by (simp add: one_timeout_def)
  show "map_option stack_tower (stack_exec ly S told sleep inner ev k) =
      tower_run (adaptive_api S) (adaptive_acquire told sleep (al_timeout ly)) (\<lambda>_ s. s) inner
        (event_of (length (ak_services k)) ev) (stack_tower k)"
    by (cases ev)
       (auto simp: stack_tower_def al_layer_def as_clone_def as_ready_def as_call_def as_drop_def t map_update
         split: option.splits prod.splits response.splits)
  show "stack_exec ly S told sleep inner ev k = Some k' \<Longrightarrow> one_timeout (al_timeout ly) k'"
    using assms t
    by (cases ev)
       (auto simp: one_timeout_def al_layer_def al_clone_def as_clone_def as_ready_def as_call_def
         dest!: set_update_subset_insert [THEN subsetD] split: option.splits prod.splits if_splits response.splits)
qed

lemma stack_simulation:
  assumes "one_timeout (al_timeout ly) k"
  shows "\<exists>evs'. map_option stack_tower (stack_run ly S told sleep inner evs k) =
      tower_run (adaptive_api S) (adaptive_acquire told sleep (al_timeout ly)) (\<lambda>_ s. s) inner evs' (stack_tower k)"
  using assms
proof (induction evs arbitrary: k)
  case Nil
  have "map_option stack_tower (stack_run ly S told sleep inner [] k) =
      tower_run (adaptive_api S) (adaptive_acquire told sleep (al_timeout ly)) (\<lambda>_ s. s) inner [] (stack_tower k)" by simp
  then show ?case by blast
next
  case (Cons ev evs)
  note step = stack_step(1) [OF Cons.prems, of S told sleep inner ev]
  show ?case
  proof (cases "stack_exec ly S told sleep inner ev k")
    case None
    with step show ?thesis by (intro exI [of _ "event_of (length (ak_services k)) ev"]) simp
  next
    case (Some k')
    from Cons.IH [OF stack_step(2) [OF Cons.prems Some]] obtain evs' where
      "map_option stack_tower (stack_run ly S told sleep inner evs k') =
        tower_run (adaptive_api S) (adaptive_acquire told sleep (al_timeout ly)) (\<lambda>_ s. s) inner evs' (stack_tower k')" by blast
    with step [symmetric] Some show ?thesis
      by (intro exI [of _ "event_of (length (ak_services k)) ev @ evs'"]) (simp add: tower_run_append)
  qed
qed

subsection \<open>Properties\<close>

text \<open>C40: Every slot a stack of adaptive Tower services takes comes back exactly once.  Whatever the order in
  which services made by one layer or cloned are asked for readiness, called and dropped, and
  their responses polled and dropped, with or without a timeout: no poll panics, and the slots in
  flight are exactly those held by services that are ready plus those of calls in flight, within
  the ceiling.\<close>

theorem stack_slots_accounted:
  "\<exists>k. stack_run ly S told sleep inner evs (stack_new ly (ad_new st fl ce init clock, x)) = Some k \<and>
    ad_in_flight (fst (ak_world k)) = slots_out k \<and> slots_out k \<le> max ce (max fl 1)"
proof -
  let ?k = "stack_new ly (ad_new st fl ce init clock, x)"
  have new: "one_timeout (al_timeout ly) ?k" "stack_tower ?k = tower_new (ad_new st fl ce init clock, x)"
    by (simp_all add: one_timeout_def stack_new_def al_layer_def stack_tower_def tower_new_def)
  obtain evs' where "map_option stack_tower (stack_run ly S told sleep inner evs ?k) =
      tower_run (adaptive_api S) (adaptive_acquire told sleep (al_timeout ly)) (\<lambda>_ s. s) inner evs'
        (tower_new (ad_new st fl ce init clock, x))"
    using stack_simulation [OF new(1)] unfolding new(2) by blast
  then obtain k where k: "stack_run ly S told sleep inner evs ?k = Some k"
      "ad_in_flight (fst (tw_world (stack_tower k))) = permits_out (stack_tower k)"
      "permits_out (stack_tower k) \<le> max ce (max fl 1)"
    using tower_slots_accounted [of S told sleep "al_timeout ly" inner evs' st fl ce init clock x] by (auto simp: map_option_eq_Some)
  then show ?thesis by (auto simp: stack_tower_def permits_out_def slots_out_def)
qed

end
