(* ===== verification/Spec2Isabelle.thy ===== *)
theory Spec2Isabelle
  imports Provider Presets Layered_Keys Retry_Policy Resume Slot_Wait Window_Wait Breaker_Wait Queue_Wait Bulkhead_Wait Tower_Layers
begin

text \<open>
  \<^bold>\<open>throttle-net: a verification library\<close>

  The library under \<open>src/src\<close> throttles outbound calls.  A \<^emph>\<open>limiter\<close> answers whether a
  request of some cost may go now, in how long, or never; composites ask several limiters
  at once; an asynchronous acquire waits on any of them through one waiting engine;
  per-key limiters share one bounded store, a queue decides who of many waiters is next;
  around the limiters stand a circuit breaker, a bulkhead, an adaptive concurrency limit,
  retries with backoff, future combinators, and the parsers that turn a server's rate-limit
  headers into pauses and drained units.

  \<^bold>\<open>Theories, in the order of the dependencies\<close>

  \<^item> \<open>Net_Prelude\<close>: machine integers (\<open>u32\<close>, \<open>u64\<close>, \<open>Duration\<close> in nanoseconds as bounded
    naturals with the saturating operations of the sources), the collection
    \<open>machine_arith\<close>, and sums over lists of charges.
  \<^item> \<open>Decision\<close>, \<open>Hold\<close>: \<open>decision.rs\<close>, \<open>error.rs\<close>, \<open>hold.rs\<close>.
  \<^item> \<open>Wait_Engine\<close>: \<open>wait.rs\<close> and the nap of \<open>rt.rs\<close>.  The async runtime is the parameter
    \<open>runtime\<close>: each await also reports whether the future survived it.  The loops are
    \<open>partial_function (option)\<close>; that a timed wait returns is a theorem.  The locale
    \<open>waiting\<close> is the contract between a limiter's step and the engine, and \<open>engine_sim\<close> relates
    a run to the same run with its calls logged.
  \<^item> \<open>Limiter\<close>: the trait of \<open>limiter.rs\<close> as a record of methods on a world, its default
    methods, and the engines every composite uses.  \<open>Limiter_Laws\<close>: the locales
    \<open>composite\<close> (what the engines need of their constituents, and the bookkeeping they
    then guarantee) and \<open>limiter_obj\<close> (the contract of one limiter; limiters in shared
    slots form a composite).
  \<^item> \<open>Sliding_Window\<close> (\<open>sliding.rs\<close>), \<open>Adaptive\<close> (\<open>adaptive.rs\<close>, \<open>sync.rs\<close>) and
    \<open>Throttle\<close> (\<open>throttle.rs\<close>): the limiters.  The first two interpret \<open>limiter_obj\<close>;
    the throttle's token bucket belongs to the \<open>better-bucket\<close> crate and is a parameter
    about which nothing is assumed: what a wait takes and returns is read off a ledger of its
    calls on the bucket.  \<open>Window_Wait\<close>: the waiting acquires of the sliding window, on an exact runtime.
  \<^item> \<open>Hybrid\<close>, \<open>Multi\<close>, \<open>Layered\<close>: the composites of \<open>hybrid.rs\<close>, \<open>multi.rs\<close>,
    \<open>layered.rs\<close>, the waiting acquires included.
  \<^item> \<open>Circuit_Breaker\<close> (\<open>circuit.rs\<close>): all operations under the lock, the generation
    counter as a wrapping 64-bit word; it keeps the contract of the limiter it guards.
    \<open>Breaker_Wait\<close>: its waiting acquires and calls, other tasks at the breaker during every await.
  \<^item> \<open>Bulkhead\<close> (\<open>bulkhead.rs\<close>): the operations, and the compare-and-swap loops as an
    interleaving of single instructions of any number of threads.  \<open>Obs\<close> (\<open>obs.rs\<close>): instance names
    and every hook as the emissions it makes; \<open>Bulkhead_Wait\<close>: the waiting acquires and calls of the
    bulkhead with what they report.
  \<^item> \<open>Float64\<close>, \<open>Backoff\<close>, \<open>Retry_Policy\<close>: binary64 arithmetic with rounding, the curves,
    jitter modes and generator of \<open>backoff.rs\<close>, the loop and budget of \<open>retry.rs\<close>.
  \<^item> \<open>Store\<close>, \<open>Store_Laws\<close>, \<open>Shard_Laws\<close>, \<open>Store_Safety\<close>: the sharded per-key store with its CLOCK
    eviction and ledger of owed debts (\<open>store.rs\<close>, \<open>eviction.rs\<close>), one shard operation per step,
    threads interleaving; the hash function and the bucket are parameters.  \<open>Per_Key\<close>: the
    limiter of \<open>perkey.rs\<close> over it, each key of which keeps the limiter contract.  \<open>Layered_Keys\<close>:
    layered limiters whose keyed scopes are per-key limiters.
  \<^item> \<open>Queue\<close>, \<open>Queue_Laws\<close>, \<open>Queue_Service\<close>, \<open>Queue_Safety\<close>: the fair waiting queue of \<open>queue.rs\<close>: its
    indexes and their invariant, the turn as the result of a plain scan, service and overflow,
    and the runs of many waiting tasks.  \<open>Queue_Wait\<close>: one whole waiting acquire among them.
  \<^item> \<open>Rust_Text\<close>: strings as lists of code points with what the parsers use of the standard
    library, and decimal printing.  \<open>Calendar\<close> (\<open>timeutil.rs\<close>), \<open>Retry_After\<close> (\<open>retry_after.rs\<close>),
    \<open>Header_Profile\<close> and \<open>Header_Laws\<close> (the profiles and parsers of \<open>provider.rs\<close>), \<open>Provider\<close> (its
    reconciliation, over the locale \<open>reconcilable\<close>), \<open>Presets\<close> (\<open>presets.rs\<close>).
  \<^item> \<open>Resilience\<close>: \<open>resilience.rs\<close> and the combinators of \<open>rt.rs\<close> as poll functions over a codatatype
    of futures.  \<open>Resume\<close>: the resume epoch of \<open>rt.rs\<close> and the pause loop of \<open>wait.rs\<close> as an
    interleaving of any number of waiters and resumers.
  \<^item> \<open>Slot_Wait\<close>: the waiting loop shared by \<open>bulkhead.rs\<close> and \<open>adaptive.rs\<close>, with releases, moves of
    the limit and cancelled waits, as an interleaving.  \<open>Tower\<close>, \<open>Tower_Safety\<close>: the services of
    \<open>tower.rs\<close> and their runs, over the locale \<open>permit_source\<close> that the adaptive limiter interprets;
    \<open>Tower_Layers\<close>: the layers and services themselves, whose runs are runs of \<open>Tower_Safety\<close>.

  \<^bold>\<open>How state corresponds\<close>.  A struct is a record with the same fields (clock readings are
  fields, so time passes by updating them; metric labels are left out, except in the bulkhead).  A value behind
  one atomic or one mutex changes in one step per operation.  A world \<open>'i \<Rightarrow> 's\<close> of slots
  models shared \<open>Arc\<close>s: the same slot twice is one limiter twice.

  \<^bold>\<open>What the lemmas show\<close>.  The sliding window never grants more than its limit in any window
  and its waits are exact; every composite charges all constituents or none, also when it
  waits, times out or is dropped; a wait hands over what it holds or releases it exactly
  once, and resolves by its deadline when the runtime does not lag and finitely many resumes
  come; the breaker never leaks a probe slot (and counts trials exactly as long as no late
  report arrives), ignores late outcomes, trips exactly at its count and recovers exactly after the required probes; the
  bulkhead never over-admits under any interleaving; the adaptive limit stays in bounds;
  backoff delays stay under their ceiling and retries within their attempts and budgets.
  The store stays within its cap and never forgets a debt by evicting; the queue's turn is what
  a scan over all waiters gives, only its holder draws, a served key yields, the turn is
  passed on, and the queue stays within its capacity; printed \<open>Retry-After\<close> values and resets
  parse back, the day count is the Gregorian calendar's, and each provider's profile reads its
  headers field by field; reconciliation only takes units and pauses within its cap; \<open>hedge\<close> polls no finished
  future and returns the first success or the later error; no waiter for a slot is left behind
  while one is free, and a stack of Tower services returns every slot it takes exactly once.
  A wait on a sliding window is granted at the first possible instant; a wait or a call through
  the breaker leaves no probe slot and no unit behind unless it holds a permit, and never gets
  one from an open breaker; a queued request takes its cost or nothing, always leaves the queue
  and returns by its deadline; a call through the bulkhead runs in a slot of its own.

  Some theorems exhibit behaviour the documentation rules out: a late refund lets a sliding
  window over-admit (\<open>late_refund_over_admits\<close>), a negative backoff factor leaves the ceiling
  (\<open>negative_factor_leaves_ceiling\<close>), a turn can change with nobody woken
  (\<open>turn_change_wakes_nobody\<close>), a request due on arrival can evict another
  (\<open>due_request_evicts\<close>), a resume can be slept through (\<open>resume_can_be_slept_through\<close>), a pause
  of an adaptive limiter does not end (\<open>adaptive_pause_does_not_end\<close>), the timeouts of a bulkhead
  are not counted (\<open>bulkhead_timeouts_not_counted\<close>), and an RFC 850 year near the end of the \<open>i64\<close>
  range panics (\<open>huge_year_panics\<close>).

  \<^bold>\<open>Parameters\<close>.  The token bucket of the \<open>better-bucket\<close> crate, the hash table and hasher of the
  store, the async runtime with its timers, the wall clock and every clock reading.

  \<^bold>\<open>Bounds\<close>.  No fuel is used, except that the polls of a future are counted.  Runs of a breaker are
  bounded by \<open>2^64\<close> operations, the range of its generation counter, and so are the counters of
  the queue and the number of resumes; clocks by the 584 years of 64-bit nanoseconds where the
  source saturates there.

  \<^bold>\<open>Not modelled\<close>.  The calls of the hooks of \<open>obs.rs\<close> outside the bulkhead (no result depends on
  them), the names given to instances, Debug and Display output, \<open>lib.rs\<close> (re-exports only) and the
  timers of the two runtimes.  In \<open>Tower\<close> the wrapped service and the future of a breaker acquire are
  parameters.  Every operation reads its clock in the step that takes its lock; a reading taken
  before the lock and overtaken there is not modelled.
\<close>

section \<open>Properties across components\<close>

text \<open>C39: breakers compose.  A hybrid whose constituents are circuit breakers over sliding
  windows, in shared slots, is still all or nothing: a request that any breaker sheds or
  any window refuses leaves the units spent in every window as they were, and a granted
  one charges each window its cost once per occurrence.\<close>

theorem guarded_hybrid_all_or_nothing:
  assumes "\<forall>i. sw_good (cb_inner (w i))"
    and "hy_try_acquire_with_cost (hy_of (breaker_limiter sliding_limiter) slots) cost w = (granted, w')"
  shows "\<forall>i. sw_spent (cb_inner (w' i)) =
    sw_spent (cb_inner (w i)) + (if granted then cost * count_list slots i else 0)"
  using guarded.hybrid_acquire_books [OF assms] by blast

theorem guarded_hybrid_all_or_nothing_witness:
  "let b = cb_builder_build cb_builder_new (sw_new 5 10 0) 0;
       tripped_b = b\<lparr>cb_shared := (cb_shared b)\<lparr>state := Open, open_until_ms := 1000\<rparr>\<rparr>;
       (granted, w') = hy_try_acquire_with_cost (hy_of (breaker_limiter sliding_limiter) [0, 1]) 1
         (\<lambda>i :: nat. if i = 1 then tripped_b else b)
   in \<not> granted \<and> sw_spent (cb_inner (w' 0)) = 0 \<and> sw_spent (cb_inner (w' 1)) = 0"
proof -
  define b where "b = cb_builder_build cb_builder_new (sw_new 5 10 0) 0"
  define tb where "tb = b\<lparr>cb_shared := (cb_shared b)\<lparr>state := Open, open_until_ms := 1000\<rparr>\<rparr>"
  define w where "w = (\<lambda>i :: nat. if i = 1 then tb else b)"
  obtain g w' where r: "hy_try_acquire_with_cost (hy_of (breaker_limiter sliding_limiter) [0, 1]) 1 w = (g, w')"
    by fastforce
  have inner: "cb_inner (w i) = sw_new 5 10 0" for i
    by (simp add: w_def tb_def b_def cb_builder_build_def breaker_new_def)
  have "sw_good (sw_new 5 10 0)" and z: "sw_spent (sw_new 5 10 0) = 0"
    by (simp_all add: sw_good_def sw_spent_def sw_live_def sw_eval)
  then have ok: "\<forall>i. sw_good (cb_inner (w i))" by (simp add: inner)
  have "\<not> g"
    using r by (auto simp: composite_eval breaker_limiter_def cb_peek_def w_def tb_def b_def
        sliding_limiter_def sw_peek_def sw_eval breaker_eval)
  with guarded_hybrid_all_or_nothing [OF ok r] r z show ?thesis
    unfolding b_def [symmetric] tb_def [symmetric] w_def [symmetric] Let_def
    by (simp add: inner)
qed

end
